(* ===== verification/Prelude.thy ===== *)
theory Prelude
  imports Main "HOL-Library.Word"
begin

unbundle bit_operations_syntax

text \<open>
  Shared vocabulary of the development: the machine integers of the Rust source, the
  outcome of a Rust computation (a value, \<open>None\<close>, or a panic), byte slices with the
  panicking and the checked accessors of the standard library, big-endian conversions,
  ASCII case folding, and the lemma collections the component theories use.

  The release profile of the workspace sets \<open>overflow-checks = false\<close> and
  \<open>panic = "abort"\<close>: integer arithmetic wraps, out-of-range indexing aborts the server.
  Arithmetic on fixed-width integers is therefore word arithmetic here, and every direct
  index or range of the source is an accessor that can yield \<^term>\<open>Panic\<close>. Offsets and
  lengths of buffers (\<open>usize\<close>) are natural numbers: the buffers are DNS messages, whose
  lengths are far below the range of a \<open>usize\<close>.
\<close>

section \<open>Lemma collections\<close>

named_theorems res_simps
  \<open>simplification of outcomes: sequencing, lifted options, checked accessors\<close>
named_theorems safe_intros
  \<open>introduction rules that prove that a computation does not panic\<close>

section \<open>Machine integers\<close>

type_synonym u8 = "8 word"
type_synonym u16 = "16 word"
type_synonym u32 = "32 word"
type_synonym u64 = "64 word"
type_synonym u128 = "128 word"
type_synonym i64 = int
type_synonym bytes = "u8 list"

text \<open>\<open>saturating_sub\<close>, \<open>saturating_add\<close> and \<open>saturating_mul\<close> of the unsigned types.\<close>

definition sat_sub :: "'a::len word \<Rightarrow> 'a word \<Rightarrow> 'a word" where
  "sat_sub a b = (if a < b then 0 else a - b)"

definition sat_add :: "'a::len word \<Rightarrow> 'a word \<Rightarrow> 'a word" where
  "sat_add a b = (if unat a + unat b < 2 ^ LENGTH('a) then a + b else - 1)"

definition sat_mul :: "'a::len word \<Rightarrow> 'a word \<Rightarrow> 'a word" where
  "sat_mul a b = (if unat a * unat b < 2 ^ LENGTH('a) then a * b else - 1)"

lemma unat_sat_sub [simp]: "unat (sat_sub a b) = unat a - unat b"
  by (simp add: sat_sub_def unat_sub word_less_nat_alt word_le_nat_alt)

lemma unat_max_word: "unat (- 1 :: 'a::len word) = 2 ^ LENGTH('a) - 1"
  by (simp add: unsigned_minus_1_eq_mask mask_eq_exp_minus_1)

lemma unat_add_no_wrap: "unat a + unat b < 2 ^ LENGTH('a) \<Longrightarrow> unat (a + b) = unat a + unat b"
  for a b :: "'a::len word"
  by (simp add: unat_word_ariths)

lemma unat_mul_no_wrap: "unat a * unat b < 2 ^ LENGTH('a) \<Longrightarrow> unat (a * b) = unat a * unat b"
  for a b :: "'a::len word"
  by (simp add: unat_word_ariths)

lemma unat_sat_add: "unat (sat_add a b) = min (unat a + unat b) (2 ^ LENGTH('a) - 1)"
  for a b :: "'a::len word"
  by (auto simp: sat_add_def unat_add_no_wrap unat_max_word)

lemma unat_sat_mul: "unat (sat_mul a b) = min (unat a * unat b) (2 ^ LENGTH('a) - 1)"
  for a b :: "'a::len word"
  by (auto simp: sat_mul_def unat_mul_no_wrap unat_max_word)

lemma sat_sub_self [simp]: "sat_sub a a = 0"
  by (simp add: sat_sub_def)

lemma sat_sub_0_right [simp]: "sat_sub a 0 = a"
  by (simp add: sat_sub_def)

lemma unat_min_word: "unat (min a b) = min (unat a) (unat b)"
  by (simp add: min_def word_le_nat_alt)

lemma unat_max_of: "unat (max a b) = max (unat a) (unat b)"
  by (simp add: max_def word_le_nat_alt)

lemma unat_u8_lt [simp]: "unat (b :: u8) < 256"
  using unsigned_less [where ?'a = nat, of b] by simp

lemma unat_u8_le [simp]: "unat (b :: u8) \<le> 255"
  using unat_u8_lt [of b] by linarith

text \<open>A statement about a byte holds when it holds for the 256 bytes.\<close>

lemma u8_all:
  assumes "list_all (\<lambda>n. P (word_of_nat n)) [0..<256]"
  shows "P (b :: u8)"
proof -
  have "unat b \<in> set [0..<256]" by simp
  with assms have "P (word_of_nat (unat b))" unfolding list_all_iff by blast
  then show ?thesis by simp
qed

lemma unat_u16_lt [simp]: "unat (w :: u16) < 65536"
  using unsigned_less [where ?'a = nat, of w] by simp

lemma unat_u16_le [simp]: "unat (w :: u16) \<le> 65535"
  using unat_u16_lt [of w] by linarith

lemma unat_u32_lt [simp]: "unat (w :: u32) < 4294967296"
  using unsigned_less [where ?'a = nat, of w] by simp

lemma unat_u64_lt [simp]: "unat (w :: u64) < 18446744073709551616"
  using unsigned_less [where ?'a = nat, of w] by simp

lemma unat_ucast_up:
  "LENGTH('a) \<le> LENGTH('b) \<Longrightarrow> unat (ucast (w :: 'a::len word) :: 'b::len word) = unat w"
  by (metis unsigned_ucast_eq take_bit_nat_eq_self unsigned_less power_increasing less_le_trans
      one_le_numeral)

lemma unat_drop_bit: "unat (drop_bit n w) = unat w div 2 ^ n" for w :: "'a::len word"
  unfolding unsigned_drop_bit_eq by (simp add: drop_bit_eq_div take_bit_nat_eq_self)

text \<open>Masking with leading ones compares what is above the mask.\<close>

lemma and_prefix_eq_iff:
  fixes a b :: "'a::len word"
  shows "a AND push_bit k (- 1) = b AND push_bit k (- 1) \<longleftrightarrow> drop_bit k a = drop_bit k b"
proof
  assume *: "drop_bit k a = drop_bit k b"
  have "bit (a AND push_bit k (- 1)) n = bit (b AND push_bit k (- 1)) n" for n
    using arg_cong [OF *, of "\<lambda>w. bit w (n - k)"] by (auto simp: bit_simps)
  then show "a AND push_bit k (- 1) = b AND push_bit k (- 1)"
    by (intro bit_eqI) blast
next
  assume *: "a AND push_bit k (- 1) = b AND push_bit k (- 1)"
  have "bit (drop_bit k a) n = bit (drop_bit k b) n" for n
    using arg_cong [OF *, of "\<lambda>w. bit w (k + n)"] bit_imp_le_length [of a "k + n"]
      bit_imp_le_length [of b "k + n"]
    by (auto simp: bit_simps)
  then show "drop_bit k a = drop_bit k b"
    by (intro bit_eqI) blast
qed

section \<open>Outcomes of a Rust computation\<close>

text \<open>
  A function returning \<open>Option<T>\<close> yields \<^term>\<open>Got v\<close> for \<open>Some(v)\<close> and
  \<^term>\<open>Nothing\<close> for \<open>None\<close> (an early \<open>return None\<close> or a failed \<open>?\<close>);
  \<^term>\<open>Panic\<close> is an out-of-range index or slice, which aborts the process.
\<close>

datatype 'a res = Got 'a | Nothing | Panic

fun and_then :: "'a res \<Rightarrow> ('a \<Rightarrow> 'b res) \<Rightarrow> 'b res" where
  "and_then (Got x) f = f x"
| "and_then Nothing f = Nothing"
| "and_then Panic f = Panic"

text \<open>The \<open>?\<close> operator on an \<open>Option\<close>, and \<open>if !c { return None }\<close>.\<close>

definition try_opt :: "'a option \<Rightarrow> 'a res" where
  "try_opt v = (case v of None \<Rightarrow> Nothing | Some x \<Rightarrow> Got x)"

definition require :: "bool \<Rightarrow> unit res" where
  "require c = (if c then Got () else Nothing)"

definition safe :: "'a res \<Rightarrow> bool" where
  "safe m \<longleftrightarrow> m \<noteq> Panic"

lemma and_then_Got [res_simps]:
  "and_then m f = Got y \<longleftrightarrow> (\<exists>x. m = Got x \<and> f x = Got y)"
  by (cases m) auto

lemma and_then_Panic [res_simps]:
  "and_then m f = Panic \<longleftrightarrow> m = Panic \<or> (\<exists>x. m = Got x \<and> f x = Panic)"
  by (cases m) auto

lemma try_opt_Some [simp]: "try_opt (Some x) = Got x"
  by (simp add: try_opt_def)

lemma try_opt_None [simp]: "try_opt None = Nothing"
  by (simp add: try_opt_def)

lemma try_opt_Got [res_simps]: "try_opt v = Got x \<longleftrightarrow> v = Some x"
  by (cases v) auto

lemma try_opt_not_Panic [simp, safe_intros]: "safe (try_opt v)"
  by (cases v) (auto simp: safe_def)

lemma require_Got [res_simps]: "require c = Got u \<longleftrightarrow> c"
  by (simp add: require_def)

lemma require_simps [simp]: "require True = Got ()" "require False = Nothing"
  by (simp_all add: require_def)

lemma safe_require [simp, safe_intros]: "safe (require c)"
  by (simp add: safe_def require_def)

lemma safe_Got [simp, safe_intros]: "safe (Got x)"
  by (simp add: safe_def)

lemma safe_Nothing [simp, safe_intros]: "safe Nothing"
  by (simp add: safe_def)

lemma not_safe_Panic [simp]: "\<not> safe Panic"
  by (simp add: safe_def)

lemma safe_and_then [safe_intros]:
  "safe m \<Longrightarrow> (\<And>x. m = Got x \<Longrightarrow> safe (f x)) \<Longrightarrow> safe (and_then m f)"
  by (cases m) auto

lemma safe_if [safe_intros]:
  "(c \<Longrightarrow> safe a) \<Longrightarrow> (\<not> c \<Longrightarrow> safe b) \<Longrightarrow> safe (if c then a else b)"
  by simp

lemma safe_Let [safe_intros]: "safe (f x) \<Longrightarrow> safe (let y = x in f y)"
  by simp

lemma and_then_assoc: "and_then (and_then m f) g = and_then m (\<lambda>x. and_then (f x) g)"
  by (cases m) simp_all

lemma and_then_cong [fundef_cong]:
  "m = m' \<Longrightarrow> (\<And>x. m' = Got x \<Longrightarrow> f x = g x) \<Longrightarrow> and_then m f = and_then m' g"
  by (cases m') auto

lemma safe_cases:
  assumes "safe m"
  obtains (Got) x where "m = Got x" | (Nothing) "m = Nothing"
  using assms by (cases m) auto

text \<open>
  Weakest preconditions: \<^term>\<open>post m P\<close> says that \<open>m\<close> does not panic and that \<open>P\<close> holds of
  what it yields, if anything. The equations in \<open>wp\<close> push it through sequencing.
\<close>

definition post :: "'a res \<Rightarrow> ('a \<Rightarrow> bool) \<Rightarrow> bool" where
  "post m P = (case m of Got x \<Rightarrow> P x | Nothing \<Rightarrow> True | Panic \<Rightarrow> False)"

named_theorems wp \<open>weakest-precondition equations\<close>

lemma post_and_then [wp]: "post (and_then m f) P = post m (\<lambda>x. post (f x) P)"
  by (cases m) (simp_all add: post_def)

lemma post_Got [wp]: "post (Got x) P = P x" "post Nothing P" "\<not> post Panic P"
  by (simp_all add: post_def)

lemma post_try_opt [wp]: "post (try_opt v) P = (\<forall>x. v = Some x \<longrightarrow> P x)"
  by (cases v) (simp_all add: post_def)

lemma post_require [wp]: "post (require c) P = (c \<longrightarrow> P ())"
  by (simp add: require_def post_def)

lemma post_safe: "safe m \<longleftrightarrow> post m (\<lambda>_. True)"
  by (cases m) (simp_all add: post_def)

lemma post_mono: "post m P \<Longrightarrow> (\<And>x. m = Got x \<Longrightarrow> P x \<Longrightarrow> Q x) \<Longrightarrow> post m Q"
  by (cases m) (simp_all add: post_def)

lemma post_GotD: "post m P \<Longrightarrow> m = Got x \<Longrightarrow> P x"
  by (simp add: post_def)

lemma postI: "safe m \<Longrightarrow> (\<And>x. m = Got x \<Longrightarrow> P x) \<Longrightarrow> post m P"
  by (cases m) (simp_all add: post_def)

section \<open>Byte slices\<close>

text \<open>\<open>buf.get(i)\<close> and \<open>buf.get(a..b)\<close> check; \<open>buf[i]\<close> and \<open>buf[a..b]\<close> panic.\<close>

definition byte_get :: "'a list \<Rightarrow> nat \<Rightarrow> 'a option" where
  "byte_get buf i = (if i < length buf then Some (buf ! i) else None)"

definition slice_get :: "'a list \<Rightarrow> nat \<Rightarrow> nat \<Rightarrow> 'a list option" where
  "slice_get buf a b = (if a \<le> b \<and> b \<le> length buf then Some (take (b - a) (drop a buf)) else None)"

definition idx :: "'a list \<Rightarrow> nat \<Rightarrow> 'a res" where
  "idx buf i = (if i < length buf then Got (buf ! i) else Panic)"

definition slice_ix :: "'a list \<Rightarrow> nat \<Rightarrow> nat \<Rightarrow> 'a list res" where
  "slice_ix buf a b = (if a \<le> b \<and> b \<le> length buf then Got (take (b - a) (drop a buf)) else Panic)"

text \<open>\<open>buf[a..a + src.len()].copy_from_slice(src)\<close>; and the overwrite itself.\<close>

definition overwrite :: "'a list \<Rightarrow> nat \<Rightarrow> 'a list \<Rightarrow> 'a list" where
  "overwrite buf a src = take a buf @ src @ drop (a + length src) buf"

definition put :: "'a list \<Rightarrow> nat \<Rightarrow> 'a list \<Rightarrow> 'a list res" where
  "put buf a src = (if a + length src \<le> length buf then Got (overwrite buf a src) else Panic)"

lemma byte_get_Some [res_simps]: "byte_get buf i = Some b \<longleftrightarrow> i < length buf \<and> b = buf ! i"
  by (auto simp: byte_get_def)

lemma slice_get_Some [res_simps]:
  "slice_get buf a b = Some s \<longleftrightarrow> a \<le> b \<and> b \<le> length buf \<and> s = take (b - a) (drop a buf)"
  by (auto simp: slice_get_def)

lemma idx_Got [res_simps]: "idx buf i = Got b \<longleftrightarrow> i < length buf \<and> b = buf ! i"
  by (auto simp: idx_def)

lemma slice_ix_Got [res_simps]:
  "slice_ix buf a b = Got s \<longleftrightarrow> a \<le> b \<and> b \<le> length buf \<and> s = take (b - a) (drop a buf)"
  by (auto simp: slice_ix_def)

lemma put_Got [res_simps]:
  "put buf a src = Got r \<longleftrightarrow> a + length src \<le> length buf \<and> r = overwrite buf a src"
  by (auto simp: put_def)

lemma safe_idx [safe_intros]: "i < length buf \<Longrightarrow> safe (idx buf i)"
  by (simp add: idx_def)

lemma safe_slice_ix [safe_intros]: "a \<le> b \<Longrightarrow> b \<le> length buf \<Longrightarrow> safe (slice_ix buf a b)"
  by (simp add: slice_ix_def)

lemma safe_put [safe_intros]: "a + length src \<le> length buf \<Longrightarrow> safe (put buf a src)"
  by (simp add: put_def)

lemma post_idx [wp]: "post (idx buf i) P \<longleftrightarrow> i < length buf \<and> P (buf ! i)"
  by (simp add: idx_def post_def)

lemma post_slice_ix [wp]:
  "post (slice_ix buf a b) P \<longleftrightarrow> a \<le> b \<and> b \<le> length buf \<and> P (take (b - a) (drop a buf))"
  by (auto simp: slice_ix_def post_def)

lemma post_put [wp]: "post (put buf a src) P \<longleftrightarrow> a + length src \<le> length buf \<and> P (overwrite buf a src)"
  by (simp add: put_def post_def)

lemma length_overwrite [simp]:
  "a + length src \<le> length buf \<Longrightarrow> length (overwrite buf a src) = length buf"
  by (simp add: overwrite_def)

lemma take_overwrite [simp]: "n \<le> a \<Longrightarrow> take n (overwrite buf a src) = take n buf"
  if "a \<le> length buf"
  using that by (simp add: overwrite_def min_def)

lemma drop_overwrite [simp]:
  "a + length src \<le> n \<Longrightarrow> a \<le> length buf \<Longrightarrow> drop n (overwrite buf a src) = drop n buf"
  by (simp add: overwrite_def)

lemma nth_overwrite:
  assumes "a + length src \<le> length buf" "i < length buf"
  shows "overwrite buf a src ! i =
    (if a \<le> i \<and> i < a + length src then src ! (i - a) else buf ! i)"
  using assms by (auto simp: overwrite_def nth_append min_def)

lemma overwrite_chain:
  assumes "b = a + length xs" "b + length ys \<le> length buf"
  shows "overwrite (overwrite buf a xs) b ys = overwrite buf a (xs @ ys)"
  using assms by (simp add: overwrite_def ac_simps)

lemma put_put:
  "b = a + length xs \<Longrightarrow>
    and_then (put buf a xs) (\<lambda>buf1. and_then (put buf1 b ys) f) = and_then (put buf a (xs @ ys)) f"
  by (simp add: put_def overwrite_chain)

lemma overwrite_append:
  "a = length xs \<Longrightarrow> length src = length ys \<Longrightarrow> overwrite (xs @ ys @ zs) a src = xs @ src @ zs"
  by (simp add: overwrite_def)

section \<open>Big-endian integers\<close>

definition be16 :: "u8 \<Rightarrow> u8 \<Rightarrow> u16" where
  "be16 hi lo = ucast hi * 256 + ucast lo"

definition be16_bytes :: "u16 \<Rightarrow> bytes" where
  "be16_bytes w = [ucast (drop_bit 8 w), ucast w]"

definition be32 :: "u8 \<Rightarrow> u8 \<Rightarrow> u8 \<Rightarrow> u8 \<Rightarrow> u32" where
  "be32 a b c d = ucast (be16 a b) * 65536 + ucast (be16 c d)"

definition be32_bytes :: "u32 \<Rightarrow> bytes" where
  "be32_bytes w = be16_bytes (ucast (drop_bit 16 w)) @ be16_bytes (ucast w)"

text \<open>\<open>u16::from_be_bytes\<close> and \<open>u32::from_be_bytes\<close> of a slice of exactly that length.\<close>

definition be16_of :: "bytes \<Rightarrow> u16" where
  "be16_of s = (case s of [a, b] \<Rightarrow> be16 a b | _ \<Rightarrow> 0)"

definition be32_of :: "bytes \<Rightarrow> u32" where
  "be32_of s = (case s of [a, b, c, d] \<Rightarrow> be32 a b c d | _ \<Rightarrow> 0)"

lemma length_be16_bytes [simp]: "length (be16_bytes w) = 2"
  by (simp add: be16_bytes_def)

lemma length_be32_bytes [simp]: "length (be32_bytes w) = 4"
  by (simp add: be32_bytes_def)

lemma unat_be16: "unat (be16 a b) = unat a * 256 + unat b"
  using unat_u8_lt [of a] unat_u8_lt [of b]
  by (simp add: be16_def unat_word_ariths unat_ucast_up del: unat_u8_lt)

lemma be16_bytes_be16 [simp]: "be16 (ucast (drop_bit 8 w)) (ucast w) = w"
proof (rule word_unat_eq_iff [THEN iffD2])
  show "unat (be16 (ucast (drop_bit 8 w)) (ucast w)) = unat w"
    using unat_u16_lt [of w]
    by (simp add: unat_be16 unsigned_ucast_eq unat_drop_bit take_bit_eq_mod del: unat_u16_lt)
qed

lemma be16_of_bytes [simp]: "be16_of (be16_bytes w) = w"
  by (simp add: be16_of_def be16_bytes_def)

lemma be16_bytes_inverse [simp]: "be16_bytes (be16 a b) = [a, b]"
  using unat_u8_lt [of a] unat_u8_lt [of b]
  by (simp add: be16_bytes_def word_unat_eq_iff [where 'a = 8] unat_be16 unsigned_ucast_eq
      unat_drop_bit take_bit_eq_mod del: unat_u8_lt)

lemma unat_be32: "unat (be32 a b c d) = unat (be16 a b) * 65536 + unat (be16 c d)"
  using unat_u16_lt [of "be16 a b"] unat_u16_lt [of "be16 c d"]
  by (simp add: be32_def unat_word_ariths unat_ucast_up del: unat_u16_lt)

lemma unat_ucast16: "unat (ucast (w :: u32) :: u16) = unat w mod 65536"
  by (simp add: unsigned_ucast_eq take_bit_eq_mod)

lemma be32_of_bytes [simp]: "be32_of (be32_bytes w) = w"
proof (rule word_unat_eq_iff [THEN iffD2])
  show "unat (be32_of (be32_bytes w)) = unat w"
    using unat_u32_lt [of w]
    by (simp add: be32_of_def be32_bytes_def be16_bytes_def unat_be32 unat_ucast16 unat_drop_bit
        del: unat_u32_lt)
qed

lemma be32_bytes_inverse [simp]: "be32_bytes (be32 a b c d) = [a, b, c, d]"
proof -
  have "ucast (drop_bit 16 (be32 a b c d)) = be16 a b" "ucast (be32 a b c d) = be16 c d"
    using unat_u16_lt [of "be16 a b"] unat_u16_lt [of "be16 c d"]
    by (simp_all add: word_unat_eq_iff [where 'a = 16] unat_ucast16 unat_drop_bit unat_be32
        del: unat_u16_lt)
  then show ?thesis by (simp add: be32_bytes_def)
qed

lemma be16_bytes_inj [simp]: "be16_bytes v = be16_bytes w \<longleftrightarrow> v = w"
  by (metis be16_of_bytes)

lemma be32_bytes_inj [simp]: "be32_bytes v = be32_bytes w \<longleftrightarrow> v = w"
  by (metis be32_of_bytes)

section \<open>ASCII\<close>

definition is_ascii_uppercase :: "u8 \<Rightarrow> bool" where
  "is_ascii_uppercase b \<longleftrightarrow> 65 \<le> b \<and> b \<le> 90"

definition is_ascii_lowercase :: "u8 \<Rightarrow> bool" where
  "is_ascii_lowercase b \<longleftrightarrow> 97 \<le> b \<and> b \<le> 122"

definition is_ascii_digit :: "u8 \<Rightarrow> bool" where
  "is_ascii_digit b \<longleftrightarrow> 48 \<le> b \<and> b \<le> 57"

definition is_ascii_alphanumeric :: "u8 \<Rightarrow> bool" where
  "is_ascii_alphanumeric b \<longleftrightarrow> is_ascii_uppercase b \<or> is_ascii_lowercase b \<or> is_ascii_digit b"

definition to_ascii_lowercase :: "u8 \<Rightarrow> u8" where
  "to_ascii_lowercase b = (if is_ascii_uppercase b then b + 32 else b)"

definition eq_ignore_ascii_case :: "bytes \<Rightarrow> bytes \<Rightarrow> bool" where
  "eq_ignore_ascii_case a b \<longleftrightarrow> map to_ascii_lowercase a = map to_ascii_lowercase b"

definition str_of_bytes :: "bytes \<Rightarrow> string" where
  "str_of_bytes b = map (\<lambda>x. char_of (unat x)) b"

definition bytes_of_str :: "string \<Rightarrow> bytes" where
  "bytes_of_str s = map (\<lambda>c. word_of_nat (of_char c)) s"

lemma length_bytes_of_str [simp]: "length (bytes_of_str s) = length s"
  by (simp add: bytes_of_str_def)

lemma to_ascii_lowercase_not_upper [simp]: "\<not> is_ascii_uppercase (to_ascii_lowercase b)"
  by (auto simp: to_ascii_lowercase_def is_ascii_uppercase_def word_le_nat_alt unat_word_ariths)

lemma to_ascii_lowercase_idem [simp]:
  "to_ascii_lowercase (to_ascii_lowercase b) = to_ascii_lowercase b"
  by (metis to_ascii_lowercase_def to_ascii_lowercase_not_upper)

lemma to_ascii_lowercase_id: "\<not> is_ascii_uppercase b \<Longrightarrow> to_ascii_lowercase b = b"
  by (simp add: to_ascii_lowercase_def)

lemma eq_ignore_ascii_case_length: "eq_ignore_ascii_case a b \<Longrightarrow> length a = length b"
  unfolding eq_ignore_ascii_case_def by (metis length_map)

lemma eq_ignore_ascii_case_refl [simp]: "eq_ignore_ascii_case a a"
  by (simp add: eq_ignore_ascii_case_def)

lemma is_ascii_alphanumeric_lower:
  "is_ascii_alphanumeric b \<Longrightarrow> is_ascii_alphanumeric (to_ascii_lowercase b)"
  by (auto simp: is_ascii_alphanumeric_def to_ascii_lowercase_def is_ascii_uppercase_def
      is_ascii_lowercase_def is_ascii_digit_def word_le_nat_alt unat_word_ariths)

section \<open>Lists\<close>

text \<open>\<open>slice::partition_point\<close> on a partitioned slice: the length of the true prefix.\<close>

definition partition_point :: "('a \<Rightarrow> bool) \<Rightarrow> 'a list \<Rightarrow> nat" where
  "partition_point p xs = length (takeWhile p xs)"

lemma partition_point_le [simp]: "partition_point p xs \<le> length xs"
  by (simp add: partition_point_def length_takeWhile_le)

lemma partition_point_nth: "i < partition_point p xs \<Longrightarrow> p (xs ! i)"
  by (metis partition_point_def nth_mem set_takeWhileD takeWhile_nth)

lemma take_drop_append [simp]: "take n (drop (length xs) (xs @ ys)) = take n ys"
  by simp

lemma length_concat_const: "(\<And>x. x \<in> set xs \<Longrightarrow> length (f x) = g x) \<Longrightarrow>
  length (concat (map f xs)) = sum_list (map g xs)"
  by (induction xs) auto

lemma set_map_filter: "y \<in> set (List.map_filter f xs) \<longleftrightarrow> (\<exists>x \<in> set xs. f x = Some y)"
  by (force simp: List.map_filter_def)

end
