(* ===== verification/Domain_Types.thy ===== *)
theory Domain_Types
  imports Prelude
begin

text \<open>
  The enumerations of the domain crate that every other component exchanges: DNS record
  types with their wire codes and names (\<open>dns_record/record_type.rs\<close>), the reasons a query
  is blocked (\<open>entities/block_source.rs\<close>), the client transports (\<open>entities/query_log.rs\<close>)
  and the errors of the resolver (\<open>errors/domain_error.rs\<close>). The two-way conversions are
  instances of one interface, the locale \<open>codec\<close>.
\<close>

section \<open>The interface of a two-way conversion\<close>

locale codec =
  fixes encode :: "'a \<Rightarrow> 'k" and decode :: "'k \<Rightarrow> 'a option"
  assumes decode_encode: "decode (encode x) = Some x"
    and encode_decode: "decode k = Some x \<Longrightarrow> encode x = k"
begin

lemma encode_inj: "inj encode"
  by (rule injI) (metis decode_encode option.inject)

lemma decode_Some_iff: "decode k = Some x \<longleftrightarrow> encode x = k"
  using decode_encode encode_decode by blast

lemma decode_None_iff: "decode k = None \<longleftrightarrow> k \<notin> range encode"
  by (metis decode_Some_iff not_None_eq rangeE rangeI)

lemma decode_inj: "decode k = Some x \<Longrightarrow> decode l = Some x \<Longrightarrow> k = l"
  using encode_decode by blast

end

lemma find_key:
  "distinct (map k xs) \<Longrightarrow> x \<in> set xs \<Longrightarrow> find (\<lambda>y. k y = k x) xs = Some x"
  by (induction xs) force+

section \<open>ASCII case folding of strings\<close>

definition char_lower :: "char \<Rightarrow> char" where
  "char_lower c = (let n = of_char c :: nat in if 65 \<le> n \<and> n \<le> 90 then char_of (n + 32) else c)"

definition str_lower :: "string \<Rightarrow> string" where
  "str_lower s = map char_lower s"

definition str_eq_ignore_ascii_case :: "string \<Rightarrow> string \<Rightarrow> bool" where
  "str_eq_ignore_ascii_case a b \<longleftrightarrow> str_lower a = str_lower b"

section \<open>Record types\<close>

datatype record_type =
    A | AAAA | CNAME | MX | TXT | PTR | SRV | SOA
  | NS | NAPTR | DS | DNSKEY | SVCB | HTTPS | CAA | TLSA
  | SSHFP | DNAME | RRSIG | NSEC | NSEC3 | NSEC3PARAM | CDS | CDNSKEY
  | OPT | NULL | HINFO | WKS | IPSECKEY | OPENPGPKEY | ZONEMD | ANAME

text \<open>The table the conversion macro expands, in its order.\<close>

definition record_types :: "(record_type \<times> string \<times> u16) list" where
  "record_types = [
    (A, ''A'', 1),
    (NS, ''NS'', 2),
    (CNAME, ''CNAME'', 5),
    (SOA, ''SOA'', 6),
    (NULL, ''NULL'', 10),
    (WKS, ''WKS'', 11),
    (PTR, ''PTR'', 12),
    (HINFO, ''HINFO'', 13),
    (MX, ''MX'', 15),
    (TXT, ''TXT'', 16),
    (AAAA, ''AAAA'', 28),
    (SRV, ''SRV'', 33),
    (NAPTR, ''NAPTR'', 35),
    (DNAME, ''DNAME'', 39),
    (OPT, ''OPT'', 41),
    (DS, ''DS'', 43),
    (SSHFP, ''SSHFP'', 44),
    (IPSECKEY, ''IPSECKEY'', 45),
    (RRSIG, ''RRSIG'', 46),
    (NSEC, ''NSEC'', 47),
    (DNSKEY, ''DNSKEY'', 48),
    (NSEC3, ''NSEC3'', 50),
    (NSEC3PARAM, ''NSEC3PARAM'', 51),
    (TLSA, ''TLSA'', 52),
    (CDS, ''CDS'', 59),
    (CDNSKEY, ''CDNSKEY'', 60),
    (OPENPGPKEY, ''OPENPGPKEY'', 61),
    (ZONEMD, ''ZONEMD'', 63),
    (SVCB, ''SVCB'', 64),
    (HTTPS, ''HTTPS'', 65),
    (CAA, ''CAA'', 257),
    (ANAME, ''ANAME'', 65305)]"

definition as_str :: "record_type \<Rightarrow> string" where
  "as_str t = (case find (\<lambda>(v, _, _). v = t) record_types of Some (_, s, _) \<Rightarrow> s | None \<Rightarrow> [])"

definition to_u16 :: "record_type \<Rightarrow> u16" where
  "to_u16 t = (case find (\<lambda>(v, _, _). v = t) record_types of Some (_, _, c) \<Rightarrow> c | None \<Rightarrow> 0)"

definition from_u16 :: "u16 \<Rightarrow> record_type option" where
  "from_u16 code = map_option fst (find (\<lambda>(_, _, c). c = code) record_types)"

section \<open>Block sources\<close>

datatype block_source =
    Blocklist
  | ManagedDomain
  | RegexFilter
  | CnameCloaking
  | Schedule
  | DnsRebinding
  | RateLimit
  | DnsTunneling
  | NxdomainHijack
  | ResponseIpFilter
  | DgaDetection
  | NonFqdn
  | PrivatePtr
  | DnsCookie

fun to_str :: "block_source \<Rightarrow> string" where
  "to_str Blocklist = ''blocklist''"
| "to_str ManagedDomain = ''managed_domain''"
| "to_str RegexFilter = ''regex_filter''"
| "to_str CnameCloaking = ''cname_cloaking''"
| "to_str Schedule = ''schedule''"
| "to_str DnsRebinding = ''dns_rebinding''"
| "to_str RateLimit = ''rate_limit''"
| "to_str DnsTunneling = ''dns_tunneling''"
| "to_str NxdomainHijack = ''nxdomain_hijack''"
| "to_str ResponseIpFilter = ''response_ip_filter''"
| "to_str DgaDetection = ''dga_detection''"
| "to_str NonFqdn = ''non_fqdn''"
| "to_str PrivatePtr = ''private_ptr''"
| "to_str DnsCookie = ''dns_cookie''"

fun is_malware :: "block_source \<Rightarrow> bool" where
  "is_malware Blocklist = False"
| "is_malware ManagedDomain = False"
| "is_malware RegexFilter = False"
| "is_malware CnameCloaking = False"
| "is_malware Schedule = False"
| "is_malware DnsRebinding = True"
| "is_malware RateLimit = False"
| "is_malware DnsTunneling = True"
| "is_malware NxdomainHijack = True"
| "is_malware ResponseIpFilter = True"
| "is_malware DgaDetection = True"
| "is_malware NonFqdn = False"
| "is_malware PrivatePtr = False"
| "is_malware DnsCookie = False"

definition all_sources :: "block_source list" where
  "all_sources = [
    Blocklist,
    ManagedDomain,
    RegexFilter,
    CnameCloaking,
    Schedule,
    DnsRebinding,
    RateLimit,
    DnsTunneling,
    NxdomainHijack,
    ResponseIpFilter,
    DgaDetection,
    NonFqdn,
    PrivatePtr,
    DnsCookie]"

fun as_u8 :: "block_source \<Rightarrow> u8" where
  "as_u8 Blocklist = 0"
| "as_u8 ManagedDomain = 1"
| "as_u8 RegexFilter = 2"
| "as_u8 CnameCloaking = 3"
| "as_u8 Schedule = 4"
| "as_u8 DnsRebinding = 5"
| "as_u8 RateLimit = 6"
| "as_u8 DnsTunneling = 7"
| "as_u8 NxdomainHijack = 8"
| "as_u8 ResponseIpFilter = 9"
| "as_u8 DgaDetection = 10"
| "as_u8 NonFqdn = 11"
| "as_u8 PrivatePtr = 12"
| "as_u8 DnsCookie = 13"

definition from_u8 :: "u8 \<Rightarrow> block_source option" where
  "from_u8 v = byte_get all_sources (unat v)"

section \<open>Errors of the resolver\<close>

text \<open>
  The variants the query path raises or inspects, with their payloads. The variants of the
  administration interface (groups, subnets, users, tokens, schedules, multi-factor
  authentication) never meet a query; they are one constructor that carries the variant's
  display text.
\<close>

datatype domain_error =
    InvalidDomainName string
  | InvalidIpAddress string
  | DnssecValidationFailed string
  | InsecureDelegation
  | DnssecBogus
  | DnssecIndeterminate
  | InvalidDnsResponse string
  | IoError string
  | Blocked
  | NxDomain
  | LocalNxDomain
  | QueryTimeout
  | DnsRateLimited
  | DnsRateLimitedSlip
  | UpstreamCapacityExhausted
  | DnsTunnelingDetected
  | DgaDomainDetected
  | DnsCookieInvalid
  | FilteredQuery block_source
  | TransportTimeout string
  | TransportConnectionRefused string
  | TransportConnectionReset string
  | TransportNoHealthyServers
  | TransportAllServersUnreachable
  | AllUpstreamsServfail
  | SpoofedResponse string string
  | UpstreamServerFailure string string
  | InvalidInput string
  | InvalidRegexFilter string
  | Other_error string

definition record_type_from_str :: "string \<Rightarrow> domain_error + record_type" where
  "record_type_from_str s =
    (case find (\<lambda>(_, n, _). str_eq_ignore_ascii_case s n) record_types of
       Some (t, _, _) \<Rightarrow> Inr t
     | None \<Rightarrow> Inl (InvalidInput (''unknown record type: '' @ s)))"

definition block_source_from_str :: "string \<Rightarrow> domain_error + block_source" where
  "block_source_from_str s =
    (case find (\<lambda>src. to_str src = s) all_sources of
       Some src \<Rightarrow> Inr src
     | None \<Rightarrow> Inl (InvalidInput (''unknown block source: '' @ [CHR 0x27] @ s @ [CHR 0x27])))"

section \<open>Client transports\<close>

datatype client_protocol = Udp | Tcp | Dot | Doh | Doq

fun is_stream :: "client_protocol \<Rightarrow> bool" where
  "is_stream Udp = False"
| "is_stream Tcp = True"
| "is_stream Dot = True"
| "is_stream Doh = True"
| "is_stream Doq = True"

section \<open>The conversions are inverse to each other\<close>

lemma record_types_covers: "t \<in> fst ` set record_types"
proof -
  have "map fst record_types = [A, NS, CNAME, SOA, NULL, WKS, PTR, HINFO, MX, TXT, AAAA, SRV, NAPTR,
      DNAME, OPT, DS, SSHFP, IPSECKEY, RRSIG, NSEC, DNSKEY, NSEC3, NSEC3PARAM, TLSA, CDS, CDNSKEY,
      OPENPGPKEY, ZONEMD, SVCB, HTTPS, CAA, ANAME]" (is "_ = ?ts")
    by (simp add: record_types_def)
  moreover have "t \<in> set ?ts" by (cases t) simp_all
  ultimately show ?thesis by (metis image_set)
qed

lemma record_types_distinct: "distinct (map fst record_types)"
  by (simp add: record_types_def)

lemma record_types_unique:
  "(t, n, c) \<in> set record_types \<Longrightarrow> n = as_str t \<and> c = to_u16 t"
  using find_key [OF record_types_distinct, of "(t, n, c)"]
  by (simp add: as_str_def to_u16_def case_prod_unfold)

lemma record_types_complete: "(t, as_str t, to_u16 t) \<in> set record_types"
  using record_types_covers [of t] record_types_unique by fastforce

lemma record_types_codes_distinct: "distinct (map (\<lambda>(_, _, c). c) record_types)"
  by (simp add: record_types_def)

lemma record_types_names_distinct:
  "distinct (map (\<lambda>(_, n, _). str_lower n) record_types)"
  by (simp add: record_types_def str_lower_def char_lower_def)

lemma find_record_type:
  "find (\<lambda>(_, n, c). P n c) record_types = Some (t, n, c) \<Longrightarrow> P n c \<and> n = as_str t \<and> c = to_u16 t"
  using record_types_unique by (fastforce simp: find_Some_iff in_set_conv_nth)

lemma as_u8_nth: "n < 14 \<Longrightarrow> as_u8 (all_sources ! n) = word_of_nat n"
proof -
  have "list_all (\<lambda>n. as_u8 (all_sources ! n) = word_of_nat n) [0..<14]"
    by (simp add: all_sources_def upt_rec)
  then show "n < 14 \<Longrightarrow> as_u8 (all_sources ! n) = word_of_nat n"
    by (simp add: list_all_iff)
qed

interpretation rr_code: codec to_u16 from_u16
proof
  fix t
  show "from_u16 (to_u16 t) = Some t"
    using find_key [OF record_types_codes_distinct record_types_complete [of t]]
    by (simp add: from_u16_def case_prod_unfold)
next
  fix k t assume "from_u16 k = Some t"
  then show "to_u16 t = k"
    using find_record_type [of "\<lambda>_ c. c = k"] by (auto simp: from_u16_def)
qed

interpretation source_code: codec as_u8 from_u8
proof
  fix s show "from_u8 (as_u8 s) = Some s"
    by (cases s) (simp_all add: from_u8_def all_sources_def byte_get_def)
next
  fix k s assume "from_u8 k = Some s"
  then show "as_u8 s = k"
    using as_u8_nth [of "unat k"] by (auto simp: from_u8_def res_simps all_sources_def [THEN arg_cong [of _ _ length]])
qed

lemma all_sources_complete: "s \<in> set all_sources"
  by (cases s) (simp_all add: all_sources_def)

lemma to_str_distinct: "distinct (map to_str all_sources)"
  by (simp add: all_sources_def)

lemma record_type_from_str_iff:
  "record_type_from_str s = Inr t \<longleftrightarrow> str_eq_ignore_ascii_case s (as_str t)"
proof
  assume "record_type_from_str s = Inr t"
  then obtain n c where "find (\<lambda>(_, n, _). str_eq_ignore_ascii_case s n) record_types = Some (t, n, c)"
    by (auto simp: record_type_from_str_def split: option.splits)
  then show "str_eq_ignore_ascii_case s (as_str t)"
    using find_record_type [of "\<lambda>n _. str_eq_ignore_ascii_case s n"] by blast
next
  assume eq: "str_eq_ignore_ascii_case s (as_str t)"
  have "find (\<lambda>(_, n, _). str_lower s = str_lower n) record_types = Some (t, as_str t, to_u16 t)"
    using find_key [OF record_types_names_distinct record_types_complete [of t]] eq
    by (simp add: str_eq_ignore_ascii_case_def case_prod_unfold eq_commute [of "str_lower (as_str t)"])
  then show "record_type_from_str s = Inr t"
    by (simp add: record_type_from_str_def str_eq_ignore_ascii_case_def)
qed

lemma block_source_from_str_iff: "block_source_from_str s = Inr src \<longleftrightarrow> to_str src = s"
proof
  assume "block_source_from_str s = Inr src"
  then show "to_str src = s"
    by (auto simp: block_source_from_str_def find_Some_iff split: option.splits)
next
  assume "to_str src = s"
  then show "block_source_from_str s = Inr src"
    using find_key [OF to_str_distinct all_sources_complete [of src]]
    by (simp add: block_source_from_str_def)
qed

section \<open>Properties\<close>

text \<open>
  The conversions of a record type are exact: a wire code decodes to a type exactly when
  it is that type's code, and a string parses to a type exactly when it is that type's name
  up to ASCII case; every other code is \<open>None\<close> and every other string an \<open>InvalidInput\<close>.
\<close>

lemma record_type_conversions_exact:
  "(from_u16 code = Some t \<longleftrightarrow> to_u16 t = code) \<and>
   (from_u16 code = None \<longleftrightarrow> code \<notin> range to_u16) \<and>
   (record_type_from_str s = Inr t \<longleftrightarrow> str_eq_ignore_ascii_case s (as_str t)) \<and>
   (isl (record_type_from_str s) \<longleftrightarrow>
     record_type_from_str s = Inl (InvalidInput (''unknown record type: '' @ s)))"
proof (intro conjI)
  show "from_u16 code = Some t \<longleftrightarrow> to_u16 t = code" by (rule rr_code.decode_Some_iff)
  show "from_u16 code = None \<longleftrightarrow> code \<notin> range to_u16" by (rule rr_code.decode_None_iff)
  show "record_type_from_str s = Inr t \<longleftrightarrow> str_eq_ignore_ascii_case s (as_str t)"
    by (rule record_type_from_str_iff)
  show "isl (record_type_from_str s) \<longleftrightarrow>
      record_type_from_str s = Inl (InvalidInput (''unknown record type: '' @ s))"
    by (auto simp: record_type_from_str_def split: option.splits)
qed

text \<open>
  The persisted name and the in-memory code of a block source each identify it: parsing
  inverts printing, decoding inverts encoding, and only the fourteen codes below 14 decode.
\<close>

lemma block_source_conversions_exact:
  "(from_u8 code = Some src \<longleftrightarrow> as_u8 src = code) \<and>
   (from_u8 code = None \<longleftrightarrow> 14 \<le> code) \<and>
   (block_source_from_str s = Inr src \<longleftrightarrow> to_str src = s)"
proof (intro conjI)
  show "from_u8 code = Some src \<longleftrightarrow> as_u8 src = code" by (rule source_code.decode_Some_iff)
  show "from_u8 code = None \<longleftrightarrow> 14 \<le> code"
    by (simp add: from_u8_def byte_get_def all_sources_def word_le_nat_alt)
  show "block_source_from_str s = Inr src \<longleftrightarrow> to_str src = s"
    by (rule block_source_from_str_iff)
qed

end
