(* ===== verification/Token_Bucket.thy ===== *)
theory Token_Bucket
  imports Prelude
begin

text \<open>
  The per-subnet token bucket of the rate limiter
  (\<open>use_cases/dns/rate_limiter/token_bucket.rs\<close>). The first part is the bucket as one
  thread sees it. The second part is the lock-free protocol itself: threads interleave at
  single atomic accesses, every relaxed load may return any value, every weak
  compare-exchange may fail spuriously. Both respect the contract \<open>metered\<close>, from which the
  admission bound follows.
\<close>

section \<open>The contract: what is spent was there or was refilled\<close>

text \<open>
  Levels, pending refills and expenses share one unit; the clock advances by at most the
  time that passes, and each unit of clock pays \<open>rate\<close>.
\<close>

locale metered =
  fixes step :: "'s \<Rightarrow> 's \<Rightarrow> bool" and inv :: "'s \<Rightarrow> bool"
    and level :: "'s \<Rightarrow> nat" and pending :: "'s \<Rightarrow> nat" and spent :: "'s \<Rightarrow> nat"
    and clock :: "'s \<Rightarrow> nat" and rate :: nat
  assumes step_inv: "inv s \<Longrightarrow> step s t \<Longrightarrow> inv t"
    and clock_mono: "inv s \<Longrightarrow> step s t \<Longrightarrow> clock s \<le> clock t"
    and balance: "inv s \<Longrightarrow> step s t \<Longrightarrow>
      level t + pending t + spent t \<le> level s + pending s + spent s + rate * (clock t - clock s)"
begin

lemma run_balance:
  assumes "step\<^sup>*\<^sup>* s t" and "inv s"
  shows "inv t \<and> clock s \<le> clock t \<and>
    level t + pending t + spent t \<le> level s + pending s + spent s + rate * (clock t - clock s)"
  using assms
proof (induction rule: rtranclp_induct)
  case (step t u)
  then have inv: "inv t" and le: "clock s \<le> clock t" by auto
  note tu = clock_mono [OF inv step.hyps(2)]
  have "rate * (clock t - clock s) + rate * (clock u - clock t) = rate * (clock u - clock s)"
    using le tu by (simp add: add_mult_distrib2 [symmetric])
  then show ?case
    using step.IH [OF step.prems] tu balance [OF inv step.hyps(2)] step_inv [OF inv step.hyps(2)]
    by linarith
qed simp

lemma spent_bound:
  "step\<^sup>*\<^sup>* s t \<Longrightarrow> inv s \<Longrightarrow> spent t \<le> spent s + level s + pending s + rate * (clock t - clock s)"
  using run_balance [of s t] by linarith

lemma run_inv: "step\<^sup>*\<^sup>* s t \<Longrightarrow> inv s \<Longrightarrow> inv t"
  using run_balance by blast

end

section \<open>Constants and state\<close>

definition MILLI :: u64 where "MILLI = 1000"

definition NX_BURST_MULTIPLIER :: u64 where "NX_BURST_MULTIPLIER = 2"

record token_bucket =
  tokens_milli :: u64
  last_refill_ns :: u64
  nxdomain_tokens_milli :: u64

section \<open>Operations\<close>

definition nx_burst_milli :: "u32 \<Rightarrow> u64" where
  "nx_burst_milli nx_qps = ucast nx_qps * MILLI * NX_BURST_MULTIPLIER"

definition new_bucket :: "u32 \<Rightarrow> u32 \<Rightarrow> u64 \<Rightarrow> token_bucket" where
  "new_bucket burst nx_qps now_ns =
    \<lparr>tokens_milli = ucast burst * MILLI, last_refill_ns = now_ns,
     nxdomain_tokens_milli = nx_burst_milli nx_qps\<rparr>"

definition has_tokens :: "token_bucket \<Rightarrow> bool" where
  "has_tokens b \<longleftrightarrow> MILLI \<le> tokens_milli b"

text \<open>The refill of \<open>refill\<close>: a 128-bit product and quotient, truncated to 64 bits.\<close>

definition add_milli :: "u64 \<Rightarrow> u32 \<Rightarrow> u64" where
  "add_milli elapsed_ns qps =
    ucast ((ucast elapsed_ns * ucast qps * ucast MILLI) div (1000000000 :: u128))"

text \<open>\<open>add_capped\<close> and \<open>try_decrement\<close> on the value of the counter. The addition wraps.\<close>

definition add_capped :: "u64 \<Rightarrow> u64 \<Rightarrow> u64 \<Rightarrow> u64" where
  "add_capped current add cap = min (current + add) cap"

definition try_decrement :: "u64 \<Rightarrow> bool \<times> u64" where
  "try_decrement current = (if current < MILLI then (False, current) else (True, current - MILLI))"

definition refill :: "token_bucket \<Rightarrow> u64 \<Rightarrow> u32 \<Rightarrow> u32 \<Rightarrow> u32 \<Rightarrow> token_bucket" where
  "refill b now_ns qps burst nx_qps =
    (let elapsed_ns = sat_sub now_ns (last_refill_ns b)
     in if elapsed_ns = 0 then b
        else b\<lparr>last_refill_ns := now_ns,
               tokens_milli :=
                 add_capped (tokens_milli b) (add_milli elapsed_ns qps) (ucast burst * MILLI),
               nxdomain_tokens_milli :=
                 add_capped (nxdomain_tokens_milli b) (add_milli elapsed_ns nx_qps)
                   (nx_burst_milli nx_qps)\<rparr>)"

definition try_consume ::
  "token_bucket \<Rightarrow> u64 \<Rightarrow> u32 \<Rightarrow> u32 \<Rightarrow> u32 \<Rightarrow> bool \<times> token_bucket" where
  "try_consume b now_ns qps burst nx_qps =
    (let b1 = refill b now_ns qps burst nx_qps; (ok, t) = try_decrement (tokens_milli b1)
     in (ok, b1\<lparr>tokens_milli := t\<rparr>))"

definition try_charge_nxdomain ::
  "token_bucket \<Rightarrow> u64 \<Rightarrow> u32 \<Rightarrow> u32 \<Rightarrow> u32 \<Rightarrow> bool \<times> token_bucket" where
  "try_charge_nxdomain b now_ns qps burst nx_qps =
    (let b1 = refill b now_ns qps burst nx_qps; (ok, t) = try_decrement (nxdomain_tokens_milli b1)
     in (ok, b1\<lparr>nxdomain_tokens_milli := t\<rparr>))"

section \<open>The lock-free protocol\<close>

text \<open>What a thread is doing between two atomic accesses; \<open>el\<close> is the elapsed time it claimed.\<close>

datatype spend_op = Consume | Charge_nx

datatype pc =
    Idle
  | Load_last spend_op u64
  | Cas_last spend_op u64 u64
  | Load_tokens spend_op u64
  | Cas_tokens spend_op u64 u64
  | Load_nx spend_op u64
  | Cas_nx spend_op u64 u64
  | Load_spend spend_op
  | Cas_spend spend_op u64
  | Done spend_op bool

record bucket_cfg =
  bc_qps :: u32
  bc_burst :: u32
  bc_nx_qps :: u32

text \<open>The shared bucket, the threads, and two history counters: budgets spent so far.\<close>

record contended =
  shared :: token_bucket
  threads :: "pc list"
  admitted :: nat
  charged :: nat

fun spend_counter :: "spend_op \<Rightarrow> token_bucket \<Rightarrow> u64" where
  "spend_counter Consume b = tokens_milli b"
| "spend_counter Charge_nx b = nxdomain_tokens_milli b"

fun set_spend_counter :: "spend_op \<Rightarrow> u64 \<Rightarrow> token_bucket \<Rightarrow> token_bucket" where
  "set_spend_counter Consume v b = b\<lparr>tokens_milli := v\<rparr>"
| "set_spend_counter Charge_nx v b = b\<lparr>nxdomain_tokens_milli := v\<rparr>"

fun count_spend :: "spend_op \<Rightarrow> contended \<Rightarrow> contended" where
  "count_spend Consume s = s\<lparr>admitted := admitted s + 1\<rparr>"
| "count_spend Charge_nx s = s\<lparr>charged := charged s + 1\<rparr>"

definition goto :: "nat \<Rightarrow> pc \<Rightarrow> contended \<Rightarrow> contended" where
  "goto i p s = s\<lparr>threads := (threads s)[i := p]\<rparr>"

definition tokens_after :: "bucket_cfg \<Rightarrow> u64 \<Rightarrow> u64 \<Rightarrow> u64" where
  "tokens_after c el v = add_capped v (add_milli el (bc_qps c)) (ucast (bc_burst c) * MILLI)"

definition nx_after :: "bucket_cfg \<Rightarrow> u64 \<Rightarrow> u64 \<Rightarrow> u64" where
  "nx_after c el v = add_capped v (add_milli el (bc_nx_qps c)) (nx_burst_milli (bc_nx_qps c))"

inductive cstep :: "bucket_cfg \<Rightarrow> contended \<Rightarrow> contended \<Rightarrow> bool" for c where
  start: "i < length (threads s) \<Longrightarrow> threads s ! i = Idle \<or> threads s ! i = Done op' ok
    \<Longrightarrow> cstep c s (goto i (Load_last op now) s)"
| load_last: "i < length (threads s) \<Longrightarrow> threads s ! i = Load_last op now
    \<Longrightarrow> cstep c s (goto i (if sat_sub now v = 0 then Load_spend op else Cas_last op now v) s)"
| cas_last_ok: "i < length (threads s) \<Longrightarrow> threads s ! i = Cas_last op now prev
    \<Longrightarrow> last_refill_ns (shared s) = prev
    \<Longrightarrow> cstep c s (goto i (Load_tokens op (sat_sub now prev))
          (s\<lparr>shared := (shared s)\<lparr>last_refill_ns := now\<rparr>\<rparr>))"
| cas_last_err: "i < length (threads s) \<Longrightarrow> threads s ! i = Cas_last op now prev
    \<Longrightarrow> last_refill_ns (shared s) \<noteq> prev \<Longrightarrow> cstep c s (goto i (Load_spend op) s)"
| load_tokens: "i < length (threads s) \<Longrightarrow> threads s ! i = Load_tokens op el
    \<Longrightarrow> cstep c s (goto i (if v = tokens_after c el v then Load_nx op el else Cas_tokens op el v) s)"
| cas_tokens_ok: "i < length (threads s) \<Longrightarrow> threads s ! i = Cas_tokens op el v
    \<Longrightarrow> tokens_milli (shared s) = v
    \<Longrightarrow> cstep c s (goto i (Load_nx op el)
          (s\<lparr>shared := (shared s)\<lparr>tokens_milli := tokens_after c el v\<rparr>\<rparr>))"
| cas_tokens_err: "i < length (threads s) \<Longrightarrow> threads s ! i = Cas_tokens op el v
    \<Longrightarrow> cstep c s (goto i (Load_tokens op el) s)"
| load_nx: "i < length (threads s) \<Longrightarrow> threads s ! i = Load_nx op el
    \<Longrightarrow> cstep c s (goto i (if v = nx_after c el v then Load_spend op else Cas_nx op el v) s)"
| cas_nx_ok: "i < length (threads s) \<Longrightarrow> threads s ! i = Cas_nx op el v
    \<Longrightarrow> nxdomain_tokens_milli (shared s) = v
    \<Longrightarrow> cstep c s (goto i (Load_spend op)
          (s\<lparr>shared := (shared s)\<lparr>nxdomain_tokens_milli := nx_after c el v\<rparr>\<rparr>))"
| cas_nx_err: "i < length (threads s) \<Longrightarrow> threads s ! i = Cas_nx op el v
    \<Longrightarrow> cstep c s (goto i (Load_nx op el) s)"
| load_spend: "i < length (threads s) \<Longrightarrow> threads s ! i = Load_spend op
    \<Longrightarrow> cstep c s (goto i (if v < MILLI then Done op False else Cas_spend op v) s)"
| cas_spend_ok: "i < length (threads s) \<Longrightarrow> threads s ! i = Cas_spend op v
    \<Longrightarrow> spend_counter op (shared s) = v
    \<Longrightarrow> cstep c s (goto i (Done op True)
          (count_spend op (s\<lparr>shared := set_spend_counter op (v - MILLI) (shared s)\<rparr>)))"
| cas_spend_err: "i < length (threads s) \<Longrightarrow> threads s ! i = Cas_spend op v
    \<Longrightarrow> cstep c s (goto i (Load_spend op) s)"

text \<open>Threads that have not started, on a fresh bucket.\<close>

definition contended_start :: "bucket_cfg \<Rightarrow> u64 \<Rightarrow> nat \<Rightarrow> contended" where
  "contended_start c now n =
    \<lparr>shared = new_bucket (bc_burst c) (bc_nx_qps c) now, threads = replicate n Idle,
     admitted = 0, charged = 0\<rparr>"

section \<open>Invariants and what is due\<close>

fun pc_ok :: "pc \<Rightarrow> bool" where
  "pc_ok (Cas_last op now prev) \<longleftrightarrow> prev < now"
| "pc_ok (Cas_spend op v) \<longleftrightarrow> MILLI \<le> v"
| "pc_ok _ \<longleftrightarrow> True"

definition bucket_ok :: "bucket_cfg \<Rightarrow> token_bucket \<Rightarrow> bool" where
  "bucket_ok c b \<longleftrightarrow> tokens_milli b \<le> ucast (bc_burst c) * MILLI \<and>
     nxdomain_tokens_milli b \<le> nx_burst_milli (bc_nx_qps c)"

definition contended_ok :: "bucket_cfg \<Rightarrow> contended \<Rightarrow> bool" where
  "contended_ok c s \<longleftrightarrow> bucket_ok c (shared s) \<and> list_all pc_ok (threads s)"

text \<open>The refill a thread has claimed on the clock and not yet credited.\<close>

fun due_tokens :: "pc \<Rightarrow> nat" where
  "due_tokens (Load_tokens op el) = unat el"
| "due_tokens (Cas_tokens op el v) = unat el"
| "due_tokens _ = 0"

fun due_nx :: "pc \<Rightarrow> nat" where
  "due_nx (Load_tokens op el) = unat el"
| "due_nx (Cas_tokens op el v) = unat el"
| "due_nx (Load_nx op el) = unat el"
| "due_nx (Cas_nx op el v) = unat el"
| "due_nx _ = 0"

section \<open>Arithmetic of the refill\<close>

lemma unat_MILLI [simp]: "unat MILLI = 1000"
  by (simp add: MILLI_def)

lemma unat_burst_milli: "unat (ucast burst * MILLI :: u64) = unat (burst :: u32) * 1000"
  using unat_u32_lt [of burst]
  by (simp add: unat_word_ariths unat_ucast_up del: unat_u32_lt)

lemma unat_nx_burst_milli: "unat (nx_burst_milli nx_qps) = unat nx_qps * 2000"
  using unat_u32_lt [of nx_qps]
  by (simp add: nx_burst_milli_def NX_BURST_MULTIPLIER_def unat_word_ariths unat_ucast_up
      del: unat_u32_lt)

lemma unat_refill_product:
  "unat (ucast (el :: u64) * ucast (qps :: u32) * ucast MILLI :: u128) = unat el * unat qps * 1000"
proof -
  have "unat el * unat qps \<le> 18446744073709551616 * 4294967296"
    by (rule mult_le_mono [OF less_imp_le [OF unat_u64_lt] less_imp_le [OF unat_u32_lt]])
  then have "unat el * unat qps * 1000 < 2 ^ LENGTH(128)" by simp
  then show ?thesis
    by (simp add: unat_word_ariths unat_ucast_up)
qed

lemma unat_add_milli:
  "unat (add_milli el qps) = unat el * unat qps * 1000 div 1000000000 mod 2 ^ 64"
  by (simp only: add_milli_def unsigned_ucast_eq take_bit_eq_mod unat_div unat_refill_product)
    simp

lemma add_milli_le: "unat (add_milli el qps) * 10 ^ 6 \<le> unat el * unat qps"
proof -
  have "unat (add_milli el qps) \<le> unat el * unat qps * 1000 div 1000000000"
    unfolding unat_add_milli by (rule mod_less_eq_dividend)
  then have "unat (add_milli el qps) * 1000000000 \<le> unat el * unat qps * 1000"
    by (meson div_times_less_eq_dividend le_trans mult_le_mono1)
  then show ?thesis by simp
qed

lemma add_capped_le: "unat (add_capped v a cap) \<le> unat v + unat a"
  by (simp add: add_capped_def unat_min_word unat_word_ariths)

lemma add_capped_cap: "add_capped v a cap \<le> cap"
  by (simp add: add_capped_def)

lemma refill_amount:
  "unat (add_capped v (add_milli el qps) cap) * 10 ^ 6 \<le> unat v * 10 ^ 6 + unat el * unat qps"
  using mult_le_mono1 [OF add_capped_le [of v "add_milli el qps" cap], of "10 ^ 6"]
    add_milli_le [of el qps]
  by (simp add: add_mult_distrib)

lemma try_decrement_True:
  "try_decrement v = (True, w) \<Longrightarrow> unat w + 1000 = unat v"
  by (auto simp: try_decrement_def unat_sub word_less_nat_alt word_le_nat_alt split: if_splits)

lemma try_decrement_le: "snd (try_decrement v) \<le> v"
  by (auto simp: try_decrement_def unat_sub word_less_nat_alt word_le_nat_alt)

section \<open>The protocol respects the contract\<close>

lemma sum_list_map_update:
  "i < length ts \<Longrightarrow>
    sum_list (map f (ts[i := p])) + f (ts ! i) = sum_list (map f ts) + (f p :: nat)"
proof (induction ts arbitrary: i)
  case (Cons t ts)
  show ?case
  proof (cases i)
    case (Suc j)
    then show ?thesis using Cons.IH [of j] Cons.prems by simp
  qed simp
qed simp

lemma goto_simps [simp]:
  "shared (goto i p s) = shared s" "threads (goto i p s) = (threads s)[i := p]"
  "admitted (goto i p s) = admitted s" "charged (goto i p s) = charged s"
  by (simp_all add: goto_def)

lemma count_spend_simps [simp]:
  "shared (count_spend op s) = shared s" "threads (count_spend op s) = threads s"
  "admitted (count_spend op s) = admitted s + (if op = Consume then 1 else 0)"
  "charged (count_spend op s) = charged s + (if op = Charge_nx then 1 else 0)"
  by (cases op; simp)+

lemma set_spend_counter_simps [simp]:
  "last_refill_ns (set_spend_counter op v b) = last_refill_ns b"
  "tokens_milli (set_spend_counter op v b) = (if op = Consume then v else tokens_milli b)"
  "nxdomain_tokens_milli (set_spend_counter op v b) =
     (if op = Charge_nx then v else nxdomain_tokens_milli b)"
  by (cases op; simp)+

lemma list_all_update: "list_all P xs \<Longrightarrow> P x \<Longrightarrow> list_all P (xs[i := x])"
  by (auto simp: list_all_iff dest: set_update_subset_insert [THEN subsetD])

lemma sat_sub_pos: "sat_sub now v \<noteq> 0 \<longleftrightarrow> v < now"
  by (auto simp: sat_sub_def not_less)

lemma spend_counter_cases: "spend_counter op b = (if op = Consume then tokens_milli b else nxdomain_tokens_milli b)"
  by (cases op) simp_all

lemma minus_MILLI_le: "MILLI \<le> v \<Longrightarrow> v - MILLI \<le> v"
  by (simp add: word_le_nat_alt unat_sub)

lemma cstep_ok:
  assumes "contended_ok c s" "cstep c s t"
  shows "contended_ok c t"
  using assms(2,1)
proof cases
  case (cas_spend_ok i op v)
  with assms(1) have "MILLI \<le> v"
    by (auto simp: contended_ok_def list_all_length dest!: spec [of _ i])
  with cas_spend_ok assms(1) show ?thesis
    by (cases op) (auto simp: contended_ok_def bucket_ok_def list_all_update
        intro: order_trans [OF minus_MILLI_le])
qed (auto simp: contended_ok_def bucket_ok_def list_all_update sat_sub_pos not_less
    tokens_after_def nx_after_def add_capped_cap)

lemma thread_ok: "contended_ok c s \<Longrightarrow> i < length (threads s) \<Longrightarrow> pc_ok (threads s ! i)"
  by (simp add: contended_ok_def list_all_length)

lemma cstep_clock:
  assumes "contended_ok c s" "cstep c s t"
  shows "last_refill_ns (shared s) \<le> last_refill_ns (shared t)"
  using assms(2)
proof cases
  case (cas_last_ok i op now prev)
  with thread_ok [OF assms(1), of i] show ?thesis by simp
qed auto

abbreviation sum_due :: "(pc \<Rightarrow> nat) \<Rightarrow> contended \<Rightarrow> nat" where
  "sum_due due s \<equiv> sum_list (map due (threads s))"

lemma due_after:
  "i < length ts \<Longrightarrow> due (ts ! i) = 0 \<Longrightarrow> sum_list (map due (ts[i := p])) = sum_list (map due ts) + (due p :: nat)"
  using sum_list_map_update [of i ts due p] by simp

lemma due_same:
  "i < length ts \<Longrightarrow> due (ts ! i) = due p \<Longrightarrow> sum_list (map due (ts[i := p])) = (sum_list (map due ts) :: nat)"
  using sum_list_map_update [of i ts due p] by simp

lemma due_paid:
  assumes "i < length ts" "due p = 0"
  shows "q * sum_list (map due ts) = q * sum_list (map due (ts[i := p])) + q * (due (ts ! i) :: nat)"
  using sum_list_map_update [of i ts due p] assms by (simp add: add_mult_distrib2 [symmetric])

lemma cstep_balance_tokens:
  assumes ok: "contended_ok c s" and st: "cstep c s t"
  shows "unat (tokens_milli (shared t)) * 10 ^ 6 + unat (bc_qps c) * sum_due due_tokens t
      + admitted t * 10 ^ 9
    \<le> unat (tokens_milli (shared s)) * 10 ^ 6 + unat (bc_qps c) * sum_due due_tokens s
      + admitted s * 10 ^ 9
      + unat (bc_qps c) * (unat (last_refill_ns (shared t)) - unat (last_refill_ns (shared s)))"
  using st
proof cases
  case (cas_last_ok i op now prev)
  then show ?thesis
    using thread_ok [OF ok, of i]
      due_after [of i "threads s" due_tokens "Load_tokens op (sat_sub now prev)"]
    by (simp add: add_mult_distrib2)
next
  case (load_tokens i op el v)
  then show ?thesis
    using due_paid [of i "threads s" due_tokens "Load_nx op el" "unat (bc_qps c)"]
    by (simp add: due_same)
next
  case (cas_tokens_ok i op el v)
  then show ?thesis
    using due_paid [of i "threads s" due_tokens "Load_nx op el" "unat (bc_qps c)"]
      refill_amount [of v el "bc_qps c" "ucast (bc_burst c) * MILLI"]
    by (simp add: tokens_after_def mult.commute [of "unat el"])
next
  case (cas_spend_ok i op v)
  then show ?thesis
    using thread_ok [OF ok, of i] due_same [of i "threads s" due_tokens "Done op True"]
    by (cases op) (simp_all add: word_le_nat_alt unat_sub)
qed (auto simp: due_same)

lemma cstep_balance_nx:
  assumes ok: "contended_ok c s" and st: "cstep c s t"
  shows "unat (nxdomain_tokens_milli (shared t)) * 10 ^ 6 + unat (bc_nx_qps c) * sum_due due_nx t
      + charged t * 10 ^ 9
    \<le> unat (nxdomain_tokens_milli (shared s)) * 10 ^ 6 + unat (bc_nx_qps c) * sum_due due_nx s
      + charged s * 10 ^ 9
      + unat (bc_nx_qps c) * (unat (last_refill_ns (shared t)) - unat (last_refill_ns (shared s)))"
  using st
proof cases
  case (cas_last_ok i op now prev)
  then show ?thesis
    using thread_ok [OF ok, of i]
      due_after [of i "threads s" due_nx "Load_tokens op (sat_sub now prev)"]
    by (simp add: add_mult_distrib2)
next
  case (load_nx i op el v)
  then show ?thesis
    using due_paid [of i "threads s" due_nx "Load_spend op" "unat (bc_nx_qps c)"]
    by (simp add: due_same)
next
  case (cas_nx_ok i op el v)
  then show ?thesis
    using due_paid [of i "threads s" due_nx "Load_spend op" "unat (bc_nx_qps c)"]
      refill_amount [of v el "bc_nx_qps c" "nx_burst_milli (bc_nx_qps c)"]
    by (simp add: nx_after_def mult.commute [of "unat el"])
next
  case (cas_spend_ok i op v)
  then show ?thesis
    using thread_ok [OF ok, of i] due_same [of i "threads s" due_nx "Done op True"]
    by (cases op) (simp_all add: word_le_nat_alt unat_sub)
qed (auto simp: due_same)

interpretation general_budget: metered "cstep c" "contended_ok c"
  "\<lambda>s. unat (tokens_milli (shared s)) * 10 ^ 6" "\<lambda>s. unat (bc_qps c) * sum_due due_tokens s"
  "\<lambda>s. admitted s * 10 ^ 9" "\<lambda>s. unat (last_refill_ns (shared s))" "unat (bc_qps c)"
  for c
  by unfold_locales
    (fact cstep_ok, simp add: cstep_clock word_le_nat_alt [symmetric], fact cstep_balance_tokens)

interpretation nx_budget: metered "cstep c" "contended_ok c"
  "\<lambda>s. unat (nxdomain_tokens_milli (shared s)) * 10 ^ 6" "\<lambda>s. unat (bc_nx_qps c) * sum_due due_nx s"
  "\<lambda>s. charged s * 10 ^ 9" "\<lambda>s. unat (last_refill_ns (shared s))" "unat (bc_nx_qps c)"
  for c
  by unfold_locales
    (fact cstep_ok, simp add: cstep_clock word_le_nat_alt [symmetric], fact cstep_balance_nx)

lemma contended_start_ok: "contended_ok c (contended_start c now n)"
  by (simp add: contended_ok_def contended_start_def bucket_ok_def new_bucket_def list_all_iff)

lemma contended_start_simps:
  "sum_due due_tokens (contended_start c now n) = 0"
  "sum_due due_nx (contended_start c now n) = 0"
  "unat (tokens_milli (shared (contended_start c now n))) = unat (bc_burst c) * 1000"
  "unat (nxdomain_tokens_milli (shared (contended_start c now n))) = unat (bc_nx_qps c) * 2000"
  "last_refill_ns (shared (contended_start c now n)) = now"
  "admitted (contended_start c now n) = 0" "charged (contended_start c now n) = 0"
  by (simp_all add: contended_start_def sum_list_replicate new_bucket_def unat_burst_milli
      unat_nx_burst_milli)

section \<open>One thread at a time\<close>

text \<open>
  An operation that meets no contention takes the successful branch of every access, so the
  sequential operation is one run of the protocol.
\<close>

definition run_spend :: "bucket_cfg \<Rightarrow> spend_op \<Rightarrow> token_bucket \<Rightarrow> u64 \<Rightarrow> bool \<times> token_bucket" where
  "run_spend c op b now =
    (case op of
       Consume \<Rightarrow> try_consume b now (bc_qps c) (bc_burst c) (bc_nx_qps c)
     | Charge_nx \<Rightarrow> try_charge_nxdomain b now (bc_qps c) (bc_burst c) (bc_nx_qps c))"

abbreviation at :: "contended \<Rightarrow> nat \<Rightarrow> pc \<Rightarrow> token_bucket \<Rightarrow> contended" where
  "at s i p b \<equiv> goto i p (s\<lparr>shared := b\<rparr>)"

lemma at_step:
  assumes "i < length (threads s)"
  shows "cstep c (at s i (Load_last op now) b)
           (at s i (if sat_sub now v = 0 then Load_spend op else Cas_last op now v) b)"
    and "last_refill_ns b = prev \<Longrightarrow> cstep c (at s i (Cas_last op now prev) b)
           (at s i (Load_tokens op (sat_sub now prev)) (b\<lparr>last_refill_ns := now\<rparr>))"
    and "cstep c (at s i (Load_tokens op el) b)
           (at s i (if v = tokens_after c el v then Load_nx op el else Cas_tokens op el v) b)"
    and "tokens_milli b = v \<Longrightarrow> cstep c (at s i (Cas_tokens op el v) b)
           (at s i (Load_nx op el) (b\<lparr>tokens_milli := tokens_after c el v\<rparr>))"
    and "cstep c (at s i (Load_nx op el) b)
           (at s i (if v = nx_after c el v then Load_spend op else Cas_nx op el v) b)"
    and "nxdomain_tokens_milli b = v \<Longrightarrow> cstep c (at s i (Cas_nx op el v) b)
           (at s i (Load_spend op) (b\<lparr>nxdomain_tokens_milli := nx_after c el v\<rparr>))"
  using assms cstep.load_last [of i "at s i (Load_last op now) b" op now c v]
    cstep.cas_last_ok [of i "at s i (Cas_last op now prev) b" op now prev c]
    cstep.load_tokens [of i "at s i (Load_tokens op el) b" op el c v]
    cstep.cas_tokens_ok [of i "at s i (Cas_tokens op el v) b" op el v c]
    cstep.load_nx [of i "at s i (Load_nx op el) b" op el c v]
    cstep.cas_nx_ok [of i "at s i (Cas_nx op el v) b" op el v c]
  by (simp_all add: goto_def)

lemma at_spend:
  assumes "i < length (threads s)"
  shows "cstep c (at s i (Load_spend op) b)
           (at s i (if v < MILLI then Done op False else Cas_spend op v) b)"
    and "spend_counter op b = v \<Longrightarrow> cstep c (at s i (Cas_spend op v) b)
           (at (count_spend op s) i (Done op True) (set_spend_counter op (v - MILLI) b))"
proof -
  show "cstep c (at s i (Load_spend op) b)
      (at s i (if v < MILLI then Done op False else Cas_spend op v) b)"
    using assms cstep.load_spend [of i "at s i (Load_spend op) b" op c v]
    by (simp add: goto_def)
  assume "spend_counter op b = v"
  then show "cstep c (at s i (Cas_spend op v) b)
      (at (count_spend op s) i (Done op True) (set_spend_counter op (v - MILLI) b))"
    using assms cstep.cas_spend_ok [of i "at s i (Cas_spend op v) b" op v c]
    by (cases s; cases op) (simp_all add: goto_def)
qed

lemma tokens_run:
  assumes "i < length (threads s)"
  shows "(cstep c)\<^sup>*\<^sup>* (at s i (Load_tokens op el) b)
    (at s i (Load_nx op el) (b\<lparr>tokens_milli := tokens_after c el (tokens_milli b)\<rparr>))"
proof (cases "tokens_milli b = tokens_after c el (tokens_milli b)")
  case True
  then have "b\<lparr>tokens_milli := tokens_after c el (tokens_milli b)\<rparr> = b"
    by (cases b) simp
  with True show ?thesis using at_step(3) [OF assms, of c op el b "tokens_milli b"] by auto
next
  case False
  then show ?thesis
    using at_step(3) [OF assms, of c op el b "tokens_milli b"]
      at_step(4) [OF assms refl, of c op el b]
    by (auto intro: converse_rtranclp_into_rtranclp)
qed

lemma nx_run:
  assumes "i < length (threads s)"
  shows "(cstep c)\<^sup>*\<^sup>* (at s i (Load_nx op el) b)
    (at s i (Load_spend op)
      (b\<lparr>nxdomain_tokens_milli := nx_after c el (nxdomain_tokens_milli b)\<rparr>))"
proof (cases "nxdomain_tokens_milli b = nx_after c el (nxdomain_tokens_milli b)")
  case True
  then have "b\<lparr>nxdomain_tokens_milli := nx_after c el (nxdomain_tokens_milli b)\<rparr> = b"
    by (cases b) simp
  with True show ?thesis
    using at_step(5) [OF assms, of c op el b "nxdomain_tokens_milli b"] by auto
next
  case False
  then show ?thesis
    using at_step(5) [OF assms, of c op el b "nxdomain_tokens_milli b"]
      at_step(6) [OF assms refl, of c op el b]
    by (auto intro: converse_rtranclp_into_rtranclp)
qed

lemma refill_run:
  assumes "i < length (threads s)"
  shows "(cstep c)\<^sup>*\<^sup>* (at s i (Load_last op now) b)
    (at s i (Load_spend op) (refill b now (bc_qps c) (bc_burst c) (bc_nx_qps c)))"
proof (cases "sat_sub now (last_refill_ns b) = 0")
  case True
  then show ?thesis
    using at_step(1) [OF assms, of c op now b "last_refill_ns b"] by (auto simp: refill_def)
next
  case False
  let ?el = "sat_sub now (last_refill_ns b)" and ?b1 = "b\<lparr>last_refill_ns := now\<rparr>"
  let ?b2 = "?b1\<lparr>tokens_milli := tokens_after c ?el (tokens_milli ?b1)\<rparr>"
  have "(cstep c)\<^sup>*\<^sup>* (at s i (Load_last op now) b) (at s i (Load_tokens op ?el) ?b1)"
    using False at_step(1) [OF assms, of c op now b "last_refill_ns b"]
      at_step(2) [OF assms refl, of c op now b]
    by (auto intro: converse_rtranclp_into_rtranclp)
  from rtranclp_trans [OF this rtranclp_trans [OF tokens_run [OF assms] nx_run [OF assms]]]
  show ?thesis
    using False by (simp add: refill_def Let_def tokens_after_def nx_after_def)
qed

lemma run_spend_eq:
  "run_spend c op b now =
    (let b1 = refill b now (bc_qps c) (bc_burst c) (bc_nx_qps c); v = spend_counter op b1
     in if v < MILLI then (False, b1) else (True, set_spend_counter op (v - MILLI) b1))"
  by (cases op)
    (auto simp: run_spend_def try_consume_def try_charge_nxdomain_def try_decrement_def Let_def)

lemma spend_run:
  assumes "i < length (threads s)" "threads s ! i = Idle"
  shows "\<exists>t. (cstep c)\<^sup>*\<^sup>* s t \<and> shared t = snd (run_spend c op (shared s) now) \<and>
    threads t = (threads s)[i := Done op (fst (run_spend c op (shared s) now))] \<and>
    admitted t = admitted s
      + (if op = Consume \<and> fst (run_spend c op (shared s) now) then 1 else 0) \<and>
    charged t = charged s
      + (if op = Charge_nx \<and> fst (run_spend c op (shared s) now) then 1 else 0)"
proof -
  define b where "b = refill (shared s) now (bc_qps c) (bc_burst c) (bc_nx_qps c)"
  define v where "v = spend_counter op b"
  have "cstep c s (at s i (Load_last op now) (shared s))"
    using cstep.start [of i s _ _ c op now] assms by simp
  then have run: "(cstep c)\<^sup>*\<^sup>* s (at s i (Load_spend op) b)"
    using refill_run [OF assms(1), of c op now "shared s"]
    unfolding b_def by (rule converse_rtranclp_into_rtranclp)
  show ?thesis
  proof (cases "v < MILLI")
    case True
    then have "(cstep c)\<^sup>*\<^sup>* s (at s i (Done op False) b)"
      using at_spend(1) [OF assms(1), of c op b v] by (auto intro: rtranclp.rtrancl_into_rtrancl [OF run])
    then show ?thesis
      using True
      by (intro exI [of _ "at s i (Done op False) b"]) (simp add: run_spend_eq Let_def b_def v_def)
  next
    case False
    let ?t = "at (count_spend op s) i (Done op True) (set_spend_counter op (v - MILLI) b)"
    have "(cstep c)\<^sup>*\<^sup>* s (at s i (Cas_spend op v) b)"
      using False at_spend(1) [OF assms(1), of c op b v]
      by (auto intro: rtranclp.rtrancl_into_rtrancl [OF run])
    then have "(cstep c)\<^sup>*\<^sup>* s ?t"
      using at_spend(2) [OF assms(1) v_def [symmetric]] by (rule rtranclp.rtrancl_into_rtrancl)
    then show ?thesis
      using False by (intro exI [of _ ?t]) (cases op; simp add: run_spend_eq Let_def b_def v_def)
  qed
qed

lemma refill_value:
  assumes "unat el * unat qps * 1000 div 10 ^ 9 + unat v < 2 ^ 64"
  shows "unat (add_capped v (add_milli el qps) cap) =
    min (unat v + unat el * unat qps div 10 ^ 6) (unat cap)"
proof -
  have "unat el * unat qps * 1000 div 1000000000 = unat el * unat qps div 1000000"
    using div_mult_mult1 [of "1000 :: nat" "unat el * unat qps" 1000000] by (simp add: mult.commute)
  then have "unat (add_milli el qps) = unat el * unat qps div 1000000"
    using assms by (simp add: unat_add_milli)
  moreover have "unat v + unat el * unat qps div 1000000 < 2 ^ 64"
    using assms calculation \<open>unat el * unat qps * 1000 div 1000000000 = _\<close> by simp
  ultimately show ?thesis
    by (simp add: add_capped_def unat_min_word unat_add_no_wrap)
qed

section \<open>Properties\<close>

text \<open>
  C1. However threads interleave, whatever stale values relaxed loads return and whichever weak
  compare-exchanges fail, a bucket never grants more queries than its burst plus the configured
  rate times the time on its clock, never forgives more NXDOMAIN answers than twice the NXDOMAIN
  rate plus that rate times the time on its clock, and neither budget exceeds its capacity.
\<close>

theorem no_over_admission:
  assumes "(cstep c)\<^sup>*\<^sup>* (contended_start c t0 n) s"
  shows "admitted s * 10 ^ 9 \<le> unat (bc_burst c) * 10 ^ 9
           + unat (bc_qps c) * (unat (last_refill_ns (shared s)) - unat t0) \<and>
         charged s * 10 ^ 9 \<le> 2 * unat (bc_nx_qps c) * 10 ^ 9
           + unat (bc_nx_qps c) * (unat (last_refill_ns (shared s)) - unat t0) \<and>
         unat (tokens_milli (shared s)) \<le> unat (bc_burst c) * 1000 \<and>
         unat (nxdomain_tokens_milli (shared s)) \<le> unat (bc_nx_qps c) * 2000"
proof (intro conjI)
  show "admitted s * 10 ^ 9 \<le> unat (bc_burst c) * 10 ^ 9
      + unat (bc_qps c) * (unat (last_refill_ns (shared s)) - unat t0)"
    using general_budget.spent_bound [OF assms contended_start_ok]
    by (simp add: contended_start_simps del: One_nat_def)
  show "charged s * 10 ^ 9 \<le> 2 * unat (bc_nx_qps c) * 10 ^ 9
      + unat (bc_nx_qps c) * (unat (last_refill_ns (shared s)) - unat t0)"
    using nx_budget.spent_bound [OF assms contended_start_ok]
    by (simp add: contended_start_simps del: One_nat_def)
  have "bucket_ok c (shared s)"
    using general_budget.run_inv [OF assms contended_start_ok] by (simp add: contended_ok_def)
  then show "unat (tokens_milli (shared s)) \<le> unat (bc_burst c) * 1000"
    "unat (nxdomain_tokens_milli (shared s)) \<le> unat (bc_nx_qps c) * 2000"
    by (simp_all add: bucket_ok_def word_le_nat_alt unat_burst_milli unat_nx_burst_milli)
qed

text \<open>A one-thread run on a bucket of one token that grants exactly one query.\<close>

theorem no_over_admission_witness:
  "\<exists>s. (cstep \<lparr>bc_qps = 1, bc_burst = 1, bc_nx_qps = 1\<rparr>)\<^sup>*\<^sup>*
        (contended_start \<lparr>bc_qps = 1, bc_burst = 1, bc_nx_qps = 1\<rparr> 0 1) s \<and>
     admitted s = 1 \<and> admitted s * 10 ^ 9 \<le> 10 ^ 9 + unat (last_refill_ns (shared s))"
proof -
  let ?c = "\<lparr>bc_qps = 1, bc_burst = 1, bc_nx_qps = 1\<rparr>"
  obtain s where run: "(cstep ?c)\<^sup>*\<^sup>* (contended_start ?c 0 1) s" and "admitted s = 1"
    using spend_run [of 0 "contended_start ?c 0 1" ?c Consume 0]
    by (auto simp: contended_start_def run_spend_eq new_bucket_def refill_def MILLI_def)
  then show ?thesis
    using run no_over_admission [OF run] by auto
qed

text \<open>
  A query or an NXDOMAIN charge that meets no contention is a run of the protocol: the
  thread ends with the sequential operation's answer and leaves the sequential bucket behind.
\<close>

lemma uncontended_run:
  assumes "i < length (threads s)" "threads s ! i = Idle"
  shows "\<exists>t. (cstep c)\<^sup>*\<^sup>* s t \<and> shared t = snd (run_spend c op (shared s) now) \<and>
    threads t = (threads s)[i := Done op (fst (run_spend c op (shared s) now))] \<and>
    admitted t = admitted s
      + (if op = Consume \<and> fst (run_spend c op (shared s) now) then 1 else 0) \<and>
    charged t = charged s
      + (if op = Charge_nx \<and> fst (run_spend c op (shared s) now) then 1 else 0)"
  using assms by (rule spend_run)

lemma uncontended_run_witness:
  "\<exists>t. (cstep \<lparr>bc_qps = 1, bc_burst = 1, bc_nx_qps = 1\<rparr>)\<^sup>*\<^sup>*
        (contended_start \<lparr>bc_qps = 1, bc_burst = 1, bc_nx_qps = 1\<rparr> 0 (Suc 1)) t \<and>
     threads t = [Idle, Done Charge_nx True] \<and> charged t = 1 \<and> admitted t = 0"
  using uncontended_run [of 1 "contended_start \<lparr>bc_qps = 1, bc_burst = 1, bc_nx_qps = 1\<rparr> 0 (Suc 1)"
      "\<lparr>bc_qps = 1, bc_burst = 1, bc_nx_qps = 1\<rparr>" Charge_nx 0]
  by (auto simp: contended_start_def run_spend_eq new_bucket_def refill_def nx_burst_milli_def
      MILLI_def NX_BURST_MULTIPLIER_def)

text \<open>
  C31. A refill credits exactly the elapsed time: each budget grows by the elapsed nanoseconds
  times its rate, rounded down to a thousandth of a token, and is capped at its capacity. The
  hypotheses exclude elapsed times and rates whose credit does not fit 64 bits.
\<close>

theorem refill_exact:
  assumes "last_refill_ns b < now"
    and "(unat now - unat (last_refill_ns b)) * unat qps * 1000 div 10 ^ 9
           + unat (tokens_milli b) < 2 ^ 64"
    and "(unat now - unat (last_refill_ns b)) * unat nx_qps * 1000 div 10 ^ 9
           + unat (nxdomain_tokens_milli b) < 2 ^ 64"
  shows "unat (tokens_milli (refill b now qps burst nx_qps)) =
           min (unat (tokens_milli b)
                + (unat now - unat (last_refill_ns b)) * unat qps div 10 ^ 6)
               (unat burst * 1000) \<and>
         unat (nxdomain_tokens_milli (refill b now qps burst nx_qps)) =
           min (unat (nxdomain_tokens_milli b)
                + (unat now - unat (last_refill_ns b)) * unat nx_qps div 10 ^ 6)
               (unat nx_qps * 2000) \<and>
         last_refill_ns (refill b now qps burst nx_qps) = now"
proof -
  have "sat_sub now (last_refill_ns b) \<noteq> 0" using assms(1) by (simp add: sat_sub_pos)
  then show ?thesis
    using assms(2,3)
    by (simp add: refill_def Let_def refill_value unat_burst_milli unat_nx_burst_milli)
qed

theorem refill_exact_witness:
  "unat (tokens_milli (refill (new_bucket 0 50 0) 2000000 1000 500 50)) = 2000"
  using refill_exact [of "new_bucket 0 50 0" 2000000 1000 50 500]
  by (simp add: new_bucket_def nx_burst_milli_def MILLI_def NX_BURST_MULTIPLIER_def)

end
