(* ===== verification/Ip_Addr.thy ===== *)
theory Ip_Addr
  imports Prelude
begin

text \<open>
  IP addresses (\<open>std::net::IpAddr\<close>) as the source uses them: an IPv4 address is its 32-bit
  value (\<open>u32::from\<close>), an IPv6 address its 128-bit value (\<open>u128::from\<close>). The textual parser is the
  one of the standard library: four decimal octets without leading zeros, or eight
  hexadecimal groups with at most one \<open>::\<close> and an optional embedded IPv4 tail.
\<close>

datatype ip_addr = V4 u32 | V6 u128

section \<open>Bytes of an address\<close>

text \<open>\<open>Ipv6Addr::from([u8; 16])\<close>: big-endian bytes.\<close>

fun be_value :: "bytes \<Rightarrow> nat" where
  "be_value [] = 0"
| "be_value (b # bs) = unat b * 256 ^ length bs + be_value bs"

text \<open>\<open>Ipv6Addr::to_ipv4_mapped\<close>: \<open>::ffff:a.b.c.d\<close> becomes the IPv4 address.\<close>

definition to_ipv4_mapped :: "u128 \<Rightarrow> u32 option" where
  "to_ipv4_mapped a = (if drop_bit 32 a = 0xffff then Some (ucast a) else None)"

lemma be_value_lt: "be_value bs < 256 ^ length bs"
proof (induction bs)
  case (Cons b bs)
  have "unat b * 256 ^ length bs + be_value bs < (unat b + 1) * 256 ^ length bs"
    using Cons.IH by simp
  also have "\<dots> \<le> 256 * 256 ^ length bs"
    using unat_u8_lt [of b] by (intro mult_right_mono) linarith+
  finally show ?case by simp
qed simp

section \<open>The parser of the standard library\<close>

definition to_digit :: "nat \<Rightarrow> char \<Rightarrow> nat option" where
  "to_digit radix c =
    (let n = of_char c :: nat;
         d = (if 48 \<le> n \<and> n \<le> 57 then Some (n - 48)
              else if 97 \<le> n \<and> n \<le> 102 then Some (n - 87)
              else if 65 \<le> n \<and> n \<le> 70 then Some (n - 55) else None)
     in case d of None \<Rightarrow> None | Some v \<Rightarrow> if v < radix then Some v else None)"

definition digits_value :: "nat \<Rightarrow> string \<Rightarrow> nat" where
  "digits_value radix ds = foldl (\<lambda>a c. a * radix + the (to_digit radix c)) 0 ds"

definition read_number :: "nat \<Rightarrow> nat \<Rightarrow> bool \<Rightarrow> nat \<Rightarrow> string \<Rightarrow> (nat \<times> string) option" where
  "read_number radix max_digits allow_zero_prefix limit s =
    (let ds = takeWhile (\<lambda>c. to_digit radix c \<noteq> None) s;
         v = digits_value radix ds
     in if max_digits < length ds \<or> ds = []
           \<or> \<not> allow_zero_prefix \<and> hd ds = CHR ''0'' \<and> 1 < length ds \<or> limit \<le> v
        then None else Some (v, drop (length ds) s))"

definition read_given_char :: "char \<Rightarrow> string \<Rightarrow> string option" where
  "read_given_char c s = (case s of [] \<Rightarrow> None | d # r \<Rightarrow> if d = c then Some r else None)"

definition read_separator ::
  "char \<Rightarrow> nat \<Rightarrow> (string \<Rightarrow> ('a \<times> string) option) \<Rightarrow> string \<Rightarrow> ('a \<times> string) option" where
  "read_separator sep i inner s =
    (if 0 < i then (case read_given_char sep s of None \<Rightarrow> None | Some r \<Rightarrow> inner r) else inner s)"

fun read_octets :: "nat \<Rightarrow> nat \<Rightarrow> string \<Rightarrow> (nat list \<times> string) option" where
  "read_octets 0 i s = Some ([], s)"
| "read_octets (Suc n) i s =
    (case read_separator CHR ''.'' i (read_number 10 3 False 256) s of
       None \<Rightarrow> None
     | Some (o1, r) \<Rightarrow>
         (case read_octets n (i + 1) r of None \<Rightarrow> None | Some (os, r') \<Rightarrow> Some (o1 # os, r')))"

definition groups_value :: "nat \<Rightarrow> nat list \<Rightarrow> nat" where
  "groups_value base gs = foldl (\<lambda>a g. a * base + g) 0 gs"

definition read_ipv4_addr :: "string \<Rightarrow> (nat \<times> string) option" where
  "read_ipv4_addr s =
    (case read_octets 4 0 s of None \<Rightarrow> None | Some (os, r) \<Rightarrow> Some (groups_value 256 os, r))"

text \<open>\<open>read_groups n i\<close>: at most \<open>n\<close> further groups, the next one having index \<open>i\<close>; yields the
  groups read and whether an embedded IPv4 address ended them.\<close>

fun read_groups :: "nat \<Rightarrow> nat \<Rightarrow> string \<Rightarrow> nat list \<times> bool \<times> string" where
  "read_groups 0 i s = ([], False, s)"
| "read_groups (Suc n) i s =
    (case (if 1 \<le> n then read_separator CHR '':'' i read_ipv4_addr s else None) of
       Some (v4, r) \<Rightarrow> ([v4 div 65536, v4 mod 65536], True, r)
     | None \<Rightarrow>
         (case read_separator CHR '':'' i (read_number 16 4 True 65536) s of
            None \<Rightarrow> ([], False, s)
          | Some (g, r) \<Rightarrow>
              (case read_groups n (i + 1) r of (gs, v4, r') \<Rightarrow> (g # gs, v4, r'))))"

definition read_ipv6_addr :: "string \<Rightarrow> (nat \<times> string) option" where
  "read_ipv6_addr s =
    (case read_groups 8 0 s of (head, head_ipv4, r) \<Rightarrow>
       if length head = 8 then Some (groups_value 65536 head, r)
       else if head_ipv4 then None
       else (case read_given_char CHR '':'' r of
               None \<Rightarrow> None
             | Some r1 \<Rightarrow>
                 (case read_given_char CHR '':'' r1 of
                    None \<Rightarrow> None
                  | Some r2 \<Rightarrow>
                      (case read_groups (8 - (length head + 1)) 0 r2 of (tail, _, r3) \<Rightarrow>
                         Some (groups_value 65536
                           (head @ replicate (8 - length head - length tail) 0 @ tail), r3)))))"

text \<open>\<open>str::parse::<IpAddr>()\<close>.\<close>

definition parse_ip :: "string \<Rightarrow> ip_addr option" where
  "parse_ip s =
    (case read_ipv4_addr s of
       Some (v, r) \<Rightarrow> if r = [] then Some (V4 (word_of_nat v)) else None
     | None \<Rightarrow>
         (case read_ipv6_addr s of
            Some (v, r) \<Rightarrow> if r = [] then Some (V6 (word_of_nat v)) else None
          | None \<Rightarrow> None))"

text \<open>\<open>str::parse::<u32>()\<close>: an optional \<open>+\<close>, then decimal digits, within the range.\<close>

definition parse_u32 :: "string \<Rightarrow> u32 option" where
  "parse_u32 s =
    (let ds = (case s of c # r \<Rightarrow> if c = CHR ''+'' \<and> r \<noteq> [] then r else s | [] \<Rightarrow> [])
     in if ds = [] \<or> list_ex (\<lambda>c. to_digit 10 c = None) ds \<or> 2 ^ 32 \<le> digits_value 10 ds
        then None else Some (word_of_nat (digits_value 10 ds)))"

text \<open>\<open>str::split_once(c)\<close>: the parts before and after the first \<open>c\<close>.\<close>

definition split_once :: "char \<Rightarrow> string \<Rightarrow> (string \<times> string) option" where
  "split_once c s =
    (if c \<in> set s then Some (takeWhile (\<lambda>d. d \<noteq> c) s, tl (dropWhile (\<lambda>d. d \<noteq> c) s)) else None)"

lemma split_once_Some:
  "split_once c s = Some (a, b) \<longleftrightarrow> s = a @ c # b \<and> c \<notin> set a"
proof
  assume "split_once c s = Some (a, b)"
  then have c: "c \<in> set s" and a: "a = takeWhile (\<lambda>d. d \<noteq> c) s"
    and b: "b = tl (dropWhile (\<lambda>d. d \<noteq> c) s)"
    by (auto simp: split_once_def split: if_splits)
  from c have ne: "dropWhile (\<lambda>d. d \<noteq> c) s \<noteq> []" by (auto simp: dropWhile_eq_Nil_conv)
  then have "dropWhile (\<lambda>d. d \<noteq> c) s = c # b"
    using hd_dropWhile [OF ne] b by (cases "dropWhile (\<lambda>d. d \<noteq> c) s") auto
  then show "s = a @ c # b \<and> c \<notin> set a"
    unfolding a by (metis takeWhile_dropWhile_id set_takeWhileD)
next
  assume "s = a @ c # b \<and> c \<notin> set a"
  then show "split_once c s = Some (a, b)"
    by (auto simp: split_once_def takeWhile_append dropWhile_append)
qed

end
