(* ===== verification/Client_Subnet.thy ===== *)
theory Client_Subnet
  imports Ip_Addr
begin

text \<open>
  How the rate limiter groups and exempts clients: the 64-bit bucket key of an address
  (\<open>rate_limiter/subnet_key.rs\<close>) and the CIDR whitelist (\<open>rate_limiter/whitelist_set.rs\<close>).
\<close>

section \<open>Subnet keys\<close>

type_synonym subnet_key = u64

definition V6_TAG :: u64 where "V6_TAG = push_bit 63 1"

record subnet_grouping =
  v4_shift :: nat
  v6_shift :: nat
  v6_mask :: u64

definition new_grouping :: "u8 \<Rightarrow> u8 \<Rightarrow> subnet_grouping" where
  "new_grouping v4_prefix v6_prefix =
    (let p6 = min (unat v6_prefix) 64
     in \<lparr>v4_shift = 32 - min (unat v4_prefix) 32,
         v6_shift = min (64 - p6) 63,
         v6_mask = (if p6 = 0 then 0 else - 1)\<rparr>)"

definition key :: "subnet_grouping \<Rightarrow> ip_addr \<Rightarrow> subnet_key" where
  "key g ip =
    (case ip of
       V4 a \<Rightarrow> drop_bit (v4_shift g) (ucast a)
     | V6 a \<Rightarrow> (let high = ucast (drop_bit 64 a) :: u64
               in (drop_bit (v6_shift g) high AND v6_mask g) OR V6_TAG))"

section \<open>The whitelist\<close>

record whitelist_set =
  v4_entries :: "(u32 \<times> u32) list"
  v6_entries :: "(u128 \<times> u128) list"

text \<open>\<open>MAX.checked_shl(width.saturating_sub(prefix_len)).unwrap_or(0)\<close>.\<close>

definition prefix_mask :: "u32 \<Rightarrow> 'a::len word" where
  "prefix_mask prefix_len =
    (let k = LENGTH('a) - unat prefix_len in if k < LENGTH('a) then push_bit k (- 1) else 0)"

definition push_v4 :: "u32 \<times> u32 \<Rightarrow> whitelist_set \<Rightarrow> whitelist_set" where
  "push_v4 e ws = ws\<lparr>v4_entries := v4_entries ws @ [e]\<rparr>"

definition push_v6 :: "u128 \<times> u128 \<Rightarrow> whitelist_set \<Rightarrow> whitelist_set" where
  "push_v6 e ws = ws\<lparr>v6_entries := v6_entries ws @ [e]\<rparr>"

definition add_cidr :: "whitelist_set \<Rightarrow> string \<Rightarrow> whitelist_set" where
  "add_cidr ws cidr =
    (case split_once CHR ''/'' cidr of
       Some (addr_str, prefix_str) \<Rightarrow>
         (case parse_u32 prefix_str of
            None \<Rightarrow> ws
          | Some prefix_len \<Rightarrow>
              (case parse_ip addr_str of
                 Some (V4 bits) \<Rightarrow>
                   (let mask = prefix_mask prefix_len in push_v4 (bits AND mask, mask) ws)
               | Some (V6 bits) \<Rightarrow>
                   (let mask = prefix_mask prefix_len in push_v6 (bits AND mask, mask) ws)
               | None \<Rightarrow> ws))
     | None \<Rightarrow>
         (case parse_ip cidr of
            Some (V4 bits) \<Rightarrow> push_v4 (bits, - 1) ws
          | Some (V6 bits) \<Rightarrow> push_v6 (bits, - 1) ws
          | None \<Rightarrow> ws))"

definition from_cidrs :: "string list \<Rightarrow> whitelist_set" where
  "from_cidrs cidrs = foldl add_cidr \<lparr>v4_entries = [], v6_entries = []\<rparr> cidrs"

definition contains :: "whitelist_set \<Rightarrow> ip_addr \<Rightarrow> bool" where
  "contains ws ip =
    (case ip of
       V4 bits \<Rightarrow> list_ex (\<lambda>(masked_addr, mask). bits AND mask = masked_addr) (v4_entries ws)
     | V6 bits \<Rightarrow> list_ex (\<lambda>(masked_addr, mask). bits AND mask = masked_addr) (v6_entries ws))"

section \<open>What the whitelist means\<close>

text \<open>
  The reading of an entry independent of masks: an address and how many of its leading bits
  count, all of them for an entry without a prefix length.
\<close>

definition parse_cidr :: "string \<Rightarrow> (ip_addr \<times> nat) option" where
  "parse_cidr cidr =
    (case split_once CHR ''/'' cidr of
       Some (addr_str, prefix_str) \<Rightarrow>
         (case (parse_u32 prefix_str, parse_ip addr_str) of
            (Some p, Some ip) \<Rightarrow> Some (ip, unat p)
          | _ \<Rightarrow> None)
     | None \<Rightarrow> map_option (\<lambda>ip. (ip, 128)) (parse_ip cidr))"

fun in_net :: "ip_addr \<Rightarrow> ip_addr \<times> nat \<Rightarrow> bool" where
  "in_net (V4 a) (V4 net, p) \<longleftrightarrow> drop_bit (32 - p) a = drop_bit (32 - p) net"
| "in_net (V6 a) (V6 net, p) \<longleftrightarrow> drop_bit (128 - p) a = drop_bit (128 - p) net"
| "in_net _ _ \<longleftrightarrow> False"

section \<open>Masks and shifts\<close>

lemma prefix_mask_eq: "prefix_mask p = (push_bit (LENGTH('a) - unat p) (- 1) :: 'a::len word)"
  by (rule bit_eqI) (simp add: prefix_mask_def Let_def bit_simps)

lemma masked_eq_iff:
  "(a AND prefix_mask p = b AND prefix_mask p) \<longleftrightarrow>
    drop_bit (LENGTH('a) - unat p) a = drop_bit (LENGTH('a) - unat p) (b :: 'a::len word)"
  by (simp only: prefix_mask_eq and_prefix_eq_iff)

lemma contains_push [simp]:
  "contains (push_v4 e ws) (V4 a) \<longleftrightarrow> contains ws (V4 a) \<or> a AND snd e = fst e"
  "contains (push_v4 e ws) (V6 b) \<longleftrightarrow> contains ws (V6 b)"
  "contains (push_v6 f ws) (V6 b) \<longleftrightarrow> contains ws (V6 b) \<or> b AND snd f = fst f"
  "contains (push_v6 f ws) (V4 a) \<longleftrightarrow> contains ws (V4 a)"
  by (auto simp: contains_def push_v4_def push_v6_def case_prod_unfold)

lemma contains_add_cidr:
  "contains (add_cidr ws cidr) ip \<longleftrightarrow>
    contains ws ip \<or> (case parse_cidr cidr of None \<Rightarrow> False | Some net \<Rightarrow> in_net ip net)"
  by (cases ip)
    (auto simp: add_cidr_def parse_cidr_def Let_def masked_eq_iff
      split: option.splits ip_addr.splits)

lemma contains_foldl:
  "contains (foldl add_cidr ws cidrs) ip \<longleftrightarrow>
    contains ws ip \<or>
    (\<exists>cidr\<in>set cidrs. case parse_cidr cidr of None \<Rightarrow> False | Some net \<Rightarrow> in_net ip net)"
  by (induction cidrs arbitrary: ws) (auto simp: contains_add_cidr)

lemma grouping_simps:
  "v4_shift (new_grouping p4 p6) = 32 - unat p4"
  "v6_shift (new_grouping p4 p6) = min (64 - min (unat p6) 64) 63"
  "v6_mask (new_grouping p4 p6) = (if unat p6 = 0 then 0 else - 1)"
  by (auto simp: new_grouping_def Let_def)

lemma unat_key_V4: "unat (key g (V4 a)) = unat a div 2 ^ v4_shift g"
  by (simp add: key_def unat_drop_bit unat_ucast_up)

lemma bit_V6_TAG: "bit V6_TAG n \<longleftrightarrow> n = 63"
  unfolding V6_TAG_def bit_push_bit_iff by auto

lemma or_V6_TAG_eq_iff: "x OR V6_TAG = y OR V6_TAG \<longleftrightarrow> take_bit 63 x = take_bit 63 y"
proof -
  have split: "possible_bit TYPE(64 word) n \<longleftrightarrow> n < 63 \<or> n = 63" for n :: nat by auto
  have "x OR V6_TAG = y OR V6_TAG \<longleftrightarrow> (\<forall>n < 63. bit x n = bit y n)"
    unfolding bit_eq_iff [of "x OR V6_TAG"] bit_or_iff bit_V6_TAG split by auto
  moreover have "take_bit 63 x = take_bit 63 y \<longleftrightarrow> (\<forall>n < 63. bit x n = bit y n)"
    unfolding bit_eq_iff [of "take_bit 63 x"] bit_take_bit_iff split by auto
  ultimately show ?thesis by blast
qed

lemma unat_high: "unat (ucast (drop_bit 64 (a :: u128)) :: u64) = unat a div 2 ^ 64"
proof -
  have "unat a < 2 ^ 128" using unsigned_less [where ?'a = nat, of a] by simp
  then have "unat a div 2 ^ 64 < 2 ^ 64" by (simp add: less_mult_imp_div_less)
  then show ?thesis by (simp add: unsigned_ucast_eq unat_drop_bit take_bit_nat_eq_self)
qed

lemma drop_bit_eq_iff_div:
  "drop_bit k a = drop_bit k b \<longleftrightarrow> unat a div 2 ^ k = unat b div 2 ^ k" for a b :: "'a::len word"
  by (simp add: word_unat_eq_iff unat_drop_bit)

lemma key_V6_eq:
  assumes "0 < unat p6" "unat p6 < 64"
  shows "unat (take_bit 63 (drop_bit (v6_shift (new_grouping p4 p6)) (ucast (drop_bit 64 (c :: u128)) :: u64)
      AND v6_mask (new_grouping p4 p6))) = unat c div 2 ^ (128 - unat p6)"
proof -
  have s: "v6_shift (new_grouping p4 p6) = 64 - unat p6" using assms by (simp add: grouping_simps)
  have "unat c < 2 ^ 128" using unsigned_less [where ?'a = nat, of c] by simp
  then have "unat c < 2 ^ (128 - unat p6) * 2 ^ unat p6"
    using assms by (simp only: power_add [symmetric])  simp
  then have "unat c div 2 ^ (128 - unat p6) < 2 ^ unat p6" by (simp add: less_mult_imp_div_less mult.commute)
  also have "\<dots> \<le> 2 ^ 63" using assms by (intro power_increasing) simp_all
  finally have lt: "unat c div 2 ^ (128 - unat p6) < 2 ^ 63" .
  have "unat c div 2 ^ 64 div 2 ^ (64 - unat p6) = unat c div 2 ^ (128 - unat p6)"
    using assms by (simp only: div_mult2_eq [symmetric] power_add [symmetric]) simp
  with lt show ?thesis
    using assms by (simp add: s grouping_simps(3) unsigned_take_bit_eq unat_drop_bit unat_high take_bit_nat_eq_self)
qed

lemma key_V6_unfold: "key g (V6 c) = (drop_bit (v6_shift g) (ucast (drop_bit 64 c)) AND v6_mask g) OR V6_TAG"
  by (simp add: key_def)

lemma key_V6_eq_iff:
  "key g (V6 c) = key g (V6 d) \<longleftrightarrow>
    unat (take_bit 63 (drop_bit (v6_shift g) (ucast (drop_bit 64 c) :: u64) AND v6_mask g)) =
    unat (take_bit 63 (drop_bit (v6_shift g) (ucast (drop_bit 64 d) :: u64) AND v6_mask g))"
  by (simp only: key_V6_unfold or_V6_TAG_eq_iff flip: word_unat_eq_iff)

lemma key_V6_eq64:
  assumes "64 \<le> unat p6"
  shows "unat (take_bit 63 (drop_bit (v6_shift (new_grouping p4 p6)) (ucast (drop_bit 64 (c :: u128)) :: u64)
      AND v6_mask (new_grouping p4 p6))) = unat (take_bit 63 (drop_bit 64 c))"
proof -
  have "v6_shift (new_grouping p4 p6) = 0" "v6_mask (new_grouping p4 p6) = - 1"
    using assms by (simp_all add: grouping_simps)
  then show ?thesis
    by (simp only: drop_bit_0 id_apply and.right_neutral unsigned_take_bit_eq unat_high unat_drop_bit)
qed

section \<open>Properties\<close>

text \<open>
  The whitelist exempts exactly the addresses inside a well-formed entry: same family and
  the same leading bits. A malformed entry exempts nobody.
\<close>

lemma whitelist_contains_iff:
  "contains (from_cidrs cidrs) ip \<longleftrightarrow>
    (\<exists>cidr net. cidr \<in> set cidrs \<and> parse_cidr cidr = Some net \<and> in_net ip net)"
proof -
  have "\<not> contains \<lparr>v4_entries = [], v6_entries = []\<rparr> ip"
    by (simp add: contains_def split: ip_addr.splits)
  then show ?thesis
    by (fastforce simp: from_cidrs_def contains_foldl split: option.splits)
qed

text \<open>
  Two clients share a bucket exactly when they share the configured prefix. IPv4 and IPv6
  clients never share one, and neither do IPv6 clients of different prefixes, except that a
  prefix of 64 bits or more ignores the first address bit, which holds the family tag.
\<close>

lemma subnet_key_eq_iff:
  "(key (new_grouping p4 p6) (V4 a) = key (new_grouping p4 p6) (V4 b) \<longleftrightarrow>
      drop_bit (32 - unat p4) a = drop_bit (32 - unat p4) b) \<and>
   (unat p6 < 64 \<longrightarrow>
      (key (new_grouping p4 p6) (V6 c) = key (new_grouping p4 p6) (V6 d) \<longleftrightarrow>
       drop_bit (128 - unat p6) c = drop_bit (128 - unat p6) d)) \<and>
   (64 \<le> unat p6 \<longrightarrow>
      (key (new_grouping p4 p6) (V6 c) = key (new_grouping p4 p6) (V6 d) \<longleftrightarrow>
       take_bit 63 (drop_bit 64 c) = take_bit 63 (drop_bit 64 d))) \<and>
   key (new_grouping p4 p6) (V4 a) \<noteq> key (new_grouping p4 p6) (V6 c)"
proof (intro conjI impI)
  let ?g = "new_grouping p4 p6"
  show "key ?g (V4 a) = key ?g (V4 b) \<longleftrightarrow> drop_bit (32 - unat p4) a = drop_bit (32 - unat p4) b"
    by (simp add: word_unat_eq_iff [where 'a = 64] unat_key_V4 drop_bit_eq_iff_div grouping_simps)
  show "key ?g (V6 c) = key ?g (V6 d) \<longleftrightarrow> drop_bit (128 - unat p6) c = drop_bit (128 - unat p6) d"
    if "unat p6 < 64"
  proof (cases "unat p6 = 0")
    case True
    then have "v6_mask ?g = 0" by (simp add: grouping_simps)
    moreover have "unat w div 2 ^ 128 = 0" for w :: u128
      using unsigned_less [where ?'a = nat, of w] by simp
    ultimately show ?thesis
      using True by (simp only: key_V6_eq_iff and_zero_eq diff_zero drop_bit_eq_iff_div simp_thms)
  next
    case False
    then show ?thesis
      using that by (simp only: key_V6_eq_iff key_V6_eq drop_bit_eq_iff_div)
  qed
  show "key ?g (V6 c) = key ?g (V6 d) \<longleftrightarrow> take_bit 63 (drop_bit 64 c) = take_bit 63 (drop_bit 64 d)"
    if "64 \<le> unat p6"
    using that by (simp only: key_V6_eq_iff key_V6_eq64 flip: word_unat_eq_iff)
  have "unat (key ?g (V4 a)) < 2 ^ 63"
    unfolding unat_key_V4
    by (rule le_less_trans [OF div_le_dividend less_trans [OF unat_u32_lt]]) simp
  then have "\<not> bit (unat (key ?g (V4 a))) 63"
    by (simp only: bit_iff_odd div_less) simp
  then have "\<not> bit (key ?g (V4 a)) 63"
    by (simp only: bit_unsigned_iff) simp
  moreover have "bit (key ?g (V6 c)) 63" by (simp only: key_V6_unfold bit_or_iff bit_V6_TAG simp_thms)
  ultimately show "key ?g (V4 a) \<noteq> key ?g (V6 c)" by metis
qed
lemma subnet_key_eq_iff_witness:
  "key (new_grouping 24 56) (V4 0xC0A8010A) = key (new_grouping 24 56) (V4 0xC0A801C8) \<and>
   key (new_grouping 24 56) (V6 (push_bit 64 0x20010db800abcd00)) =
     key (new_grouping 24 56) (V6 (push_bit 64 0x20010db800abcdff)) \<and>
   key (new_grouping 24 64) (V6 (push_bit 64 1)) = key (new_grouping 24 64) (V6 (push_bit 127 1 OR push_bit 64 1))"
  using subnet_key_eq_iff [of 24 56 "0xC0A8010A" "0xC0A801C8" "push_bit 64 0x20010db800abcd00"
      "push_bit 64 0x20010db800abcdff"]
    subnet_key_eq_iff [of 24 64 0 0 "push_bit 64 1" "push_bit 127 1 OR push_bit 64 1"]
  by simp

end
