(* ===== verification/Rate_Limiter.thy ===== *)
theory Rate_Limiter
  imports Domain_Types Token_Bucket Client_Subnet
begin

text \<open>
  The rate limiter (\<open>use_cases/dns/rate_limiter/mod.rs\<close>): one bucket map for UDP and one
  for the stream transports, keyed by client subnet; a general budget per query, an
  NXDOMAIN budget per negative answer, and the configured action for what is over budget.
  Every operation returns the limiter it leaves behind; the clock reading is an argument.
\<close>

section \<open>Configuration and state\<close>

record rate_limit_config =
  cfg_enabled :: bool
  queries_per_second :: u32
  burst_size :: u32
  ipv4_prefix_len :: u8
  ipv6_prefix_len :: u8
  cfg_whitelist :: "string list"
  nxdomain_per_second :: u32
  cfg_slip_ratio :: u32
  cfg_dry_run :: bool
  stale_entry_ttl_secs :: u64
  tcp_max_connections_per_ip :: u32
  dot_max_connections_per_ip :: u32
  doq_max_connections_per_ip :: u32

definition default_rate_limit_config :: rate_limit_config where
  "default_rate_limit_config =
    \<lparr>cfg_enabled = False, queries_per_second = 1000, burst_size = 500, ipv4_prefix_len = 24,
     ipv6_prefix_len = 48, cfg_whitelist = [], nxdomain_per_second = 50, cfg_slip_ratio = 0,
     cfg_dry_run = False, stale_entry_ttl_secs = 300, tcp_max_connections_per_ip = 30,
     dot_max_connections_per_ip = 15, doq_max_connections_per_ip = 15\<rparr>"

datatype rate_limit_decision = Allow | Refuse | Slip | DryRunWouldRefuse

type_synonym buckets = "subnet_key \<rightharpoonup> token_bucket"

record dns_rate_limiter =
  enabled :: bool
  dry_run :: bool
  qps :: u32
  burst :: u32
  nx_qps :: u32
  grouping :: subnet_grouping
  slip_ratio :: u32
  stale_ttl_ns :: u64
  whitelist :: whitelist_set
  udp_buckets :: buckets
  stream_buckets :: buckets
  slip_counter :: u64

definition new_limiter :: "rate_limit_config \<Rightarrow> dns_rate_limiter" where
  "new_limiter config =
    \<lparr>enabled = cfg_enabled config, dry_run = cfg_dry_run config,
     qps = queries_per_second config, burst = burst_size config,
     nx_qps = nxdomain_per_second config,
     grouping = new_grouping (ipv4_prefix_len config) (ipv6_prefix_len config),
     slip_ratio = cfg_slip_ratio config,
     stale_ttl_ns = sat_mul (stale_entry_ttl_secs config) 1000000000,
     whitelist = from_cidrs (cfg_whitelist config),
     udp_buckets = Map.empty, stream_buckets = Map.empty, slip_counter = 0\<rparr>"

definition disabled_limiter :: dns_rate_limiter where
  "disabled_limiter =
    \<lparr>enabled = False, dry_run = False, qps = 0, burst = 0, nx_qps = 0,
     grouping = new_grouping 24 56, slip_ratio = 0, stale_ttl_ns = 0,
     whitelist = from_cidrs [], udp_buckets = Map.empty, stream_buckets = Map.empty,
     slip_counter = 0\<rparr>"

section \<open>Operations\<close>

definition over_budget :: "dns_rate_limiter \<Rightarrow> bool \<Rightarrow> rate_limit_decision \<times> dns_rate_limiter" where
  "over_budget l stream =
    (if dry_run l then (DryRunWouldRefuse, l)
     else if 0 < slip_ratio l \<and> \<not> stream then
       (let count = slip_counter l; l1 = l\<lparr>slip_counter := count + 1\<rparr>
        in if count mod ucast (slip_ratio l) = 0 then (Slip, l1) else (Refuse, l1))
     else (Refuse, l))"

definition buckets_of :: "bool \<Rightarrow> dns_rate_limiter \<Rightarrow> buckets" where
  "buckets_of stream l = (if stream then stream_buckets l else udp_buckets l)"

definition put_bucket ::
  "bool \<Rightarrow> subnet_key \<Rightarrow> token_bucket \<Rightarrow> dns_rate_limiter \<Rightarrow> dns_rate_limiter" where
  "put_bucket stream k b l =
    (if stream then l\<lparr>stream_buckets := (stream_buckets l)(k \<mapsto> b)\<rparr>
     else l\<lparr>udp_buckets := (udp_buckets l)(k \<mapsto> b)\<rparr>)"

definition is_stream_request :: "client_protocol option \<Rightarrow> bool" where
  "is_stream_request protocol = (case protocol of None \<Rightarrow> False | Some p \<Rightarrow> is_stream p)"

text \<open>\<open>entry(key).or_insert_with(...)\<close>: the bucket spent from, created full on first use.\<close>

definition entry :: "dns_rate_limiter \<Rightarrow> bool \<Rightarrow> subnet_key \<Rightarrow> u64 \<Rightarrow> token_bucket" where
  "entry l stream k now_ns =
    (case buckets_of stream l k of
       Some b \<Rightarrow> b | None \<Rightarrow> new_bucket (burst l) (nx_qps l) now_ns)"

definition spend ::
  "dns_rate_limiter \<Rightarrow> ip_addr \<Rightarrow> client_protocol option \<Rightarrow> u64
   \<Rightarrow> (token_bucket \<Rightarrow> u64 \<Rightarrow> bool \<times> token_bucket) \<Rightarrow> rate_limit_decision \<times> dns_rate_limiter" where
  "spend l client_ip protocol now_ns try_spend =
    (let stream = is_stream_request protocol;
         k = key (grouping l) client_ip;
         (covered, b) = try_spend (entry l stream k now_ns) now_ns;
         l1 = put_bucket stream k b l
     in if covered then (Allow, l1) else over_budget l1 stream)"

definition check ::
  "dns_rate_limiter \<Rightarrow> ip_addr \<Rightarrow> client_protocol option \<Rightarrow> u64
   \<Rightarrow> rate_limit_decision \<times> dns_rate_limiter" where
  "check l client_ip protocol now_ns =
    (if \<not> enabled l then (Allow, l)
     else if contains (whitelist l) client_ip then (Allow, l)
     else spend l client_ip protocol now_ns (\<lambda>b now. try_consume b now (qps l) (burst l) (nx_qps l)))"

definition limits_nxdomain :: "dns_rate_limiter \<Rightarrow> bool" where
  "limits_nxdomain l \<longleftrightarrow> enabled l \<and> 0 < nx_qps l"

definition charge_nxdomain ::
  "dns_rate_limiter \<Rightarrow> ip_addr \<Rightarrow> client_protocol option \<Rightarrow> u64
   \<Rightarrow> rate_limit_decision \<times> dns_rate_limiter" where
  "charge_nxdomain l client_ip protocol now_ns =
    (if \<not> limits_nxdomain l then (Allow, l)
     else if contains (whitelist l) client_ip then (Allow, l)
     else spend l client_ip protocol now_ns
       (\<lambda>b now. try_charge_nxdomain b now (qps l) (burst l) (nx_qps l)))"

definition is_allowed_enabled :: "dns_rate_limiter \<Rightarrow> ip_addr \<Rightarrow> bool" where
  "is_allowed_enabled l client_ip \<longleftrightarrow>
    contains (whitelist l) client_ip \<or>
    (case udp_buckets l (key (grouping l) client_ip) of
       Some b \<Rightarrow> has_tokens b | None \<Rightarrow> True)"

definition is_allowed :: "dns_rate_limiter \<Rightarrow> ip_addr \<Rightarrow> bool" where
  "is_allowed l client_ip \<longleftrightarrow> \<not> enabled l \<or> is_allowed_enabled l client_ip"

text \<open>One tick of the eviction task, which runs only when limiting is on and has a TTL.\<close>

definition retain_fresh :: "u64 \<Rightarrow> u64 \<Rightarrow> buckets \<Rightarrow> buckets" where
  "retain_fresh ttl now_ns m =
    (\<lambda>k. case m k of
       Some b \<Rightarrow> if sat_sub now_ns (last_refill_ns b) < ttl then Some b else None
     | None \<Rightarrow> None)"

definition evict_tick :: "dns_rate_limiter \<Rightarrow> u64 \<Rightarrow> dns_rate_limiter" where
  "evict_tick l now_ns =
    (if \<not> enabled l \<or> stale_ttl_ns l = 0 then l
     else l\<lparr>udp_buckets := retain_fresh (stale_ttl_ns l) now_ns (udp_buckets l),
            stream_buckets := retain_fresh (stale_ttl_ns l) now_ns (stream_buckets l)\<rparr>)"

section \<open>Sequences of requests\<close>

datatype request = Check ip_addr "client_protocol option" u64
  | Charge ip_addr "client_protocol option" u64

fun request_time :: "request \<Rightarrow> u64" where
  "request_time (Check ip p now) = now"
| "request_time (Charge ip p now) = now"

fun serve :: "dns_rate_limiter \<Rightarrow> request \<Rightarrow> rate_limit_decision \<times> dns_rate_limiter" where
  "serve l (Check ip p now) = check l ip p now"
| "serve l (Charge ip p now) = charge_nxdomain l ip p now"

fun serve_all :: "dns_rate_limiter \<Rightarrow> request list \<Rightarrow> rate_limit_decision list \<times> dns_rate_limiter" where
  "serve_all l [] = ([], l)"
| "serve_all l (r # rs) =
    (let (d, l1) = serve l r; (ds, l2) = serve_all l1 rs in (d # ds, l2))"

text \<open>A query of a limited client of one subnet over one kind of transport.\<close>

fun query_of :: "dns_rate_limiter \<Rightarrow> bool \<Rightarrow> subnet_key \<Rightarrow> request \<Rightarrow> bool" where
  "query_of l stream k (Check ip p now) \<longleftrightarrow> \<not> contains (whitelist l) ip
     \<and> is_stream_request p = stream \<and> key (grouping l) ip = k"
| "query_of l stream k (Charge ip p now) \<longleftrightarrow> False"

definition allowed_count ::
  "dns_rate_limiter \<Rightarrow> bool \<Rightarrow> subnet_key \<Rightarrow> request list \<Rightarrow> rate_limit_decision list \<Rightarrow> nat" where
  "allowed_count l stream k rs ds =
    length (filter (\<lambda>(r, d). query_of l stream k r \<and> d = Allow) (zip rs ds))"

text \<open>The configuration of a limiter: what no operation changes.\<close>

definition same_config :: "dns_rate_limiter \<Rightarrow> dns_rate_limiter \<Rightarrow> bool" where
  "same_config l l' \<longleftrightarrow> enabled l' = enabled l \<and> dry_run l' = dry_run l \<and> qps l' = qps l
     \<and> burst l' = burst l \<and> nx_qps l' = nx_qps l \<and> grouping l' = grouping l
     \<and> slip_ratio l' = slip_ratio l \<and> stale_ttl_ns l' = stale_ttl_ns l
     \<and> whitelist l' = whitelist l"

text \<open>
  One request as seen by one subnet's budget: the limiter moves, and the count of granted
  queries of that subnet grows by one when such a query is allowed.
\<close>

definition lstep ::
  "u64 \<Rightarrow> u64 \<Rightarrow> bool \<Rightarrow> subnet_key \<Rightarrow> dns_rate_limiter \<times> nat \<Rightarrow> dns_rate_limiter \<times> nat \<Rightarrow> bool" where
  "lstep lo hi stream k = (\<lambda>(l, n) (l', n').
    \<exists>r. lo \<le> request_time r \<and> request_time r \<le> hi \<and> l' = snd (serve l r) \<and>
      n' = n + (if query_of l stream k r \<and> fst (serve l r) = Allow then 1 else 0))"

definition budget_level :: "bool \<Rightarrow> subnet_key \<Rightarrow> dns_rate_limiter \<Rightarrow> nat" where
  "budget_level stream k l =
    (case buckets_of stream l k of
       Some b \<Rightarrow> unat (tokens_milli b) * 10 ^ 6 | None \<Rightarrow> unat (burst l) * 10 ^ 9)"

definition budget_clock :: "u64 \<Rightarrow> bool \<Rightarrow> subnet_key \<Rightarrow> dns_rate_limiter \<Rightarrow> nat" where
  "budget_clock lo stream k l =
    (case buckets_of stream l k of Some b \<Rightarrow> unat (last_refill_ns b) | None \<Rightarrow> unat lo)"

definition budget_ok :: "dns_rate_limiter \<Rightarrow> u64 \<Rightarrow> u64 \<Rightarrow> bool \<Rightarrow> subnet_key \<Rightarrow> dns_rate_limiter \<Rightarrow> bool" where
  "budget_ok l0 lo hi stream k l \<longleftrightarrow> same_config l0 l \<and> enabled l \<and> lo \<le> hi \<and>
    (case buckets_of stream l k of
       Some b \<Rightarrow> lo \<le> last_refill_ns b \<and> last_refill_ns b \<le> hi | None \<Rightarrow> True)"

text \<open>Several responses over budget in a row.\<close>

fun over_budgets :: "dns_rate_limiter \<Rightarrow> bool \<Rightarrow> nat \<Rightarrow> rate_limit_decision list" where
  "over_budgets l stream 0 = []"
| "over_budgets l stream (Suc n) =
    (let (d, l1) = over_budget l stream in d # over_budgets l1 stream n)"

section \<open>What a request leaves alone\<close>

lemma same_config_refl [simp]: "same_config l l"
  by (simp add: same_config_def)

lemma same_config_trans: "same_config l l' \<Longrightarrow> same_config l' l'' \<Longrightarrow> same_config l l''"
  by (simp add: same_config_def)

lemma over_budget_frame:
  "same_config l (snd (over_budget l stream))"
  "buckets_of s (snd (over_budget l stream)) = buckets_of s l"
  by (auto simp: over_budget_def same_config_def buckets_of_def Let_def)

lemma put_bucket_frame:
  "same_config l (put_bucket stream k b l)"
  "buckets_of s (put_bucket stream k b l) k' =
     (if s = stream \<and> k' = k then Some b else buckets_of s l k')"
  by (auto simp: put_bucket_def same_config_def buckets_of_def)

lemma same_config_put: "same_config (put_bucket stream k b l) l' \<Longrightarrow> same_config l l'"
  using put_bucket_frame(1) same_config_trans by blast

lemma over_budget_not_Allow: "fst (over_budget l stream) \<noteq> Allow"
  by (simp add: over_budget_def Let_def)

lemma over_budget_put_bucket:
  "fst (over_budget (put_bucket stream k b l) s) = fst (over_budget l s)"
  "slip_counter (snd (over_budget (put_bucket stream k b l) s)) = slip_counter (snd (over_budget l s))"
  "slip_counter (put_bucket stream k b l) = slip_counter l"
  by (simp_all add: over_budget_def put_bucket_def Let_def)

lemma spend_eq:
  "spend l ip p now f =
    (let stream = is_stream_request p; k = key (grouping l) ip; res = f (entry l stream k now) now;
         l1 = put_bucket stream k (snd res) l
     in if fst res then (Allow, l1) else over_budget l1 stream)"
  by (simp add: spend_def Let_def case_prod_unfold)

lemma spend_frame:
  "same_config l (snd (spend l ip p now f))"
  "buckets_of s (snd (spend l ip p now f)) k' =
    (if s = is_stream_request p \<and> k' = key (grouping l) ip
     then Some (snd (f (entry l s k' now) now)) else buckets_of s l k')"
  by (auto simp: spend_eq Let_def put_bucket_frame over_budget_frame
      intro: same_config_put over_budget_frame)

lemma spend_decision:
  "fst (spend l ip p now f) =
    (if fst (f (entry l (is_stream_request p) (key (grouping l) ip) now) now) then Allow
     else fst (over_budget l (is_stream_request p)))"
  by (simp add: spend_eq Let_def over_budget_put_bucket)

lemma serve_same_config: "same_config l (snd (serve l r))"
  by (cases r) (simp_all add: check_def charge_nxdomain_def spend_frame)

section \<open>The budget of a subnet\<close>

lemma refill_clock:
  "unat (last_refill_ns (refill b now q bu nx)) = max (unat (last_refill_ns b)) (unat now)"
proof (cases "last_refill_ns b < now")
  case True
  then show ?thesis
    using sat_sub_pos [of now "last_refill_ns b"]
    by (simp add: refill_def Let_def word_less_nat_alt)
next
  case False
  then show ?thesis
    using sat_sub_pos [of now "last_refill_ns b"]
    by (simp add: refill_def Let_def word_less_nat_alt)
qed

lemma refill_balance:
  "unat (tokens_milli (refill b now q bu nx)) * 10 ^ 6 \<le> unat (tokens_milli b) * 10 ^ 6
    + unat q * (unat (last_refill_ns (refill b now q bu nx)) - unat (last_refill_ns b))"
  using refill_amount [of "tokens_milli b" "sat_sub now (last_refill_ns b)" q "ucast bu * MILLI"]
  by (simp add: refill_def Let_def mult.commute)

lemma try_consume_balance:
  "last_refill_ns (snd (try_consume b now q bu nx)) = last_refill_ns (refill b now q bu nx)"
  "unat (tokens_milli (snd (try_consume b now q bu nx))) * 10 ^ 6
     + (if fst (try_consume b now q bu nx) then 10 ^ 9 else 0)
   \<le> unat (tokens_milli b) * 10 ^ 6
     + unat q * (unat (last_refill_ns (refill b now q bu nx)) - unat (last_refill_ns b))"
  using refill_balance [of b now q bu nx]
  by (auto simp: try_consume_def try_decrement_def Let_def word_le_nat_alt word_less_nat_alt
      unat_sub not_less)

lemma try_charge_balance:
  "last_refill_ns (snd (try_charge_nxdomain b now q bu nx)) = last_refill_ns (refill b now q bu nx)"
  "unat (tokens_milli (snd (try_charge_nxdomain b now q bu nx))) * 10 ^ 6
   \<le> unat (tokens_milli b) * 10 ^ 6
     + unat q * (unat (last_refill_ns (refill b now q bu nx)) - unat (last_refill_ns b))"
  using refill_balance [of b now q bu nx]
  by (auto simp: try_charge_nxdomain_def try_decrement_def Let_def)

lemma budget_of_entry:
  "budget_level stream k l = unat (tokens_milli (entry l stream k now)) * 10 ^ 6"
  "budget_clock lo stream k l \<le> unat (last_refill_ns (entry l stream k now)) \<or> \<not> lo \<le> now"
  by (auto simp: budget_level_def budget_clock_def entry_def new_bucket_def unat_burst_milli
      word_le_nat_alt split: option.splits)

lemma entry_within:
  assumes "budget_ok l0 lo hi stream k l" "lo \<le> now" "now \<le> hi"
  shows "lo \<le> last_refill_ns (entry l stream k now) \<and> last_refill_ns (entry l stream k now) \<le> hi"
  using assms by (auto simp: budget_ok_def entry_def new_bucket_def split: option.splits)

lemma spend_elsewhere:
  assumes "\<not> (is_stream_request p = stream \<and> key (grouping l) ip = k)"
  shows "buckets_of stream (snd (spend l ip p now f)) k = buckets_of stream l k"
  using assms by (auto simp: spend_frame)

lemma budget_same:
  assumes "same_config l l'" "buckets_of stream l' k = buckets_of stream l k"
  shows "budget_level stream k l' = budget_level stream k l"
    "budget_clock lo stream k l' = budget_clock lo stream k l"
    "budget_ok l0 lo hi stream k l \<Longrightarrow> budget_ok l0 lo hi stream k l'"
  using assms same_config_trans
  by (auto simp: budget_level_def budget_clock_def budget_ok_def same_config_def split: option.split)

text \<open>
  What an operation on a bucket has to satisfy for the budget to balance: it moves the clock
  as a refill does and pays \<open>cost\<close> out of the level and the refill.
\<close>

lemma spend_budget:
  fixes l ip p now f cost stream k
  defines "l' \<equiv> snd (spend l ip p now f)" and "b \<equiv> entry l stream k now"
  assumes ok: "budget_ok l0 lo hi stream k l" and time: "lo \<le> now" "now \<le> hi"
    and here: "is_stream_request p = stream" "key (grouping l) ip = k"
    and clock: "last_refill_ns (snd (f b now)) = last_refill_ns (refill b now (qps l) (burst l) (nx_qps l))"
    and pays: "unat (tokens_milli (snd (f b now))) * 10 ^ 6 + cost \<le> unat (tokens_milli b) * 10 ^ 6
      + unat (qps l) * (unat (last_refill_ns (snd (f b now))) - unat (last_refill_ns b))"
  shows "budget_ok l0 lo hi stream k l' \<and> budget_clock lo stream k l \<le> budget_clock lo stream k l' \<and>
    budget_level stream k l' + cost \<le> budget_level stream k l
      + unat (qps l) * (budget_clock lo stream k l' - budget_clock lo stream k l)"
proof (intro conjI)
  have b': "buckets_of stream l' k = Some (snd (f b now))"
    unfolding l'_def b_def spend_frame(2) using here by simp
  have adv: "unat (last_refill_ns (snd (f b now))) = max (unat (last_refill_ns b)) (unat now)"
    unfolding clock by (rule refill_clock)
  show "budget_ok l0 lo hi stream k l'"
    using ok time entry_within [OF ok time] adv b' spend_frame(1) [of l ip p now f] same_config_trans
    unfolding budget_ok_def l'_def b_def
    by (auto simp: word_le_nat_alt same_config_def)
  have lo: "budget_clock lo stream k l \<le> unat (last_refill_ns b)"
    using budget_of_entry(2) time(1) unfolding b_def by blast
  with adv b' show "budget_clock lo stream k l \<le> budget_clock lo stream k l'"
    by (simp add: budget_clock_def)
  have "unat (qps l) * (unat (last_refill_ns (snd (f b now))) - unat (last_refill_ns b))
      \<le> unat (qps l) * (budget_clock lo stream k l' - budget_clock lo stream k l)"
    using lo b' by (intro mult_le_mono2) (simp add: budget_clock_def [of lo stream k l'])
  moreover have "budget_level stream k l' = unat (tokens_milli (snd (f b now))) * 10 ^ 6"
    using b' by (simp add: budget_level_def)
  ultimately show "budget_level stream k l' + cost \<le> budget_level stream k l
      + unat (qps l) * (budget_clock lo stream k l' - budget_clock lo stream k l)"
    using pays budget_of_entry(1) [of stream k l now] unfolding b_def by linarith
qed

lemma serve_budget:
  assumes ok: "budget_ok l0 lo hi stream k l" and time: "lo \<le> request_time r" "request_time r \<le> hi"
  shows "budget_ok l0 lo hi stream k (snd (serve l r)) \<and>
    budget_clock lo stream k l \<le> budget_clock lo stream k (snd (serve l r)) \<and>
    budget_level stream k (snd (serve l r))
        + (if query_of l stream k r \<and> fst (serve l r) = Allow then 10 ^ 9 else 0)
      \<le> budget_level stream k l
        + unat (qps l) * (budget_clock lo stream k (snd (serve l r)) - budget_clock lo stream k l)"
proof (cases "\<exists>ip p now. (r = Check ip p now \<or> r = Charge ip p now \<and> limits_nxdomain l) \<and>
    \<not> contains (whitelist l) ip \<and> is_stream_request p = stream \<and> key (grouping l) ip = k")
  case False
  have en: "enabled l" using ok by (simp add: budget_ok_def)
  have "\<not> query_of l stream k r" using False by (cases r) auto
  moreover have "buckets_of stream (snd (serve l r)) k = buckets_of stream l k"
    using False by (cases r) (auto simp: check_def charge_nxdomain_def spend_elsewhere)
  ultimately show ?thesis
    using budget_same [OF serve_same_config] ok by simp
next
  case True
  have en: "enabled l" using ok by (simp add: budget_ok_def)
  from True obtain ip p now where r: "r = Check ip p now \<or> r = Charge ip p now \<and> limits_nxdomain l"
    and here: "\<not> contains (whitelist l) ip" "is_stream_request p = stream" "key (grouping l) ip = k"
    by blast
  from r show ?thesis
  proof
    assume "r = Check ip p now"
    then show ?thesis
      using here en time
        spend_budget [OF ok _ _ here(2,3), of now
          "\<lambda>b now. try_consume b now (qps l) (burst l) (nx_qps l)"
          "if fst (try_consume (entry l stream k now) now (qps l) (burst l) (nx_qps l))
           then 10 ^ 9 else 0"]
        try_consume_balance [of "entry l stream k now" now "qps l" "burst l" "nx_qps l"]
      by (auto simp: check_def spend_decision over_budget_not_Allow)
  next
    assume "r = Charge ip p now \<and> limits_nxdomain l"
    then show ?thesis
      using here en time
        spend_budget [OF ok _ _ here(2,3), of now
          "\<lambda>b now. try_charge_nxdomain b now (qps l) (burst l) (nx_qps l)" 0]
        try_charge_balance [of "entry l stream k now" now "qps l" "burst l" "nx_qps l"]
      by (simp add: charge_nxdomain_def)
  qed
qed

interpretation subnet_budget: metered "lstep lo hi stream k"
  "\<lambda>(l, _). budget_ok l0 lo hi stream k l" "\<lambda>(l, _). budget_level stream k l" "\<lambda>_. 0"
  "\<lambda>(_, n). n * 10 ^ 9" "\<lambda>(l, _). budget_clock lo stream k l" "unat (qps l0)"
  for l0 lo hi stream k
proof unfold_locales
  fix s t
  assume "case s of (l, _) \<Rightarrow> budget_ok l0 lo hi stream k l" and "lstep lo hi stream k s t"
  then obtain l n r where s: "s = (l, n)" and ok: "budget_ok l0 lo hi stream k l"
    and time: "lo \<le> request_time r" "request_time r \<le> hi"
    and t: "t = (snd (serve l r),
      n + (if query_of l stream k r \<and> fst (serve l r) = Allow then 1 else 0))"
    by (cases s; cases t) (auto simp: lstep_def)
  have "qps l = qps l0" using ok by (simp add: budget_ok_def same_config_def)
  note step = serve_budget [OF ok time] this
  show "case t of (l, _) \<Rightarrow> budget_ok l0 lo hi stream k l" using step t by simp
  show "(case s of (l, _) \<Rightarrow> budget_clock lo stream k l) \<le> (case t of (l, _) \<Rightarrow> budget_clock lo stream k l)"
    using step s t by simp
  show "(case t of (l, _) \<Rightarrow> budget_level stream k l) + 0 + (case t of (_, n) \<Rightarrow> n * 10 ^ 9)
    \<le> (case s of (l, _) \<Rightarrow> budget_level stream k l) + 0 + (case s of (_, n) \<Rightarrow> n * 10 ^ 9)
      + unat (qps l0) * ((case t of (l, _) \<Rightarrow> budget_clock lo stream k l)
        - (case s of (l, _) \<Rightarrow> budget_clock lo stream k l))"
    using step s t by (auto split: if_splits)
qed

lemma query_of_same_config: "same_config l l' \<Longrightarrow> query_of l' stream k r = query_of l stream k r"
  by (cases r) (auto simp: same_config_def)

lemma serve_all_run:
  assumes "\<forall>r \<in> set rs. lo \<le> request_time r \<and> request_time r \<le> hi"
  shows "(lstep lo hi stream k)\<^sup>*\<^sup>* (l, n)
    (snd (serve_all l rs), n + allowed_count l stream k rs (fst (serve_all l rs)))"
  using assms
proof (induction rs arbitrary: l n)
  case (Cons r rs)
  let ?l = "snd (serve l r)"
    and ?n = "n + (if query_of l stream k r \<and> fst (serve l r) = Allow then 1 else 0)"
  have count: "allowed_count l stream k rs ds = allowed_count ?l stream k rs ds" for ds
    unfolding allowed_count_def using query_of_same_config [OF serve_same_config] by simp
  have "lstep lo hi stream k (l, n) (?l, ?n)"
    using Cons.prems by (auto simp: lstep_def)
  from converse_rtranclp_into_rtranclp [OF this Cons.IH [of ?l ?n]]
  show ?case
    using Cons.prems
    by (simp add: case_prod_unfold Let_def count [symmetric] add.assoc)
      (auto simp: allowed_count_def)
qed (simp add: allowed_count_def)

lemma over_budget_cases:
  "dry_run l \<Longrightarrow> fst (over_budget l stream) = DryRunWouldRefuse"
  "stream \<or> slip_ratio l = 0 \<Longrightarrow> fst (over_budget l stream) \<noteq> Slip"
  by (auto simp: over_budget_def Let_def)

lemma refill_keeps_tokens:
  assumes "bucket_ok \<lparr>bc_qps = q, bc_burst = bu, bc_nx_qps = nx\<rparr> b"
    and "(unat now - unat (last_refill_ns b)) * unat q * 1000 div 10 ^ 9 + unat bu * 1000 < 2 ^ 64"
  shows "unat (tokens_milli b) \<le> unat (tokens_milli (refill b now q bu nx))"
proof -
  have cap: "unat (tokens_milli b) \<le> unat bu * 1000"
    using assms(1) by (simp add: bucket_ok_def word_le_nat_alt unat_burst_milli)
  then have "(unat now - unat (last_refill_ns b)) * unat q * 1000 div 10 ^ 9
      + unat (tokens_milli b) < 2 ^ 64"
    using assms(2) by linarith
  then show ?thesis
    using cap by (simp add: refill_def Let_def refill_value unat_burst_milli)
qed

section \<open>Properties\<close>

text \<open>
  C2. An enabled limiter answers any sequence of queries and NXDOMAIN charges, from any mix of
  clients and transports, so that the limited clients of one subnet over one kind of transport
  are granted at most the burst plus the configured rate times the time the sequence spans.
\<close>

theorem subnet_admission_bound:
  assumes "cfg_enabled config"
    and "\<forall>r \<in> set rs. lo \<le> request_time r \<and> request_time r \<le> hi" and "lo \<le> hi"
  shows "allowed_count (new_limiter config) stream k rs (fst (serve_all (new_limiter config) rs))
      * 10 ^ 9
    \<le> unat (burst_size config) * 10 ^ 9
      + unat (queries_per_second config) * (unat hi - unat lo)"
proof -
  let ?l = "new_limiter config"
  have start: "budget_ok ?l lo hi stream k ?l"
    "budget_level stream k ?l = unat (burst_size config) * 10 ^ 9"
    "budget_clock lo stream k ?l = unat lo" "qps ?l = queries_per_second config"
    using assms by (simp_all add: budget_ok_def budget_level_def budget_clock_def new_limiter_def
        buckets_of_def)
  note run = serve_all_run [OF assms(2), of stream k ?l 0]
  have "budget_ok ?l lo hi stream k (snd (serve_all ?l rs))"
    using subnet_budget.run_inv [OF run, of ?l] start by simp
  then have "budget_clock lo stream k (snd (serve_all ?l rs)) \<le> unat hi"
    by (auto simp: budget_ok_def budget_clock_def word_le_nat_alt split: option.splits)
  then have "unat (queries_per_second config) * (budget_clock lo stream k (snd (serve_all ?l rs)) - unat lo)
      \<le> unat (queries_per_second config) * (unat hi - unat lo)"
    by (intro mult_le_mono2 diff_le_mono)
  moreover have "allowed_count ?l stream k rs (fst (serve_all ?l rs)) * 10 ^ 9
      \<le> unat (burst_size config) * 10 ^ 9
        + unat (queries_per_second config) * (budget_clock lo stream k (snd (serve_all ?l rs)) - unat lo)"
    using subnet_budget.spent_bound [OF run, of ?l] start by simp
  ultimately show ?thesis by linarith
qed

theorem subnet_admission_bound_witness:
  "allowed_count (new_limiter (default_rate_limit_config\<lparr>cfg_enabled := True, burst_size := 1\<rparr>))
      False 0x7F0000
      [Check (V4 0x7F000001) None 5, Check (V4 0x7F000002) (Some Udp) 6]
      (fst (serve_all (new_limiter (default_rate_limit_config\<lparr>cfg_enabled := True, burst_size := 1\<rparr>))
        [Check (V4 0x7F000001) None 5, Check (V4 0x7F000002) (Some Udp) 6])) * 10 ^ 9
    \<le> 10 ^ 9 + 1000 * 1"
  using subnet_admission_bound
    [where config = "default_rate_limit_config\<lparr>cfg_enabled := True, burst_size := 1\<rparr>"
      and rs = "[Check (V4 0x7F000001) None 5, Check (V4 0x7F000002) (Some Udp) 6]"
      and lo = 5 and hi = 6 and stream = False and k = "0x7F0000"]
  by (simp add: default_rate_limit_config_def)

text \<open>
  Who is never limited and how limiting shows: a disabled limiter and a whitelisted client
  are always allowed and leave no trace; a dry run never refuses or truncates; a stream client
  and a limiter without a slip ratio never see a truncated answer.
\<close>

lemma limiter_exemptions:
  "(\<not> enabled l \<or> contains (whitelist l) ip \<longrightarrow>
      check l ip p now = (Allow, l) \<and> charge_nxdomain l ip p now = (Allow, l)) \<and>
   (dry_run l \<longrightarrow> fst (check l ip p now) \<in> {Allow, DryRunWouldRefuse} \<and>
      fst (charge_nxdomain l ip p now) \<in> {Allow, DryRunWouldRefuse}) \<and>
   (is_stream_request p \<or> slip_ratio l = 0 \<longrightarrow>
      fst (check l ip p now) \<noteq> Slip \<and> fst (charge_nxdomain l ip p now) \<noteq> Slip)"
  using over_budget_cases(1) [of l "is_stream_request p"] over_budget_cases(2) [of "is_stream_request p" l]
  by (auto simp: check_def charge_nxdomain_def limits_nxdomain_def spend_decision split: if_splits)

lemma limiter_exemptions_witness:
  "check disabled_limiter (V4 1) (Some Udp) 7 = (Allow, disabled_limiter) \<and>
   fst (check (new_limiter (default_rate_limit_config\<lparr>cfg_enabled := True, burst_size := 0, cfg_dry_run := True\<rparr>))
     (V4 1) (Some Tcp) 7) \<in> {Allow, DryRunWouldRefuse}"
  using limiter_exemptions [of disabled_limiter "V4 1" "Some Udp" 7]
    limiter_exemptions [of "new_limiter (default_rate_limit_config\<lparr>cfg_enabled := True,
      burst_size := 0, cfg_dry_run := True\<rparr>)" "V4 1" "Some Tcp" 7]
  by (simp add: disabled_limiter_def new_limiter_def)

text \<open>
  Of consecutive UDP responses over budget, exactly those whose number is a multiple of
  the slip ratio are truncated and the others refused, as long as the 64-bit counter does not
  wrap.
\<close>

lemma slip_cadence:
  assumes "\<not> dry_run l" "0 < slip_ratio l" "unat (slip_counter l) + n < 2 ^ 64"
  shows "over_budgets l False n =
    map (\<lambda>i. if (unat (slip_counter l) + i) mod unat (slip_ratio l) = 0 then Slip else Refuse) [0..<n]"
  using assms
proof (induction n arbitrary: l)
  case (Suc n)
  let ?l = "l\<lparr>slip_counter := slip_counter l + 1\<rparr>"
  have next_count: "unat (slip_counter l + 1) = unat (slip_counter l) + 1"
    using Suc.prems(3) by (simp add: unat_add_no_wrap)
  have "slip_counter l mod ucast (slip_ratio l) = 0 \<longleftrightarrow> unat (slip_counter l) mod unat (slip_ratio l) = 0"
    by (simp add: word_unat_eq_iff unat_mod unat_ucast_up)
  then have "over_budget l False =
      (if unat (slip_counter l) mod unat (slip_ratio l) = 0 then Slip else Refuse, ?l)"
    using Suc.prems by (simp add: over_budget_def Let_def)
  moreover have "over_budgets ?l False n =
      map (\<lambda>i. if (unat (slip_counter l) + Suc i) mod unat (slip_ratio l) = 0 then Slip else Refuse) [0..<n]"
    using Suc.IH [of ?l] Suc.prems next_count by simp
  ultimately show ?case
    by (simp add: map_upt_Suc del: upt_Suc)
qed simp

lemma slip_cadence_witness:
  "over_budgets (new_limiter (default_rate_limit_config\<lparr>cfg_slip_ratio := 2\<rparr>)) False 4 =
    [Slip, Refuse, Slip, Refuse]"
  using slip_cadence [of "new_limiter (default_rate_limit_config\<lparr>cfg_slip_ratio := 2\<rparr>)" 4]
  by (simp add: new_limiter_def default_rate_limit_config_def upt_rec)

text \<open>
  Budgets are separate: a request only touches the bucket of its own subnet and kind of
  transport; there a query leaves the NXDOMAIN budget as the refill left it, and an NXDOMAIN
  charge leaves the general budget as the refill left it.
\<close>

lemma budgets_isolated:
  fixes l ip p now
  defines "s0 \<equiv> is_stream_request p" and "k0 \<equiv> key (grouping l) ip"
  shows "((s, k) \<noteq> (s0, k0) \<longrightarrow>
      buckets_of s (snd (check l ip p now)) k = buckets_of s l k \<and>
      buckets_of s (snd (charge_nxdomain l ip p now)) k = buckets_of s l k) \<and>
    (buckets_of s0 (snd (check l ip p now)) k0 = Some b \<and> enabled l \<and> \<not> contains (whitelist l) ip \<longrightarrow>
      nxdomain_tokens_milli b =
        nxdomain_tokens_milli (refill (entry l s0 k0 now) now (qps l) (burst l) (nx_qps l))) \<and>
    (buckets_of s0 (snd (charge_nxdomain l ip p now)) k0 = Some b \<and> limits_nxdomain l
        \<and> \<not> contains (whitelist l) ip \<longrightarrow>
      tokens_milli b = tokens_milli (refill (entry l s0 k0 now) now (qps l) (burst l) (nx_qps l)))"
  unfolding s0_def k0_def
  by (auto simp: check_def charge_nxdomain_def spend_frame try_consume_def try_charge_nxdomain_def
      Let_def case_prod_unfold)

lemma budgets_isolated_witness:
  "buckets_of True (snd (check (new_limiter (default_rate_limit_config\<lparr>cfg_enabled := True\<rparr>))
      (V4 1) (Some Udp) 9)) 0 = None"
  using budgets_isolated [of True 0 "Some Udp"
      "new_limiter (default_rate_limit_config\<lparr>cfg_enabled := True\<rparr>)" "V4 1" 9]
  by (simp add: is_stream_request_def buckets_of_def new_limiter_def)

text \<open>
  The read-only peek of the cache fast path agrees with the authoritative check: a UDP
  client it lets through is allowed by a check at any later clock reading, provided buckets
  are within capacity, the burst is not zero and the refill fits 64 bits.
\<close>

lemma peek_agrees_with_check:
  assumes "is_allowed l ip" "0 < burst l"
    and "\<And>b. udp_buckets l (key (grouping l) ip) = Some b \<Longrightarrow>
      bucket_ok \<lparr>bc_qps = qps l, bc_burst = burst l, bc_nx_qps = nx_qps l\<rparr> b \<and>
      (unat now - unat (last_refill_ns b)) * unat (qps l) * 1000 div 10 ^ 9 + unat (burst l) * 1000 < 2 ^ 64"
  shows "fst (check l ip (Some Udp) now) = Allow"
proof (cases "enabled l \<and> \<not> contains (whitelist l) ip")
  case True
  let ?e = "entry l False (key (grouping l) ip) now"
  have "1000 \<le> unat (tokens_milli (refill ?e now (qps l) (burst l) (nx_qps l)))"
  proof (cases "udp_buckets l (key (grouping l) ip)")
    case None
    then have "refill ?e now (qps l) (burst l) (nx_qps l) = ?e" "unat (tokens_milli ?e) = unat (burst l) * 1000"
      by (simp_all add: entry_def buckets_of_def refill_def new_bucket_def unat_burst_milli)
    then show ?thesis using assms(2) by (simp add: word_less_nat_alt)
  next
    case (Some b)
    then have "has_tokens b"
      using assms(1) True by (auto simp: is_allowed_def is_allowed_enabled_def)
    then show ?thesis
      using Some assms(3) [OF Some] refill_keeps_tokens [of "qps l" "burst l" "nx_qps l" b now]
      by (auto simp: entry_def buckets_of_def has_tokens_def word_le_nat_alt)
  qed
  then show ?thesis
    using True by (simp add: check_def spend_decision is_stream_request_def try_consume_def
        try_decrement_def Let_def word_less_nat_alt)
qed (auto simp: check_def)

lemma peek_agrees_with_check_witness:
  "fst (check (new_limiter (default_rate_limit_config\<lparr>cfg_enabled := True\<rparr>)) (V4 1) (Some Udp) 9) = Allow"
  by (rule peek_agrees_with_check)
    (simp_all add: is_allowed_def is_allowed_enabled_def new_limiter_def default_rate_limit_config_def)

text \<open>
  Evicting an idle bucket is not observable: when the configured idle time refills the
  burst, the bucket created afterwards holds exactly the general budget the evicted bucket
  would have held.
\<close>

lemma eviction_unobservable:
  assumes "udp_buckets l k = Some b" "udp_buckets (evict_tick l now) k = None"
    and "unat (burst l) * 10 ^ 9 \<le> unat (stale_ttl_ns l) * unat (qps l)"
    and "now \<le> now'"
    and "(unat now' - unat (last_refill_ns b)) * unat (qps l) * 1000 div 10 ^ 9
           + unat (tokens_milli b) < 2 ^ 64"
  shows "tokens_milli (refill (entry (evict_tick l now) False k now') now' (qps l) (burst l) (nx_qps l)) =
    tokens_milli (refill b now' (qps l) (burst l) (nx_qps l))"
proof -
  have stale: "stale_ttl_ns l \<le> sat_sub now (last_refill_ns b)" and on: "stale_ttl_ns l \<noteq> 0"
    and cfg: "burst (evict_tick l now) = burst l" "nx_qps (evict_tick l now) = nx_qps l"
    using assms(1,2) by (auto simp: evict_tick_def retain_fresh_def not_less split: if_splits)
  define el where "el = unat now' - unat (last_refill_ns b)"
  have el: "unat (stale_ttl_ns l) \<le> el" "0 < el"
    using stale on assms(4) unfolding el_def
    by (auto simp: word_le_nat_alt unat_gt_0 [symmetric] simp del: unat_gt_0)
  then have "unat (burst l) * 10 ^ 9 \<le> el * unat (qps l)"
    using assms(3) by (meson le_trans mult_le_mono1)
  then have "unat (burst l) * 1000 \<le> el * unat (qps l) div 10 ^ 6"
    using div_le_mono [of "unat (burst l) * 10 ^ 9" _ "10 ^ 6"] by fastforce
  moreover have "last_refill_ns b < now'"
    using el unfolding el_def by (simp add: word_less_nat_alt)
  ultimately have "unat (tokens_milli (refill b now' (qps l) (burst l) (nx_qps l))) = unat (burst l) * 1000"
    using assms(5) sat_sub_pos [of now' "last_refill_ns b"]
    by (simp add: refill_def Let_def refill_value unat_burst_milli el_def)
  moreover have "unat (tokens_milli (refill (entry (evict_tick l now) False k now') now'
      (qps l) (burst l) (nx_qps l))) = unat (burst l) * 1000"
    using assms(2) cfg
    by (simp add: entry_def buckets_of_def refill_def new_bucket_def unat_burst_milli)
  ultimately show ?thesis by (simp add: word_unat_eq_iff)
qed

lemma eviction_unobservable_witness:
  "tokens_milli (refill (entry (evict_tick
      ((new_limiter (default_rate_limit_config\<lparr>cfg_enabled := True\<rparr>))\<lparr>udp_buckets := [5 \<mapsto> new_bucket 3 50 0]\<rparr>)
      300000000000) False 5 300000000000) 300000000000 1000 500 50) =
    tokens_milli (refill (new_bucket 3 50 0) 300000000000 1000 500 50)"
  using eviction_unobservable [of "(new_limiter (default_rate_limit_config\<lparr>cfg_enabled := True\<rparr>))
      \<lparr>udp_buckets := [5 \<mapsto> new_bucket 3 50 0]\<rparr>" 5 "new_bucket 3 50 0" 300000000000 300000000000]
  by (simp add: new_limiter_def default_rate_limit_config_def evict_tick_def retain_fresh_def
      new_bucket_def sat_mul_def sat_sub_def MILLI_def)

end
