(* ===== verification/Wire_Name.thy ===== *)
theory Wire_Name
  imports Prelude "HOL-Library.Monad_Syntax"
begin

text \<open>
  Names and records in wire form (RFC 1035, section 4.1), as \<open>wire_response.rs\<close> walks them:
  skipping a name or a record, decoding a name the way a client does, and the uncompressed
  name that opens a question section. A reference decoder of labels states what a name is.
\<close>

section \<open>Walking names and records\<close>

function skip_name :: "bytes \<Rightarrow> nat \<Rightarrow> nat option" where
  "skip_name buf pos =
    (case byte_get buf pos of
       None \<Rightarrow> None
     | Some len \<Rightarrow>
         if len AND 0xC0 = 0xC0 then map_option (\<lambda>_. pos + 2) (byte_get buf (pos + 1))
         else if len AND 0xC0 = 0 then
           (if len = 0 then Some (pos + 1) else skip_name buf (pos + 1 + unat len))
         else None)"
  by pat_completeness auto
termination
  by (relation "measure (\<lambda>(buf, pos). length buf - pos)") (auto simp: res_simps)

declare skip_name.simps [simp del]

definition skip_rr :: "bytes \<Rightarrow> nat \<Rightarrow> (u16 \<times> nat) option" where
  "skip_rr buf pos = do {
     fixed \<leftarrow> skip_name buf pos;
     f \<leftarrow> slice_get buf fixed (fixed + 10);
     let rtype = be16 (f ! 0) (f ! 1);
     let end = fixed + 10 + unat (be16 (f ! 8) (f ! 9));
     slice_get buf 0 end;
     Some (rtype, end)
   }"

text \<open>
  \<open>walk_name\<close> decodes the name at \<open>pos\<close>; the ranges it reads, which the source hands to a
  callback, are collected in \<open>reads\<close>. Pointers only lead backwards and a name has at most 255
  bytes, so the walk ends.
\<close>

function walk_name_from ::
  "bytes \<Rightarrow> nat \<Rightarrow> nat option \<Rightarrow> nat \<Rightarrow> (nat \<times> nat) list \<Rightarrow> (nat \<times> (nat \<times> nat) list) option" where
  "walk_name_from msg pos end len reads =
    (case byte_get msg pos of
       None \<Rightarrow> None
     | Some byte \<Rightarrow>
         if byte AND 0xC0 = 0 then
           (let next = pos + 1 + unat byte in
            case slice_get msg pos next of
              None \<Rightarrow> None
            | Some _ \<Rightarrow>
                (let len1 = len + 1 + unat byte; reads1 = reads @ [(pos, next)] in
                 if 255 < len1 then None
                 else if byte = 0 then Some (case end of Some e \<Rightarrow> e | None \<Rightarrow> next, reads1)
                 else walk_name_from msg next end len1 reads1))
         else if byte AND 0xC0 = 0xC0 then
           (case byte_get msg (pos + 1) of
              None \<Rightarrow> None
            | Some lo \<Rightarrow>
                (let target = unat (be16 (byte AND 0x3F) lo) in
                 if pos \<le> target then None
                 else walk_name_from msg target
                   (Some (case end of Some e \<Rightarrow> e | None \<Rightarrow> pos + 2)) len
                   (reads @ [(pos, pos + 2)])))
         else None)"
  by pat_completeness auto
termination
  by (relation "measures [\<lambda>(msg, pos, end, len, reads). 256 - len, \<lambda>(msg, pos, end, len, reads). pos]")
    (auto simp: Let_def)

declare walk_name_from.simps [simp del]

definition walk_name :: "bytes \<Rightarrow> nat \<Rightarrow> (nat \<times> (nat \<times> nat) list) option" where
  "walk_name msg pos = walk_name_from msg pos None 0 []"

text \<open>\<open>QuestionName::parse\<close>: the uncompressed name that opens a question section.\<close>

function question_name_end :: "bytes \<Rightarrow> nat \<Rightarrow> nat option" where
  "question_name_end question pos =
    (case byte_get question pos of
       None \<Rightarrow> None
     | Some len \<Rightarrow>
         if len = 0 then Some pos
         else if len \<le> 63 then question_name_end question (pos + (1 + unat len))
         else None)"
  by pat_completeness auto
termination
  by (relation "measure (\<lambda>(buf, pos). length buf - pos)") (auto simp: res_simps)

declare question_name_end.simps [simp del]

definition question_name_parse :: "bytes \<Rightarrow> bytes option" where
  "question_name_parse question =
    map_option (\<lambda>pos. take (pos + 1) question) (question_name_end question 0)"

section \<open>The reference decoder\<close>

text \<open>The labels of an uncompressed name and the offset past its root label.\<close>

function name_labels :: "bytes \<Rightarrow> nat \<Rightarrow> (bytes list \<times> nat) option" where
  "name_labels buf pos =
    (case byte_get buf pos of
       None \<Rightarrow> None
     | Some len \<Rightarrow>
         if len = 0 then Some ([], pos + 1)
         else if len \<le> 63 then
           (case slice_get buf (pos + 1) (pos + 1 + unat len) of
              None \<Rightarrow> None
            | Some l \<Rightarrow>
                map_option (\<lambda>(ls, e). (l # ls, e)) (name_labels buf (pos + 1 + unat len)))
         else None)"
  by pat_completeness auto
termination
  by (relation "measure (\<lambda>(buf, pos). length buf - pos)") (auto simp: res_simps)

declare name_labels.simps [simp del]

definition valid_label :: "bytes \<Rightarrow> bool" where
  "valid_label l \<longleftrightarrow> l \<noteq> [] \<and> length l \<le> 63"

text \<open>The wire form of a name.\<close>

definition encode_label :: "bytes \<Rightarrow> bytes" where
  "encode_label l = word_of_nat (length l) # l"

definition encode_name :: "bytes list \<Rightarrow> bytes" where
  "encode_name ls = concat (map encode_label ls) @ [0]"

section \<open>Where a walk ends\<close>

lemma top_bits_clear: "(b :: u8) AND 0xC0 = 0 \<longleftrightarrow> b \<le> 63"
proof -
  have "(0xC0 :: u8) = push_bit 6 (- 1)" by code_simp
  then have "b AND 0xC0 = 0 \<longleftrightarrow> drop_bit 6 b = 0"
    using and_prefix_eq_iff [of b 6 0] by simp
  also have "\<dots> \<longleftrightarrow> unat b div 64 = 0"
    by (simp add: word_unat_eq_iff unat_drop_bit)
  also have "\<dots> \<longleftrightarrow> b \<le> 63"
    by (simp add: word_le_nat_alt) arith
  finally show ?thesis .
qed

lemma skip_name_bounds: "skip_name buf pos = Some e \<Longrightarrow> pos < e \<and> e \<le> length buf"
proof (induction buf pos rule: skip_name.induct)
  case (1 buf pos)
  from "1.prems" obtain len where len: "byte_get buf pos = Some len"
    by (auto simp: skip_name.simps [of buf pos] split: option.splits)
  then have "pos < length buf" by (simp add: res_simps)
  with "1.prems" len "1.IH" [OF len] show ?case
    by (auto simp: skip_name.simps [of buf pos] res_simps split: if_splits)
qed

lemma skip_rr_bounds:
  "skip_rr buf pos = Some (t, e) \<Longrightarrow> pos + 11 \<le> e \<and> e \<le> length buf"
  by (auto simp: skip_rr_def Let_def Option.bind_eq_Some_conv res_simps dest!: skip_name_bounds)

lemma question_name_end_bounds: "question_name_end q pos = Some e \<Longrightarrow> pos \<le> e \<and> e < length q"
proof (induction q pos rule: question_name_end.induct)
  case (1 q pos)
  then show ?case
    by (subst (asm) question_name_end.simps) (fastforce simp: res_simps split: option.splits if_splits)
qed

lemma name_labels_bounds: "name_labels buf pos = Some (ls, e) \<Longrightarrow> pos < e \<and> e \<le> length buf"
proof (induction buf pos arbitrary: ls rule: name_labels.induct)
  case (1 buf pos)
  then show ?case
    by (subst (asm) name_labels.simps) (fastforce simp: res_simps split: option.splits if_splits)
qed

section \<open>Encoded names decode\<close>

lemma byte_get_append [simp]: "byte_get (pre @ b # rest) (length pre) = Some b"
  by (simp add: byte_get_def)

lemma slice_get_append:
  "a = length pre \<Longrightarrow> b = length pre + length xs \<Longrightarrow> slice_get (pre @ xs @ rest) a b = Some xs"
  by (simp add: slice_get_def)

lemma unat_label_len: "valid_label l \<Longrightarrow> unat (word_of_nat (length l) :: u8) = length l"
  by (simp add: valid_label_def unat_of_nat)

lemma label_len_bounds:
  "valid_label l \<Longrightarrow> (word_of_nat (length l) :: u8) \<noteq> 0 \<and> (word_of_nat (length l) :: u8) \<le> 63"
  using unat_label_len [of l] by (auto simp: valid_label_def word_le_nat_alt word_unat_eq_iff)

lemma encode_name_simps [simp]:
  "encode_name [] = [0]" "encode_name (l # ls) = encode_label l @ encode_name ls"
  by (simp_all add: encode_name_def)

lemma length_encode_label [simp]: "length (encode_label l) = Suc (length l)"
  by (simp add: encode_label_def)

lemma name_labels_encode:
  assumes "list_all valid_label ls"
  shows "name_labels (pre @ encode_name ls @ rest) (length pre) =
    Some (ls, length pre + length (encode_name ls))"
  using assms
proof (induction ls arbitrary: pre)
  case Nil
  then show ?case by (subst name_labels.simps) (simp add: byte_get_def)
next
  case (Cons l ls)
  let ?n = "word_of_nat (length l) :: u8"
  let ?buf = "pre @ encode_name (l # ls) @ rest"
  have buf: "?buf = pre @ ?n # l @ encode_name ls @ rest"
    "?buf = (pre @ [?n]) @ l @ encode_name ls @ rest"
    "?buf = (pre @ encode_label l) @ encode_name ls @ rest"
    by (simp_all add: encode_label_def)
  have l: "valid_label l" using Cons.prems by simp
  have "byte_get ?buf (length pre) = Some ?n" unfolding buf(1) by simp
  moreover have "slice_get ?buf (length pre + 1) (length pre + 1 + unat ?n) = Some l"
    unfolding buf(2) by (rule slice_get_append) (simp_all only: unat_label_len [OF l] length_append list.size)
  moreover have "name_labels ?buf (length pre + 1 + unat ?n) =
      Some (ls, length pre + length (encode_name (l # ls)))"
    using Cons.IH [of "pre @ encode_label l"] Cons.prems
    unfolding buf(3) by (simp add: unat_label_len [OF l])
  ultimately show ?case
    using label_len_bounds [OF l] by (subst name_labels.simps) simp
qed

end
