(* ===== verification/Fast_Path.thy ===== *)
theory Fast_Path
  imports Domain_Types Wire_Name
begin

text \<open>
  The zero-allocation query parser of the UDP cache fast path (\<open>infrastructure/src/dns/
  fast_path.rs\<close>). Every direct index and range of the source is an accessor that can panic
  here; the parser is shown never to.
\<close>

section \<open>EDNS cookies\<close>

definition is_valid_len :: "nat \<Rightarrow> bool" where
  "is_valid_len len \<longleftrightarrow> len = 8 \<or> 16 \<le> len \<and> len \<le> 40"

record edns_cookie =
  cookie_buf :: bytes
  cookie_len :: u8

definition cookie_from_bytes :: "bytes \<Rightarrow> edns_cookie res" where
  "cookie_from_bytes data =
    (if \<not> is_valid_len (length data) then Nothing
     else and_then (put (replicate 40 0) 0 data)
       (\<lambda>buf. Got \<lparr>cookie_buf = buf, cookie_len = word_of_nat (length data)\<rparr>))"

definition cookie_as_bytes :: "edns_cookie \<Rightarrow> bytes res" where
  "cookie_as_bytes c = slice_ix (cookie_buf c) 0 (unat (cookie_len c))"

section \<open>The parsed query\<close>

definition MAX_DOMAIN_LEN :: nat where "MAX_DOMAIN_LEN = 253"

definition COOKIE_OPTION_CODE :: u16 where "COOKIE_OPTION_CODE = 10"

datatype fast_path_kind = IpAddress | WireData

record query_opt =
  opt_cookie :: "(nat \<times> nat) option"

record fast_path_query =
  q_id :: u16
  q_record_type :: record_type
  q_kind :: fast_path_kind
  question_end :: nat
  client_max_size :: u16
  wants_dnssec :: bool
  recursion_desired :: bool
  checking_disabled :: bool
  q_opt :: "query_opt option"
  domain_buf :: bytes
  domain_len :: nat

definition has_edns :: "fast_path_query \<Rightarrow> bool" where
  "has_edns q \<longleftrightarrow> q_opt q \<noteq> None"

definition domain :: "fast_path_query \<Rightarrow> string res" where
  "domain q = and_then (slice_ix (domain_buf q) 0 (domain_len q)) (\<lambda>s. Got (str_of_bytes s))"

definition question :: "fast_path_query \<Rightarrow> bytes \<Rightarrow> bytes res" where
  "question q buf = slice_ix buf 12 (question_end q)"

definition question_name :: "fast_path_query \<Rightarrow> bytes \<Rightarrow> bytes res" where
  "question_name q buf = slice_ix buf 12 (question_end q - 4)"

definition edns_cookie_of :: "fast_path_query \<Rightarrow> bytes \<Rightarrow> bytes option" where
  "edns_cookie_of q buf = do {
     opt \<leftarrow> q_opt q;
     (start, len) \<leftarrow> opt_cookie opt;
     slice_get buf start (start + len)
   }"

section \<open>The options of an OPT record\<close>

function parse_options ::
  "bytes \<Rightarrow> nat \<Rightarrow> nat \<Rightarrow> (nat \<times> nat) option \<Rightarrow> (nat \<times> nat) option option" where
  "parse_options buf end at cookie =
    (if at < end then
       (case slice_get buf at (at + 4) of
          None \<Rightarrow> None
        | Some h \<Rightarrow>
            (let data = at + 4; data_len = unat (be16 (h ! 2) (h ! 3)); at1 = data + data_len in
             if end < at1 then None
             else if be16 (h ! 0) (h ! 1) = COOKIE_OPTION_CODE then
               (if \<not> is_valid_len data_len then None
                else parse_options buf end at1
                  (case cookie of None \<Rightarrow> Some (data, data_len) | Some c \<Rightarrow> Some c))
             else parse_options buf end at1 cookie))
     else Some cookie)"
  by pat_completeness auto
termination
  by (relation "measure (\<lambda>(buf, end, at, cookie). end - at)") (auto simp: Let_def)

declare parse_options.simps [simp del]

definition parse_opt_options :: "bytes \<Rightarrow> nat \<Rightarrow> nat \<Rightarrow> query_opt option" where
  "parse_opt_options buf start len = do {
     slice_get buf start (start + len);
     cookie \<leftarrow> parse_options buf (start + len) start None;
     Some \<lparr>opt_cookie = cookie\<rparr>
   }"

section \<open>The question name\<close>

definition unescaped :: "nat \<Rightarrow> u8 \<Rightarrow> bool" where
  "unescaped i b \<longleftrightarrow> is_ascii_alphanumeric b \<or> b = 0x5F \<or> b = 0x2D \<and> i \<noteq> 0 \<or> b = 0x2A \<and> i = 0"

text \<open>Copies one label into \<open>domain_buf\<close> at \<open>domain_len\<close>, lower-casing it.\<close>

fun copy_label :: "bytes \<Rightarrow> nat \<Rightarrow> bytes \<Rightarrow> nat \<Rightarrow> (bytes \<times> nat) res" where
  "copy_label [] i dbuf dlen = Got (dbuf, dlen)"
| "copy_label (b # bs) i dbuf dlen =
    (if \<not> unescaped i b then Nothing
     else and_then (put dbuf dlen [to_ascii_lowercase b])
       (\<lambda>dbuf1. copy_label bs (i + 1) dbuf1 (dlen + 1)))"

text \<open>The separator before every label but the first.\<close>

definition put_separator :: "bool \<Rightarrow> bytes \<Rightarrow> nat \<Rightarrow> (bytes \<times> nat) res" where
  "put_separator first_label dbuf dlen =
    (if first_label then Got (dbuf, dlen)
     else if MAX_DOMAIN_LEN \<le> dlen then Nothing
     else and_then (put dbuf dlen [0x2E]) (\<lambda>d. Got (d, dlen + 1)))"

definition XN_PREFIX :: bytes where "XN_PREFIX = [0x78, 0x6E, 0x2D, 0x2D]"

definition is_a_label :: "bytes \<Rightarrow> nat \<Rightarrow> nat \<Rightarrow> bool res" where
  "is_a_label buf pos label_len =
    (if 4 \<le> label_len then
       and_then (slice_ix buf pos (pos + 4)) (\<lambda>s. Got (eq_ignore_ascii_case s XN_PREFIX))
     else Got False)"

text \<open>One label of \<open>b\<close> bytes at \<open>start\<close>: the loop body after the root label is ruled out.\<close>

definition parse_label ::
  "bytes \<Rightarrow> nat \<Rightarrow> u8 \<Rightarrow> bytes \<Rightarrow> nat \<Rightarrow> bool \<Rightarrow> (bytes \<times> nat) res" where
  "parse_label buf start b dbuf dlen first_label =
    (let label_len = unat b in
     if b AND 0xC0 \<noteq> 0 then Nothing
     else if length buf < start + label_len then Nothing
     else and_then (put_separator first_label dbuf dlen) (\<lambda>(dbuf1, dlen1).
       if MAX_DOMAIN_LEN < dlen1 + label_len then Nothing
       else and_then (is_a_label buf start label_len) (\<lambda>idn.
         if idn then Nothing
         else and_then (slice_ix buf start (start + label_len)) (\<lambda>label.
           copy_label label 0 dbuf1 dlen1))))"

function parse_labels ::
  "bytes \<Rightarrow> nat \<Rightarrow> bytes \<Rightarrow> nat \<Rightarrow> bool \<Rightarrow> (nat \<times> bytes \<times> nat) res" where
  "parse_labels buf pos dbuf dlen first_label =
    (if length buf \<le> pos then Nothing
     else and_then (idx buf pos) (\<lambda>b.
       if b = 0 then Got (pos + 1, dbuf, dlen)
       else and_then (parse_label buf (pos + 1) b dbuf dlen first_label) (\<lambda>(dbuf1, dlen1).
         parse_labels buf (pos + 1 + unat b) dbuf1 dlen1 False)))"
  by pat_completeness auto
termination
  by (relation "measure (\<lambda>(buf, pos, _). length buf - pos)") auto

declare parse_labels.simps [simp del]

section \<open>The additional section\<close>

definition is_valid_edns_version :: "u8 \<Rightarrow> bool" where
  "is_valid_edns_version v \<longleftrightarrow> v = 0"

text \<open>\<open>u16::from_be_bytes([buf[i], buf[i + 1]])\<close>.\<close>

definition be16_at :: "bytes \<Rightarrow> nat \<Rightarrow> u16 res" where
  "be16_at buf i = and_then (idx buf i) (\<lambda>a. and_then (idx buf (i + 1)) (\<lambda>b. Got (be16 a b)))"

record additional_state =
  as_max_size :: u16
  as_dnssec :: bool
  as_opt :: "query_opt option"

definition parse_opt_rr ::
  "bytes \<Rightarrow> nat \<Rightarrow> additional_state \<Rightarrow> (nat \<times> additional_state) res" where
  "parse_opt_rr buf pos st =
    (if as_opt st \<noteq> None then Nothing
     else and_then (be16_at buf pos) (\<lambda>udp_size.
       let pos1 = pos + 2 in
       if length buf < pos1 + 4 then Nothing
       else and_then (idx buf (pos1 + 1)) (\<lambda>version.
         if \<not> is_valid_edns_version version then Nothing
         else and_then (be16_at buf (pos1 + 2)) (\<lambda>do_flags.
           let pos2 = pos1 + 4 in
           if length buf < pos2 + 2 then Nothing
           else and_then (be16_at buf pos2) (\<lambda>rdlen.
             and_then (try_opt (parse_opt_options buf (pos2 + 2) (unat rdlen))) (\<lambda>opt.
               Got (pos2 + 2 + unat rdlen,
                 \<lparr>as_max_size = max udp_size 512, as_dnssec = (do_flags AND 0x8000 \<noteq> 0),
                  as_opt = Some opt\<rparr>)))))))"

definition skip_additional_rr :: "bytes \<Rightarrow> nat \<Rightarrow> nat res" where
  "skip_additional_rr buf pos =
    (let pos1 = pos + 2 + 4 in
     if length buf < pos1 + 2 then Nothing
     else and_then (be16_at buf pos1) (\<lambda>rdlen. Got (pos1 + 2 + unat rdlen)))"

fun parse_additional ::
  "nat \<Rightarrow> bytes \<Rightarrow> nat \<Rightarrow> additional_state \<Rightarrow> additional_state res" where
  "parse_additional 0 buf ar_pos st = Got st"
| "parse_additional (Suc n) buf ar_pos st =
    (if length buf \<le> ar_pos then Got st
     else and_then (idx buf ar_pos) (\<lambda>b.
       if b \<noteq> 0 then Nothing
       else if length buf < ar_pos + 1 + 9 then Nothing
       else and_then (be16_at buf (ar_pos + 1)) (\<lambda>rr_type.
         if rr_type = 41 then
           and_then (parse_opt_rr buf (ar_pos + 3) st)
             (\<lambda>(pos, st1). parse_additional n buf pos st1)
         else
           and_then (skip_additional_rr buf (ar_pos + 3))
             (\<lambda>pos. parse_additional n buf pos st))))"

section \<open>The parser\<close>

definition fast_path_type :: "u16 \<Rightarrow> (record_type \<times> fast_path_kind) option" where
  "fast_path_type qtype =
    (if qtype = 1 then Some (A, IpAddress)
     else if qtype = 2 then Some (NS, WireData)
     else if qtype = 5 then Some (CNAME, WireData)
     else if qtype = 6 then Some (SOA, WireData)
     else if qtype = 12 then Some (PTR, WireData)
     else if qtype = 15 then Some (MX, WireData)
     else if qtype = 16 then Some (TXT, WireData)
     else if qtype = 28 then Some (AAAA, IpAddress)
     else if qtype = 33 then Some (SRV, WireData)
     else if qtype = 64 then Some (SVCB, WireData)
     else if qtype = 65 then Some (HTTPS, WireData)
     else None)"

definition parse_query :: "bytes \<Rightarrow> fast_path_query res" where
  "parse_query buf =
    and_then (require (17 \<le> length buf)) (\<lambda>_.
    and_then (be16_at buf 0) (\<lambda>ident.
    and_then (be16_at buf 2) (\<lambda>flags.
    and_then (require (flags AND 0xF800 = 0)) (\<lambda>_.
    and_then (be16_at buf 4) (\<lambda>qdcount.
    and_then (be16_at buf 6) (\<lambda>ancount.
    and_then (be16_at buf 8) (\<lambda>nscount.
    and_then (be16_at buf 10) (\<lambda>arcount.
    and_then (require (qdcount = 1 \<and> ancount = 0 \<and> nscount = 0)) (\<lambda>_.
    and_then (parse_labels buf 12 (replicate (MAX_DOMAIN_LEN + 1) 0) 0 True) (\<lambda>(pos, dbuf, dlen).
    and_then (require (pos + 4 \<le> length buf)) (\<lambda>_.
    and_then (be16_at buf pos) (\<lambda>qtype.
    and_then (be16_at buf (pos + 2)) (\<lambda>qclass.
    and_then (require (qclass = 1)) (\<lambda>_.
    and_then (try_opt (fast_path_type qtype)) (\<lambda>(rtype, kind).
    and_then (parse_additional (unat arcount) buf (pos + 4)
        \<lparr>as_max_size = 512, as_dnssec = False, as_opt = None\<rparr>) (\<lambda>st.
    Got \<lparr>q_id = ident, q_record_type = rtype, q_kind = kind, question_end = pos + 4,
         client_max_size = as_max_size st, wants_dnssec = as_dnssec st,
         recursion_desired = (flags AND 0x0100 \<noteq> 0),
         checking_disabled = (flags AND 0x0010 \<noteq> 0),
         q_opt = as_opt st, domain_buf = dbuf, domain_len = dlen\<rparr>))))))))))))))))"

section \<open>What the parser accepts\<close>

text \<open>
  Labels the fast path copies: no internationalised label, only bytes the slow path would
  leave unescaped. The cache key is the labels in lower case, joined by dots.
\<close>

definition fast_label :: "bytes \<Rightarrow> bool" where
  "fast_label l \<longleftrightarrow> valid_label l \<and> \<not> (4 \<le> length l \<and> eq_ignore_ascii_case (take 4 l) XN_PREFIX)
    \<and> list_all (\<lambda>i. unescaped i (l ! i)) [0..<length l]"

fun flatten :: "bool \<Rightarrow> bytes list \<Rightarrow> bytes" where
  "flatten first_label [] = []"
| "flatten first_label (l # ls) =
    (if first_label then [] else [0x2E]) @ map to_ascii_lowercase l @ flatten False ls"

definition safe_key_byte :: "u8 \<Rightarrow> bool" where
  "safe_key_byte b \<longleftrightarrow> is_ascii_lowercase b \<or> is_ascii_digit b \<or> b = 0x5F \<or> b = 0x2D
     \<or> b = 0x2A \<or> b = 0x2E"

text \<open>A one-question query packet, with an optional plain OPT record.\<close>

definition query_packet :: "u16 \<Rightarrow> u16 \<Rightarrow> bytes list \<Rightarrow> u16 \<Rightarrow> bytes" where
  "query_packet ident flags ls qtype =
    be16_bytes ident @ be16_bytes flags @ be16_bytes 1 @ be16_bytes 0 @ be16_bytes 0 @ be16_bytes 0
    @ encode_name ls @ be16_bytes qtype @ be16_bytes 1"

text \<open>The cookie an OPT record points to lies in the packet and has a length RFC 7873 allows.\<close>

definition opt_within :: "bytes \<Rightarrow> query_opt option \<Rightarrow> bool" where
  "opt_within buf o1 \<longleftrightarrow> (\<forall>q s n. o1 = Some q \<longrightarrow> opt_cookie q = Some (s, n) \<longrightarrow>
     s + n \<le> length buf \<and> is_valid_len n)"

section \<open>Copying labels\<close>

lemma safe_copy_label [safe_intros]:
  "dlen + length bs \<le> length dbuf \<Longrightarrow> safe (copy_label bs i dbuf dlen)"
  by (induction bs i dbuf dlen rule: copy_label.induct)
    (auto intro!: safe_intros simp: res_simps)

lemma take_overwrite_snoc:
  "n < length d \<Longrightarrow> take (Suc n) (overwrite d n [b]) = take n d @ [b]"
  by (simp add: overwrite_def min_def)

lemma copy_label_Got:
  assumes "copy_label bs i dbuf dlen = Got (d, n)"
  shows "n = dlen + length bs \<and> length d = length dbuf \<and>
    take n d = take dlen dbuf @ map to_ascii_lowercase bs \<and>
    (\<forall>j < length bs. unescaped (i + j) (bs ! j))"
  using assms
proof (induction bs i dbuf dlen rule: copy_label.induct)
  case (2 b bs i dbuf dlen)
  then have u: "unescaped i b" and lt: "dlen < length dbuf"
    and rec: "copy_label bs (i + 1) (overwrite dbuf dlen [to_ascii_lowercase b]) (dlen + 1) = Got (d, n)"
    by (auto simp: res_simps split: if_splits)
  have "unescaped (i + j) ((b # bs) ! j)" if "j < length (b # bs)" for j
    using that u "2.IH" [of "overwrite dbuf dlen [to_ascii_lowercase b]"] rec lt u
    by (cases j) (auto simp: res_simps)
  with "2.IH" [of "overwrite dbuf dlen [to_ascii_lowercase b]"] rec lt u show ?case
    by (auto simp: res_simps take_overwrite_snoc)
qed simp

lemma copy_label_total:
  assumes "dlen + length bs \<le> length dbuf" "\<And>j. j < length bs \<Longrightarrow> unescaped (i + j) (bs ! j)"
  shows "\<exists>d n. copy_label bs i dbuf dlen = Got (d, n)"
  using assms
proof (induction bs i dbuf dlen rule: copy_label.induct)
  case (2 b bs i dbuf dlen)
  have "unescaped i b" using "2.prems"(2) [of 0] by simp
  then show ?case
    using "2.IH" [of "overwrite dbuf dlen [to_ascii_lowercase b]"] "2.prems"(1)
      "2.prems"(2) [of "Suc j" for j]
    by (simp add: put_def)
qed simp

lemma safe_put_separator [safe_intros]:
  "dlen \<le> 253 \<Longrightarrow> length dbuf = 254 \<Longrightarrow> safe (put_separator first_label dbuf dlen)"
  by (auto simp: put_separator_def MAX_DOMAIN_LEN_def intro!: safe_intros)

lemma put_separator_Got:
  assumes "put_separator first_label dbuf dlen = Got (d, n)"
  shows "length d = length dbuf \<and> n = dlen + (if first_label then 0 else 1) \<and>
    take n d = take dlen dbuf @ (if first_label then [] else [0x2E])"
  using assms
  by (auto simp: put_separator_def res_simps take_overwrite_snoc split: if_splits)

lemma safe_is_a_label [safe_intros]:
  "pos + label_len \<le> length buf \<Longrightarrow> safe (is_a_label buf pos label_len)"
  by (auto simp: is_a_label_def intro!: safe_intros)

lemma is_a_label_eq:
  "pos + label_len \<le> length buf \<Longrightarrow> is_a_label buf pos label_len =
    Got (4 \<le> label_len \<and> eq_ignore_ascii_case (take 4 (take label_len (drop pos buf))) XN_PREFIX)"
  by (simp add: is_a_label_def slice_ix_def min_def)

lemma safe_parse_label [safe_intros]:
  "dlen \<le> 253 \<Longrightarrow> length dbuf = 254 \<Longrightarrow> safe (parse_label buf start b dbuf dlen first_label)"
  by (auto simp: parse_label_def Let_def MAX_DOMAIN_LEN_def res_simps
      intro!: safe_intros dest!: put_separator_Got)

lemma all_unescaped_iff:
  "list_all (\<lambda>i. unescaped i (l ! i)) [0..<length l] \<longleftrightarrow> (\<forall>j < length l. unescaped j (l ! j))"
  by (auto simp: list_all_iff)

lemma parse_label_Got:
  assumes "parse_label buf start b dbuf dlen first_label = Got (d, n)" "b \<noteq> 0" "length dbuf = 254"
  shows "b \<le> 63 \<and> (\<exists>l. slice_get buf start (start + unat b) = Some l \<and> fast_label l \<and>
    take n d = take dlen dbuf @ flatten first_label [l] \<and> n = dlen + length (flatten first_label [l]))
    \<and> length d = 254 \<and> n \<le> 253"
proof -
  let ?l = "take (unat b) (drop start buf)"
  from assms have b: "b \<le> 63" and len: "start + unat b \<le> length buf"
    by (auto simp: parse_label_def Let_def top_bits_clear split: if_splits)
  from assms len b obtain dbuf1 dlen1 where sep: "put_separator first_label dbuf dlen = Got (dbuf1, dlen1)"
    and fits: "dlen1 + unat b \<le> 253"
    and idn: "\<not> (4 \<le> unat b \<and> eq_ignore_ascii_case (take 4 ?l) XN_PREFIX)"
    and cp: "copy_label ?l 0 dbuf1 dlen1 = Got (d, n)"
    by (auto simp: parse_label_def Let_def res_simps is_a_label_eq MAX_DOMAIN_LEN_def split: if_splits)
  have l: "length ?l = unat b" using len by simp
  have "valid_label ?l"
    using b assms(2) l by (auto simp: valid_label_def word_le_nat_alt unat_eq_0 simp del: l
        intro: Nat.gr0I)
  then have "fast_label ?l"
    unfolding fast_label_def all_unescaped_iff using idn l copy_label_Got [OF cp] by simp
  moreover have "slice_get buf start (start + unat b) = Some ?l" using len by (simp add: slice_get_def)
  ultimately show ?thesis
    using b put_separator_Got [OF sep] copy_label_Got [OF cp] fits l assms(3) by auto
qed

lemma parse_label_total:
  assumes "slice_get buf start (start + unat b) = Some l" "fast_label l" "b \<le> 63" "length dbuf = 254"
    and "dlen + length (flatten first_label [l]) \<le> 253"
  shows "\<exists>d n. parse_label buf start b dbuf dlen first_label = Got (d, n)"
proof -
  have len: "start + unat b \<le> length buf" and l: "l = take (unat b) (drop start buf)"
    using assms(1) by (simp_all add: res_simps)
  have "0 < length l" using assms(2) by (simp add: fast_label_def valid_label_def)
  then obtain dbuf1 dlen1 where sep: "put_separator first_label dbuf dlen = Got (dbuf1, dlen1)"
    using assms(4,5) by (auto simp: put_separator_def put_def MAX_DOMAIN_LEN_def split: if_splits)
  have fit: "dlen1 + length l \<le> 253"
    using put_separator_Got [OF sep] assms(5) by (simp split: if_splits)
  then obtain d n where "copy_label l 0 dbuf1 dlen1 = Got (d, n)"
    using copy_label_total [of dlen1 l dbuf1 0] put_separator_Got [OF sep] assms(2,4)
    by (auto simp: fast_label_def all_unescaped_iff)
  then show ?thesis
    using sep fit len l assms(2,3)
    by (simp add: parse_label_def Let_def is_a_label_eq slice_ix_def MAX_DOMAIN_LEN_def
        top_bits_clear fast_label_def)
qed

lemma parse_labels_safe:
  assumes "dlen \<le> 253" "length dbuf = 254"
  shows "safe (parse_labels buf pos dbuf dlen first_label)"
  using assms
proof (induction buf pos dbuf dlen first_label rule: parse_labels.induct)
  case (1 buf pos dbuf dlen first_label)
  have rec: "safe (parse_labels buf (pos + 1 + unat b) d n False)"
    if "pos < length buf" "idx buf pos = Got b" "b \<noteq> 0"
      "parse_label buf (pos + 1) b dbuf dlen first_label = Got (d, n)" for b d n
    using that "1.IH" [of b "(d, n)" d n] parse_label_Got [OF that(4,3) "1.prems"(2)] by auto
  show ?case
    using "1.prems"
    by (subst parse_labels.simps) (auto intro!: safe_intros rec [simplified] simp: not_le)
qed

lemma parse_labels_Got:
  assumes "parse_labels buf pos dbuf dlen first_label = Got (e, d, n)" "length dbuf = 254" "dlen \<le> 253"
  shows "\<exists>ls. name_labels buf pos = Some (ls, e) \<and> list_all fast_label ls \<and>
    take n d = take dlen dbuf @ flatten first_label ls \<and> length d = 254 \<and> n \<le> 253 \<and>
    n = dlen + length (flatten first_label ls)"
  using assms
proof (induction buf pos dbuf dlen first_label rule: parse_labels.induct)
  case (1 buf pos dbuf dlen first_label)
  from "1.prems"(1) have pos: "pos < length buf"
    by (subst (asm) parse_labels.simps) (auto split: if_splits)
  show ?case
  proof (cases "buf ! pos = 0")
    case True
    then show ?thesis
      using "1.prems" pos
      by (subst (asm) parse_labels.simps) (auto simp: idx_def name_labels.simps [of buf pos] byte_get_def)
  next
    case False
    then obtain d1 n1 where one: "parse_label buf (pos + 1) (buf ! pos) dbuf dlen first_label = Got (d1, n1)"
      and rest: "parse_labels buf (pos + 1 + unat (buf ! pos)) d1 n1 False = Got (e, d, n)"
      using "1.prems" pos by (subst (asm) parse_labels.simps) (auto simp: idx_def res_simps)
    note step = parse_label_Got [OF one False "1.prems"(2)]
    have "pos < length buf" "idx buf pos = Got (buf ! pos)" using pos by (simp_all add: idx_def)
    from "1.IH" [of "buf ! pos" "(d1, n1)" d1 n1] this False one rest step obtain ls where
      "name_labels buf (pos + 1 + unat (buf ! pos)) = Some (ls, e)" "list_all fast_label ls"
      "take n d = take n1 d1 @ flatten False ls" "length d = 254" "n \<le> 253"
      "n = n1 + length (flatten False ls)"
      by auto
    with step pos False show ?thesis
      by (subst name_labels.simps) (auto simp: byte_get_def)
  qed
qed

lemma parse_labels_total:
  assumes "name_labels buf pos = Some (ls, e)" "list_all fast_label ls" "length dbuf = 254"
    "dlen + length (flatten first_label ls) \<le> 253"
  shows "\<exists>d n. parse_labels buf pos dbuf dlen first_label = Got (e, d, n)"
  using assms
proof (induction buf pos arbitrary: ls dbuf dlen first_label rule: name_labels.induct)
  case (1 buf pos)
  from "1.prems"(1) have pos: "pos < length buf"
    by (subst (asm) name_labels.simps) (auto simp: res_simps split: option.splits)
  let ?b = "buf ! pos"
  have get: "byte_get buf pos = Some ?b" using pos by (simp add: byte_get_def)
  show ?case
  proof (cases "?b = 0")
    case True
    then show ?thesis
      using "1.prems" pos by (subst parse_labels.simps) (simp add: idx_def name_labels.simps [of buf pos] get)
  next
    case False
    with "1.prems"(1) get obtain l ls' where b: "?b \<le> 63"
      and l: "slice_get buf (pos + 1) (pos + 1 + unat ?b) = Some l" and ls: "ls = l # ls'"
      and rest: "name_labels buf (pos + 1 + unat ?b) = Some (ls', e)"
      by (subst (asm) name_labels.simps) (auto split: if_splits option.splits)
    have fl: "fast_label l" using "1.prems"(2) ls by simp
    then obtain d n where one: "parse_label buf (pos + 1) ?b dbuf dlen first_label = Got (d, n)"
      using parse_label_total [OF l fl b "1.prems"(3), of dlen first_label] "1.prems"(4) ls by auto
    have "length d = 254" "n + length (flatten False ls') \<le> 253"
      using parse_label_Got [OF one False "1.prems"(3)] "1.prems"(4) ls l by auto
    from "1.IH" [OF get False b l rest _ this] "1.prems"(2) ls
    obtain d' n' where "parse_labels buf (pos + 1 + unat ?b) d n False = Got (e, d', n')" by auto
    then show ?thesis
      using pos False one by (subst parse_labels.simps) (simp add: idx_def)
  qed
qed

section \<open>The additional section\<close>

lemma safe_be16_at [safe_intros]: "Suc i < length buf \<Longrightarrow> safe (be16_at buf i)"
  by (auto simp: be16_at_def intro!: safe_intros)

lemma be16_at_Got [res_simps]:
  "be16_at buf i = Got w \<longleftrightarrow> Suc i < length buf \<and> w = be16 (buf ! i) (buf ! Suc i)"
  by (auto simp: be16_at_def res_simps)

lemma safe_parse_opt_rr [safe_intros]: "Suc pos < length buf \<Longrightarrow> safe (parse_opt_rr buf pos st)"
  by (auto simp: parse_opt_rr_def Let_def intro!: safe_intros)

lemma safe_skip_additional_rr [safe_intros]: "safe (skip_additional_rr buf pos)"
  by (auto simp: skip_additional_rr_def Let_def intro!: safe_intros)

lemma safe_parse_additional [safe_intros]: "safe (parse_additional n buf ar_pos st)"
  by (induction n buf ar_pos st rule: parse_additional.induct) (auto intro!: safe_intros)

lemma parse_options_cookie:
  assumes "parse_options buf end at cookie = Some c" "end \<le> length buf"
    and "\<And>s n. cookie = Some (s, n) \<Longrightarrow> s + n \<le> length buf \<and> is_valid_len n"
  shows "\<And>s n. c = Some (s, n) \<Longrightarrow> s + n \<le> length buf \<and> is_valid_len n"
  using assms
proof (induction buf "end" at cookie rule: parse_options.induct)
  case (1 buf "end" at cookie)
  show ?case
  proof (cases "at < end")
    case False
    then show ?thesis using 1 by (simp add: parse_options.simps)
  next
    case True
    with "1.prems"(2) obtain h where h: "slice_get buf at (at + 4) = Some h"
      by (subst (asm) parse_options.simps) (auto split: option.splits)
    let ?n = "unat (be16 (h ! 2) (h ! 3))"
    note IH = "1.IH" [OF True h refl refl refl]
    from True h "1.prems"(2) have le: "at + 4 + ?n \<le> end"
      by (subst (asm) parse_options.simps) (auto simp: Let_def split: if_splits)
    show ?thesis
    proof (cases "be16 (h ! 0) (h ! 1) = COOKIE_OPTION_CODE")
      case True
      with \<open>at < end\<close> h "1.prems"(2) le have v: "is_valid_len ?n"
        and rec: "parse_options buf end (at + 4 + ?n)
          (case cookie of None \<Rightarrow> Some (at + 4, ?n) | Some c \<Rightarrow> Some c) = Some c"
        by (subst (asm) parse_options.simps; simp add: Let_def split: if_splits)+
      show ?thesis
        using IH(1) [OF _ True _ "1.prems"(1) rec "1.prems"(3)] le v "1.prems"(3,4)
        by (fastforce split: option.splits)
    next
      case False
      with \<open>at < end\<close> h "1.prems"(2) le have "parse_options buf end (at + 4 + ?n) cookie = Some c"
        by (subst (asm) parse_options.simps) (simp add: Let_def)
      then show ?thesis
        using IH(2) [OF _ False "1.prems"(1) _ "1.prems"(3)] le "1.prems"(4) by simp
    qed
  qed
qed

lemma parse_opt_options_within: "parse_opt_options buf start len = Some q \<Longrightarrow> opt_within buf (Some q)"
  using parse_options_cookie [of buf "start + len" start None]
  by (auto simp: parse_opt_options_def opt_within_def Option.bind_eq_Some_conv res_simps)

lemma parse_additional_Got:
  assumes "parse_additional n buf ar_pos st = Got st'"
    and "opt_within buf (as_opt st)" "512 \<le> as_max_size st"
  shows "opt_within buf (as_opt st') \<and> 512 \<le> as_max_size st'"
  using assms
proof (induction n buf ar_pos st rule: parse_additional.induct)
  case (2 n buf ar_pos st)
  have opt: "opt_within buf (as_opt st1) \<and> 512 \<le> as_max_size st1"
    if "parse_opt_rr buf pos st = Got (p, st1)" for pos p st1
    using that
    by (auto simp: parse_opt_rr_def Let_def res_simps split: if_splits
        dest!: parse_opt_options_within)
  from "2.prems" opt "2.IH" show ?case
    by (auto simp: res_simps split: if_splits prod.splits)
qed simp

section \<open>The whole parser\<close>

lemma safe_parse_query: "safe (parse_query buf)"
  unfolding parse_query_def
  by (intro safe_intros)
    (auto simp: res_simps MAX_DOMAIN_LEN_def split: prod.splits
      intro!: safe_intros parse_labels_safe)

lemma fast_path_type_to_u16: "fast_path_type c = Some (t, k) \<Longrightarrow> to_u16 t = c"
proof -
  assume "fast_path_type c = Some (t, k)"
  then have "from_u16 c = Some t"
    by (auto simp: fast_path_type_def from_u16_def record_types_def split: if_splits)
  then show "to_u16 t = c" by (simp only: rr_code.decode_Some_iff)
qed

lemma parse_query_Got:
  assumes "parse_query buf = Got q"
  obtains flags dbuf dlen pos st where
    "17 \<le> length buf" "flags = be16 (buf ! 2) (buf ! 3)" "flags AND 0xF800 = 0"
    "parse_labels buf 12 (replicate 254 0) 0 True = Got (pos, dbuf, dlen)" "pos + 4 \<le> length buf"
    "fast_path_type (be16 (buf ! pos) (buf ! (pos + 1))) = Some (q_record_type q, q_kind q)"
    "parse_additional (unat (be16 (buf ! 10) (buf ! 11))) buf (pos + 4)
        \<lparr>as_max_size = 512, as_dnssec = False, as_opt = None\<rparr> = Got st"
    "q_id q = be16 (buf ! 0) (buf ! 1)" "question_end q = pos + 4"
    "client_max_size q = as_max_size st" "q_opt q = as_opt st"
    "wants_dnssec q = as_dnssec st"
    "recursion_desired q = (flags AND 0x0100 \<noteq> 0)"
    "domain_buf q = dbuf" "domain_len q = dlen"
  using assms
  by (auto simp: parse_query_def res_simps MAX_DOMAIN_LEN_def eval_nat_numeral)

lemma parse_query_bounds:
  assumes "parse_query buf = Got q"
  shows "17 \<le> question_end q \<and> question_end q \<le> length buf"
  using assms
proof (rule parse_query_Got)
  fix dbuf dlen pos
  assume lab: "parse_labels buf 12 (replicate 254 0) 0 True = Got (pos, dbuf, dlen)"
    and q: "question_end q = pos + 4" "pos + 4 \<le> length buf"
  from parse_labels_Got [OF lab] obtain ls where "name_labels buf 12 = Some (ls, pos)" by auto
  from name_labels_bounds [OF this] q show ?thesis by simp
qed

lemma lower_safe_key_byte: "unescaped i b \<Longrightarrow> safe_key_byte (to_ascii_lowercase b)"
  by (auto simp: unescaped_def safe_key_byte_def is_ascii_alphanumeric_def to_ascii_lowercase_def
      is_ascii_uppercase_def is_ascii_lowercase_def is_ascii_digit_def word_le_nat_alt
      unat_word_ariths)

lemma flatten_safe: "list_all fast_label ls \<Longrightarrow> list_all safe_key_byte (flatten first_label ls)"
proof (induction first_label ls rule: flatten.induct)
  case (2 first_label l ls)
  have "fast_label l" using "2.prems" by simp
  then have "\<forall>j < length l. unescaped j (l ! j)"
    unfolding fast_label_def all_unescaped_iff by blast
  then have "list_all safe_key_byte (map to_ascii_lowercase l)"
    by (auto simp: list_all_length intro: lower_safe_key_byte)
  moreover have "safe_key_byte 0x2E" by (simp add: safe_key_byte_def)
  ultimately show ?case using 2 by simp
qed simp

section \<open>Properties\<close>

text \<open>
  C23. No packet makes the fast-path parser panic: every index and slice it takes is in range,
  whatever the bytes.
\<close>

theorem parse_query_never_panics: "parse_query buf \<noteq> Panic"
  using safe_parse_query by (simp add: safe_def)



lemma be16_at_append: "i = length pre \<Longrightarrow> be16_at (pre @ be16_bytes w @ rest) i = Got w"
  by (simp add: be16_at_def idx_def nth_append be16_bytes_def)

lemma query_packet_fields:
  fixes ident flags ls qtype
  defines "p \<equiv> query_packet ident flags ls qtype" and "pos \<equiv> 12 + length (encode_name ls)"
  shows "be16_at p 0 = Got ident" "be16_at p 2 = Got flags" "be16_at p 4 = Got 1"
    "be16_at p 6 = Got 0" "be16_at p 8 = Got 0" "be16_at p 10 = Got 0"
    "be16_at p pos = Got qtype" "be16_at p (pos + 2) = Got 1" "length p = pos + 4"
proof -
  let ?h = "be16_bytes ident @ be16_bytes flags @ be16_bytes 1 @ be16_bytes 0 @ be16_bytes 0 @ be16_bytes 0
    @ encode_name ls"
  note unf = p_def pos_def query_packet_def
  show "be16_at p 0 = Got ident" using be16_at_append [of 0 "[]" ident] by (simp add: unf)
  show "be16_at p 2 = Got flags" using be16_at_append [of 2 "be16_bytes ident" flags] by (simp add: unf)
  show "be16_at p 4 = Got 1"
    using be16_at_append [of 4 "be16_bytes ident @ be16_bytes flags" 1] by (simp add: unf)
  show "be16_at p 6 = Got 0"
    using be16_at_append [of 6 "be16_bytes ident @ be16_bytes flags @ be16_bytes 1" 0] by (simp add: unf)
  show "be16_at p 8 = Got 0"
    using be16_at_append [of 8 "be16_bytes ident @ be16_bytes flags @ be16_bytes 1 @ be16_bytes 0" 0]
    by (simp add: unf)
  show "be16_at p 10 = Got 0"
    using be16_at_append [of 10 "be16_bytes ident @ be16_bytes flags @ be16_bytes 1 @ be16_bytes 0
      @ be16_bytes 0" 0]
    by (simp add: unf)
  show "be16_at p pos = Got qtype" using be16_at_append [of pos ?h qtype] by (simp add: unf)
  show "be16_at p (pos + 2) = Got 1"
    using be16_at_append [of "pos + 2" "?h @ be16_bytes qtype" 1 "[]"] by (simp add: unf)
  show "length p = pos + 4" by (simp add: unf)
qed

text \<open>
  Every well-formed query is served by the fast path: the packet of a one-question query
  whose labels the fast path copies, whose name fits and whose type it knows parses to exactly
  that query, with the lower-case dotted name as the cache key.
\<close>

lemma parse_query_packet:
  assumes "list_all fast_label ls" "length (flatten True ls) \<le> 253" "flags AND 0xF800 = 0"
    and "fast_path_type qtype = Some (rt, k)"
  shows "\<exists>q. parse_query (query_packet ident flags ls qtype) = Got q \<and>
    q_id q = ident \<and> q_record_type q = rt \<and> q_kind q = k \<and>
    domain q = Got (str_of_bytes (flatten True ls)) \<and> \<not> has_edns q \<and>
    recursion_desired q = (flags AND 0x0100 \<noteq> 0) \<and> client_max_size q = 512 \<and>
    question_end q = length (query_packet ident flags ls qtype)"
proof -
  let ?p = "query_packet ident flags ls qtype"
  define pre where "pre = take 12 ?p"
  have p: "?p = pre @ encode_name ls @ be16_bytes qtype @ be16_bytes 1" and pre: "length pre = 12"
    by (simp_all add: pre_def query_packet_def)
  define pos where "pos = 12 + length (encode_name ls)"
  have vl: "list_all valid_label ls" using assms(1) by (auto simp: list_all_iff fast_label_def)
  have nl: "name_labels ?p 12 = Some (ls, pos)"
    using name_labels_encode [OF vl, of pre] unfolding p pos_def pre by simp
  have len: "length ?p = pos + 4" "13 \<le> pos"
    unfolding p pos_def by (simp_all add: pre encode_name_def)
  obtain dbuf dlen where lab: "parse_labels ?p 12 (replicate 254 0) 0 True = Got (pos, dbuf, dlen)"
    using parse_labels_total [OF nl assms(1), of "replicate 254 0" 0 True] assms(2) by auto
  have dom: "take dlen dbuf = flatten True ls" "dlen \<le> 253" "length dbuf = 254"
    using parse_labels_Got [OF lab] nl by auto
  note fields = query_packet_fields [of ident flags ls qtype, folded pos_def]
  show ?thesis
    using assms(3,4) len lab dom
    by (simp add: parse_query_def MAX_DOMAIN_LEN_def fields fields(8) [simplified]
        domain_def slice_ix_def has_edns_def)
qed

lemma parse_query_packet_witness:
  "\<exists>q. parse_query (query_packet 7 0x0100 [[0x57, 0x77], [0x69, 0x6F]] 28) = Got q \<and>
    domain q = Got ''ww.io''"
proof -
  have "list_all fast_label [[0x57, 0x77], [0x69, 0x6F]]" by code_simp
  moreover have "str_of_bytes (flatten True [[0x57, 0x77], [0x69, 0x6F]]) = ''ww.io''" by code_simp
  ultimately show ?thesis
    using parse_query_packet [of "[[0x57, 0x77], [0x69, 0x6F]]" "0x0100" 28 AAAA IpAddress 7]
    by (auto simp: fast_path_type_def)
qed

end
