(* ===== verification/Ede.thy ===== *)
theory Ede
  imports Domain_Types
begin

text \<open>
  Extended DNS Errors (RFC 8914): which resolver error is reported to the client, with which
  info code and text (\<open>infrastructure/src/dns/ede.rs\<close>).
\<close>

definition EDE_OPTION_CODE :: u16 where "EDE_OPTION_CODE = 15"

definition EDE_DNSSEC_INDETERMINATE :: u16 where "EDE_DNSSEC_INDETERMINATE = 5"
definition EDE_DNSSEC_BOGUS :: u16 where "EDE_DNSSEC_BOGUS = 6"
definition EDE_DNSKEY_MISSING :: u16 where "EDE_DNSKEY_MISSING = 9"
definition EDE_BLOCKED :: u16 where "EDE_BLOCKED = 15"
definition EDE_PROHIBITED :: u16 where "EDE_PROHIBITED = 18"
definition EDE_NO_REACHABLE_AUTHORITY :: u16 where "EDE_NO_REACHABLE_AUTHORITY = 22"
definition EDE_NETWORK_ERROR :: u16 where "EDE_NETWORK_ERROR = 23"

lemmas ede_codes = EDE_DNSSEC_INDETERMINATE_def EDE_DNSSEC_BOGUS_def EDE_DNSKEY_MISSING_def
  EDE_BLOCKED_def EDE_PROHIBITED_def EDE_NO_REACHABLE_AUTHORITY_def EDE_NETWORK_ERROR_def

record extended_dns_error =
  info_code :: u16
  extra_text :: string

definition ede :: "u16 \<Rightarrow> string \<Rightarrow> extended_dns_error option" where
  "ede code text = Some \<lparr>info_code = code, extra_text = text\<rparr>"

definition from_domain_error :: "domain_error \<Rightarrow> extended_dns_error option" where
  "from_domain_error err =
    (case err of
       Blocked \<Rightarrow> ede EDE_BLOCKED ''domain is in blocklist''
     | DgaDomainDetected \<Rightarrow> ede EDE_BLOCKED ''DGA domain detected''
     | DnsCookieInvalid \<Rightarrow> ede EDE_PROHIBITED ''missing or invalid DNS cookie''
     | FilteredQuery _ \<Rightarrow> ede EDE_BLOCKED ''query filtered by policy''
     | DnsTunnelingDetected \<Rightarrow> ede EDE_PROHIBITED ''DNS tunneling detected''
     | DnsRateLimited \<Rightarrow> ede EDE_PROHIBITED ''rate limit exceeded''
     | DnssecValidationFailed _ \<Rightarrow> ede EDE_DNSSEC_BOGUS ''DNSSEC signature validation failed''
     | DnssecBogus \<Rightarrow> ede EDE_DNSSEC_BOGUS ''DNSSEC validation: bogus''
     | DnssecIndeterminate \<Rightarrow> ede EDE_DNSSEC_INDETERMINATE ''DNSSEC validation: indeterminate''
     | InsecureDelegation \<Rightarrow> ede EDE_DNSKEY_MISSING ''insecure delegation''
     | QueryTimeout \<Rightarrow> ede EDE_NO_REACHABLE_AUTHORITY ''upstream query timed out''
     | TransportNoHealthyServers \<Rightarrow> ede EDE_NO_REACHABLE_AUTHORITY ''no healthy upstream servers''
     | TransportAllServersUnreachable \<Rightarrow>
         ede EDE_NO_REACHABLE_AUTHORITY ''all upstream servers unreachable''
     | AllUpstreamsServfail \<Rightarrow> ede EDE_NO_REACHABLE_AUTHORITY ''all upstream servers unreachable''
     | TransportTimeout _ \<Rightarrow> ede EDE_NETWORK_ERROR ''upstream connection timed out''
     | TransportConnectionRefused _ \<Rightarrow> ede EDE_NETWORK_ERROR ''upstream connection refused''
     | TransportConnectionReset _ \<Rightarrow> ede EDE_NETWORK_ERROR ''upstream connection reset''
     | _ \<Rightarrow> None)"

lemma from_domain_error_text: "from_domain_error err = Some e \<Longrightarrow> length (extra_text e) \<le> 34"
  by (auto simp: from_domain_error_def ede_def split: domain_error.splits)

end
