(* ===== verification/Wire_Response.thy ===== *)
theory Wire_Response
  imports Fast_Path Ip_Addr Ede
begin

text \<open>
  Responses the server encodes itself (\<open>infrastructure/src/dns/wire_response.rs\<close>, first half):
  the fixed-buffer encoder of the cache fast path, the general encoder, the truncated answer,
  and the rewriting of a relayed header.
\<close>

section \<open>Constants\<close>

definition RESPONSE_BUF_LEN :: nat where "RESPONSE_BUF_LEN = 523"

definition OPT_RECORD :: bytes where
  "OPT_RECORD = [0x00, 0x00, 0x29, 0x10, 0x00, 0x00, 0x00, 0x00, 0x00, 0x00, 0x00]"

definition CLASS_IN :: u16 where "CLASS_IN = 1"
definition TYPE_SOA :: u16 where "TYPE_SOA = 6"
definition TYPE_OPT :: u16 where "TYPE_OPT = 41"
definition EDNS_UDP_PAYLOAD :: u16 where "EDNS_UDP_PAYLOAD = 4096"

definition SOA_RNAME :: bytes where
  "SOA_RNAME = [0x0A] @ bytes_of_str ''hostmaster'' @ [0x0B] @ bytes_of_str ''ferrous-dns''
     @ [0x07] @ bytes_of_str ''invalid'' @ [0x00]"

section \<open>Relayed headers\<close>

text \<open>\<open>u8::from(bool)\<close>.\<close>

definition u8_of_bool :: "bool \<Rightarrow> u8" where
  "u8_of_bool b = (if b then 1 else 0)"

definition set_relay_header :: "bytes \<Rightarrow> u16 \<Rightarrow> bool \<Rightarrow> bool \<Rightarrow> bytes" where
  "set_relay_header buf ident rd ad =
    (case buf of
       _ # _ # flags_hi # flags_lo # rest \<Rightarrow>
         be16_bytes ident @ [(flags_hi AND NOT 0x01) OR u8_of_bool rd,
           (flags_lo AND NOT 0x20) OR push_bit 5 (u8_of_bool ad)] @ rest
     | _ \<Rightarrow> buf)"

definition is_nxdomain :: "bytes \<Rightarrow> bool" where
  "is_nxdomain wire = (case byte_get wire 3 of Some flags_lo \<Rightarrow> flags_lo AND 0x0F = 3 | None \<Rightarrow> False)"

definition wire_fits_udp_buffer :: "nat \<Rightarrow> u16 \<Rightarrow> bool" where
  "wire_fits_udp_buffer wire_len max_size \<longleftrightarrow> wire_len \<le> unat max_size"

section \<open>Records\<close>

definition octets_v4 :: "u32 \<Rightarrow> bytes" where
  "octets_v4 a = be32_bytes a"

definition octets_v6 :: "u128 \<Rightarrow> bytes" where
  "octets_v6 a = be32_bytes (ucast (drop_bit 96 a)) @ be32_bytes (ucast (drop_bit 64 a))
     @ be32_bytes (ucast (drop_bit 32 a)) @ be32_bytes (ucast a)"

definition address_rr_len :: "ip_addr \<Rightarrow> nat" where
  "address_rr_len addr = (case addr of V4 _ \<Rightarrow> 16 | V6 _ \<Rightarrow> 28)"

text \<open>\<open>write_address_rr(&mut out[pos..], ...)\<close>: the buffer after the writes, and the length.\<close>

definition write_address_rr :: "bytes \<Rightarrow> nat \<Rightarrow> ip_addr \<Rightarrow> u32 \<Rightarrow> (bytes \<times> nat) res" where
  "write_address_rr out pos addr ttl =
    (let (rtype, rdlen) = (case addr of V4 _ \<Rightarrow> (1 :: u16, 4 :: u16) | V6 _ \<Rightarrow> (28, 16)) in
     and_then (put out pos [0xC0, 0x0C]) (\<lambda>out.
     and_then (put out (pos + 2) (be16_bytes rtype)) (\<lambda>out.
     and_then (put out (pos + 4) (be16_bytes CLASS_IN)) (\<lambda>out.
     and_then (put out (pos + 6) (be32_bytes ttl)) (\<lambda>out.
     and_then (put out (pos + 10) (be16_bytes rdlen)) (\<lambda>out.
     and_then (case addr of
         V4 v4 \<Rightarrow> put out (pos + 12) (octets_v4 v4)
       | V6 v6 \<Rightarrow> put out (pos + 12) (octets_v6 v6)) (\<lambda>out.
     Got (out, 12 + unat rdlen))))))))"

definition opt_head :: "u8 \<Rightarrow> bool \<Rightarrow> u16 \<Rightarrow> bytes" where
  "opt_head extended_rcode dnssec_ok rdlen =
    [0] @ be16_bytes TYPE_OPT @ be16_bytes EDNS_UDP_PAYLOAD
    @ [extended_rcode, 0, push_bit 7 (u8_of_bool dnssec_ok), 0] @ be16_bytes rdlen"

definition write_fast_path_opt :: "bytes \<Rightarrow> nat \<Rightarrow> bytes option \<Rightarrow> (bytes \<times> nat) res" where
  "write_fast_path_opt out pos cookie =
    (case cookie of
       None \<Rightarrow> and_then (put out pos OPT_RECORD) (\<lambda>out. Got (out, length OPT_RECORD))
     | Some cookie \<Rightarrow>
         (let rdlen = 4 + length cookie in
          and_then (put out pos (opt_head 0 False (word_of_nat rdlen))) (\<lambda>out.
          and_then (put out (pos + 11) (be16_bytes COOKIE_OPTION_CODE)) (\<lambda>out.
          and_then (put out (pos + 13) (be16_bytes (word_of_nat (length cookie)))) (\<lambda>out.
          and_then (put out (pos + 15) cookie) (\<lambda>out.
          Got (out, length OPT_RECORD + rdlen)))))))"

section \<open>The cache-hit encoder\<close>

fun write_addresses :: "bytes \<Rightarrow> nat \<Rightarrow> ip_addr list \<Rightarrow> u32 \<Rightarrow> (bytes \<times> nat) res" where
  "write_addresses out pos [] ttl = Got (out, pos)"
| "write_addresses out pos (addr # addrs) ttl =
    and_then (write_address_rr out pos addr ttl)
      (\<lambda>(out, n). write_addresses out (pos + n) addrs ttl)"

definition hit_size :: "fast_path_query \<Rightarrow> ip_addr list \<Rightarrow> bytes option \<Rightarrow> nat" where
  "hit_size query addresses cookie =
    (let question_len = question_end query - 12;
         answers_size = sum_list (map address_rr_len addresses);
         opt_size = (if has_edns query
           then length OPT_RECORD + (case cookie of None \<Rightarrow> 0 | Some c \<Rightarrow> 4 + length c) else 0)
     in 12 + question_len + answers_size + opt_size)"

definition build_cache_hit_response ::
  "fast_path_query \<Rightarrow> bytes \<Rightarrow> ip_addr list \<Rightarrow> u32 \<Rightarrow> bytes option \<Rightarrow> bytes \<Rightarrow> (nat \<times> bytes) res" where
  "build_cache_hit_response query query_buf addresses ttl cookie out =
    (if addresses = [] \<or> length query_buf < question_end query then Nothing
     else let question_len = question_end query - 12;
              total_size = hit_size query addresses cookie in
     if unat (client_max_size query) < total_size \<or> RESPONSE_BUF_LEN < total_size then Nothing
     else
     and_then (put out 0 (be16_bytes (q_id query))) (\<lambda>out.
     and_then (put out 2 [0x81, 0x80]) (\<lambda>out.
     and_then (put out 4 (be16_bytes 1)) (\<lambda>out.
     and_then (put out 6 (be16_bytes (word_of_nat (length addresses)))) (\<lambda>out.
     and_then (put out 8 (be16_bytes 0)) (\<lambda>out.
     and_then (put out 10 (be16_bytes (if has_edns query then 1 else 0))) (\<lambda>out.
     and_then (slice_ix query_buf 12 (question_end query)) (\<lambda>q.
     and_then (put out 12 q) (\<lambda>out.
     and_then (write_addresses out (12 + question_len) addresses ttl) (\<lambda>(out, pos).
     if has_edns query then
       and_then (write_fast_path_opt out pos cookie) (\<lambda>(out, n). Got (pos + n, out))
     else Got (pos, out)))))))))))"

section \<open>The general encoder\<close>

datatype rcode = NoError | FormErr | ServFail | RNxDomain | Refused | BadCookie

fun rcode_value :: "rcode \<Rightarrow> u8" where
  "rcode_value NoError = 0"
| "rcode_value FormErr = 1"
| "rcode_value ServFail = 2"
| "rcode_value RNxDomain = 3"
| "rcode_value Refused = 5"
| "rcode_value BadCookie = 23"

record response_head =
  rh_id :: u16
  rh_recursion_desired :: bool
  rh_authentic_data :: bool
  rh_rcode :: rcode

definition flags :: "response_head \<Rightarrow> bool \<Rightarrow> bytes" where
  "flags head truncated =
    (let hi = 0x80 OR u8_of_bool (rh_recursion_desired head);
         hi = (if truncated then hi OR 0x02 else hi);
         lo = 0x80 OR push_bit 5 (u8_of_bool (rh_authentic_data head))
              OR (rcode_value (rh_rcode head) AND 0x0F)
     in [hi, lo])"

record edns_reply =
  er_dnssec_ok :: bool
  er_cookie :: "bytes option"
  er_ede :: "extended_dns_error option"

definition rdata_len :: "edns_reply \<Rightarrow> nat" where
  "rdata_len e = (case er_cookie e of None \<Rightarrow> 0 | Some c \<Rightarrow> 4 + length c)
     + (case er_ede e of None \<Rightarrow> 0 | Some x \<Rightarrow> 6 + length (extra_text x))"

definition edns_len :: "edns_reply \<Rightarrow> nat" where
  "edns_len e = length OPT_RECORD + rdata_len e"

text \<open>\<open>EdnsReply::write\<close>: the bytes it appends.\<close>

definition edns_bytes :: "edns_reply \<Rightarrow> u8 \<Rightarrow> bytes" where
  "edns_bytes e extended_rcode =
    opt_head extended_rcode (er_dnssec_ok e) (word_of_nat (rdata_len e))
    @ (case er_cookie e of
         None \<Rightarrow> []
       | Some c \<Rightarrow> be16_bytes COOKIE_OPTION_CODE @ be16_bytes (word_of_nat (length c)) @ c)
    @ (case er_ede e of
         None \<Rightarrow> []
       | Some x \<Rightarrow> be16_bytes EDE_OPTION_CODE
           @ be16_bytes (word_of_nat (2 + length (bytes_of_str (extra_text x))))
           @ be16_bytes (info_code x) @ bytes_of_str (extra_text x))"

datatype response_body = Empty | Addresses "ip_addr list" u32 | NegativeSoa u32

definition write_header :: "u16 \<Rightarrow> bytes \<Rightarrow> u16 \<Rightarrow> u16 \<Rightarrow> u16 \<Rightarrow> u16 \<Rightarrow> bytes" where
  "write_header ident fl qd an ns ar =
    be16_bytes ident @ fl @ concat (map be16_bytes [qd, an, ns, ar])"

text \<open>One address record, written into a 28-byte scratch array and copied out.\<close>

definition address_rr :: "ip_addr \<Rightarrow> u32 \<Rightarrow> bytes res" where
  "address_rr addr ttl =
    and_then (write_address_rr (replicate 28 0) 0 addr ttl) (\<lambda>(rr, len). slice_ix rr 0 len)"

fun append_addresses :: "bytes \<Rightarrow> ip_addr list \<Rightarrow> u32 \<Rightarrow> bytes res" where
  "append_addresses out [] ttl = Got out"
| "append_addresses out (addr # addrs) ttl =
    and_then (address_rr addr ttl) (\<lambda>rr. append_addresses (out @ rr) addrs ttl)"

definition negative_soa :: "u32 \<Rightarrow> bytes" where
  "negative_soa ttl =
    [0xC0, 0x0C] @ be16_bytes TYPE_SOA @ be16_bytes CLASS_IN @ be32_bytes ttl
    @ be16_bytes (word_of_nat (2 + length SOA_RNAME + 20))
    @ [0xC0, 0x0C] @ SOA_RNAME @ concat (map be32_bytes [1, 3600, 600, 604800, ttl])"

definition encode_response ::
  "response_head \<Rightarrow> bytes \<Rightarrow> u16 \<Rightarrow> response_body \<Rightarrow> edns_reply option \<Rightarrow> bytes res" where
  "encode_response head quest qdcount body edns =
    (let (ancount, nscount) =
           (case body of
              Empty \<Rightarrow> (0, 0)
            | Addresses addresses _ \<Rightarrow> (word_of_nat (length addresses), 0)
            | NegativeSoa _ \<Rightarrow> (0, 1));
         out = write_header (rh_id head) (flags head False) qdcount ancount nscount
           (if edns \<noteq> None then 1 else 0) @ quest
     in and_then (case body of
            Empty \<Rightarrow> Got out
          | Addresses addresses ttl \<Rightarrow> append_addresses out addresses ttl
          | NegativeSoa ttl \<Rightarrow> Got (out @ negative_soa ttl)) (\<lambda>out.
        Got (case edns of
            None \<Rightarrow> out
          | Some e \<Rightarrow> out @ edns_bytes e (drop_bit 4 (rcode_value (rh_rcode head))))))"

definition encode_truncated :: "u16 \<Rightarrow> bool \<Rightarrow> bytes \<Rightarrow> u16 \<Rightarrow> edns_reply option \<Rightarrow> bytes" where
  "encode_truncated ident rd quest qdcount edns =
    (let head = \<lparr>rh_id = ident, rh_recursion_desired = rd,
                 rh_authentic_data = False, rh_rcode = NoError\<rparr>
     in write_header ident (flags head True) qdcount 0 0 (if edns \<noteq> None then 1 else 0)
        @ quest @ (case edns of None \<Rightarrow> [] | Some e \<Rightarrow> edns_bytes e 0))"

section \<open>The reference for a cache hit\<close>

text \<open>
  The header and OPT of a cache hit, as the general encoder takes them. The flags of a hit are
  constant, so its head has RD set whatever the query says.
\<close>

definition hit_head :: "fast_path_query \<Rightarrow> response_head" where
  "hit_head query = \<lparr>rh_id = q_id query, rh_recursion_desired = True, rh_authentic_data = False,
     rh_rcode = NoError\<rparr>"

definition hit_edns :: "fast_path_query \<Rightarrow> bytes option \<Rightarrow> edns_reply option" where
  "hit_edns query cookie =
    (if has_edns query then Some \<lparr>er_dnssec_ok = False, er_cookie = cookie, er_ede = None\<rparr> else None)"

definition hit_response :: "fast_path_query \<Rightarrow> bytes \<Rightarrow> ip_addr list \<Rightarrow> u32 \<Rightarrow> bytes option \<Rightarrow> bytes res" where
  "hit_response query query_buf addresses ttl cookie =
    encode_response (hit_head query) (take (question_end query - 12) (drop 12 query_buf)) 1
      (Addresses addresses ttl) (hit_edns query cookie)"

section \<open>The reference decoder of records\<close>

text \<open>Type, class, TTL and RDATA of the record at an offset, and the offset past it.\<close>

type_synonym rr = "u16 \<times> u16 \<times> u32 \<times> bytes"

definition read_rr :: "bytes \<Rightarrow> nat \<Rightarrow> (rr \<times> nat) option" where
  "read_rr msg pos = do {
     fixed \<leftarrow> skip_name msg pos;
     ty \<leftarrow> slice_get msg fixed (fixed + 2);
     cl \<leftarrow> slice_get msg (fixed + 2) (fixed + 4);
     ttl \<leftarrow> slice_get msg (fixed + 4) (fixed + 8);
     rdlen \<leftarrow> slice_get msg (fixed + 8) (fixed + 10);
     let end = fixed + 10 + unat (be16_of rdlen);
     rdata \<leftarrow> slice_get msg (fixed + 10) end;
     Some ((be16_of ty, be16_of cl, be32_of ttl, rdata), end)
   }"

fun read_rrs :: "nat \<Rightarrow> bytes \<Rightarrow> nat \<Rightarrow> (rr list \<times> nat) option" where
  "read_rrs 0 msg pos = Some ([], pos)"
| "read_rrs (Suc n) msg pos = do {
     (rr, pos1) \<leftarrow> read_rr msg pos;
     (rrs, pos2) \<leftarrow> read_rrs n msg pos1;
     Some (rr # rrs, pos2)
   }"

text \<open>The records a response is meant to carry.\<close>

definition address_record :: "u32 \<Rightarrow> ip_addr \<Rightarrow> rr" where
  "address_record ttl addr =
    (case addr of V4 a \<Rightarrow> (1, CLASS_IN, ttl, octets_v4 a) | V6 a \<Rightarrow> (28, CLASS_IN, ttl, octets_v6 a))"

definition body_records :: "response_body \<Rightarrow> rr list" where
  "body_records body =
    (case body of
       Empty \<Rightarrow> []
     | Addresses addresses ttl \<Rightarrow> map (address_record ttl) addresses
     | NegativeSoa ttl \<Rightarrow>
         [(TYPE_SOA, CLASS_IN, ttl,
           [0xC0, 0x0C] @ SOA_RNAME @ concat (map be32_bytes [1, 3600, 600, 604800, ttl]))])"

definition edns_options :: "edns_reply \<Rightarrow> bytes" where
  "edns_options e =
    (case er_cookie e of
       None \<Rightarrow> []
     | Some c \<Rightarrow> be16_bytes COOKIE_OPTION_CODE @ be16_bytes (word_of_nat (length c)) @ c)
    @ (case er_ede e of
         None \<Rightarrow> []
       | Some x \<Rightarrow> be16_bytes EDE_OPTION_CODE
           @ be16_bytes (word_of_nat (2 + length (bytes_of_str (extra_text x))))
           @ be16_bytes (info_code x) @ bytes_of_str (extra_text x))"

definition edns_records :: "u8 \<Rightarrow> edns_reply option \<Rightarrow> rr list" where
  "edns_records extended_rcode edns =
    (case edns of
       None \<Rightarrow> []
     | Some e \<Rightarrow> [(TYPE_OPT, EDNS_UDP_PAYLOAD,
         be32 extended_rcode 0 (push_bit 7 (u8_of_bool (er_dnssec_ok e))) 0, edns_options e)])"

section \<open>The records as byte strings\<close>

text \<open>A record whose owner is written as \<open>owner\<close>.\<close>

definition encode_rr :: "bytes \<Rightarrow> rr \<Rightarrow> bytes" where
  "encode_rr owner r =
    (case r of (ty, cl, ttl, rdata) \<Rightarrow>
       owner @ be16_bytes ty @ be16_bytes cl @ be32_bytes ttl
       @ be16_bytes (word_of_nat (length rdata)) @ rdata)"

definition rr_bytes :: "ip_addr \<Rightarrow> u32 \<Rightarrow> bytes" where
  "rr_bytes addr ttl =
    [0xC0, 0x0C] @ be16_bytes (case addr of V4 _ \<Rightarrow> 1 | V6 _ \<Rightarrow> 28) @ be16_bytes CLASS_IN
    @ be32_bytes ttl @ be16_bytes (case addr of V4 _ \<Rightarrow> 4 | V6 _ \<Rightarrow> 16)
    @ (case addr of V4 v4 \<Rightarrow> octets_v4 v4 | V6 v6 \<Rightarrow> octets_v6 v6)"


lemma length_octets [simp]: "length (octets_v4 a) = 4" "length (octets_v6 b) = 16"
  by (simp_all add: octets_v4_def octets_v6_def)

lemma length_rr_bytes [simp]: "length (rr_bytes addr ttl) = address_rr_len addr"
  by (simp add: rr_bytes_def address_rr_len_def split: ip_addr.splits)

lemma write_address_rr_eq:
  "write_address_rr out pos addr ttl =
    and_then (put out pos (rr_bytes addr ttl)) (\<lambda>out. Got (out, address_rr_len addr))"
  by (cases addr)
    (simp_all add: write_address_rr_def put_put rr_bytes_def address_rr_len_def)

lemma write_fast_path_opt_eq:
  "write_fast_path_opt out pos cookie =
    and_then (put out pos (edns_bytes \<lparr>er_dnssec_ok = False, er_cookie = cookie, er_ede = None\<rparr> 0))
      (\<lambda>out. Got (out, edns_len \<lparr>er_dnssec_ok = False, er_cookie = cookie, er_ede = None\<rparr>))"
proof -
  have "OPT_RECORD = opt_head 0 False 0"
    by (simp add: OPT_RECORD_def opt_head_def be16_bytes_def TYPE_OPT_def EDNS_UDP_PAYLOAD_def
        u8_of_bool_def)
  moreover have "length (opt_head x y z) = 11" for x y z by (simp add: opt_head_def)
  ultimately show ?thesis
    by (cases cookie)
      (simp_all add: write_fast_path_opt_def put_put edns_bytes_def edns_len_def rdata_len_def)
qed

lemma write_addresses_eq:
  "write_addresses out pos addrs ttl =
    (let rrs = concat (map (\<lambda>a. rr_bytes a ttl) addrs)
     in if addrs = [] then Got (out, pos)
        else and_then (put out pos rrs) (\<lambda>out. Got (out, pos + length rrs)))"
proof (induction addrs arbitrary: out pos)
  case (Cons a addrs)
  have step: "write_addresses out pos (a # addrs) ttl = and_then (put out pos (rr_bytes a ttl))
      (\<lambda>out. write_addresses out (pos + address_rr_len a) addrs ttl)"
    by (simp add: write_address_rr_eq and_then_assoc)
  show ?case
    unfolding step Cons.IH by (cases "addrs = []") (simp_all add: Let_def put_put add.assoc)
qed simp

lemma append_addresses_eq:
  "append_addresses out addrs ttl = Got (out @ concat (map (\<lambda>a. rr_bytes a ttl) addrs))"
proof (induction addrs arbitrary: out)
  case (Cons a addrs)
  have "address_rr_len a \<le> 28" by (simp add: address_rr_len_def split: ip_addr.splits)
  then have "address_rr a ttl = Got (rr_bytes a ttl)"
    by (simp add: address_rr_def write_address_rr_eq put_def slice_ix_def overwrite_def)
  then show ?case using Cons by simp
qed simp

lemma encode_response_eq:
  "encode_response head quest qdcount body edns = Got
    (write_header (rh_id head) (flags head False) qdcount
      (case body of Addresses addresses _ \<Rightarrow> word_of_nat (length addresses) | _ \<Rightarrow> 0)
      (case body of NegativeSoa _ \<Rightarrow> 1 | _ \<Rightarrow> 0) (if edns \<noteq> None then 1 else 0)
     @ quest
     @ (case body of
          Empty \<Rightarrow> []
        | Addresses addresses ttl \<Rightarrow> concat (map (\<lambda>a. rr_bytes a ttl) addresses)
        | NegativeSoa ttl \<Rightarrow> negative_soa ttl)
     @ (case edns of
          None \<Rightarrow> []
        | Some e \<Rightarrow> edns_bytes e (drop_bit 4 (rcode_value (rh_rcode head)))))"
  by (simp add: encode_response_def append_addresses_eq split: response_body.splits option.splits)

lemma length_edns_bytes [simp]: "length (edns_bytes e x) = edns_len e"
  by (simp add: edns_bytes_def edns_len_def rdata_len_def opt_head_def OPT_RECORD_def
      split: option.splits)

lemma length_rrs: "length (concat (map (\<lambda>a. rr_bytes a ttl) addrs)) = sum_list (map address_rr_len addrs)"
  by (rule length_concat_const) simp

lemma hit_response_eq:
  "hit_response query query_buf addresses ttl cookie = Got
    (be16_bytes (q_id query) @ [0x81, 0x80] @ be16_bytes 1 @ be16_bytes (word_of_nat (length addresses))
     @ be16_bytes 0 @ be16_bytes (if has_edns query then 1 else 0)
     @ take (question_end query - 12) (drop 12 query_buf)
     @ concat (map (\<lambda>a. rr_bytes a ttl) addresses)
     @ (if has_edns query
        then edns_bytes \<lparr>er_dnssec_ok = False, er_cookie = cookie, er_ede = None\<rparr> 0 else []))"
  by (simp add: hit_response_def encode_response_eq hit_head_def hit_edns_def write_header_def
      flags_def u8_of_bool_def)

lemma hit_response_length:
  assumes "question_end query \<le> length query_buf" "12 \<le> question_end query"
    and "hit_response query query_buf addresses ttl cookie = Got msg"
  shows "length msg = hit_size query addresses cookie"
  using assms
  by (auto simp: hit_response_eq hit_size_def edns_len_def rdata_len_def length_rrs
      split: option.splits)

lemma build_cache_hit_eq:
  assumes "addresses \<noteq> []" "question_end query \<le> length query_buf" "12 \<le> question_end query"
    and "hit_size query addresses cookie \<le> unat (client_max_size query)"
    and "hit_size query addresses cookie \<le> RESPONSE_BUF_LEN"
    and "length out = RESPONSE_BUF_LEN"
    and msg: "hit_response query query_buf addresses ttl cookie = Got msg"
  shows "length msg = hit_size query addresses cookie"
    "build_cache_hit_response query query_buf addresses ttl cookie out =
      Got (length msg, overwrite out 0 msg)"
proof -
  let ?q = "take (question_end query - 12) (drop 12 query_buf)"
  have q: "slice_ix query_buf 12 (question_end query) = Got ?q"
    using assms(2,3) by (simp add: slice_ix_def)
  have lq: "length ?q = question_end query - 12" using assms(2) by simp
  show len: "length msg = hit_size query addresses cookie"
    using hit_response_length [OF assms(2,3) msg] .
  have "put out 0 msg = Got (overwrite out 0 msg)"
    using assms(5,6) len by (simp add: put_def)
  then show "build_cache_hit_response query query_buf addresses ttl cookie out =
      Got (length msg, overwrite out 0 msg)"
    using assms(1,2,4,5) msg lq
    by (cases "has_edns query")
      (auto simp: build_cache_hit_response_def hit_response_eq q put_put write_addresses_eq
        write_fast_path_opt_eq and_then_assoc Let_def)
qed

section \<open>Encoded records decode\<close>

lemma skip_name_pointer:
  "skip_name (pre @ 0xC0 # lo # rest) (length pre) = Some (length pre + 2)"
  by (subst skip_name.simps) (simp add: byte_get_def nth_append)

lemma skip_name_root: "skip_name (pre @ 0 # rest) (length pre) = Some (length pre + 1)"
  by (subst skip_name.simps) simp

lemma slice_get_at:
  assumes "msg = pre @ xs @ rest" "a = length pre" "b = a + length xs"
  shows "slice_get msg a b = Some xs"
  using assms by (simp add: slice_get_def)

lemma read_rr_encode:
  assumes "skip_name (pre @ encode_rr owner r @ rest) (length pre) = Some (length pre + length owner)"
    and "r = (ty, cl, ttl, rdata)" "length rdata < 65536"
  shows "read_rr (pre @ encode_rr owner r @ rest) (length pre) =
    Some (r, length pre + length (encode_rr owner r))"
proof -
  let ?m = "pre @ encode_rr owner r @ rest" and ?f = "length pre + length owner"
  note parts = encode_rr_def assms(2)
  have "unat (word_of_nat (length rdata) :: u16) = length rdata"
    using assms(3) by (simp add: unat_of_nat)
  moreover have "slice_get ?m ?f (?f + 2) = Some (be16_bytes ty)"
    by (rule slice_get_at [of _ "pre @ owner"]) (simp_all add: parts)
  moreover have "slice_get ?m (?f + 2) (?f + 4) = Some (be16_bytes cl)"
    by (rule slice_get_at [of _ "pre @ owner @ be16_bytes ty"]) (simp_all add: parts)
  moreover have "slice_get ?m (?f + 4) (?f + 8) = Some (be32_bytes ttl)"
    by (rule slice_get_at [of _ "pre @ owner @ be16_bytes ty @ be16_bytes cl"]) (simp_all add: parts)
  moreover have "slice_get ?m (?f + 8) (?f + 10) = Some (be16_bytes (word_of_nat (length rdata)))"
    by (rule slice_get_at [of _ "pre @ owner @ be16_bytes ty @ be16_bytes cl @ be32_bytes ttl"])
      (simp_all add: parts)
  moreover have "slice_get ?m (?f + 10) (?f + 10 + length rdata) = Some rdata"
    by (rule slice_get_at [of _ "pre @ owner @ be16_bytes ty @ be16_bytes cl @ be32_bytes ttl
          @ be16_bytes (word_of_nat (length rdata))"]) (simp_all add: parts)
  ultimately show ?thesis
    using assms(1) by (simp add: read_rr_def assms(2)) (simp add: encode_rr_def)
qed

lemma read_rr_pointer:
  assumes "length (snd (snd (snd r))) < 65536"
  shows "read_rr (pre @ encode_rr [0xC0, 0x0C] r @ rest) (length pre) =
    Some (r, length pre + length (encode_rr [0xC0, 0x0C] r))"
proof -
  obtain ty cl ttl rdata where r: "r = (ty, cl, ttl, rdata)" by (cases r)
  show ?thesis
    by (rule read_rr_encode [OF _ r]) (use assms r skip_name_pointer in \<open>simp_all add: encode_rr_def\<close>)
qed

lemma rr_bytes_eq: "rr_bytes addr ttl = encode_rr [0xC0, 0x0C] (address_record ttl addr)"
  by (cases addr) (simp_all add: rr_bytes_def encode_rr_def address_record_def)

lemma read_rrs_append:
  assumes "read_rrs m msg p = Some (xs, q)" "read_rrs n msg q = Some (ys, e)"
  shows "read_rrs (m + n) msg p = Some (xs @ ys, e)"
  using assms
proof (induction m arbitrary: p xs)
  case (Suc m)
  then show ?case by (fastforce simp: Option.bind_eq_Some_conv)
qed simp

lemma read_rrs_pointers:
  assumes "list_all (\<lambda>r. length (snd (snd (snd r))) < 65536) rs"
  shows "read_rrs (length rs) (pre @ concat (map (encode_rr [0xC0, 0x0C]) rs) @ rest) (length pre) =
    Some (rs, length pre + length (concat (map (encode_rr [0xC0, 0x0C]) rs)))"
  using assms
proof (induction rs arbitrary: pre)
  case (Cons r rs)
  have "read_rr (pre @ encode_rr [0xC0, 0x0C] r @ concat (map (encode_rr [0xC0, 0x0C]) rs) @ rest)
      (length pre) = Some (r, length pre + length (encode_rr [0xC0, 0x0C] r))"
    by (rule read_rr_pointer) (use Cons.prems in simp)
  then show ?case
    using Cons.IH [of "pre @ encode_rr [0xC0, 0x0C] r"] Cons.prems by (simp add: add.assoc)
qed simp

text \<open>The bytes between the question and the OPT are the encoded body records.\<close>

lemma body_bytes_eq:
  "(case body of
      Empty \<Rightarrow> []
    | Addresses addresses ttl \<Rightarrow> concat (map (\<lambda>a. rr_bytes a ttl) addresses)
    | NegativeSoa ttl \<Rightarrow> negative_soa ttl) =
   concat (map (encode_rr [0xC0, 0x0C]) (body_records body))"
  by (cases body)
    (simp_all add: body_records_def rr_bytes_eq negative_soa_def encode_rr_def comp_def ac_simps)

lemma body_records_small: "list_all (\<lambda>r. length (snd (snd (snd r))) < 65536) (body_records body)"
  by (cases body)
    (auto simp: body_records_def address_record_def list_all_iff SOA_RNAME_def split: ip_addr.splits)

lemma edns_bytes_eq:
  assumes "length (edns_options e) = rdata_len e"
  shows "edns_bytes e x = encode_rr [0]
    (TYPE_OPT, EDNS_UDP_PAYLOAD, be32 x 0 (push_bit 7 (u8_of_bool (er_dnssec_ok e))) 0, edns_options e)"
  using assms by (simp add: edns_bytes_def encode_rr_def opt_head_def edns_options_def)

lemma length_edns_options: "length (edns_options e) = rdata_len e"
  by (simp add: edns_options_def rdata_len_def split: option.splits)

lemma read_edns:
  assumes "rdata_len e < 65536"
  shows "read_rr (pre @ edns_bytes e x) (length pre) = Some
    ((TYPE_OPT, EDNS_UDP_PAYLOAD, be32 x 0 (push_bit 7 (u8_of_bool (er_dnssec_ok e))) 0, edns_options e),
     length pre + length (edns_bytes e x))"
proof -
  have "skip_name (pre @ encode_rr [0] r @ []) (length pre) = Some (length pre + length [0 :: u8])" for r
    using skip_name_root by (simp add: encode_rr_def split: prod.splits)
  from read_rr_encode [OF this refl, of "edns_options e"] assms show ?thesis
    unfolding edns_bytes_eq [OF length_edns_options] by (simp add: length_edns_options)
qed

section \<open>Properties\<close>

text \<open>
  C25. The fixed-buffer encoder of the cache fast path is the general encoder: for every query
  the parser accepts, whatever the reused buffer held before, it either declines (nothing to
  answer, or the reply exceeds the client's size or the buffer) or writes exactly the bytes of
  the general encoder and its length, and never writes out of bounds.
\<close>

theorem cache_hit_equals_encoder:
  assumes "parse_query query_buf = Got query" "length out = RESPONSE_BUF_LEN"
  shows "\<exists>msg. hit_response query query_buf addresses ttl cookie = Got msg \<and>
    build_cache_hit_response query query_buf addresses ttl cookie out =
      (if addresses = [] \<or> unat (client_max_size query) < length msg \<or> RESPONSE_BUF_LEN < length msg
       then Nothing else Got (length msg, overwrite out 0 msg))"
proof -
  have q: "question_end query \<le> length query_buf" "12 \<le> question_end query"
    using parse_query_bounds [OF assms(1)] by simp_all
  obtain msg where msg: "hit_response query query_buf addresses ttl cookie = Got msg"
    by (simp add: hit_response_eq)
  have len: "length msg = hit_size query addresses cookie"
    using hit_response_length [OF q msg] .
  show ?thesis
    using build_cache_hit_eq(2) [OF _ q _ _ assms(2) msg] msg len q
    by (auto simp: build_cache_hit_response_def Let_def)
qed

theorem cache_hit_equals_encoder_witness:
  "\<exists>q msg. parse_query (query_packet 7 0x0100 [[0x77]] 1) = Got q \<and>
    hit_response q (query_packet 7 0x0100 [[0x77]] 1) [V4 0x7F000001] 60 None = Got msg \<and>
    build_cache_hit_response q (query_packet 7 0x0100 [[0x77]] 1) [V4 0x7F000001] 60 None
      (replicate RESPONSE_BUF_LEN 0xAA) = Got (length msg, overwrite (replicate RESPONSE_BUF_LEN 0xAA) 0 msg)"
proof -
  let ?p = "query_packet 7 0x0100 [[0x77]] 1"
  have "case parse_query ?p of Got q \<Rightarrow> question_end q = 19 \<and> \<not> has_edns q \<and> client_max_size q = 512 | _ \<Rightarrow> False"
    by code_simp
  then obtain q where q: "parse_query ?p = Got q" "question_end q = 19" "\<not> has_edns q" "client_max_size q = 512"
    by (auto split: res.splits)
  from cache_hit_equals_encoder [OF q(1), of "replicate RESPONSE_BUF_LEN 0xAA" "[V4 0x7F000001]" 60 None]
  obtain msg where msg: "hit_response q ?p [V4 0x7F000001] 60 None = Got msg"
    and eq: "build_cache_hit_response q ?p [V4 0x7F000001] 60 None (replicate RESPONSE_BUF_LEN 0xAA) =
      (if 512 < length msg \<or> RESPONSE_BUF_LEN < length msg then Nothing
       else Got (length msg, overwrite (replicate RESPONSE_BUF_LEN 0xAA) 0 msg))"
    using q(4) by auto
  have "length msg = hit_size q [V4 0x7F000001] None"
    using hit_response_length [OF _ _ msg] parse_query_bounds [OF q(1)] by simp
  then have "length msg = 35" using q by (simp add: hit_size_def address_rr_len_def)
  then show ?thesis using q(1) msg eq by (auto simp: RESPONSE_BUF_LEN_def)
qed

text \<open>
  C37. What the encoder writes is what a resolver reads: after the question the message holds
  exactly the records asked for, in order and up to its end: the addresses with their type, TTL
  and octets, the synthetic SOA of a negative answer, or nothing, then the OPT with the extended
  RCODE, the DO bit, the cookie and the extended error; and the header counts them.
\<close>

theorem encode_response_decodes:
  assumes "encode_response head quest qdcount body edns = Got msg"
    and "\<And>e. edns = Some e \<Longrightarrow> rdata_len e < 65536"
  shows "read_rrs (length (body_records body) + (if edns = None then 0 else 1)) msg (12 + length quest) =
      Some (body_records body @ edns_records (drop_bit 4 (rcode_value (rh_rcode head))) edns, length msg) \<and>
    take 12 msg = write_header (rh_id head) (flags head False) qdcount
      (case body of Addresses addresses _ \<Rightarrow> word_of_nat (length addresses) | _ \<Rightarrow> 0)
      (case body of NegativeSoa _ \<Rightarrow> 1 | _ \<Rightarrow> 0) (if edns \<noteq> None then 1 else 0) \<and>
    take (length quest) (drop 12 msg) = quest"
proof -
  define h where "h = write_header (rh_id head) (flags head False) qdcount
      (case body of Addresses addresses _ \<Rightarrow> word_of_nat (length addresses) | _ \<Rightarrow> 0)
      (case body of NegativeSoa _ \<Rightarrow> 1 | _ \<Rightarrow> 0) (if edns \<noteq> None then 1 else 0)"
  define x where "x = drop_bit 4 (rcode_value (rh_rcode head))"
  define b where "b = concat (map (encode_rr [0xC0, 0x0C]) (body_records body))"
  let ?o = "case edns of None \<Rightarrow> [] | Some e \<Rightarrow> edns_bytes e x"
  have h: "length h = 12" by (simp add: h_def write_header_def flags_def)
  have msg: "msg = h @ quest @ b @ ?o"
    using assms(1) unfolding encode_response_eq body_bytes_eq h_def b_def x_def by simp
  have body: "read_rrs (length (body_records body)) msg (12 + length quest) =
      Some (body_records body, 12 + length quest + length b)"
    using read_rrs_pointers [OF body_records_small [of body], of "h @ quest" ?o] h
    unfolding msg b_def by (simp add: add.assoc)
  have "read_rrs (if edns = None then 0 else 1) msg (12 + length quest + length b) =
      Some (edns_records x edns, length msg)"
  proof (cases edns)
    case (Some e)
    then show ?thesis
      using read_edns [OF assms(2) [OF Some], of "h @ quest @ b" x] h msg
      by (simp add: edns_records_def add.assoc)
  qed (use msg h in \<open>simp add: edns_records_def\<close>)
  from read_rrs_append [OF body this] show ?thesis
    using msg h unfolding h_def x_def by simp
qed

theorem encode_response_decodes_witness:
  "\<exists>msg. encode_response \<lparr>rh_id = 1, rh_recursion_desired = True, rh_authentic_data = False, rh_rcode = BadCookie\<rparr>
      [] 0 (NegativeSoa 300) (Some \<lparr>er_dnssec_ok = True, er_cookie = Some [1, 2, 3], er_ede = None\<rparr>) = Got msg \<and>
    read_rrs 2 msg 12 = Some (body_records (NegativeSoa 300)
      @ [(TYPE_OPT, EDNS_UDP_PAYLOAD, be32 1 0 0x80 0, [0, 10, 0, 3, 1, 2, 3])], length msg)"
proof -
  let ?h = "\<lparr>rh_id = 1, rh_recursion_desired = True, rh_authentic_data = False, rh_rcode = BadCookie\<rparr>"
  let ?e = "\<lparr>er_dnssec_ok = True, er_cookie = Some [1, 2, 3], er_ede = None\<rparr>"
  obtain msg where msg: "encode_response ?h [] 0 (NegativeSoa 300) (Some ?e) = Got msg"
    by (simp add: encode_response_eq)
  have opt: "edns_records (drop_bit 4 (rcode_value (rh_rcode ?h))) (Some ?e) =
      [(TYPE_OPT, EDNS_UDP_PAYLOAD, be32 1 0 0x80 0, [0, 10, 0, 3, 1, 2, 3])]"
    by (simp add: edns_records_def edns_options_def u8_of_bool_def be16_bytes_def COOKIE_OPTION_CODE_def)
  have count: "length (body_records (NegativeSoa 300)) + (if Some ?e = None then 0 else 1) = 2"
    "12 + length ([] :: bytes) = 12"
    by (simp_all add: body_records_def)
  have small: "rdata_len e < 65536" if "Some ?e = Some e" for e
    using that by (auto simp: rdata_len_def)
  show ?thesis
    using conjunct1 [OF encode_response_decodes [OF msg small]] msg unfolding opt count by blast
qed

lemma bit_0_set: "bit ((b AND NOT 1) OR u8_of_bool v) n = (if n = 0 then v else bit b n)" for b :: u8
  using bit_imp_le_length [of b n] by (auto simp: u8_of_bool_def bit_simps)

lemma bit_5_set:
  "bit ((b AND NOT 0x20) OR push_bit 5 (u8_of_bool v)) n = (if n = 5 then v else bit b n)" for b :: u8
proof -
  have "(0x20 :: u8) = push_bit 5 1" by simp
  then have b32: "bit (0x20 :: u8) n \<longleftrightarrow> n = 5" by (simp only: bit_push_bit_iff bit_1_iff) auto
  have "bit (push_bit 5 (u8_of_bool v)) n \<longleftrightarrow> n = 5 \<and> v"
    using b32 by (cases v) (simp_all add: u8_of_bool_def)
  then show ?thesis
    unfolding bit_or_iff bit_and_iff bit_not_iff b32 using bit_imp_le_length [of b n] by auto
qed

text \<open>
  Rewriting a relayed header sets the client's ID, the client's RD bit and the given AD
  bit, and changes nothing else: every other header bit and all later bytes stay, and a
  message shorter than its flags is left alone.
\<close>

lemma set_relay_header_exact:
  "length (set_relay_header buf ident rd ad) = length buf \<and>
   drop 4 (set_relay_header buf ident rd ad) = drop 4 buf \<and>
   (length buf < 4 \<longrightarrow> set_relay_header buf ident rd ad = buf) \<and>
   (4 \<le> length buf \<longrightarrow> take 2 (set_relay_header buf ident rd ad) = be16_bytes ident \<and>
     (\<forall>n. bit (set_relay_header buf ident rd ad ! 2) n = (if n = 0 then rd else bit (buf ! 2) n)) \<and>
     (\<forall>n. bit (set_relay_header buf ident rd ad ! 3) n = (if n = 5 then ad else bit (buf ! 3) n)))"
proof (cases "4 \<le> length buf")
  case True
  then obtain a b c d rest where "buf = a # b # c # d # rest"
    by (auto simp: numeral_eq_Suc Suc_le_length_iff)
  define hi where "hi = (c AND NOT 0x01) OR u8_of_bool rd"
  define lo where "lo = (d AND NOT 0x20) OR push_bit 5 (u8_of_bool ad)"
  have "set_relay_header buf ident rd ad = be16_bytes ident @ [hi, lo] @ rest"
    unfolding \<open>buf = _\<close> set_relay_header_def hi_def lo_def by simp
  moreover have "bit hi n = (if n = 0 then rd else bit c n)" for n
    unfolding hi_def by (rule bit_0_set)
  moreover have "bit lo n = (if n = 5 then ad else bit d n)" for n
    unfolding lo_def by (rule bit_5_set)
  ultimately show ?thesis
    using \<open>buf = _\<close> by (simp add: nth_append)
next
  case False
  then have "set_relay_header buf ident rd ad = buf"
    by (auto simp: set_relay_header_def split: list.splits)
  with False show ?thesis by simp
qed

lemma set_relay_header_exact_witness:
  "set_relay_header [1, 2] 7 True False = [1, 2] \<and>
   take 2 (set_relay_header [1, 2, 0x80, 0xA0, 9] 7 True False) = [0, 7]"
  using set_relay_header_exact [of "[1, 2]" 7 True False]
    set_relay_header_exact [of "[1, 2, 0x80, 0xA0, 9]" 7 True False]
  by (simp add: be16_bytes_def)



end
