(* ===== verification/Wire_Relay.thy ===== *)
theory Wire_Relay
  imports Wire_Response
begin

text \<open>
  Relaying upstream and cached answers (\<open>infrastructure/src/dns/wire_response.rs\<close>, second half):
  dropping the OPT, transaction signatures and unasked-for DNSSEC records while rewriting
  compression pointers, the form the cache stores, and counting its TTLs down.
\<close>

section \<open>Constants and record types\<close>

definition TYPE_SIG :: u16 where "TYPE_SIG = 24"
definition TYPE_RRSIG :: u16 where "TYPE_RRSIG = 46"
definition TYPE_NSEC :: u16 where "TYPE_NSEC = 47"
definition TYPE_NSEC3 :: u16 where "TYPE_NSEC3 = 50"
definition TYPE_ANY :: u16 where "TYPE_ANY = 255"
definition TYPE_TSIG :: u16 where "TYPE_TSIG = 250"
definition STALE_SERVE_TTL :: u32 where "STALE_SERVE_TTL = 2"
definition CACHE_OPTION_CODE :: u16 where "CACHE_OPTION_CODE = 65001"
definition CACHE_OPT_HEAD :: nat where "CACHE_OPT_HEAD = length OPT_RECORD + 4 + 4"

definition is_authenticating :: "u16 \<Rightarrow> u16 option \<Rightarrow> bool" where
  "is_authenticating rtype qtype \<longleftrightarrow>
    (rtype = TYPE_RRSIG \<or> rtype = TYPE_NSEC \<or> rtype = TYPE_NSEC3) \<and>
    \<not> (case qtype of None \<Rightarrow> False | Some q \<Rightarrow> q = rtype \<or> q = TYPE_ANY)"

definition is_transaction_signature :: "bytes \<Rightarrow> nat \<Rightarrow> nat \<Rightarrow> u16 \<Rightarrow> bool" where
  "is_transaction_signature msg pos end rtype =
    (if rtype = TYPE_TSIG then True
     else if rtype = TYPE_SIG then
       (case Option.bind (skip_name msg pos) (\<lambda>fixed. slice_get msg (fixed + 10) end) of
          None \<Rightarrow> False
        | Some rdata \<Rightarrow> take 2 rdata = [0, 0])
     else False)"

datatype field = Fixed nat | Text | Name

definition rdata_fields :: "u16 \<Rightarrow> field list" where
  "rdata_fields rtype =
    (if rtype \<in> set [2, 3, 4, 5, 7, 8, 9, 12, 30, 39, 47] then [Name]
     else if rtype \<in> set [6, 14, 17] then [Name, Name]
     else if rtype \<in> set [15, 18, 21, 64, 65] then [Fixed 2, Name]
     else if rtype = 26 then [Fixed 2, Name, Name]
     else if rtype = 33 then [Fixed 6, Name]
     else if rtype = 35 then [Fixed 4, Text, Text, Text, Name]
     else if rtype \<in> set [24, 46] then [Fixed 18, Name]
     else [])"

section \<open>The rewriter\<close>

record rewriter =
  src :: bytes
  rw_out :: bytes
  cut :: "nat option"
  spans :: "(nat \<times> nat \<times> nat) list"

definition new_rewriter :: "bytes \<Rightarrow> rewriter" where
  "new_rewriter s = \<lparr>src = s, rw_out = [], cut = None, spans = []\<rparr>"

definition extend_out :: "rewriter \<Rightarrow> bytes \<Rightarrow> rewriter" where
  "extend_out rw b = rw\<lparr>rw_out := rw_out rw @ b\<rparr>"

definition drop_from :: "rewriter \<Rightarrow> nat \<Rightarrow> rewriter res" where
  "drop_from rw pos =
    (if cut rw = None then
       and_then (slice_ix (src rw) 0 pos) (\<lambda>b. Got ((extend_out rw b)\<lparr>cut := Some pos\<rparr>))
     else Got rw)"

definition finish :: "rewriter \<Rightarrow> nat \<Rightarrow> bytes res" where
  "finish rw end =
    (if cut rw = None then and_then (slice_ix (src rw) 0 end) (\<lambda>b. Got (rw_out rw @ b))
     else Got (rw_out rw))"

text \<open>Logs that \<open>src[from..to]\<close> lands at the end of \<open>out\<close>, extending the last run if it is adjacent.\<close>

definition span :: "rewriter \<Rightarrow> nat \<Rightarrow> nat \<Rightarrow> rewriter" where
  "span rw from to =
    (let at = length (rw_out rw); ss = spans rw in
     if ss \<noteq> [] \<and> (case last ss of (s, e, o1) \<Rightarrow> e = from \<and> o1 + (e - s) = at)
     then rw\<lparr>spans := butlast ss @ [(fst (last ss), to, snd (snd (last ss)))]\<rparr>
     else rw\<lparr>spans := ss @ [(from, to, at)]\<rparr>)"

definition copy_from :: "rewriter \<Rightarrow> nat \<Rightarrow> nat \<Rightarrow> bool \<Rightarrow> rewriter option" where
  "copy_from rw from to in_place = do {
     bytes \<leftarrow> slice_get (src rw) from to;
     Some (extend_out (if in_place then span rw from to else rw) bytes)
   }"

definition copy :: "rewriter \<Rightarrow> nat \<Rightarrow> nat \<Rightarrow> (rewriter \<times> nat) option" where
  "copy rw from to = do { rw1 \<leftarrow> copy_from rw from to True; Some (rw1, to) }"

text \<open>
  Where the source byte at \<open>at\<close> sits in the output, if a 14-bit pointer can still reach it and
  the labels there were copied in one piece.
\<close>

definition moved :: "rewriter \<Rightarrow> nat \<Rightarrow> u16 option res" where
  "moved rw at =
    (case skip_name (src rw) at of
       None \<Rightarrow> Got None
     | Some run_end \<Rightarrow>
         (let fit = (\<lambda>m. Got (if m < 0x4000 then Some (word_of_nat m) else None)) in
          case cut rw of
            Some c \<Rightarrow>
              if c < run_end then
                (let n = partition_point (\<lambda>(start, _, _). start \<le> at) (spans rw) in
                 if n = 0 then Got None
                 else and_then (idx (spans rw) (n - 1)) (\<lambda>(start, end, out).
                   if end < run_end then Got None else fit (out + (at - start))))
              else fit at
          | None \<Rightarrow> fit at))"

text \<open>One turn of the loop of \<open>Rewriter::name\<close>: it ends the name or goes on at another offset.\<close>

datatype name_turn = Name_done rewriter nat | Name_at rewriter nat "nat option" nat

definition name_label :: "rewriter \<Rightarrow> nat \<Rightarrow> nat option \<Rightarrow> nat \<Rightarrow> u8 \<Rightarrow> name_turn option" where
  "name_label rw pos end len byte =
    (let next = pos + 1 + unat byte; len1 = len + 1 + unat byte in
     if 255 < len1 then None
     else do {
       rw1 \<leftarrow> copy_from rw pos next (end = None);
       Some (if byte = 0 then Name_done rw1 (case end of Some e \<Rightarrow> e | None \<Rightarrow> next)
             else Name_at rw1 next end len1)
     })"

definition name_pointer :: "rewriter \<Rightarrow> nat \<Rightarrow> nat option \<Rightarrow> nat \<Rightarrow> u8 \<Rightarrow> u8 \<Rightarrow> name_turn res" where
  "name_pointer rw pos end len byte lo =
    (let target = unat (be16 (byte AND 0x3F) lo) in
     if pos \<le> target then Nothing
     else
       let in_place = (end = None);
           past = (case end of Some e \<Rightarrow> e | None \<Rightarrow> pos + 2)
       in and_then (moved rw target) (\<lambda>m.
         case m of
           Some mv \<Rightarrow>
             (let rw1 = (if in_place then span rw pos (pos + 2) else rw)
              in Got (Name_done (extend_out rw1 (be16_bytes (0xC000 OR mv))) past))
         | None \<Rightarrow> Got (Name_at rw target (Some past) len)))"

definition name_turn :: "rewriter \<Rightarrow> nat \<Rightarrow> nat option \<Rightarrow> nat \<Rightarrow> name_turn res" where
  "name_turn rw pos end len =
    and_then (try_opt (byte_get (src rw) pos)) (\<lambda>byte.
      if byte AND 0xC0 = 0 then try_opt (name_label rw pos end len byte)
      else if byte AND 0xC0 = 0xC0 then
        and_then (try_opt (byte_get (src rw) (pos + 1)))
          (\<lambda>lo. name_pointer rw pos end len byte lo)
      else Nothing)"

lemma name_label_at:
  "name_label rw pos end len byte = Some (Name_at rw1 pos1 end1 len1) \<Longrightarrow> len < len1 \<and> len1 \<le> 255"
  by (auto simp: name_label_def Let_def Option.bind_eq_Some_conv split: if_splits)

lemma name_pointer_at:
  "name_pointer rw pos end len byte lo = Got (Name_at rw1 pos1 end1 len1) \<Longrightarrow> len1 = len \<and> pos1 < pos"
  by (auto simp: name_pointer_def Let_def and_then_Got split: if_splits option.splits)

lemma name_turn_at:
  "name_turn rw pos end len = Got (Name_at rw1 pos1 end1 len1) \<Longrightarrow>
    256 - len1 < 256 - len \<or> len1 = len \<and> pos1 < pos"
  by (auto simp: name_turn_def and_then_Got try_opt_Got split: if_splits
      dest!: name_label_at name_pointer_at)

text \<open>Every turn lengthens the name, at most 255 bytes, or follows a pointer backwards.\<close>

function rewrite_name :: "rewriter \<Rightarrow> nat \<Rightarrow> nat option \<Rightarrow> nat \<Rightarrow> (rewriter \<times> nat) res" where
  "rewrite_name rw pos end len =
    and_then (name_turn rw pos end len) (\<lambda>t.
      case t of
        Name_done rw1 past \<Rightarrow> Got (rw1, past)
      | Name_at rw1 pos1 end1 len1 \<Rightarrow> rewrite_name rw1 pos1 end1 len1)"
  by pat_completeness auto
termination
  by (relation "measures [\<lambda>(rw, pos, end, len). 256 - len, \<lambda>(rw, pos, end, len). pos]")
    (auto dest: name_turn_at)

declare rewrite_name.simps [simp del]

fun copy_fields :: "rewriter \<Rightarrow> nat \<Rightarrow> field list \<Rightarrow> (rewriter \<times> nat) res" where
  "copy_fields rw at [] = Got (rw, at)"
| "copy_fields rw at (Fixed len # fs) =
    and_then (try_opt (copy rw at (at + len))) (\<lambda>(rw1, at1). copy_fields rw1 at1 fs)"
| "copy_fields rw at (Text # fs) =
    and_then (try_opt (byte_get (src rw) at)) (\<lambda>n.
    and_then (try_opt (copy rw at (at + 1 + unat n))) (\<lambda>(rw1, at1). copy_fields rw1 at1 fs))"
| "copy_fields rw at (Name # fs) =
    and_then (rewrite_name rw at None 0) (\<lambda>(rw1, at1). copy_fields rw1 at1 fs)"

definition keep :: "rewriter \<Rightarrow> nat \<Rightarrow> nat \<Rightarrow> u16 \<Rightarrow> rewriter res" where
  "keep rw pos end rtype =
    (if cut rw = None then Got rw
     else
     and_then (rewrite_name rw pos None 0) (\<lambda>(rw, fixed).
     and_then (try_opt (copy rw fixed (fixed + 10))) (\<lambda>(rw, at).
     let rdata_at = length (rw_out rw) in
     and_then (copy_fields rw at (rdata_fields rtype)) (\<lambda>(rw, at).
     if end < at then Nothing
     else and_then (try_opt (copy rw at end)) (\<lambda>(rw, _).
     let rdlength = length (rw_out rw) - rdata_at in
     if 65535 < rdlength then Nothing
     else and_then (put (rw_out rw) (rdata_at - 2) (be16_bytes (word_of_nat rdlength)))
       (\<lambda>out. Got (rw\<lparr>rw_out := out\<rparr>)))))))"

section \<open>Re-sectioning\<close>

record sections =
  sec_out :: bytes
  sec_extended_rcode :: u8
  sec_authenticating :: bool

fun skip_questions :: "bytes \<Rightarrow> nat \<Rightarrow> nat \<Rightarrow> u16 option \<Rightarrow> (nat \<times> u16 option) option" where
  "skip_questions msg 0 pos qtype = Some (pos, qtype)"
| "skip_questions msg (Suc n) pos qtype = do {
     pos1 \<leftarrow> skip_name msg pos;
     fixed \<leftarrow> slice_get msg pos1 (pos1 + 4);
     skip_questions msg n (pos1 + 4)
       (Some (case qtype of Some q \<Rightarrow> q | None \<Rightarrow> be16 (fixed ! 0) (fixed ! 1)))
   }"

record walk_state =
  ws_copy :: rewriter
  ws_kept :: u16
  ws_ext :: "u8 option"
  ws_auth :: bool
  ws_pos :: nat

text \<open>Whether the record at the current position is dropped, and what its type tells.\<close>

definition classify ::
  "bytes \<Rightarrow> bool \<Rightarrow> u16 option \<Rightarrow> nat \<Rightarrow> walk_state \<Rightarrow> u16 \<Rightarrow> nat \<Rightarrow> (bool \<times> walk_state) res" where
  "classify upstream strip qtype sect st rtype end =
    (let pos = ws_pos st in
     if rtype = TYPE_OPT then
       if sect \<noteq> 2 \<or> ws_ext st \<noteq> None then Nothing
       else and_then (try_opt (Option.bind (skip_name upstream pos) (\<lambda>f. byte_get upstream (f + 4))))
         (\<lambda>x. Got (True, st\<lparr>ws_ext := Some x\<rparr>))
     else if sect = 2 \<and> is_transaction_signature upstream pos end rtype then Got (True, st)
     else if is_authenticating rtype qtype then Got (strip, st\<lparr>ws_auth := True\<rparr>)
     else Got (False, st))"

definition section_record :: "bytes \<Rightarrow> bool \<Rightarrow> u16 option \<Rightarrow> nat \<Rightarrow> walk_state \<Rightarrow> walk_state res" where
  "section_record upstream strip qtype sect st =
    and_then (try_opt (skip_rr upstream (ws_pos st))) (\<lambda>(rtype, end).
    and_then (classify upstream strip qtype sect st rtype end) (\<lambda>(dropped, st).
    if dropped then
      and_then (drop_from (ws_copy st) (ws_pos st)) (\<lambda>c. Got (st\<lparr>ws_copy := c, ws_pos := end\<rparr>))
    else
      and_then (keep (ws_copy st) (ws_pos st) end rtype)
        (\<lambda>c. Got (st\<lparr>ws_copy := c, ws_kept := ws_kept st + 1, ws_pos := end\<rparr>))))"

fun section_records ::
  "bytes \<Rightarrow> bool \<Rightarrow> u16 option \<Rightarrow> nat \<Rightarrow> nat \<Rightarrow> walk_state \<Rightarrow> walk_state res" where
  "section_records upstream strip qtype sect 0 st = Got st"
| "section_records upstream strip qtype sect (Suc n) st =
    and_then (section_record upstream strip qtype sect st)
      (\<lambda>st1. section_records upstream strip qtype sect n st1)"

definition count_at :: "bytes \<Rightarrow> nat \<Rightarrow> nat" where
  "count_at header i = unat (be16 (header ! i) (header ! (i + 1)))"

definition resection :: "bytes \<Rightarrow> bool \<Rightarrow> sections res" where
  "resection upstream strip =
    and_then (try_opt (slice_get upstream 0 12)) (\<lambda>header.
    and_then (try_opt (skip_questions upstream (count_at header 4) 12 None)) (\<lambda>(pos, qtype).
    let st = \<lparr>ws_copy = new_rewriter upstream, ws_kept = 0, ws_ext = None, ws_auth = False, ws_pos = pos\<rparr> in
    and_then (section_records upstream strip qtype 0 (count_at header 6) st) (\<lambda>st0.
    and_then (section_records upstream strip qtype 1 (count_at header 8) (st0\<lparr>ws_kept := 0\<rparr>)) (\<lambda>st1.
    and_then (section_records upstream strip qtype 2 (count_at header 10) (st1\<lparr>ws_kept := 0\<rparr>)) (\<lambda>st2.
    and_then (finish (ws_copy st2) (ws_pos st2)) (\<lambda>out.
    and_then (put out 6 (be16_bytes (ws_kept st0))) (\<lambda>out.
    and_then (put out 8 (be16_bytes (ws_kept st1))) (\<lambda>out.
    and_then (put out 10 (be16_bytes (ws_kept st2))) (\<lambda>out.
    Got \<lparr>sec_out = out, sec_extended_rcode = (case ws_ext st2 of Some x \<Rightarrow> x | None \<Rightarrow> 0),
         sec_authenticating = ws_auth st2\<rparr>)))))))))"

section \<open>Relaying with an OPT\<close>

definition append_opt :: "bytes \<Rightarrow> u8 \<Rightarrow> edns_reply option \<Rightarrow> bytes res" where
  "append_opt out extended_rcode edns =
    (case edns of
       Some e \<Rightarrow>
         (let out = out @ edns_bytes e extended_rcode in
          and_then (be16_at out 10) (\<lambda>arcount.
          if arcount = 0xFFFF then Nothing else put out 10 (be16_bytes (arcount + 1))))
     | None \<Rightarrow> if extended_rcode \<noteq> 0 then Nothing else Got out)"

definition echo_question_case :: "bytes \<Rightarrow> bytes \<Rightarrow> bytes" where
  "echo_question_case msg qname =
    (case slice_get msg 4 6 of
       None \<Rightarrow> msg
     | Some qdcount \<Rightarrow>
         if qdcount = [0, 0] then msg
         else (case slice_get msg 12 (12 + length qname) of
                 None \<Rightarrow> msg
               | Some name \<Rightarrow>
                   if name \<noteq> qname \<and> eq_ignore_ascii_case name qname
                   then overwrite msg 12 qname else msg))"

definition echo_opt :: "bytes \<Rightarrow> bytes option \<Rightarrow> bytes" where
  "echo_opt msg qname = (case qname of None \<Rightarrow> msg | Some q \<Rightarrow> echo_question_case msg q)"

definition relay_with_edns ::
  "bytes \<Rightarrow> u16 \<Rightarrow> bool \<Rightarrow> bytes option \<Rightarrow> bool \<Rightarrow> edns_reply option \<Rightarrow> bytes res" where
  "relay_with_edns upstream ident rd qname ad edns =
    (let strip = \<not> (case edns of None \<Rightarrow> False | Some e \<Rightarrow> er_dnssec_ok e) in
     and_then (resection upstream strip) (\<lambda>s.
     and_then (append_opt (sec_out s) (sec_extended_rcode s) edns) (\<lambda>out.
     Got (echo_opt (set_relay_header out ident rd ad) qname))))"

section \<open>TTL fields\<close>

text \<open>
  \<open>for_each_ttl\<close>: applies \<open>f\<close> to every TTL field but the OPT's; yields the message and the
  offsets visited.
\<close>

fun each_record_ttl :: "(u32 \<Rightarrow> u32) \<Rightarrow> nat \<Rightarrow> bytes \<Rightarrow> nat \<Rightarrow> nat list \<Rightarrow> (bytes \<times> nat \<times> nat list) option" where
  "each_record_ttl f 0 msg pos offsets = Some (msg, pos, offsets)"
| "each_record_ttl f (Suc n) msg pos offsets = do {
     fixed \<leftarrow> skip_name msg pos;
     h \<leftarrow> slice_get msg fixed (fixed + 10);
     let visit = (be16 (h ! 0) (h ! 1) \<noteq> TYPE_OPT);
     let msg1 = (if visit
       then overwrite msg (fixed + 4) (be32_bytes (f (be32 (h ! 4) (h ! 5) (h ! 6) (h ! 7)))) else msg);
     each_record_ttl f n msg1 (fixed + 10 + unat (be16 (h ! 8) (h ! 9)))
       (if visit then offsets @ [fixed + 4] else offsets)
   }"

fun skip_question_names :: "nat \<Rightarrow> bytes \<Rightarrow> nat \<Rightarrow> nat option" where
  "skip_question_names 0 msg pos = Some pos"
| "skip_question_names (Suc n) msg pos = do {
     p \<leftarrow> skip_name msg pos; skip_question_names n msg (p + 4)
   }"

definition for_each_ttl :: "(u32 \<Rightarrow> u32) \<Rightarrow> bytes \<Rightarrow> (bytes \<times> nat list) option" where
  "for_each_ttl f msg = do {
     header \<leftarrow> slice_get msg 0 12;
     pos \<leftarrow> skip_question_names (count_at header 4) msg 12;
     (msg1, end, offsets) \<leftarrow> each_record_ttl f
       (count_at header 6 + count_at header 8 + count_at header 10) msg pos [];
     if end \<le> length msg1 then Some (msg1, offsets) else None
   }"

definition reads_ttl :: "nat list \<Rightarrow> nat \<times> nat \<Rightarrow> bool" where
  "reads_ttl ttls r =
    (case r of (from, to) \<Rightarrow>
      (let i = partition_point (\<lambda>at. at + 4 \<le> from) ttls in
       case byte_get ttls i of None \<Rightarrow> False | Some at \<Rightarrow> at < to))"

fun walk_questions :: "nat \<Rightarrow> bytes \<Rightarrow> nat list \<Rightarrow> nat \<Rightarrow> bool \<Rightarrow> (nat \<times> bool) option" where
  "walk_questions 0 msg ttls pos read = Some (pos, read)"
| "walk_questions (Suc n) msg ttls pos read = do {
     (p, rs) \<leftarrow> walk_name msg pos;
     walk_questions n msg ttls (p + 4) (read \<or> list_ex (reads_ttl ttls) rs)
   }"

fun walk_fields :: "bytes \<Rightarrow> nat list \<Rightarrow> field list \<Rightarrow> nat \<Rightarrow> bool \<Rightarrow> (nat \<times> bool) option" where
  "walk_fields msg ttls [] at read = Some (at, read)"
| "walk_fields msg ttls (Fixed len # fs) at read = walk_fields msg ttls fs (at + len) read"
| "walk_fields msg ttls (Text # fs) at read = do {
     n \<leftarrow> byte_get msg at; walk_fields msg ttls fs (at + 1 + unat n) read
   }"
| "walk_fields msg ttls (Name # fs) at read = do {
     (p, rs) \<leftarrow> walk_name msg at; walk_fields msg ttls fs p (read \<or> list_ex (reads_ttl ttls) rs)
   }"

fun walk_records :: "nat \<Rightarrow> bytes \<Rightarrow> nat list \<Rightarrow> nat \<Rightarrow> bool \<Rightarrow> bool option" where
  "walk_records 0 msg ttls pos read = Some read"
| "walk_records (Suc n) msg ttls pos read = do {
     (fixed, rs) \<leftarrow> walk_name msg pos;
     h \<leftarrow> slice_get msg fixed (fixed + 10);
     let end = fixed + 10 + unat (be16 (h ! 8) (h ! 9));
     (at, read1) \<leftarrow> walk_fields msg ttls (rdata_fields (be16 (h ! 0) (h ! 1))) (fixed + 10)
       (read \<or> list_ex (reads_ttl ttls) rs);
     if end < at then None else walk_records n msg ttls end read1
   }"

definition names_read_ttls :: "bytes \<Rightarrow> nat list \<Rightarrow> bool option" where
  "names_read_ttls msg ttls = do {
     header \<leftarrow> slice_get msg 0 12;
     (pos, read) \<leftarrow> walk_questions (count_at header 4) msg ttls 12 False;
     walk_records (count_at header 6 + count_at header 8 + count_at header 10) msg ttls pos read
   }"

definition cacheable_ttl_offsets :: "bytes \<Rightarrow> nat list option" where
  "cacheable_ttl_offsets msg = do {
     (_, offsets) \<leftarrow> for_each_ttl id msg;
     read \<leftarrow> names_read_ttls msg offsets;
     if read then None else Some offsets
   }"

definition aged_ttl :: "u32 \<Rightarrow> u32 \<Rightarrow> u32 \<Rightarrow> u32" where
  "aged_ttl ttl entry_ttl remaining =
    max (sat_sub remaining (sat_sub entry_ttl ttl)) (min remaining STALE_SERVE_TTL)"

section \<open>The cache form\<close>

text \<open>\<open>u32::clamp\<close>, which panics when its bounds are the wrong way round.\<close>

definition clamp :: "u32 \<Rightarrow> u32 \<Rightarrow> u32 \<Rightarrow> u32 res" where
  "clamp lo hi v = (if hi < lo then Panic else Got (min (max v lo) hi))"

fun clamp_ttls :: "u32 \<Rightarrow> u32 \<Rightarrow> bytes \<Rightarrow> nat list \<Rightarrow> bytes res" where
  "clamp_ttls lo hi out [] = Got out"
| "clamp_ttls lo hi out (at # ats) =
    and_then (try_opt (slice_get out at (at + 4))) (\<lambda>ttl.
    and_then (clamp lo hi (be32_of ttl)) (\<lambda>v.
    clamp_ttls lo hi (overwrite out at (be32_bytes v)) ats))"

definition cache_form :: "bytes \<Rightarrow> u32 \<Rightarrow> u32 \<Rightarrow> u32 \<Rightarrow> bytes res" where
  "cache_form upstream entry_ttl lo hi =
    and_then (resection upstream False) (\<lambda>s.
    and_then (try_opt (cacheable_ttl_offsets (sec_out s))) (\<lambda>offsets.
    and_then (clamp_ttls lo hi (sec_out s) offsets) (\<lambda>out.
    let option_len = 4 + 2 * length offsets + 2 in
    if 65535 < length offsets \<or> 65535 < option_len \<or> 65535 < option_len + 4
       \<or> list_ex (\<lambda>at. 65535 < at) offsets then Nothing
    else
      let out = out
        @ opt_head (sec_extended_rcode s) (sec_authenticating s) (word_of_nat (option_len + 4))
        @ be16_bytes CACHE_OPTION_CODE @ be16_bytes (word_of_nat option_len)
        @ be32_bytes entry_ttl @ concat (map (\<lambda>at. be16_bytes (word_of_nat at)) offsets)
        @ be16_bytes (word_of_nat (length offsets))
      in and_then (be16_at out 10) (\<lambda>arcount.
         if arcount = 0xFFFF then Nothing else put out 10 (be16_bytes (arcount + 1))))))"

record cached_opt_rec =
  co_extended_rcode :: u8
  co_authenticating :: bool
  co_entry_ttl :: u32
  co_ttls :: bytes

definition cached_opt :: "bytes \<Rightarrow> (bytes \<times> cached_opt_rec) option" where
  "cached_opt wire =
    (if length wire < 2 then None
     else
       let rest = take (length wire - 2) wire;
           ttls_len = 2 * unat (be16_of (drop (length wire - 2) wire))
       in if length rest < CACHE_OPT_HEAD + ttls_len then None
          else
            let body = take (length rest - (CACHE_OPT_HEAD + ttls_len)) rest;
                opt = drop (length rest - (CACHE_OPT_HEAD + ttls_len)) rest;
                ttls = drop CACHE_OPT_HEAD opt;
                option_len = 4 + ttls_len + 2
            in if opt ! 0 = 0 \<and> opt ! 1 = 0 \<and> opt ! 2 = 41 \<and> opt ! 6 = 0
                 \<and> be16 (opt ! 11) (opt ! 12) = CACHE_OPTION_CODE
                 \<and> unat (be16 (opt ! 13) (opt ! 14)) = option_len
                 \<and> unat (be16 (opt ! 9) (opt ! 10)) = 4 + option_len
                 \<and> 12 \<le> length body
               then Some (body,
                 \<lparr>co_extended_rcode = opt ! 5, co_authenticating = (opt ! 7 AND 0x80 \<noteq> 0),
                  co_entry_ttl = be32 (opt ! 15) (opt ! 16) (opt ! 17) (opt ! 18),
                  co_ttls = ttls\<rparr>)
               else None)"

fun age_ttls :: "bytes \<Rightarrow> bytes \<Rightarrow> u32 \<Rightarrow> u32 \<Rightarrow> bytes option" where
  "age_ttls msg (a # b # offsets) entry_ttl remaining =
    (let at = unat (be16 a b) in
     case slice_get msg at (at + 4) of
       None \<Rightarrow> None
     | Some ttl \<Rightarrow>
         age_ttls (overwrite msg at (be32_bytes (aged_ttl (be32_of ttl) entry_ttl remaining)))
           offsets entry_ttl remaining)"
| "age_ttls msg offsets entry_ttl remaining = Some msg"

definition relay_aged ::
  "bytes \<Rightarrow> u16 \<Rightarrow> bool \<Rightarrow> bytes option \<Rightarrow> bool \<Rightarrow> edns_reply option \<Rightarrow> u32 \<Rightarrow> bytes res" where
  "relay_aged wire ident rd qname ad edns remaining =
    and_then (relay_with_edns wire ident rd qname ad edns) (\<lambda>out.
    case cached_opt wire of
      None \<Rightarrow> Got out
    | Some (_, opt) \<Rightarrow>
        and_then (try_opt (for_each_ttl (\<lambda>ttl. aged_ttl ttl (co_entry_ttl opt) remaining) out))
          (\<lambda>(out1, _). Got out1))"

definition relay_cached ::
  "bytes \<Rightarrow> u16 \<Rightarrow> bool \<Rightarrow> bytes option \<Rightarrow> edns_reply option \<Rightarrow> u32 \<Rightarrow> bytes res" where
  "relay_cached wire ident rd qname edns remaining =
    and_then (try_opt (cached_opt wire)) (\<lambda>(body, opt).
    if co_authenticating opt \<and> \<not> (case edns of None \<Rightarrow> False | Some e \<Rightarrow> er_dnssec_ok e)
    then relay_aged wire ident rd qname False edns remaining
    else
    and_then
      (case edns of
         Some e \<Rightarrow>
           if er_cookie e = None \<and> er_ede e = None then
             and_then (try_opt (slice_get wire 0 (length body + length OPT_RECORD))) (\<lambda>out.
             if length out < 4 then Nothing
             else Got (take (length out - 4) out
               @ [push_bit 7 (u8_of_bool (er_dnssec_ok e)), out ! (length out - 3), 0, 0]))
           else Got (body @ edns_bytes e (co_extended_rcode opt))
       | None \<Rightarrow>
           if co_extended_rcode opt \<noteq> 0 then Nothing
           else and_then (be16_at body 10) (\<lambda>arcount.
             if arcount = 0 then Nothing else put body 10 (be16_bytes (arcount - 1)))) (\<lambda>out.
    and_then (try_opt (age_ttls out (co_ttls opt) (co_entry_ttl opt) remaining)) (\<lambda>out.
    Got (echo_opt (set_relay_header out ident rd False) qname))))"

section \<open>Invariants of the walk\<close>

text \<open>Writing only appends: what is already written, the source and the cut stay.\<close>

definition grows :: "rewriter \<Rightarrow> rewriter \<Rightarrow> bool" where
  "grows rw rw' \<longleftrightarrow> src rw' = src rw \<and> cut rw' = cut rw \<and>
    take (length (rw_out rw)) (rw_out rw') = rw_out rw"

text \<open>
  Until the first record is dropped nothing is written; after that the output holds at least
  the header.
\<close>

definition rw_ok :: "rewriter \<Rightarrow> bool" where
  "rw_ok rw \<longleftrightarrow> (case cut rw of None \<Rightarrow> rw_out rw = [] | Some c \<Rightarrow> 12 \<le> length (rw_out rw))"

definition walk_ok :: "bytes \<Rightarrow> walk_state \<Rightarrow> bool" where
  "walk_ok upstream st \<longleftrightarrow> rw_ok (ws_copy st) \<and> src (ws_copy st) = upstream \<and>
    12 \<le> ws_pos st \<and> ws_pos st \<le> length upstream"

section \<open>The rewriter never panics\<close>

lemma grows_refl [simp]: "grows rw rw"
  by (simp add: grows_def)

lemma grows_length: "grows rw rw' \<Longrightarrow> length (rw_out rw) \<le> length (rw_out rw')"
  by (metis grows_def length_take min.cobounded2 min.commute)

lemma grows_trans: "grows a b \<Longrightarrow> grows b c \<Longrightarrow> grows a c"
  using grows_length [of a b] unfolding grows_def by (metis min.absorb1 take_take)

lemma span_simps [simp]:
  "src (span rw a b) = src rw" "rw_out (span rw a b) = rw_out rw" "cut (span rw a b) = cut rw"
  by (simp_all add: span_def Let_def)

lemma grows_span: "grows rw (span rw a b)"
  by (simp add: grows_def)

lemma grows_extend_out: "grows rw (extend_out rw b)"
  by (simp add: grows_def extend_out_def)

lemma grows_copy_from: "copy_from rw a b p = Some rw' \<Longrightarrow> grows rw rw'"
  by (auto simp: copy_from_def grows_def extend_out_def Option.bind_eq_Some_conv)

lemma grows_copy: "copy rw a b = Some (rw', c) \<Longrightarrow> grows rw rw' \<and> c = b"
  by (auto simp: copy_def Option.bind_eq_Some_conv dest: grows_copy_from)

lemma copy_length:
  "copy rw a b = Some (rw', c) \<Longrightarrow> length (rw_out rw') = length (rw_out rw) + (b - a) \<and> a \<le> b \<and> b \<le> length (src rw)"
  by (auto simp: copy_def copy_from_def extend_out_def Option.bind_eq_Some_conv res_simps)

lemma partition_point_pred: "partition_point p xs \<noteq> 0 \<Longrightarrow> partition_point p xs - 1 < length xs"
  using partition_point_le [of p xs] by linarith

lemma safe_moved [safe_intros]: "safe (moved rw at)"
  unfolding moved_def Let_def
  by (auto split: option.splits intro!: safe_intros partition_point_pred [simplified])

lemma safe_name_turn [safe_intros]: "safe (name_turn rw pos end len)"
  by (auto simp: name_turn_def name_pointer_def Let_def intro!: safe_intros split: option.splits)

lemma rewrite_name_safe [safe_intros]: "safe (rewrite_name rw pos end len)"
proof (induction rw pos "end" len rule: rewrite_name.induct)
  case (1 rw pos "end" len)
  show ?case
    by (subst rewrite_name.simps) (auto intro!: safe_intros "1.IH" split: name_turn.splits)
qed

fun turn_rewriter :: "name_turn \<Rightarrow> rewriter" where
  "turn_rewriter (Name_done rw p) = rw"
| "turn_rewriter (Name_at rw p e n) = rw"

lemma name_turn_grows: "name_turn rw pos end len = Got t \<Longrightarrow> grows rw (turn_rewriter t)"
  by (auto simp: name_turn_def name_label_def name_pointer_def Let_def and_then_Got try_opt_Got
      Option.bind_eq_Some_conv grows_extend_out grows_trans [OF grows_span grows_extend_out]
      split: if_splits option.splits dest: grows_copy_from)

lemma rewrite_name_grows: "rewrite_name rw pos end len = Got (rw', p) \<Longrightarrow> grows rw rw'"
proof (induction rw pos "end" len rule: rewrite_name.induct)
  case (1 rw pos "end" len)
  then obtain t where t: "name_turn rw pos end len = Got t"
    and r: "(case t of Name_done rw1 past \<Rightarrow> Got (rw1, past)
      | Name_at rw1 pos1 end1 len1 \<Rightarrow> rewrite_name rw1 pos1 end1 len1) = Got (rw', p)"
    by (subst (asm) rewrite_name.simps) (auto simp: and_then_Got)
  show ?case
    using name_turn_grows [OF t] r "1.IH" [OF t] grows_trans by (cases t) auto
qed

lemma safe_copy_fields [safe_intros]: "safe (copy_fields rw at fs)"
  by (induction rw at fs rule: copy_fields.induct) (auto intro!: safe_intros)

lemma copy_fields_grows: "copy_fields rw at fs = Got (rw', p) \<Longrightarrow> grows rw rw'"
proof (induction rw at fs rule: copy_fields.induct)
  case (2 rw at len fs)
  then show ?case by (fastforce simp: and_then_Got try_opt_Got dest: grows_copy intro: grows_trans)
next
  case (3 rw at fs)
  then show ?case by (fastforce simp: and_then_Got try_opt_Got dest: grows_copy intro: grows_trans)
next
  case (4 rw at fs)
  then show ?case by (fastforce simp: and_then_Got dest: rewrite_name_grows intro: grows_trans)
qed simp

lemma safe_keep [safe_intros]: "safe (keep rw pos end rtype)"
proof -
  have "rdata - 2 + 2 \<le> length (rw_out rw4)"
    if "copy rw1 fixed (fixed + 10) = Some (rw2, at)" "rdata = length (rw_out rw2)"
      "copy_fields rw2 at fs = Got (rw3, at3)" "copy rw3 at3 end = Some (rw4, x)"
    for rw1 fixed rw2 at rdata fs rw3 at3 rw4 x
    using copy_length [OF that(1)] grows_length [OF copy_fields_grows [OF that(3)]]
      grows_length [OF conjunct1 [OF grows_copy [OF that(4)]]] that(2) by simp
  then show ?thesis
    unfolding keep_def Let_def
    by (auto intro!: safe_intros simp: try_opt_Got)
qed

lemma keep_Got:
  assumes "keep rw pos end rtype = Got rw'"
  shows "src rw' = src rw \<and> cut rw' = cut rw \<and> length (rw_out rw) \<le> length (rw_out rw') \<and>
    (cut rw = None \<longrightarrow> rw' = rw)"
proof (cases "cut rw = None")
  case False
  with assms obtain rw1 fixed rw2 at rw3 at3 rw4 x out where
    "rewrite_name rw pos None 0 = Got (rw1, fixed)" "copy rw1 fixed (fixed + 10) = Some (rw2, at)"
    "copy_fields rw2 at (rdata_fields rtype) = Got (rw3, at3)" "copy rw3 at3 end = Some (rw4, x)"
    "rw' = rw4\<lparr>rw_out := out\<rparr>" "length out = length (rw_out rw4)"
    by (auto simp: keep_def Let_def and_then_Got try_opt_Got put_def split: if_splits)
  moreover from this have "grows rw rw4"
    using rewrite_name_grows grows_copy copy_fields_grows grows_trans by meson
  ultimately show ?thesis using grows_length False by (auto simp: grows_def)
qed (use assms in \<open>simp add: keep_def\<close>)

section \<open>Re-sectioning never panics\<close>

lemma skip_questions_bounds:
  "skip_questions msg n pos qtype = Some (p, q) \<Longrightarrow> pos \<le> length msg \<Longrightarrow> pos \<le> p \<and> p \<le> length msg"
proof (induction msg n pos qtype rule: skip_questions.induct)
  case (2 msg n pos qtype)
  then show ?case
    by (fastforce simp: Option.bind_eq_Some_conv res_simps dest: skip_name_bounds)
qed simp

lemma classify_post:
  "post (classify upstream strip qtype sect st rtype end)
    (\<lambda>(d, st'). ws_copy st' = ws_copy st \<and> ws_pos st' = ws_pos st \<and> ws_kept st' = ws_kept st)"
  by (auto simp: classify_def Let_def wp)

lemma drop_from_post:
  assumes "walk_ok upstream st"
  shows "post (drop_from (ws_copy st) (ws_pos st)) (\<lambda>c. src c = upstream \<and> rw_ok c)"
  using assms by (auto simp: drop_from_def wp walk_ok_def rw_ok_def extend_out_def split: option.splits)

lemma keep_post:
  assumes "walk_ok upstream st"
  shows "post (keep (ws_copy st) pos end rtype) (\<lambda>c. src c = upstream \<and> rw_ok c)"
  using assms safe_keep keep_Got
  by (intro postI) (fastforce simp: walk_ok_def rw_ok_def split: option.splits)+

lemma section_record_post:
  assumes ok: "walk_ok upstream st"
  shows "post (section_record upstream strip qtype sect st) (walk_ok upstream)"
proof -
  have bnd: "12 \<le> e \<and> e \<le> length upstream" if "skip_rr upstream (ws_pos st) = Some (ty, e)" for ty e
    using skip_rr_bounds [OF that] ok by (simp add: walk_ok_def)
  show ?thesis
    unfolding section_record_def
    by (auto simp: wp walk_ok_def bnd intro!: post_mono [OF classify_post]
        post_mono [OF drop_from_post [OF ok]] post_mono [OF keep_post [OF ok]] split: prod.splits)
qed

lemma section_records_post:
  "walk_ok upstream st \<Longrightarrow> post (section_records upstream strip qtype sect n st) (walk_ok upstream)"
proof (induction n arbitrary: st)
  case (Suc n)
  then show ?case by (auto simp: wp intro: post_mono [OF section_record_post])
qed (simp add: wp)

lemma finish_post:
  "walk_ok upstream st \<Longrightarrow> post (finish (ws_copy st) (ws_pos st)) (\<lambda>out. 12 \<le> length out)"
  by (auto simp: finish_def walk_ok_def rw_ok_def wp split: option.splits)

lemma walk_ok_kept [simp]: "walk_ok upstream (st\<lparr>ws_kept := k\<rparr>) = walk_ok upstream st"
  by (simp add: walk_ok_def)

lemma resection_start_ok:
  assumes "slice_get upstream 0 12 = Some header" "skip_questions upstream n 12 None = Some (pos, qtype)"
  shows "walk_ok upstream
    \<lparr>ws_copy = new_rewriter upstream, ws_kept = 0, ws_ext = None, ws_auth = False, ws_pos = pos\<rparr>"
  using assms skip_questions_bounds [OF assms(2)]
  by (auto simp: walk_ok_def new_rewriter_def rw_ok_def res_simps)

lemma resection_post: "post (resection upstream strip) (\<lambda>s. 12 \<le> length (sec_out s))"
  unfolding resection_def Let_def
  by (auto simp: wp intro!: post_mono [OF section_records_post] post_mono [OF finish_post]
      dest: resection_start_ok)

section \<open>Relaying never panics\<close>

lemma post_be16_at [wp]:
  "post (be16_at buf i) P \<longleftrightarrow> Suc i < length buf \<and> P (be16 (buf ! i) (buf ! Suc i))"
  by (auto simp: be16_at_def wp)

lemma append_opt_post:
  "12 \<le> length out \<Longrightarrow> post (append_opt out x edns)
    (\<lambda>r. length out \<le> length r \<and> (edns = None \<longrightarrow> r = out \<and> x = 0))"
  by (auto simp: append_opt_def Let_def wp split: option.splits)

lemma safe_relay_with_edns [safe_intros]: "safe (relay_with_edns upstream ident rd qname ad edns)"
  unfolding post_safe relay_with_edns_def Let_def
  by (auto simp: wp intro!: post_mono [OF resection_post] post_mono [OF append_opt_post])

lemma each_record_ttl_length:
  "each_record_ttl f n msg pos offs = Some (msg', e, offs') \<Longrightarrow> length msg' = length msg"
proof (induction f n msg pos offs rule: each_record_ttl.induct)
  case (2 f n msg pos offs)
  then show ?case
    by (fastforce simp: Option.bind_eq_Some_conv res_simps Let_def split: if_splits)
qed simp

lemma safe_relay_aged [safe_intros]: "safe (relay_aged wire ident rd qname ad edns remaining)"
  by (auto simp: relay_aged_def intro!: safe_intros split: option.splits)

lemma cached_opt_body: "cached_opt wire = Some (body, opt) \<Longrightarrow> 12 \<le> length body"
  by (simp only: cached_opt_def Let_def option.inject prod.inject option.distinct split: if_splits)

lemma safe_relay_cached: "safe (relay_cached wire ident rd qname edns remaining)"
  unfolding relay_cached_def
  by (auto simp: try_opt_Got intro!: safe_intros split: option.splits dest!: cached_opt_body)

lemma clamp_ttls_post:
  "lo \<le> hi \<Longrightarrow> post (clamp_ttls lo hi out ats) (\<lambda>r. length r = length out)"
proof (induction ats arbitrary: out)
  case (Cons at ats)
  have "post (clamp_ttls lo hi (overwrite out at (be32_bytes v)) ats) (\<lambda>r. length r = length out)"
    if "at + 4 \<le> length out" for v
    using Cons.IH [OF Cons.prems, of "overwrite out at (be32_bytes v)"] that by simp
  then show ?case using Cons.prems by (auto simp: wp clamp_def res_simps)
qed (simp add: wp)

lemma safe_cache_form:
  assumes "lo \<le> hi"
  shows "safe (cache_form upstream entry_ttl lo hi)"
  unfolding post_safe cache_form_def Let_def
  using assms by (auto simp: wp intro!: post_mono [OF resection_post] post_mono [OF clamp_ttls_post])

section \<open>Properties\<close>

text \<open>
  C39. No upstream response and no cached bytes, however malformed, make the relay panic: not
  re-sectioning with its pointer rewriting, not appending the OPT, not counting down the TTLs;
  nor does building the cache form, for TTL bounds in order.
\<close>

theorem relaying_never_panics:
  assumes "lo \<le> hi"
  shows "relay_with_edns upstream ident rd qname ad edns \<noteq> Panic \<and>
    relay_cached wire ident rd qname edns remaining \<noteq> Panic \<and>
    relay_aged wire ident rd qname ad edns remaining \<noteq> Panic \<and>
    cache_form upstream entry_ttl lo hi \<noteq> Panic"
  using safe_relay_with_edns safe_relay_cached safe_relay_aged safe_cache_form [OF assms]
  by (simp add: safe_def)

theorem relaying_never_panics_witness:
  "relay_with_edns [0xC0, 0x0C] 1 True None False None \<noteq> Panic \<and>
   cache_form (replicate 40 0xC0) 300 60 86400 \<noteq> Panic"
  using relaying_never_panics [of 60 86400 "[0xC0, 0x0C]" 1 True None False None "[]" 0 0]
    relaying_never_panics [of 60 86400 "replicate 40 0xC0" 1 True None False None "[]" 0 300]
  by simp

text \<open>
  A TTL counted down for an entry with \<open>remaining\<close> seconds left never exceeds what the
  entry has left, is never below the stale-answer TTL (or the remainder, if lower), equals the
  remainder for a record that outlives the entry, and is the record's own TTL less the entry's
  age as long as that is above the stale-answer TTL.
\<close>

lemma aged_ttl_exact:
  "aged_ttl ttl entry_ttl remaining \<le> remaining \<and>
   min remaining STALE_SERVE_TTL \<le> aged_ttl ttl entry_ttl remaining \<and>
   (entry_ttl \<le> ttl \<longrightarrow> aged_ttl ttl entry_ttl remaining = remaining) \<and>
   (remaining \<le> entry_ttl \<and> ttl \<le> entry_ttl \<and>
      unat (entry_ttl - remaining) + unat STALE_SERVE_TTL \<le> unat ttl \<longrightarrow>
    unat (aged_ttl ttl entry_ttl remaining) = unat ttl - unat (entry_ttl - remaining))"
  (is "?le \<and> ?ge \<and> ?outlives \<and> (?age \<longrightarrow> ?exact)")
proof (intro conjI impI)
  show ?le ?ge by (simp_all add: aged_ttl_def word_le_nat_alt unat_max_of unat_min_word)
  show "aged_ttl ttl entry_ttl remaining = remaining" if "entry_ttl \<le> ttl"
    using that by (simp add: aged_ttl_def word_le_nat_alt word_unat_eq_iff [where 'a = 32]
        unat_max_of unat_min_word)
  show ?exact if ?age
    using that unat_sub [of remaining entry_ttl]
    by (auto simp: aged_ttl_def unat_max_of unat_min_word word_le_nat_alt max_def min_def)
qed

lemma aged_ttl_exact_witness:
  "unat (aged_ttl 200 300 250) = 150 \<and> aged_ttl 400 300 250 = 250 \<and> 2 \<le> aged_ttl 10 300 250"
  using aged_ttl_exact [of 200 300 250] aged_ttl_exact [of 400 300 250] aged_ttl_exact [of 10 300 250]
  by (simp add: STALE_SERVE_TTL_def)

end
