(* ===== verification/Proxy_Protocol.thy ===== *)
theory Proxy_Protocol
  imports Domain_Types Ip_Addr
begin

text \<open>
  The PROXY protocol v2 header a load balancer puts before a stream
  (\<open>infrastructure/src/dns/proxy_protocol.rs\<close>). The stream is the bytes that will arrive before
  it ends; a read past the end is the I/O error of \<open>read_exact\<close>.
\<close>

section \<open>Constants and errors\<close>

definition PROXY_V2_SIGNATURE :: bytes where
  "PROXY_V2_SIGNATURE = [0x0D, 0x0A, 0x0D, 0x0A, 0x00, 0x0D, 0x0A, 0x51, 0x55, 0x49, 0x54, 0x0A]"

definition FIXED_HEADER_LEN :: nat where "FIXED_HEADER_LEN = 16"
definition MAX_ADDITIONAL_LEN :: nat where "MAX_ADDITIONAL_LEN = 536"
definition COMMAND_LOCAL :: u8 where "COMMAND_LOCAL = 0x00"
definition COMMAND_PROXY :: u8 where "COMMAND_PROXY = 0x01"
definition FAMILY_TCP4 :: u8 where "FAMILY_TCP4 = 0x11"
definition FAMILY_TCP6 :: u8 where "FAMILY_TCP6 = 0x21"

lemmas proxy_consts = PROXY_V2_SIGNATURE_def FIXED_HEADER_LEN_def MAX_ADDITIONAL_LEN_def
  COMMAND_LOCAL_def COMMAND_PROXY_def FAMILY_TCP4_def FAMILY_TCP6_def

definition read_error :: domain_error where
  "read_error = IoError ''reading PROXY Protocol v2 header: early eof''"

definition invalid_header :: "string \<Rightarrow> domain_error" where
  "invalid_header reason = InvalidInput (''PROXY Protocol v2 header: '' @ reason)"

text \<open>\<open>read_exact(n)\<close>: the next \<open>n\<close> bytes and the rest of the stream.\<close>

definition read_exact :: "nat \<Rightarrow> bytes \<Rightarrow> domain_error + (bytes \<times> bytes)" where
  "read_exact n s = (if n \<le> length s then Inr (take n s, drop n s) else Inl read_error)"

section \<open>The header\<close>

definition extract_source_ip :: "u8 \<Rightarrow> bytes \<Rightarrow> ip_addr \<Rightarrow> ip_addr" where
  "extract_source_ip family additional peer_addr =
    (if family = FAMILY_TCP4 then
       (if 4 \<le> length additional then V4 (word_of_nat (be_value (take 4 additional))) else peer_addr)
     else if family = FAMILY_TCP6 then
       (if 16 \<le> length additional then
          (let v6 = word_of_nat (be_value (take 16 additional)) in
           case to_ipv4_mapped v6 of Some v4 \<Rightarrow> V4 v4 | None \<Rightarrow> V6 v6)
        else peer_addr)
     else peer_addr)"

text \<open>The client address, and what is left of the stream for the DNS session.\<close>

definition read_proxy_v2_client_ip ::
  "bytes \<Rightarrow> ip_addr \<Rightarrow> domain_error + (ip_addr \<times> bytes)" where
  "read_proxy_v2_client_ip stream peer_addr =
    (case read_exact FIXED_HEADER_LEN stream of
       Inl e \<Rightarrow> Inl e
     | Inr (header, stream1) \<Rightarrow>
         if take 12 header \<noteq> PROXY_V2_SIGNATURE then Inl (invalid_header ''invalid signature'')
         else if drop_bit 4 (header ! 12) \<noteq> 2 then
           Inl (invalid_header ''unsupported version (expected 2)'')
         else
           let command = header ! 12 AND 0x0F;
               family = header ! 13;
               additional_len = unat (be16 (header ! 14) (header ! 15))
           in if MAX_ADDITIONAL_LEN < additional_len then
                Inl (invalid_header ''additional length exceeds 536 bytes'')
              else
                (case (if 0 < additional_len then read_exact additional_len stream1
                       else Inr ([], stream1)) of
                   Inl e \<Rightarrow> Inl e
                 | Inr (additional, stream2) \<Rightarrow>
                     if command = COMMAND_LOCAL then Inr (peer_addr, stream2)
                     else if command = COMMAND_PROXY then
                       Inr (extract_source_ip family additional peer_addr, stream2)
                     else Inl (invalid_header ''unknown command'')))"

section \<open>The header a load balancer sends\<close>

definition proxy_header :: "u8 \<Rightarrow> u8 \<Rightarrow> bytes \<Rightarrow> bytes" where
  "proxy_header command family additional =
    PROXY_V2_SIGNATURE @ [0x20 OR command, family] @ be16_bytes (word_of_nat (length additional))
    @ additional"

lemma proxy_header_take:
  "take 16 (proxy_header c f a @ rest) = PROXY_V2_SIGNATURE @ [0x20 OR c, f] @ be16_bytes (word_of_nat (length a))"
  "drop 16 (proxy_header c f a @ rest) = a @ rest"
  by (simp_all add: proxy_header_def PROXY_V2_SIGNATURE_def)

text \<open>Reading a well-formed header is down to its command.\<close>

lemma read_proxy_header:
  assumes "length additional \<le> MAX_ADDITIONAL_LEN" "drop_bit 4 (0x20 OR c) = 2" "(0x20 OR c) AND 0x0F = c"
  shows "read_proxy_v2_client_ip (proxy_header c family additional @ rest) peer =
    (if c = COMMAND_LOCAL then Inr (peer, rest)
     else if c = COMMAND_PROXY then Inr (extract_source_ip family additional peer, rest)
     else Inl (invalid_header ''unknown command''))"
proof -
  define h where "h = PROXY_V2_SIGNATURE @ [0x20 OR c, family] @ be16_bytes (word_of_nat (length additional))"
  have len: "unat (word_of_nat (length additional) :: u16) = length additional"
    using assms(1) by (simp add: MAX_ADDITIONAL_LEN_def unat_of_nat)
  have h: "take 12 h = PROXY_V2_SIGNATURE" "h ! 12 = 0x20 OR c" "h ! 13 = family"
    "be16 (h ! 14) (h ! 15) = word_of_nat (length additional)"
    by (simp_all add: h_def PROXY_V2_SIGNATURE_def be16_bytes_def)
  have fixed: "read_exact FIXED_HEADER_LEN (proxy_header c family additional @ rest) =
      Inr (h, additional @ rest)"
    unfolding read_exact_def FIXED_HEADER_LEN_def proxy_header_take h_def
    by (simp add: proxy_header_def PROXY_V2_SIGNATURE_def)
  have "(if 0 < length additional then read_exact (length additional) (additional @ rest)
      else Inr ([], additional @ rest)) = Inr (additional, rest)"
    by (simp add: read_exact_def)
  with fixed h assms len show ?thesis
    unfolding read_proxy_v2_client_ip_def by (simp add: Let_def)
qed

lemma extract_source_ip_not_mapped:
  "extract_source_ip family additional peer = V6 a \<Longrightarrow> peer = V6 a \<or> to_ipv4_mapped a = None"
  by (auto simp: extract_source_ip_def Let_def split: if_splits option.splits)

section \<open>Properties\<close>

text \<open>
  A header a load balancer sends is consumed exactly, whatever trailing options it carries:
  LOCAL keeps the peer's address, PROXY yields the source address of a TCP over IPv4 or IPv6
  block, an IPv4-mapped source counts as IPv4, and the DNS session starts with the first byte
  after the header.
\<close>

lemma proxy_header_consumed:
  assumes "length additional \<le> MAX_ADDITIONAL_LEN"
  shows "read_proxy_v2_client_ip (proxy_header COMMAND_LOCAL family additional @ rest) peer =
      Inr (peer, rest) \<and>
    read_proxy_v2_client_ip (proxy_header COMMAND_PROXY family additional @ rest) peer =
      Inr (extract_source_ip family additional peer, rest)"
proof -
  have bits: "drop_bit 4 (0x20 OR c) = 2" "(0x20 OR c) AND 0x0F = c" if "c = 0 \<or> c = 1" for c :: u8
    using that by auto
  show ?thesis
    using read_proxy_header [OF assms bits, of COMMAND_LOCAL family rest peer]
      read_proxy_header [OF assms bits, of COMMAND_PROXY family rest peer]
    by (simp add: COMMAND_LOCAL_def COMMAND_PROXY_def)
qed

lemma proxy_header_consumed_witness:
  "read_proxy_v2_client_ip (proxy_header COMMAND_PROXY FAMILY_TCP4 [10, 0, 0, 1, 10, 0, 0, 2, 0, 1, 0, 53] @ [9])
     (V4 1) = Inr (V4 0x0A000001, [9])"
proof -
  have "extract_source_ip FAMILY_TCP4 [10, 0, 0, 1, 10, 0, 0, 2, 0, 1, 0, 53] (V4 1) = V4 0x0A000001"
    by (simp add: extract_source_ip_def)
  then show ?thesis
    using proxy_header_consumed [of "[10, 0, 0, 1, 10, 0, 0, 2, 0, 1, 0, 53]" FAMILY_TCP4 "[9]" "V4 1"]
    by (simp add: MAX_ADDITIONAL_LEN_def)
qed

text \<open>
  C40. The header reader never guesses: it fails on a stream that ends early, on a wrong
  signature, version, length or command, and only there.
\<close>

theorem proxy_header_errors:
  "isl (read_proxy_v2_client_ip stream peer) \<longleftrightarrow>
    (length stream < 16 \<or> take 12 stream \<noteq> PROXY_V2_SIGNATURE \<or> drop_bit 4 (stream ! 12) \<noteq> 2 \<or>
     536 < unat (be16 (stream ! 14) (stream ! 15)) \<or>
     length stream < 16 + unat (be16 (stream ! 14) (stream ! 15)) \<or>
     1 < stream ! 12 AND 0x0F)"
proof -
  have cmd: "\<not> 1 < c \<longleftrightarrow> c = COMMAND_LOCAL \<or> c = COMMAND_PROXY" for c :: u8
    by (auto simp: COMMAND_LOCAL_def COMMAND_PROXY_def word_less_nat_alt word_unat_eq_iff)
  show ?thesis
    using cmd [of "stream ! 12 AND 0x0F"]
    by (auto simp: read_proxy_v2_client_ip_def read_exact_def FIXED_HEADER_LEN_def
        MAX_ADDITIONAL_LEN_def Let_def not_le split: if_splits)
qed

theorem proxy_header_errors_witness:
  "isl (read_proxy_v2_client_ip (PROXY_V2_SIGNATURE @ [0x21, 0x11, 0, 4, 10, 0, 0]) (V4 1)) \<and>
   \<not> isl (read_proxy_v2_client_ip (PROXY_V2_SIGNATURE @ [0x21, 0x11, 0, 4, 10, 0, 0, 7]) (V4 1))"
  using proxy_header_errors [of "PROXY_V2_SIGNATURE @ [0x21, 0x11, 0, 4, 10, 0, 0]" "V4 1"]
    proxy_header_errors [of "PROXY_V2_SIGNATURE @ [0x21, 0x11, 0, 4, 10, 0, 0, 7]" "V4 1"]
  by (simp add: PROXY_V2_SIGNATURE_def be16_def)

text \<open>
  A client behind the proxy is never keyed as an IPv4-mapped IPv6 address: only the peer
  address of the connection itself is passed through unnormalised.
\<close>

lemma proxy_client_not_mapped:
  assumes "read_proxy_v2_client_ip stream peer = Inr (V6 a, rest)"
  shows "peer = V6 a \<or> to_ipv4_mapped a = None"
  using assms
  by (auto simp: read_proxy_v2_client_ip_def Let_def split: sum.splits if_splits
      dest!: extract_source_ip_not_mapped)

lemma proxy_client_not_mapped_witness:
  "to_ipv4_mapped 1 = None \<and>
   read_proxy_v2_client_ip (proxy_header COMMAND_PROXY FAMILY_TCP6 (replicate 15 0 @ [1] @ replicate 20 0)) (V4 3) =
     Inr (V6 1, [])"
proof -
  let ?a = "replicate 15 0 @ [1] @ replicate 20 0 :: bytes"
  have "take 16 ?a = [0, 0, 0, 0, 0, 0, 0, 0, 0, 0, 0, 0, 0, 0, 0, 1]" by code_simp
  then have "extract_source_ip FAMILY_TCP6 ?a (V4 3) = V6 1"
    by (simp add: extract_source_ip_def proxy_consts to_ipv4_mapped_def)
  moreover have "drop_bit 4 (0x20 OR COMMAND_PROXY) = 2" "(0x20 OR COMMAND_PROXY) AND 0x0F = COMMAND_PROXY"
    by (simp_all add: COMMAND_PROXY_def)
  ultimately have "read_proxy_v2_client_ip (proxy_header COMMAND_PROXY FAMILY_TCP6 ?a @ []) (V4 3) = Inr (V6 1, [])"
    using read_proxy_header [of ?a COMMAND_PROXY FAMILY_TCP6 "[]" "V4 3"]
    by (simp add: MAX_ADDITIONAL_LEN_def COMMAND_LOCAL_def COMMAND_PROXY_def)
  with proxy_client_not_mapped [OF this] show ?thesis by simp
qed

end
