(* ===== verification/Text.thy ===== *)
theory Text
  imports Prelude
begin

text \<open>
  The string methods of the standard library that the filter lists, the configuration and the
  cache keys go through. A character is a code point below 256: the methods below follow the
  Unicode tables on that range (white space, case mapping), and coincide with their ASCII
  variants on ASCII text.
\<close>

section \<open>Splitting and joining\<close>

text \<open>\<open>str::split(c)\<close>: always at least one part.\<close>

fun split_char :: "char \<Rightarrow> string \<Rightarrow> string list" where
  "split_char c [] = [[]]"
| "split_char c (x # xs) =
    (if x = c then [] # split_char c xs
     else (case split_char c xs of [] \<Rightarrow> [[x]] | y # ys \<Rightarrow> (x # y) # ys))"

fun join_char :: "char \<Rightarrow> string list \<Rightarrow> string" where
  "join_char c [] = []"
| "join_char c [x] = x"
| "join_char c (x # y # zs) = x @ c # join_char c (y # zs)"

lemma split_char_nonempty [simp]: "split_char c s \<noteq> []"
  by (induction s) (auto split: list.splits)

lemma split_char_append: "split_char c (a @ c # b) = split_char c a @ split_char c b"
  by (induction a) (auto split: list.splits)

lemma split_char_none: "c \<notin> set s \<Longrightarrow> split_char c s = [s]"
  by (induction s) auto

lemma join_split_char: "join_char c (split_char c s) = s"
proof (induction s)
  case (Cons x xs)
  then show ?case by (cases "split_char c xs"; cases "tl (split_char c xs)") auto
qed simp

lemma join_char_append:
  "xs \<noteq> [] \<Longrightarrow> ys \<noteq> [] \<Longrightarrow> join_char c (xs @ ys) = join_char c xs @ c # join_char c ys"
proof (induction c xs rule: join_char.induct)
  case (2 c x)
  then show ?case by (cases ys) auto
qed auto

text \<open>Proper suffixes of the parts are what follows a separator.\<close>

lemma split_char_proper_suffix:
  "(\<exists>ls. ls \<noteq> [] \<and> split_char c s = ls @ split_char c b) \<longleftrightarrow> (\<exists>a. s = a @ c # b)"
proof
  assume "\<exists>ls. ls \<noteq> [] \<and> split_char c s = ls @ split_char c b"
  then obtain ls where "ls \<noteq> []" "split_char c s = ls @ split_char c b" by blast
  then have "s = join_char c ls @ c # b"
    using join_split_char [of c s] join_split_char [of c b]
      join_char_append [of ls "split_char c b" c] by simp
  then show "\<exists>a. s = a @ c # b" by blast
qed (metis split_char_append split_char_nonempty)

lemma split_char_inj: "split_char c a = split_char c b \<longleftrightarrow> a = b"
  by (metis join_split_char)

section \<open>Prefixes and suffixes\<close>

definition starts_with :: "string \<Rightarrow> string \<Rightarrow> bool" where
  "starts_with p s \<longleftrightarrow> take (length p) s = p"

definition ends_with :: "string \<Rightarrow> string \<Rightarrow> bool" where
  "ends_with p s \<longleftrightarrow> length p \<le> length s \<and> drop (length s - length p) s = p"

definition strip_prefix :: "string \<Rightarrow> string \<Rightarrow> string option" where
  "strip_prefix p s = (if starts_with p s then Some (drop (length p) s) else None)"

lemma starts_with_iff: "starts_with p s \<longleftrightarrow> (\<exists>r. s = p @ r)"
  by (metis append_eq_conv_conj append_take_drop_id starts_with_def)

lemma strip_prefix_append [simp]: "strip_prefix p (p @ s) = Some s"
  by (simp add: strip_prefix_def starts_with_def)

lemma strip_prefix_Some: "strip_prefix p s = Some r \<longleftrightarrow> s = p @ r"
  by (auto simp: strip_prefix_def starts_with_def) (metis append_take_drop_id)

section \<open>Characters\<close>

text \<open>\<open>char::is_whitespace\<close>: the code points with property \<open>White_Space\<close>.\<close>

definition is_whitespace :: "char \<Rightarrow> bool" where
  "is_whitespace c \<longleftrightarrow>
    (let n = of_char c :: nat in 9 \<le> n \<and> n \<le> 13 \<or> n = 32 \<or> n = 0x85 \<or> n = 0xA0)"

definition ascii_upper :: "char \<Rightarrow> bool" where
  "ascii_upper c \<longleftrightarrow> (let n = of_char c :: nat in 65 \<le> n \<and> n \<le> 90)"

definition ascii_lower :: "char \<Rightarrow> char" where
  "ascii_lower c = (if ascii_upper c then char_of ((of_char c :: nat) + 32) else c)"

text \<open>\<open>str::to_ascii_lowercase\<close> and \<open>str::to_lowercase\<close>.\<close>

definition lower :: "string \<Rightarrow> string" where
  "lower s = map ascii_lower s"

definition unicode_upper :: "char \<Rightarrow> bool" where
  "unicode_upper c \<longleftrightarrow>
    (let n = of_char c :: nat in 65 \<le> n \<and> n \<le> 90 \<or> 0xC0 \<le> n \<and> n \<le> 0xDE \<and> n \<noteq> 0xD7)"

definition to_lowercase :: "string \<Rightarrow> string" where
  "to_lowercase s = map (\<lambda>c. if unicode_upper c then char_of ((of_char c :: nat) + 32) else c) s"

lemma of_char_lt: "(of_char c :: nat) < 256"
  by (metis nat_of_char_less_256)

lemma ascii_lower_not_upper [simp]: "\<not> ascii_upper (ascii_lower c)"
  by (auto simp: ascii_lower_def ascii_upper_def Let_def of_char_of take_bit_eq_mod)

lemma ascii_lower_idem [simp]: "ascii_lower (ascii_lower c) = ascii_lower c"
  using ascii_lower_not_upper [of c] by (simp add: ascii_lower_def)

lemma lower_idem [simp]: "lower (lower s) = lower s"
  by (simp add: lower_def)

lemma lower_append [simp]: "lower (a @ b) = lower a @ lower b"
  by (simp add: lower_def)

lemma length_lower [simp]: "length (lower s) = length s"
  by (simp add: lower_def)

lemma lower_id: "(\<And>c. c \<in> set s \<Longrightarrow> \<not> ascii_upper c) \<Longrightarrow> lower s = s"
  by (induction s) (auto simp: lower_def ascii_lower_def)

lemma no_upper_lower: "c \<in> set (lower s) \<Longrightarrow> \<not> ascii_upper c"
  by (auto simp: lower_def)

lemma ascii_lower_char_iff:
  "\<not> ascii_upper d \<Longrightarrow> \<not> (97 \<le> (of_char d :: nat) \<and> (of_char d :: nat) \<le> 122) \<Longrightarrow>
    ascii_lower c = d \<longleftrightarrow> c = d"
  by (auto simp: ascii_lower_def ascii_upper_def Let_def of_char_of take_bit_eq_mod split: if_splits)

section \<open>White space and lines\<close>

text \<open>\<open>str::trim\<close>, \<open>str::split_whitespace\<close> and \<open>str::lines\<close>.\<close>

definition trim_start :: "string \<Rightarrow> string" where
  "trim_start s = dropWhile is_whitespace s"

definition trim :: "string \<Rightarrow> string" where
  "trim s = rev (dropWhile is_whitespace (rev (trim_start s)))"

function split_whitespace :: "string \<Rightarrow> string list" where
  "split_whitespace s =
    (case dropWhile is_whitespace s of
       [] \<Rightarrow> []
     | c # r \<Rightarrow>
         (c # takeWhile (\<lambda>d. \<not> is_whitespace d) r)
           # split_whitespace (dropWhile (\<lambda>d. \<not> is_whitespace d) r))"
  by pat_completeness auto
termination
proof (relation "measure length")
  show "(dropWhile (\<lambda>d. \<not> is_whitespace d) r, s) \<in> measure length"
    if "dropWhile is_whitespace s = c # r" for s c r
    using length_dropWhile_le [of is_whitespace s] length_dropWhile_le [of "\<lambda>d. \<not> is_whitespace d" r]
    by (simp add: that)
qed simp

declare split_whitespace.simps [simp del]

definition strip_cr :: "string \<Rightarrow> string" where
  "strip_cr l = (if l \<noteq> [] \<and> last l = CHR 0x0D then butlast l else l)"

text \<open>Lines end at a line feed, a carriage return before it belongs to the ending, and a text
  that ends in a line feed has no empty last line.\<close>

definition lines :: "string \<Rightarrow> string list" where
  "lines s =
    (let parts = split_char (CHR 0x0A) s;
         ended = map strip_cr (butlast parts)
     in if last parts = [] then ended else ended @ [last parts])"

lemma set_trim: "set (trim s) \<subseteq> set s"
  by (auto simp: trim_def trim_start_def dest!: set_dropWhileD)

lemma trim_id: "s = [] \<or> \<not> is_whitespace (hd s) \<and> \<not> is_whitespace (last s) \<Longrightarrow> trim s = s"
proof (cases "s = []")
  case False
  assume "s = [] \<or> \<not> is_whitespace (hd s) \<and> \<not> is_whitespace (last s)"
  then have "dropWhile is_whitespace s = s" "dropWhile is_whitespace (rev s) = rev s"
    using False by (simp_all add: dropWhile_eq_self_iff hd_rev)
  then show ?thesis by (simp add: trim_def trim_start_def)
qed (simp add: trim_def trim_start_def)

lemma split_whitespace_unfold:
  "dropWhile is_whitespace s = c # r \<Longrightarrow>
    split_whitespace s =
      (c # takeWhile (\<lambda>d. \<not> is_whitespace d) r) # split_whitespace (dropWhile (\<lambda>d. \<not> is_whitespace d) r)"
  "dropWhile is_whitespace s = [] \<Longrightarrow> split_whitespace s = []"
  by (subst split_whitespace.simps, simp del: dropWhile_eq_Nil_conv)+

lemma split_whitespace_parts:
  "p \<in> set (split_whitespace s) \<Longrightarrow>
    p \<noteq> [] \<and> set p \<subseteq> set s \<and> (\<forall>c \<in> set p. \<not> is_whitespace c)"
proof (induction s rule: split_whitespace.induct)
  case (1 s)
  show ?case
  proof (cases "dropWhile is_whitespace s")
    case Nil
    then show ?thesis using 1 (2) by (simp only: split_whitespace_unfold(2) [OF Nil]) simp
  next
    case (Cons c r)
    let ?w = "c # takeWhile (\<lambda>d. \<not> is_whitespace d) r" and ?r = "dropWhile (\<lambda>d. \<not> is_whitespace d) r"
    have c: "\<not> is_whitespace c" using Cons hd_dropWhile [of is_whitespace s] by simp
    have sub: "set (c # r) \<subseteq> set s" using set_dropWhileD [of _ is_whitespace s] by (auto simp: Cons)
    have "p = ?w \<or> p \<in> set (split_whitespace ?r)"
      using 1 (2) by (simp only: split_whitespace_unfold(1) [OF Cons] list.set insert_iff)
    moreover have "set ?w \<subseteq> set s" "set ?r \<subseteq> set s" "\<forall>d \<in> set ?w. \<not> is_whitespace d"
      using c sub by (auto dest: set_takeWhileD set_dropWhileD)
    ultimately show ?thesis using 1 (1) [OF Cons] by blast
  qed
qed

lemma split_whitespace_Nil [simp]: "split_whitespace [] = []"
  by (subst split_whitespace.simps) simp

lemma split_whitespace_word:
  assumes "a \<noteq> []" "\<And>c. c \<in> set a \<Longrightarrow> \<not> is_whitespace c" "s = [] \<or> is_whitespace (hd s)"
  shows "split_whitespace (a @ s) = a # split_whitespace s"
proof -
  obtain c r where a: "a = c # r" using assms(1) by (cases a) auto
  have "takeWhile (\<lambda>d. \<not> is_whitespace d) (r @ s) = r" "dropWhile (\<lambda>d. \<not> is_whitespace d) (r @ s) = s"
    using assms a by (cases s; simp add: takeWhile_append dropWhile_append)+
  then show ?thesis using assms(2) a by (subst split_whitespace.simps) simp
qed

lemma split_whitespace_skip: "is_whitespace w \<Longrightarrow> split_whitespace (w # s) = split_whitespace s"
  by (subst (1 2) split_whitespace.simps) simp

end
