(* ===== verification/Suffix_Trie.thy ===== *)
theory Suffix_Trie
  imports Text "HOL-Library.AList"
begin

unbundle bit_operations_syntax

text \<open>
  The index of wildcard rules (\<open>infrastructure/src/dns/block_filter/suffix_trie.rs\<close>): a trie over
  the labels of a name, read from the right, whose nodes carry the bit set of the sources that
  block everything below. The interface \<open>rule_index\<close> states what a bit-set index of rules
  promises; the trie and the table of exact names both provide it.
\<close>

section \<open>Bit-set indexes of rules\<close>

lemma bit_if_0 [simp]: "bit (if c then m else 0) n \<longleftrightarrow> c \<and> bit m n" for m :: "'a::len word"
  by simp

lemma word_nonzero_bit: "m \<noteq> 0 \<longleftrightarrow> (\<exists>n. bit m n)" for m :: "'a::len word"
  by (metis bit_eqI bit_0_eq bot_apply bot_bool_def)

lemma ex_set_Cons:
  "(\<exists>p m. (p, m) \<in> set ((a, b) # rs) \<and> Q p m) \<longleftrightarrow> Q a b \<or> (\<exists>p m. (p, m) \<in> set rs \<and> Q p m)"
  by auto

locale rule_index =
  fixes nil :: "'s"
    and add :: "'p \<Rightarrow> u64 \<Rightarrow> 's \<Rightarrow> 's"
    and find :: "'s \<Rightarrow> 'd \<Rightarrow> u64"
    and covers :: "'p \<Rightarrow> 'd \<Rightarrow> bool"
  assumes find_nil: "find nil d = 0"
    and find_add: "find (add p m s) d = find s d OR (if covers p d then m else 0)"
begin

lemma bit_find_adds:
  "bit (find (fold (\<lambda>(p, m). add p m) rs s) d) n \<longleftrightarrow>
    bit (find s d) n \<or> (\<exists>p m. (p, m) \<in> set rs \<and> covers p d \<and> bit m n)"
proof (induction rs arbitrary: s)
  case (Cons r rs)
  then show ?case
    by (cases r) (simp only: fold_Cons comp_apply prod.case find_add bit_or_iff bit_if_0 ex_set_Cons disj_assoc)
qed simp

lemma bit_find_built:
  "bit (find (fold (\<lambda>(p, m). add p m) rs nil) d) n \<longleftrightarrow>
    (\<exists>p m. (p, m) \<in> set rs \<and> covers p d \<and> bit m n)"
  by (simp add: bit_find_adds find_nil)

text \<open>The order and the repetition of rules do not matter.\<close>

lemma find_built_set:
  "set rs = set rs' \<Longrightarrow>
    find (fold (\<lambda>(p, m). add p m) rs nil) d = find (fold (\<lambda>(p, m). add p m) rs' nil) d"
  by (rule bit_word_eqI) (simp add: bit_find_built)

lemma find_built_nonzero:
  assumes "\<And>p m. (p, m) \<in> set rs \<Longrightarrow> m \<noteq> 0"
  shows "find (fold (\<lambda>(p, m). add p m) rs nil) d \<noteq> 0 \<longleftrightarrow> (\<exists>p m. (p, m) \<in> set rs \<and> covers p d)"
  using assms unfolding word_nonzero_bit bit_find_built by blast

end

section \<open>The trie\<close>

datatype trie_node = Node (children: "(string \<times> trie_node) list") (wildcard_mask: u64)

record suffix_trie =
  root :: trie_node
  trie_len :: nat

definition empty_trie :: suffix_trie where
  "empty_trie = \<lparr>root = Node [] 0, trie_len = 0\<rparr>"

definition trie_is_empty :: "suffix_trie \<Rightarrow> bool" where
  "trie_is_empty t \<longleftrightarrow> children (root t) = []"

text \<open>\<open>children.entry(label).or_default()\<close>.\<close>

definition child_or_default :: "(string \<times> trie_node) list \<Rightarrow> string \<Rightarrow> trie_node" where
  "child_or_default cs l = (case map_of cs l of Some c \<Rightarrow> c | None \<Rightarrow> Node [] 0)"

text \<open>Descends along the labels, creating nodes, and reports whether the last node had no rule.\<close>

fun insert_path :: "string list \<Rightarrow> u64 \<Rightarrow> trie_node \<Rightarrow> trie_node \<times> bool" where
  "insert_path [] m (Node cs w) = (Node cs (w OR m), w = 0)"
| "insert_path (l # ls) m (Node cs w) =
    (let (c, is_new) = insert_path ls m (child_or_default cs l)
     in (Node (AList.update l c cs) w, is_new))"

definition strip_star :: "string \<Rightarrow> string" where
  "strip_star pattern = (case strip_prefix ''*.'' pattern of Some d \<Rightarrow> d | None \<Rightarrow> pattern)"

definition rlabels :: "string \<Rightarrow> string list" where
  "rlabels d = rev (split_char (CHR ''.'') d)"

definition insert_wildcard :: "suffix_trie \<Rightarrow> string \<Rightarrow> u64 \<Rightarrow> suffix_trie \<times> bool" where
  "insert_wildcard t pattern source_mask =
    (let domain = strip_star pattern;
         (r, is_new) = insert_path (rlabels domain) source_mask (root t)
     in (\<lparr>root = r, trie_len = (if is_new then trie_len t + 1 else trie_len t)\<rparr>, is_new))"

fun lookup_path :: "trie_node \<Rightarrow> string list \<Rightarrow> u64 \<Rightarrow> u64" where
  "lookup_path node [] result = result"
| "lookup_path node (l # ls) result =
    (case map_of (children node) l of
       None \<Rightarrow> result
     | Some child \<Rightarrow>
         lookup_path child ls
           (if wildcard_mask child \<noteq> 0 \<and> ls \<noteq> [] then result OR wildcard_mask child else result))"

definition trie_lookup :: "suffix_trie \<Rightarrow> string \<Rightarrow> u64" where
  "trie_lookup t domain = lookup_path (root t) (rlabels domain) 0"

section \<open>What a lookup finds\<close>

text \<open>The mask stored under a path.\<close>

fun mask_at :: "trie_node \<Rightarrow> string list \<Rightarrow> u64" where
  "mask_at node [] = wildcard_mask node"
| "mask_at node (l # ls) = (case map_of (children node) l of None \<Rightarrow> 0 | Some c \<Rightarrow> mask_at c ls)"

lemma mask_at_default [simp]: "mask_at (Node [] 0) ls = 0"
  by (cases ls) simp_all

lemma mask_at_child:
  "mask_at (child_or_default cs l) ls = (case map_of cs l of None \<Rightarrow> 0 | Some c \<Rightarrow> mask_at c ls)"
  by (simp add: child_or_default_def split: option.splits)

lemma mask_at_insert:
  "mask_at (fst (insert_path ls m node)) ks = mask_at node ks OR (if ks = ls then m else 0)"
proof (induction ls m node arbitrary: ks rule: insert_path.induct)
  case (1 m cs w)
  then show ?case by (cases ks) (auto split: option.splits)
next
  case (2 l ls m cs w)
  then show ?case
    by (cases ks) (auto simp: update_conv mask_at_child split: prod.splits option.splits)
qed

lemma insert_path_new: "snd (insert_path ls m node) \<longleftrightarrow> mask_at node ls = 0"
  by (induction ls m node rule: insert_path.induct) (auto simp: mask_at_child split: prod.splits option.splits)

text \<open>A lookup collects the masks of the proper, non-empty prefixes of the path.\<close>

lemma bit_lookup_path:
  "bit (lookup_path node ls r) n \<longleftrightarrow>
    bit r n \<or> (\<exists>ks zs. ls = ks @ zs \<and> ks \<noteq> [] \<and> zs \<noteq> [] \<and> bit (mask_at node ks) n)"
proof (induction node ls r rule: lookup_path.induct)
  case (2 node l ls r)
  have split: "(\<exists>ks zs. l # ls = ks @ zs \<and> ks \<noteq> [] \<and> zs \<noteq> [] \<and> Q ks) \<longleftrightarrow>
      (\<exists>ks zs. ls = ks @ zs \<and> zs \<noteq> [] \<and> Q (l # ks))" for Q
    by (auto simp: Cons_eq_append_conv)
  show ?case
  proof (cases "map_of (children node) l")
    case None
    then show ?thesis unfolding split by simp
  next
    case (Some c)
    have "(\<exists>ks zs. ls = ks @ zs \<and> zs \<noteq> [] \<and> bit (mask_at c ks) n) \<longleftrightarrow>
        ls \<noteq> [] \<and> bit (wildcard_mask c) n \<or>
        (\<exists>ks zs. ls = ks @ zs \<and> ks \<noteq> [] \<and> zs \<noteq> [] \<and> bit (mask_at c ks) n)" (is "?l = ?r")
    proof
      assume ?l
      then obtain ks zs where "ls = ks @ zs" "zs \<noteq> []" "bit (mask_at c ks) n" by blast
      then show ?r by (cases "ks = []") auto
    qed (metis append_Nil mask_at.simps(1))
    then show ?thesis unfolding split using 2 [OF Some] Some by (auto simp: bit_or_iff)
  qed
qed simp

definition is_subdomain :: "string \<Rightarrow> string \<Rightarrow> bool" where
  "is_subdomain base d \<longleftrightarrow>
    length base < length d \<and> drop (length d - length base - 1) d = CHR ''.'' # base"

lemma is_subdomain_iff: "is_subdomain base d \<longleftrightarrow> (\<exists>a. d = a @ CHR ''.'' # base)"
proof
  assume "is_subdomain base d"
  then show "\<exists>a. d = a @ CHR ''.'' # base"
    by (metis append_take_drop_id is_subdomain_def)
qed (auto simp: is_subdomain_def)

lemma rlabels_subdomain:
  "(\<exists>zs. rlabels d = rlabels base @ zs \<and> zs \<noteq> []) \<longleftrightarrow> is_subdomain base d"
proof -
  have "(\<exists>zs. rlabels d = rlabels base @ zs \<and> zs \<noteq> []) \<longleftrightarrow>
      (\<exists>ls. ls \<noteq> [] \<and> split_char (CHR ''.'') d = ls @ split_char (CHR ''.'') base)"
    unfolding rlabels_def by (metis rev_append rev_is_Nil_conv rev_rev_ident)
  then show ?thesis by (simp add: split_char_proper_suffix is_subdomain_iff)
qed

lemma rlabels_nonempty [simp]: "rlabels d \<noteq> []"
  by (simp add: rlabels_def)

lemma rlabels_inj [simp]: "rlabels a = rlabels b \<longleftrightarrow> a = b"
  by (simp add: rlabels_def split_char_inj)

definition covers_wildcard :: "string \<Rightarrow> string \<Rightarrow> bool" where
  "covers_wildcard pattern d \<longleftrightarrow> is_subdomain (strip_star pattern) d"

definition add_wildcard :: "string \<Rightarrow> u64 \<Rightarrow> suffix_trie \<Rightarrow> suffix_trie" where
  "add_wildcard p m t = fst (insert_wildcard t p m)"

lemma root_add_wildcard: "root (add_wildcard p m t) = fst (insert_path (rlabels (strip_star p)) m (root t))"
  by (simp add: add_wildcard_def insert_wildcard_def Let_def split: prod.splits)

lemma trie_lookup_empty: "trie_lookup empty_trie d = 0"
  by (cases "rlabels d") (simp_all add: trie_lookup_def empty_trie_def)

lemma trie_lookup_add:
  "trie_lookup (add_wildcard p m t) d = trie_lookup t d OR (if covers_wildcard p d then m else 0)"
proof (rule bit_word_eqI)
  fix n
  let ?b = "rlabels (strip_star p)"
  have "bit (trie_lookup (add_wildcard p m t) d) n \<longleftrightarrow>
      (\<exists>ks zs. rlabels d = ks @ zs \<and> ks \<noteq> [] \<and> zs \<noteq> [] \<and>
        (bit (mask_at (root t) ks) n \<or> ks = ?b \<and> bit m n))"
    by (simp only: trie_lookup_def bit_lookup_path root_add_wildcard mask_at_insert bit_or_iff bit_if_0
        bit_0_eq bot_apply bot_bool_def simp_thms)
  also have "\<dots> \<longleftrightarrow> bit (trie_lookup t d) n \<or> bit m n \<and> (\<exists>zs. rlabels d = ?b @ zs \<and> zs \<noteq> [])"
    unfolding trie_lookup_def bit_lookup_path using rlabels_nonempty [of "strip_star p"]
    by (simp only: bit_0_eq bot_apply bot_bool_def simp_thms) blast
  finally show "bit (trie_lookup (add_wildcard p m t) d) n =
      bit (trie_lookup t d OR (if covers_wildcard p d then m else 0)) n"
    by (auto simp: rlabels_subdomain covers_wildcard_def bit_or_iff)
qed

interpretation trie: rule_index empty_trie add_wildcard trie_lookup covers_wildcard
  by unfold_locales (simp_all add: trie_lookup_empty trie_lookup_add)

section \<open>Counting\<close>

text \<open>With non-zero masks a rule is new exactly when its name is.\<close>

lemma mask_at_adds:
  "bit (mask_at (root (fold (\<lambda>(p, m). add_wildcard p m) rs t)) ks) n \<longleftrightarrow>
    bit (mask_at (root t) ks) n \<or> (\<exists>p m. (p, m) \<in> set rs \<and> rlabels (strip_star p) = ks \<and> bit m n)"
proof (induction rs arbitrary: t)
  case (Cons r rs)
  then show ?case
    by (cases r) (auto simp: root_add_wildcard mask_at_insert bit_or_iff simp del: rlabels_inj)
qed simp

lemma insert_wildcard_new:
  assumes "\<And>p m. (p, m) \<in> set rs \<Longrightarrow> m \<noteq> 0"
  shows "snd (insert_wildcard (fold (\<lambda>(p, m). add_wildcard p m) rs empty_trie) p m) \<longleftrightarrow>
    strip_star p \<notin> (\<lambda>(p, m). strip_star p) ` set rs"
proof -
  have "snd (insert_wildcard t p m) \<longleftrightarrow> mask_at (root t) (rlabels (strip_star p)) = 0" for t
    using insert_path_new [of "rlabels (strip_star p)" m "root t"]
    by (cases "insert_path (rlabels (strip_star p)) m (root t)") (simp add: insert_wildcard_def Let_def)
  moreover have "mask_at (root (fold (\<lambda>(p, m). add_wildcard p m) rs empty_trie)) (rlabels (strip_star p)) \<noteq> 0
      \<longleftrightarrow> (\<exists>q m. (q, m) \<in> set rs \<and> strip_star q = strip_star p)"
    unfolding word_nonzero_bit mask_at_adds rlabels_inj
    using assms [unfolded word_nonzero_bit] by (simp add: empty_trie_def) blast
  ultimately show ?thesis by force
qed

lemma trie_len_card:
  assumes "\<And>p m. (p, m) \<in> set rs \<Longrightarrow> m \<noteq> 0"
  shows "trie_len (fold (\<lambda>(p, m). add_wildcard p m) rs empty_trie) = card ((\<lambda>(p, m). strip_star p) ` set rs)"
  using assms
proof (induction rs rule: rev_induct)
  case (snoc r rs)
  obtain p m where r: "r = (p, m)" by (cases r)
  let ?t = "fold (\<lambda>(p, m). add_wildcard p m) rs empty_trie"
  have "trie_len (add_wildcard p m ?t) = (if snd (insert_wildcard ?t p m) then trie_len ?t + 1 else trie_len ?t)"
    by (simp add: add_wildcard_def insert_wildcard_def Let_def split: prod.splits)
  moreover have nz: "m \<noteq> 0" if "(p, m) \<in> set rs" for p m
    using snoc.prems [of p m] that by simp
  moreover note snoc.IH [OF nz] insert_wildcard_new [of rs p m, OF nz]
  ultimately show ?case by (auto simp: r insert_absorb card_insert_if)
qed (simp add: empty_trie_def)

end
