(* ===== verification/Bloom.thy ===== *)
theory Bloom
  imports Prelude
begin

unbundle bit_operations_syntax

text \<open>
  The two-slot Bloom filter (\<open>infrastructure/src/dns/cache/bloom.rs\<close>) in front of the block index
  and of the response cache. The hash of a key (rustc-hash) is the parameter \<open>fx\<close>, and the sizes
  that the constructor computes in floating point are arguments; indexing a slot out of range
  panics. The interface \<open>approx_set\<close> states what its users rely on: no false negatives.
\<close>

section \<open>Approximate sets\<close>

fun fold_res :: "('s \<Rightarrow> 'a \<Rightarrow> 's res) \<Rightarrow> 'a list \<Rightarrow> 's \<Rightarrow> 's res" where
  "fold_res f [] s = Got s"
| "fold_res f (x # xs) s = and_then (f s x) (fold_res f xs)"

lemma fold_res_append: "fold_res f (xs @ ys) s = and_then (fold_res f xs s) (fold_res f ys)"
proof (induction xs arbitrary: s)
  case (Cons x xs)
  then show ?case by (cases "f s x") simp_all
qed simp

locale approx_set =
  fixes ok :: "'s \<Rightarrow> bool"
    and check :: "'s \<Rightarrow> 'k \<Rightarrow> bool res"
    and add :: "'s \<Rightarrow> 'k \<Rightarrow> 's res"
  assumes check_total: "ok s \<Longrightarrow> \<exists>b. check s k = Got b"
    and add_total: "ok s \<Longrightarrow> \<exists>s'. add s k = Got s' \<and> ok s'"
    and check_add: "ok s \<Longrightarrow> add s k = Got s' \<Longrightarrow> check s' k = Got True"
    and check_keeps: "ok s \<Longrightarrow> add s k = Got s' \<Longrightarrow> check s j = Got True \<Longrightarrow> check s' j = Got True"
begin

lemma adds_total:
  "ok s \<Longrightarrow> \<exists>s'. fold_res add ks s = Got s' \<and> ok s'"
proof (induction ks arbitrary: s)
  case (Cons k ks)
  then show ?case using add_total [of s k] by auto
qed simp

lemma adds_ok: "ok s \<Longrightarrow> fold_res add ks s = Got s' \<Longrightarrow> ok s'"
  using adds_total [of s ks] by auto

lemma adds_keeps:
  "ok s \<Longrightarrow> fold_res add ks s = Got s' \<Longrightarrow> check s j = Got True \<Longrightarrow> check s' j = Got True"
proof (induction ks arbitrary: s)
  case (Cons k ks)
  then obtain s1 where s1: "add s k = Got s1" "ok s1" "fold_res add ks s1 = Got s'"
    using add_total [of s k] by fastforce
  then show ?case using Cons.IH [of s1] check_keeps [OF Cons.prems(1) s1(1) Cons.prems(3)] by blast
qed simp

lemma no_false_negative:
  "ok s \<Longrightarrow> fold_res add ks s = Got s' \<Longrightarrow> k \<in> set ks \<Longrightarrow> check s' k = Got True"
proof (induction ks arbitrary: s)
  case (Cons j ks)
  then obtain s1 where s1: "add s j = Got s1" "ok s1" "fold_res add ks s1 = Got s'"
    using add_total [of s j] by fastforce
  show ?case
  proof (cases "k = j")
    case True
    then show ?thesis using adds_keeps [OF s1(2,3)] check_add [OF Cons.prems(1) s1(1)] by simp
  next
    case False
    then show ?thesis using Cons.IH [OF s1(2,3)] Cons.prems(3) by simp
  qed
qed simp

end

section \<open>The filter\<close>

record bloom =
  slots :: "u64 list list"
  active :: nat
  bmask :: u64
  num_hashes :: nat

fun next_power_of_two :: "nat \<Rightarrow> nat" where
  "next_power_of_two m = (if m \<le> 1 then 1 else 2 * next_power_of_two ((m + 1) div 2))"

declare next_power_of_two.simps [simp del]

text \<open>\<open>m\<close> is the bit estimate before rounding, \<open>hashes\<close> the number of probes.\<close>

definition new_bloom :: "nat \<Rightarrow> nat \<Rightarrow> bloom" where
  "new_bloom m hashes =
    (let num_bits = next_power_of_two m; num_words = (num_bits + 63) div 64 in
     \<lparr>slots = [replicate num_words 0, replicate num_words 0], active = 0,
      bmask = word_of_nat num_bits - 1, num_hashes = hashes\<rparr>)"

definition double_hash :: "('k \<Rightarrow> u64) \<Rightarrow> 'k \<Rightarrow> u64 \<times> u64" where
  "double_hash fx k = (let h1 = fx k in (h1, word_rotr 17 (h1 * 0x517cc1b727220a95)))"

definition nth_hash :: "u64 \<Rightarrow> u64 \<Rightarrow> u64 \<Rightarrow> u64 \<Rightarrow> nat" where
  "nth_hash h1 h2 n msk = unat ((h1 + n * h2) AND msk)"

text \<open>One bit of one slot.\<close>

definition slot_bit :: "bloom \<Rightarrow> nat \<Rightarrow> nat \<Rightarrow> bool res" where
  "slot_bit b a i =
    and_then (idx (slots b) a) (\<lambda>s. and_then (idx s (i div 64)) (\<lambda>w.
      Got (w AND push_bit (i mod 64) 1 \<noteq> 0)))"

definition check_both :: "('k \<Rightarrow> u64) \<Rightarrow> bloom \<Rightarrow> 'k \<Rightarrow> nat \<Rightarrow> bool res" where
  "check_both fx b k i =
    (let (h1, h2) = double_hash fx k; ix = nth_hash h1 h2 (word_of_nat i) (bmask b) in
     and_then (slot_bit b (active b) ix) (\<lambda>in_active.
       if in_active then Got True else slot_bit b (1 - active b) ix))"

fun all_res :: "('a \<Rightarrow> bool res) \<Rightarrow> 'a list \<Rightarrow> bool res" where
  "all_res f [] = Got True"
| "all_res f (x # xs) = and_then (f x) (\<lambda>b. if b then all_res f xs else Got False)"

text \<open>Five probes are unrolled in the source; every other count is a loop.\<close>

definition bloom_check :: "('k \<Rightarrow> u64) \<Rightarrow> bloom \<Rightarrow> 'k \<Rightarrow> bool res" where
  "bloom_check fx b k =
    (if num_hashes b = 5 then all_res (check_both fx b k) [0, 1, 2, 3, 4]
     else all_res (check_both fx b k) [0..<num_hashes b])"

definition set_slot_bit :: "bloom \<Rightarrow> nat \<Rightarrow> nat \<Rightarrow> bloom res" where
  "set_slot_bit b a i =
    and_then (idx (slots b) a) (\<lambda>s. and_then (idx s (i div 64)) (\<lambda>w.
      Got (b\<lparr>slots := (slots b)[a := s[i div 64 := w OR push_bit (i mod 64) 1]]\<rparr>)))"

definition set_probe :: "('k \<Rightarrow> u64) \<Rightarrow> 'k \<Rightarrow> nat \<Rightarrow> bloom \<Rightarrow> nat \<Rightarrow> bloom res" where
  "set_probe fx k a b i =
    (let (h1, h2) = double_hash fx k in set_slot_bit b a (nth_hash h1 h2 (word_of_nat i) (bmask b)))"

definition bloom_set :: "('k \<Rightarrow> u64) \<Rightarrow> bloom \<Rightarrow> 'k \<Rightarrow> bloom res" where
  "bloom_set fx b k =
    (if num_hashes b = 5 then fold_res (set_probe fx k (active b)) [0, 1, 2, 3, 4] b
     else fold_res (set_probe fx k (active b)) [0..<num_hashes b] b)"

definition clear_slot :: "bloom \<Rightarrow> nat \<Rightarrow> bloom res" where
  "clear_slot b a =
    and_then (idx (slots b) a) (\<lambda>s. Got (b\<lparr>slots := (slots b)[a := replicate (length s) 0]\<rparr>))"

definition bloom_rotate :: "bloom \<Rightarrow> bloom res" where
  "bloom_rotate b =
    (let new_active = 1 - active b in
     and_then (clear_slot b new_active) (\<lambda>b1. Got (b1\<lparr>active := new_active\<rparr>)))"

definition bloom_clear :: "bloom \<Rightarrow> bloom" where
  "bloom_clear b = b\<lparr>slots := map (\<lambda>s. replicate (length s) 0) (slots b)\<rparr>"

section \<open>Well-formed filters\<close>

definition bloom_ok :: "bloom \<Rightarrow> bool" where
  "bloom_ok b \<longleftrightarrow> length (slots b) = 2 \<and> active b \<le> 1 \<and>
    list_all (\<lambda>s. unat (bmask b) div 64 < length s) (slots b)"

text \<open>The bits of slot \<open>a\<close>, as a set of positions.\<close>

definition in_slot :: "bloom \<Rightarrow> nat \<Rightarrow> nat \<Rightarrow> bool" where
  "in_slot b a i \<longleftrightarrow> bit (slots b ! a ! (i div 64)) (i mod 64)"

definition probes :: "('k \<Rightarrow> u64) \<Rightarrow> bloom \<Rightarrow> 'k \<Rightarrow> nat set" where
  "probes fx b k =
    (case double_hash fx k of (h1, h2) \<Rightarrow>
      (\<lambda>i. nth_hash h1 h2 (word_of_nat i) (bmask b)) ` {..<num_hashes b})"

lemma nth_hash_le: "nth_hash h1 h2 n msk \<le> unat msk"
  unfolding nth_hash_def by (simp add: word_and_le1 flip: word_le_nat_alt)

lemma probes_le: "i \<in> probes fx b k \<Longrightarrow> i \<le> unat (bmask b)"
  by (auto simp: probes_def nth_hash_le split: prod.splits)

lemma and_single_bit: "w AND 2 ^ n \<noteq> 0 \<longleftrightarrow> bit w n" for w :: u64
  by (simp add: and_exp_eq_0_iff_not_bit)

lemma bit_single: "n < 64 \<Longrightarrow> bit (2 ^ n :: u64) m \<longleftrightarrow> m = n"
  by (auto simp: bit_simps)

lemma upt_five: "[0..<5] = [0, 1, 2, 3, 4 :: nat]"
  by code_simp

lemma bloom_ok_slot:
  "bloom_ok b \<Longrightarrow> a \<le> 1 \<Longrightarrow> i \<le> unat (bmask b) \<Longrightarrow> a < length (slots b) \<and> i div 64 < length (slots b ! a)"
  by (auto simp: bloom_ok_def list_all_length intro: le_less_trans [OF div_le_mono])

lemma slot_bit_Got:
  "bloom_ok b \<Longrightarrow> a \<le> 1 \<Longrightarrow> i \<le> unat (bmask b) \<Longrightarrow> slot_bit b a i = Got (in_slot b a i)"
  using bloom_ok_slot [of b a i] by (simp add: slot_bit_def in_slot_def and_single_bit idx_def)

lemma all_res_Got: "(\<And>x. x \<in> set xs \<Longrightarrow> f x = Got (g x)) \<Longrightarrow> all_res f xs = Got (\<forall>x \<in> set xs. g x)"
  by (induction xs) auto

lemma bloom_check_loop: "bloom_check fx b k = all_res (check_both fx b k) [0..<num_hashes b]"
  by (simp add: bloom_check_def upt_five)

lemma bloom_set_loop: "bloom_set fx b k = fold_res (set_probe fx k (active b)) [0..<num_hashes b] b"
  by (simp add: bloom_set_def upt_five)

lemma bloom_check_Got:
  assumes "bloom_ok b"
  shows "bloom_check fx b k = Got (\<forall>i \<in> probes fx b k. in_slot b 0 i \<or> in_slot b 1 i)"
proof -
  obtain h1 h2 where h: "double_hash fx k = (h1, h2)" by (cases "double_hash fx k")
  have a: "active b = 0 \<or> active b = 1" using assms by (auto simp: bloom_ok_def)
  have "check_both fx b k i =
      Got (in_slot b 0 (nth_hash h1 h2 (word_of_nat i) (bmask b)) \<or>
           in_slot b 1 (nth_hash h1 h2 (word_of_nat i) (bmask b)))" for i
    using a by (auto simp: check_both_def h Let_def slot_bit_Got [OF assms] nth_hash_le)
  then show ?thesis by (auto simp: bloom_check_loop all_res_Got probes_def h)
qed

section \<open>Setting bits\<close>

text \<open>\<open>b'\<close> is \<open>b\<close> with the bits \<open>S\<close> of slot \<open>a\<close> set.\<close>

definition sets_bits :: "bloom \<Rightarrow> nat \<Rightarrow> nat set \<Rightarrow> bloom \<Rightarrow> bool" where
  "sets_bits b a S b' \<longleftrightarrow> bloom_ok b' \<and> active b' = active b \<and> bmask b' = bmask b \<and>
    num_hashes b' = num_hashes b \<and>
    (\<forall>c j. c \<le> 1 \<longrightarrow> j \<le> unat (bmask b) \<longrightarrow> in_slot b' c j = (in_slot b c j \<or> c = a \<and> j \<in> S))"

lemma sets_bits_trans: "sets_bits b a S b1 \<Longrightarrow> sets_bits b1 a T b2 \<Longrightarrow> sets_bits b a (S \<union> T) b2"
  unfolding sets_bits_def by (elim conjE) (simp, blast)

lemma sets_bits_probes: "sets_bits b a S b' \<Longrightarrow> probes fx b' k = probes fx b k"
  by (simp add: sets_bits_def probes_def)

lemma set_slot_bit_Got:
  assumes "bloom_ok b" "a \<le> 1" "i \<le> unat (bmask b)"
  shows "\<exists>b'. set_slot_bit b a i = Got b' \<and> sets_bits b a {i} b'"
proof -
  note ix = bloom_ok_slot [OF assms]
  define b' where "b' = b\<lparr>slots := (slots b)[a := (slots b ! a)[i div 64 :=
    slots b ! a ! (i div 64) OR 2 ^ (i mod 64)]]\<rparr>"
  have "set_slot_bit b a i = Got b'" using ix by (simp add: set_slot_bit_def idx_def b'_def)
  moreover have "bloom_ok b'"
    using assms ix by (auto simp: bloom_ok_def b'_def list_all_length nth_list_update)
  moreover have "in_slot b' c j \<longleftrightarrow> in_slot b c j \<or> c = a \<and> j = i"
    if "c \<le> 1" "j \<le> unat (bmask b)" for c j
  proof (cases "c = a \<and> j div 64 = i div 64")
    case True
    then have "j = i \<longleftrightarrow> j mod 64 = i mod 64" by (metis div_mult_mod_eq)
    then show ?thesis using True ix by (simp add: in_slot_def b'_def bit_or_iff bit_single)
  next
    case False
    then show ?thesis using ix bloom_ok_slot [OF assms(1) that]
      by (auto simp: in_slot_def b'_def nth_list_update)
  qed
  ultimately show ?thesis by (auto simp: sets_bits_def b'_def)
qed

lemma fold_probes:
  assumes "bloom_ok b" "a \<le> 1" "double_hash fx k = (h1, h2)"
  shows "\<exists>b'. fold_res (set_probe fx k a) is b = Got b' \<and>
    sets_bits b a ((\<lambda>i. nth_hash h1 h2 (word_of_nat i) (bmask b)) ` set is) b'"
  using assms(1)
proof (induction "is" arbitrary: b)
  case (Cons i "is")
  obtain b1 where b1: "set_probe fx k a b i = Got b1"
    "sets_bits b a {nth_hash h1 h2 (word_of_nat i) (bmask b)} b1"
    using set_slot_bit_Got [OF Cons.prems assms(2) nth_hash_le [of h1 h2 "word_of_nat i"]]
    by (auto simp: set_probe_def assms(3))
  then have m: "bloom_ok b1" "bmask b1 = bmask b" by (auto simp: sets_bits_def)
  show ?case
    using Cons.IH [OF m(1)] b1(1) sets_bits_trans [OF b1(2)] by (auto simp: m(2))
qed (simp add: sets_bits_def)

lemma bloom_set_Got:
  assumes "bloom_ok b"
  shows "\<exists>b'. bloom_set fx b k = Got b' \<and> sets_bits b (active b) (probes fx b k) b'"
proof -
  obtain h1 h2 where h: "double_hash fx k = (h1, h2)" by (cases "double_hash fx k")
  have a: "active b \<le> 1" using assms by (simp add: bloom_ok_def)
  show ?thesis
    using fold_probes [OF assms a h, of "[0..<num_hashes b]"]
    by (simp add: bloom_set_loop probes_def h lessThan_atLeast0)
qed

lemma bloom_setD: "bloom_ok b \<Longrightarrow> bloom_set fx b k = Got b' \<Longrightarrow> sets_bits b (active b) (probes fx b k) b'"
  using bloom_set_Got [of b fx k] by auto

lemma sets_bits_check:
  assumes "bloom_ok s" "sets_bits s (active s) (probes fx s k) t"
  shows "bloom_check fx t k = Got True" "bloom_check fx s j = Got True \<Longrightarrow> bloom_check fx t j = Got True"
proof -
  have ok: "bloom_ok t" using assms by (simp add: sets_bits_def)
  have a: "active s = 0 \<or> active s = 1" using assms by (auto simp: bloom_ok_def)
  note check = bloom_check_Got [OF ok] bloom_check_Got [OF assms(1)] sets_bits_probes [OF assms(2)]
  have bits: "in_slot t c i \<longleftrightarrow> in_slot s c i \<or> c = active s \<and> i \<in> probes fx s k"
    if "c = 0 \<or> c = 1" "i \<in> probes fx s l" for c i l
    using assms(2) that probes_le [OF that(2)] by (auto simp: sets_bits_def)
  show "bloom_check fx t k = Got True" using a bits by (auto simp: check)
  show "bloom_check fx t j = Got True" if "bloom_check fx s j = Got True"
    using that bits [of _ _ j] by (auto simp: check)
qed

interpretation bloom: approx_set bloom_ok "bloom_check fx" "bloom_set fx" for fx :: "'k \<Rightarrow> u64"
proof
  fix s :: bloom and k j :: 'k and s' assume ok: "bloom_ok s"
  show "\<exists>b. bloom_check fx s k = Got b" by (simp add: bloom_check_Got ok)
  show "\<exists>s'. bloom_set fx s k = Got s' \<and> bloom_ok s'"
    using bloom_set_Got [OF ok, of fx k] by (auto simp: sets_bits_def)
  assume "bloom_set fx s k = Got s'"
  note sets = bloom_setD [OF ok this]
  show "bloom_check fx s' k = Got True" by (rule sets_bits_check(1) [OF ok sets])
  show "bloom_check fx s' j = Got True" if "bloom_check fx s j = Got True"
    by (rule sets_bits_check(2) [OF ok sets that])
qed

section \<open>Construction and rotation\<close>

lemma next_power_of_two_power: "\<exists>k. next_power_of_two m = 2 ^ k"
proof (induction m rule: next_power_of_two.induct)
  case (1 m)
  then show ?case by (subst next_power_of_two.simps) (metis power_0 power_Suc)
qed

lemma bloom_ok_new:
  assumes "next_power_of_two m < 2 ^ 64"
  shows "bloom_ok (new_bloom m hashes)"
proof -
  obtain k where k: "next_power_of_two m = 2 ^ k" using next_power_of_two_power by blast
  then have pos: "0 < next_power_of_two m" by simp
  have n: "unat (word_of_nat (next_power_of_two m) :: u64) = next_power_of_two m"
    using assms by (simp add: unat_of_nat)
  then have "unat (word_of_nat (next_power_of_two m) - 1 :: u64) = next_power_of_two m - 1"
    using pos by (subst unat_sub) (auto simp: word_le_nat_alt)
  then show ?thesis using pos by (auto simp: bloom_ok_def new_bloom_def Let_def)
qed

text \<open>Rotating keeps the bits of the slot that was active and clears the other.\<close>

definition rotated :: "bloom \<Rightarrow> bloom \<Rightarrow> bool" where
  "rotated b b' \<longleftrightarrow> bloom_ok b' \<and> active b' = 1 - active b \<and> bmask b' = bmask b \<and>
    num_hashes b' = num_hashes b \<and>
    (\<forall>j. in_slot b' (active b) j = in_slot b (active b) j) \<and>
    (\<forall>j. j \<le> unat (bmask b) \<longrightarrow> \<not> in_slot b' (1 - active b) j)"

lemma bloom_rotate_Got:
  assumes "bloom_ok b"
  shows "\<exists>b'. bloom_rotate b = Got b' \<and> rotated b b'"
proof -
  have a: "active b = 0 \<or> active b = 1" and l: "length (slots b) = 2"
    using assms by (auto simp: bloom_ok_def)
  define b' where "b' = b\<lparr>slots := (slots b)[1 - active b := replicate (length (slots b ! (1 - active b))) 0],
    active := 1 - active b\<rparr>"
  have "bloom_rotate b = Got b'"
    using a l by (auto simp: bloom_rotate_def clear_slot_def idx_def b'_def Let_def)
  moreover have "bloom_ok b'"
    using assms a l by (auto simp: bloom_ok_def b'_def list_all_length nth_list_update)
  moreover have "\<not> in_slot b' (1 - active b) j" if "j \<le> unat (bmask b)" for j
    using bloom_ok_slot [OF assms, of "1 - active b" j] that a l by (auto simp: in_slot_def b'_def)
  ultimately show ?thesis using a l by (auto simp: rotated_def in_slot_def b'_def)
qed

lemma bloom_rotateD: "bloom_ok b \<Longrightarrow> bloom_rotate b = Got b' \<Longrightarrow> rotated b b'"
  using bloom_rotate_Got [of b] by auto

lemma sets_keep:
  assumes "bloom_ok b" "fold_res (bloom_set fx) ks b = Got b'"
  shows "\<exists>S. sets_bits b (active b) S b'"
  using assms
proof (induction ks arbitrary: b)
  case (Cons k ks)
  obtain b1 where b1: "bloom_set fx b k = Got b1" "sets_bits b (active b) (probes fx b k) b1"
    using bloom_set_Got [OF Cons.prems(1)] by metis
  then have "bloom_ok b1" "active b1 = active b" by (auto simp: sets_bits_def)
  then show ?case using Cons.IH [of b1] Cons.prems(2) b1 sets_bits_trans by fastforce
qed (auto simp: sets_bits_def)

section \<open>Properties\<close>

text \<open>
  The filter forgets nothing too early: a key that was set is still found after any further
  insertions and one rotation, whatever the hash function; two rotations in a row forget
  every key.
\<close>

lemma bloom_two_generations:
  assumes ok: "bloom_ok b" and nh: "0 < num_hashes b"
    and set: "bloom_set fx b k = Got b1" "fold_res (bloom_set fx) ks b1 = Got b2"
    and rot: "bloom_rotate b2 = Got b3" "fold_res (bloom_set fx) js b3 = Got b4"
    and rot2: "bloom_rotate b3 = Got b5"
  shows "bloom_check fx b4 k = Got True \<and> bloom_check fx b5 k = Got False"
proof
  have a: "active b = 0 \<or> active b = 1" using ok by (auto simp: bloom_ok_def)
  note s1 = bloom_setD [OF ok set(1), unfolded sets_bits_def]
  obtain S where s2: "sets_bits b1 (active b1) S b2" using sets_keep [OF _ set(2)] s1 by blast
  note r3 = bloom_rotateD [OF _ rot(1), unfolded rotated_def]
  obtain T where s4: "sets_bits b3 (active b3) T b4" using sets_keep [OF _ rot(2)] r3 s2
    by (auto simp: sets_bits_def)
  note r5 = bloom_rotateD [OF _ rot2, unfolded rotated_def]
  note steps = s1 s2 [unfolded sets_bits_def] s4 [unfolded sets_bits_def] r3 r5
  have same: "bmask b4 = bmask b" "num_hashes b4 = num_hashes b" "bmask b5 = bmask b"
    "num_hashes b5 = num_hashes b" "bloom_ok b4" "bloom_ok b5"
    using steps by simp_all
  have "in_slot b4 (active b) j" if "j \<in> probes fx b k" for j
    using that probes_le [OF that] steps a by auto
  then show "bloom_check fx b4 k = Got True"
    using a by (auto simp: bloom_check_Got [OF same(5)] probes_def same)
  have gone: "\<not> in_slot b5 0 j \<and> \<not> in_slot b5 1 j" if "j \<le> unat (bmask b)" for j
    using that a steps by auto
  obtain j where j: "j \<in> probes fx b5 k"
    using nh by (fastforce simp: probes_def same split: prod.splits)
  then show "bloom_check fx b5 k = Got False"
    using gone probes_le [OF j] by (auto simp: bloom_check_Got [OF same(6)] same)
qed

definition demo_bloom :: bloom where
  "demo_bloom = new_bloom 100 2"

lemma bloom_two_generations_witness:
  "\<exists>b1 b3 b4 b5. bloom_set (id :: u64 \<Rightarrow> u64) demo_bloom 7 = Got b1 \<and> bloom_rotate b1 = Got b3 \<and>
    bloom_set id b3 9 = Got b4 \<and> bloom_rotate b3 = Got b5 \<and>
    bloom_check id b4 7 = Got True \<and> bloom_check id b5 7 = Got False"
proof -
  have ok: "bloom_ok demo_bloom" "0 < num_hashes demo_bloom"
    unfolding demo_bloom_def by (code_simp, code_simp)
  obtain b1 where b1: "bloom_set (id :: u64 \<Rightarrow> u64) demo_bloom 7 = Got b1" "bloom_ok b1"
    using bloom_set_Got [OF ok(1)] by (metis sets_bits_def)
  obtain b3 where b3: "bloom_rotate b1 = Got b3" "bloom_ok b3"
    using bloom_rotate_Got [OF b1(2)] by (metis rotated_def)
  obtain b4 where b4: "bloom_set (id :: u64 \<Rightarrow> u64) b3 9 = Got b4" using bloom_set_Got [OF b3(2)] by metis
  obtain b5 where b5: "bloom_rotate b3 = Got b5" using bloom_rotate_Got [OF b3(2)] by metis
  show ?thesis
    using bloom_two_generations [OF ok b1(1) _ b3(1) _ b5, of "[]" "[9]" b4] b1 b3 b4 b5 by auto
qed

end
