(* ===== verification/Block_Index.thy ===== *)
theory Block_Index
  imports Domain_Types Suffix_Trie Bloom
begin

unbundle bit_operations_syntax

text \<open>
  The compiled filter index (\<open>infrastructure/src/dns/block_filter/block_index.rs\<close>): which rules
  match a name for a group of clients, the verdict on it, and its full explanation. Maps keyed
  by group are association lists. The matchers of third-party crates are values of the index:
  a compiled regular expression is the function from names to its result (\<open>None\<close> for an error at
  match time), a set of substring patterns the predicate it decides.
\<close>

section \<open>Data\<close>

type_synonym 'v group_map = "(i64 \<times> 'v) list"

definition MANUAL_SOURCE_BIT :: u64 where "MANUAL_SOURCE_BIT = push_bit 63 1"
definition MANUAL_SOURCE_BIT_INDEX :: nat where "MANUAL_SOURCE_BIT_INDEX = 63"
definition UNNAMED_ALLOW_BIT :: u64 where "UNNAMED_ALLOW_BIT = push_bit 63 1"

datatype verdict = ManualAllow | ManualDeny block_source | Block block_source | NoMatch

definition classify_deny :: "block_source \<Rightarrow> u64 \<Rightarrow> verdict" where
  "classify_deny source matched_bits =
    (if matched_bits AND MANUAL_SOURCE_BIT \<noteq> 0 then ManualDeny source else Block source)"

record source_meta =
  sm_group_id :: i64
  sm_bit :: u8

record source_descriptor =
  sd_id :: i64
  sd_name :: string

record regex_rule =
  rr_id :: i64
  rr_name :: string
  rr_match :: "string \<Rightarrow> bool option"

record allowlist_index =
  global_exact :: "string set"
  global_wildcard :: suffix_trie
  group_exact :: "(string \<times> u64) list group_map"
  group_wildcard :: "suffix_trie group_map"
  al_bit_to_source :: "source_descriptor option list"

record block_index =
  group_masks :: "u64 group_map"
  total_blocked_domains :: nat
  exact :: "(string \<times> u64) list"
  bi_bloom :: bloom
  wildcard :: suffix_trie
  patterns :: "((string \<Rightarrow> bool) \<times> u64) list"
  allowlists :: allowlist_index
  managed_denies :: "string set group_map"
  managed_deny_wildcards :: "suffix_trie group_map"
  allow_regex_patterns :: "regex_rule list group_map"
  block_regex_patterns :: "regex_rule list group_map"
  groups_with_advanced_rules :: "i64 set"
  bit_to_source :: "source_descriptor option list"

datatype match_type = Exact_match | Wildcard_match | Pattern_match | Regex_match

datatype block_match_kind = Kind_blocklist | Kind_manual | Kind_managed_domain | Kind_regex

datatype allow_match_kind = Allow_allowlist | Allow_regex

record block_match =
  bm_kind :: block_match_kind
  bm_source_id :: "i64 option"
  bm_name :: string
  bm_type :: match_type

record allow_match =
  am_kind :: allow_match_kind
  am_source_id :: "i64 option"
  am_name :: string
  am_type :: match_type

record filter_explanation =
  fe_domain :: string
  fe_group_id :: i64
  fe_blocked :: bool
  fe_allow_reasons :: "allow_match list"
  fe_block_matches :: "block_match list"

section \<open>Evaluation\<close>

text \<open>\<open>regex.is_match(domain).unwrap_or(false)\<close> for some rule of the group.\<close>

definition regex_hit :: "string \<Rightarrow> regex_rule \<Rightarrow> bool" where
  "regex_hit d r \<longleftrightarrow> rr_match r d = Some True"

definition group_any :: "'v group_map \<Rightarrow> i64 \<Rightarrow> ('v \<Rightarrow> bool) \<Rightarrow> bool" where
  "group_any m g f = (case map_of m g of Some v \<Rightarrow> f v | None \<Rightarrow> False)"

definition al_is_allowed :: "allowlist_index \<Rightarrow> string \<Rightarrow> i64 \<Rightarrow> bool" where
  "al_is_allowed al d g \<longleftrightarrow>
    (if group_any (group_exact al) g (\<lambda>es. map_of es d \<noteq> None) then True
     else if group_any (group_wildcard al) g (\<lambda>t. trie_lookup t d \<noteq> 0) then True
     else if d \<in> global_exact al then True
     else if trie_lookup (global_wildcard al) d \<noteq> 0 then True
     else False)"

definition empty_allowlists :: allowlist_index where
  "empty_allowlists =
    \<lparr>global_exact = {}, global_wildcard = empty_trie, group_exact = [], group_wildcard = [],
     al_bit_to_source = []\<rparr>"

text \<open>\<open>BlockIndex::empty\<close>; the sizes of its Bloom filter are arguments.\<close>

definition empty_index :: "nat \<Rightarrow> nat \<Rightarrow> block_index" where
  "empty_index bits hashes =
    \<lparr>group_masks = [], total_blocked_domains = 0, exact = [], bi_bloom = new_bloom bits hashes,
     wildcard = empty_trie, patterns = [], allowlists = empty_allowlists, managed_denies = [],
     managed_deny_wildcards = [], allow_regex_patterns = [], block_regex_patterns = [],
     groups_with_advanced_rules = {}, bit_to_source = []\<rparr>"

definition group_mask :: "block_index \<Rightarrow> i64 \<Rightarrow> u64" where
  "group_mask ix g = (case map_of (group_masks ix) g of Some m \<Rightarrow> m | None \<Rightarrow> MANUAL_SOURCE_BIT)"

definition has_suffix_or_substring_rules :: "block_index \<Rightarrow> bool" where
  "has_suffix_or_substring_rules ix \<longleftrightarrow> \<not> trie_is_empty (wildcard ix) \<or> patterns ix \<noteq> []"

fun first_pattern :: "((string \<Rightarrow> bool) \<times> u64) list \<Rightarrow> string \<Rightarrow> u64 \<Rightarrow> u64 option" where
  "first_pattern [] d msk = None"
| "first_pattern ((ac, source_mask) # ps) d msk =
    (let matched = source_mask AND msk in
     if matched \<noteq> 0 \<and> ac d then Some matched else first_pattern ps d msk)"

definition check_wildcard_and_patterns :: "block_index \<Rightarrow> string \<Rightarrow> u64 \<Rightarrow> u64 option" where
  "check_wildcard_and_patterns ix d msk =
    (let wildcard_bits = trie_lookup (wildcard ix) d AND msk in
     if wildcard_bits \<noteq> 0 then Some wildcard_bits else first_pattern (patterns ix) d msk)"

text \<open>The hand-written rules of the group, in their order.\<close>

definition advanced_verdict :: "block_index \<Rightarrow> string \<Rightarrow> i64 \<Rightarrow> verdict option" where
  "advanced_verdict ix d g =
    (if group_any (allow_regex_patterns ix) g (list_ex (regex_hit d)) then Some ManualAllow
     else if group_any (managed_denies ix) g (\<lambda>s. d \<in> s) then Some (ManualDeny ManagedDomain)
     else if group_any (managed_deny_wildcards ix) g (\<lambda>t. trie_lookup t d \<noteq> 0)
       then Some (ManualDeny ManagedDomain)
     else if group_any (block_regex_patterns ix) g (list_ex (regex_hit d))
       then Some (ManualDeny RegexFilter)
     else None)"

text \<open>The downloaded lists and the manual blocklist.\<close>

definition list_verdict :: "(string \<Rightarrow> u64) \<Rightarrow> block_index \<Rightarrow> string \<Rightarrow> u64 \<Rightarrow> verdict res" where
  "list_verdict fx ix d msk =
    and_then (bloom_check fx (bi_bloom ix) d) (\<lambda>maybe.
    let matched = (if maybe then (case map_of (exact ix) d of Some bits \<Rightarrow> bits AND msk | None \<Rightarrow> 0) else 0) in
    if matched \<noteq> 0 then Got (classify_deny Blocklist matched)
    else if has_suffix_or_substring_rules ix then
      (case check_wildcard_and_patterns ix d msk of
         Some bits \<Rightarrow> Got (classify_deny Blocklist bits)
       | None \<Rightarrow> Got NoMatch)
    else Got NoMatch)"

definition evaluate :: "(string \<Rightarrow> u64) \<Rightarrow> block_index \<Rightarrow> string \<Rightarrow> i64 \<Rightarrow> verdict res" where
  "evaluate fx ix d g =
    (if al_is_allowed (allowlists ix) d g then Got ManualAllow
     else
       let msk = group_mask ix g in
       case (if g \<in> groups_with_advanced_rules ix then advanced_verdict ix d g else None) of
         Some v \<Rightarrow> Got v
       | None \<Rightarrow> list_verdict fx ix d msk)"

section \<open>Explanation\<close>

definition trailing_zeros :: "u64 \<Rightarrow> nat" where
  "trailing_zeros w = length (takeWhile (\<lambda>i. \<not> bit w i) [0..<64])"

text \<open>The set bits of a word from the lowest: \<open>remaining &= remaining - 1\<close> drops the lowest.\<close>

lemma trailing_zeros_bit:
  assumes "w \<noteq> 0"
  shows "trailing_zeros w < 64" "bit w (trailing_zeros w)" "i < trailing_zeros w \<Longrightarrow> \<not> bit w i"
proof -
  let ?p = "\<lambda>i. \<not> bit w i"
  obtain n where n: "bit w n" using assms word_nonzero_bit by blast
  then have "n < 64" using bit_imp_le_length [of w n] by simp
  then have "\<exists>i \<in> set [0..<64]. \<not> ?p i" using n by auto
  then show lt: "trailing_zeros w < 64"
    unfolding trailing_zeros_def
    by (metis length_takeWhile_le length_upt diff_zero le_neq_implies_less takeWhile_eq_all_conv
        takeWhile_eq_take take_all_iff order_refl)
  then show "bit w (trailing_zeros w)"
    unfolding trailing_zeros_def using nth_length_takeWhile [of ?p "[0..<64]"] by simp
  show "\<not> bit w i" if "i < trailing_zeros w"
    using that lt takeWhile_nth [of i ?p "[0..<64]"] nth_mem [of i "takeWhile ?p [0..<64]"]
      set_takeWhileD [of i ?p "[0..<64]"]
    unfolding trailing_zeros_def by force
qed

lemma clear_lowest_bit:
  assumes "w \<noteq> 0"
  shows "bit (w AND (w - 1)) n \<longleftrightarrow> bit w n \<and> n \<noteq> trailing_zeros w"
proof -
  define k where "k = trailing_zeros w"
  define hi where "hi = w AND NOT (2 ^ k)"
  note k = trailing_zeros_bit [OF assms, folded k_def]
  have b2: "bit (2 ^ k :: u64) m \<longleftrightarrow> m = k" for m by (rule bit_single [OF k(1)])
  have bm: "bit (mask k :: u64) m \<longleftrightarrow> m < k" for m
    using k(1) by (auto simp: bit_mask_iff possible_bit_word)
  have bhi: "bit hi m \<longleftrightarrow> bit w m \<and> m \<noteq> k" for m
    using bit_imp_possible_bit [of w m] by (auto simp: hi_def bit_and_iff bit_not_iff b2)
  have "w = hi OR 2 ^ k" by (rule bit_word_eqI) (use k(2) in \<open>auto simp: bhi bit_or_iff b2\<close>)
  moreover have "hi AND 2 ^ k = 0" by (rule bit_word_eqI) (simp add: bhi bit_and_iff b2)
  ultimately have w: "w = hi + 2 ^ k" by (simp add: disjunctive_add_eq_or)
  have "hi AND mask k = 0" by (rule bit_word_eqI) (use k(3) in \<open>auto simp: bhi bit_and_iff bm\<close>)
  then have "hi OR mask k = hi + mask k" by (simp add: disjunctive_add_eq_or)
  then have "w - 1 = hi OR mask k" by (simp add: w mask_eq_exp_minus_1)
  then show ?thesis using k(3)
    by (simp only: bit_and_iff bit_or_iff bhi bm flip: k_def) blast
qed

function bit_loop :: "(nat \<Rightarrow> 'a) \<Rightarrow> u64 \<Rightarrow> 'a list" where
  "bit_loop f remaining =
    (if remaining = 0 then []
     else f (trailing_zeros remaining) # bit_loop f (remaining AND (remaining - 1)))"
  by pat_completeness auto
termination
proof (relation "measure (\<lambda>(f, w). card {n. bit w n})")
  show "((f, w AND (w - 1)), f, w) \<in> measure (\<lambda>(f, w). card {n. bit w n})" if "w \<noteq> 0"
    for f :: "nat \<Rightarrow> 'a" and w :: u64
  proof -
    have "{n. bit (w AND (w - 1)) n} = {n. bit w n} - {trailing_zeros w}"
      using clear_lowest_bit [OF that] by auto
    moreover have "finite {n. bit w n}"
      using bit_imp_le_length [of w] by (auto intro: finite_subset [of _ "{..<64}"])
    ultimately show ?thesis
      using trailing_zeros_bit(2) [OF that] by (simp add: card_Diff1_less del: card_Diff_insert)
  qed
qed simp

declare bit_loop.simps [simp del]

definition decimal :: "nat \<Rightarrow> string" where
  "decimal n = (if n < 10 then [char_of (48 + n)] else [char_of (48 + n div 10), char_of (48 + n mod 10)])"

definition block_match_of :: "source_descriptor option list \<Rightarrow> match_type \<Rightarrow> nat \<Rightarrow> block_match" where
  "block_match_of sources mt i =
    (if i = MANUAL_SOURCE_BIT_INDEX then
       \<lparr>bm_kind = Kind_manual, bm_source_id = None, bm_name = ''Manual blocklist'', bm_type = mt\<rparr>
     else case byte_get sources i of
       Some (Some desc) \<Rightarrow>
         \<lparr>bm_kind = Kind_blocklist, bm_source_id = Some (sd_id desc), bm_name = sd_name desc, bm_type = mt\<rparr>
     | _ \<Rightarrow>
         \<lparr>bm_kind = Kind_blocklist, bm_source_id = None, bm_name = ''source bit '' @ decimal i, bm_type = mt\<rparr>)"

definition collect_bit_matches :: "block_index \<Rightarrow> u64 \<Rightarrow> match_type \<Rightarrow> block_match list" where
  "collect_bit_matches ix bits mt = bit_loop (block_match_of (bit_to_source ix) mt) bits"

definition allow_match_of :: "source_descriptor option list \<Rightarrow> match_type \<Rightarrow> nat \<Rightarrow> allow_match" where
  "allow_match_of sources mt i =
    (let source = Option.bind (byte_get sources i) id in
     \<lparr>am_kind = Allow_allowlist, am_source_id = map_option sd_id source,
      am_name = (case source of Some s \<Rightarrow> sd_name s | None \<Rightarrow> ''Group allowlist''), am_type = mt\<rparr>)"

definition collect_allow_bits :: "block_index \<Rightarrow> u64 \<Rightarrow> match_type \<Rightarrow> allow_match list" where
  "collect_allow_bits ix bits mt = bit_loop (allow_match_of (al_bit_to_source (allowlists ix)) mt) bits"

definition regex_matches :: "regex_rule list group_map \<Rightarrow> i64 \<Rightarrow> string \<Rightarrow> regex_rule list" where
  "regex_matches m g d = (case map_of m g of Some rules \<Rightarrow> filter (regex_hit d) rules | None \<Rightarrow> [])"

definition global_allow :: "match_type \<Rightarrow> allow_match" where
  "global_allow mt =
    \<lparr>am_kind = Allow_allowlist, am_source_id = None, am_name = ''Global allowlist'', am_type = mt\<rparr>"

definition collect_allow_matches :: "block_index \<Rightarrow> string \<Rightarrow> i64 \<Rightarrow> allow_match list" where
  "collect_allow_matches ix d g =
    (let al = allowlists ix in
     (case map_of (group_exact al) g of
        Some es \<Rightarrow> (case map_of es d of Some bits \<Rightarrow> collect_allow_bits ix bits Exact_match | None \<Rightarrow> [])
      | None \<Rightarrow> [])
     @ (case map_of (group_wildcard al) g of
          Some t \<Rightarrow> collect_allow_bits ix (trie_lookup t d) Wildcard_match | None \<Rightarrow> [])
     @ (if d \<in> global_exact al then [global_allow Exact_match] else [])
     @ (if trie_lookup (global_wildcard al) d \<noteq> 0 then [global_allow Wildcard_match] else [])
     @ map (\<lambda>r. \<lparr>am_kind = Allow_regex, am_source_id = Some (rr_id r), am_name = rr_name r,
                am_type = Regex_match\<rparr>) (regex_matches (allow_regex_patterns ix) g d))"

definition managed_match :: "match_type \<Rightarrow> block_match" where
  "managed_match mt =
    \<lparr>bm_kind = Kind_managed_domain, bm_source_id = None, bm_name = ''Managed domain'', bm_type = mt\<rparr>"

definition pattern_matches :: "block_index \<Rightarrow> string \<Rightarrow> u64 \<Rightarrow> block_match list" where
  "pattern_matches ix d msk =
    concat (map (\<lambda>(ac, source_mask).
      let bits = source_mask AND msk in
      if bits \<noteq> 0 \<and> ac d then collect_bit_matches ix bits Pattern_match else []) (patterns ix))"

definition collect_block_matches :: "block_index \<Rightarrow> string \<Rightarrow> i64 \<Rightarrow> block_match list" where
  "collect_block_matches ix d g =
    (let msk = group_mask ix g in
     (if group_any (managed_denies ix) g (\<lambda>s. d \<in> s) then [managed_match Exact_match] else [])
     @ (if group_any (managed_deny_wildcards ix) g (\<lambda>t. trie_lookup t d \<noteq> 0)
        then [managed_match Wildcard_match] else [])
     @ (case map_of (exact ix) d of
          Some bits \<Rightarrow> collect_bit_matches ix (bits AND msk) Exact_match | None \<Rightarrow> [])
     @ collect_bit_matches ix (trie_lookup (wildcard ix) d AND msk) Wildcard_match
     @ pattern_matches ix d msk
     @ map (\<lambda>r. \<lparr>bm_kind = Kind_regex, bm_source_id = Some (rr_id r), bm_name = rr_name r,
                bm_type = Regex_match\<rparr>) (regex_matches (block_regex_patterns ix) g d))"

definition explain :: "block_index \<Rightarrow> string \<Rightarrow> i64 \<Rightarrow> filter_explanation" where
  "explain ix d g =
    (let allow_reasons = collect_allow_matches ix d g;
         block_matches = collect_block_matches ix d g
     in \<lparr>fe_domain = d, fe_group_id = g,
         fe_blocked = (allow_reasons = [] \<and> block_matches \<noteq> []),
         fe_allow_reasons = allow_reasons, fe_block_matches = block_matches\<rparr>)"

section \<open>Lemmas\<close>

lemma finite_word_bits: "finite {n. bit (w :: u64) n}"
  using bit_imp_le_length [of w] by (auto intro: finite_subset [of _ "{..<64}"])

lemma bit_loop_eq: "bit_loop f w = map f (sorted_list_of_set {n. bit w n})"
proof (induction f w rule: bit_loop.induct)
  case (1 f w)
  show ?case
  proof (cases "w = 0")
    case False
    note k = trailing_zeros_bit [OF False]
    have ne: "{n. bit w n} \<noteq> {}" using k(2) by blast
    have mn: "Min {n. bit w n} = trailing_zeros w"
      using k by (intro Min_eqI finite_word_bits) (auto simp: not_less [symmetric])
    have rest: "{n. bit (w AND (w - 1)) n} = {n. bit w n} - {trailing_zeros w}"
      using clear_lowest_bit [OF False] by auto
    show ?thesis
      using 1 [OF False] False sorted_list_of_set_nonempty [OF finite_word_bits ne]
      by (simp add: bit_loop.simps [of f w] mn rest)
  qed (simp add: bit_loop.simps)
qed

lemma bit_loop_Nil [simp]: "bit_loop f w = [] \<longleftrightarrow> w = 0"
  by (simp add: bit_loop.simps)

lemma trie_empty_lookup: "trie_is_empty t \<Longrightarrow> trie_lookup t d = 0"
  by (cases "rlabels d") (simp_all add: trie_is_empty_def trie_lookup_def)

lemma classify_deny_cases: "classify_deny s bits \<in> {ManualDeny s, Block s}"
  by (simp add: classify_deny_def)

lemma first_pattern_None:
  "first_pattern ps d msk = None \<longleftrightarrow> (\<forall>(ac, m) \<in> set ps. m AND msk = 0 \<or> \<not> ac d)"
  by (induction ps d msk rule: first_pattern.induct) (auto simp: Let_def)

lemma check_None:
  "check_wildcard_and_patterns ix d msk = None \<longleftrightarrow>
    trie_lookup (wildcard ix) d AND msk = 0 \<and> (\<forall>(ac, m) \<in> set (patterns ix). m AND msk = 0 \<or> \<not> ac d)"
  by (simp add: check_wildcard_and_patterns_def Let_def first_pattern_None)

lemma no_rules_None: "\<not> has_suffix_or_substring_rules ix \<Longrightarrow> check_wildcard_and_patterns ix d msk = None"
  by (simp add: has_suffix_or_substring_rules_def check_None trie_empty_lookup)

text \<open>What the compiler guarantees of an index, and the lookups rely on.\<close>

definition index_ok :: "(string \<Rightarrow> u64) \<Rightarrow> block_index \<Rightarrow> bool" where
  "index_ok fx ix \<longleftrightarrow>
    bloom_ok (bi_bloom ix) \<and>
    (\<forall>d. map_of (exact ix) d \<noteq> None \<longrightarrow> bloom_check fx (bi_bloom ix) d = Got True) \<and>
    fst ` set (managed_denies ix) \<union> fst ` set (managed_deny_wildcards ix)
      \<union> fst ` set (allow_regex_patterns ix) \<union> fst ` set (block_regex_patterns ix)
      \<subseteq> groups_with_advanced_rules ix \<and>
    (\<forall>g es d. map_of (group_exact (allowlists ix)) g = Some es \<longrightarrow> map_of es d \<noteq> Some 0)"

definition exact_bits :: "block_index \<Rightarrow> string \<Rightarrow> u64" where
  "exact_bits ix d = (case map_of (exact ix) d of Some bits \<Rightarrow> bits | None \<Rightarrow> 0)"

text \<open>The Bloom filter and the emptiness test only save work.\<close>

lemma list_verdict_eq:
  assumes "index_ok fx ix"
  shows "list_verdict fx ix d msk = Got
    (if exact_bits ix d AND msk \<noteq> 0 then classify_deny Blocklist (exact_bits ix d AND msk)
     else case check_wildcard_and_patterns ix d msk of
       Some bits \<Rightarrow> classify_deny Blocklist bits | None \<Rightarrow> NoMatch)"
proof -
  obtain b where b: "bloom_check fx (bi_bloom ix) d = Got b" "map_of (exact ix) d \<noteq> None \<Longrightarrow> b"
    using bloom.check_total [of "bi_bloom ix" fx d] assms by (fastforce simp: index_ok_def)
  then have "(if b then case map_of (exact ix) d of Some bits \<Rightarrow> bits AND msk | None \<Rightarrow> 0 else 0) =
      exact_bits ix d AND msk"
    by (auto simp: exact_bits_def split: option.splits)
  then show ?thesis
    using b no_rules_None [of ix d msk] by (auto simp: list_verdict_def Let_def split: option.splits)
qed

lemma group_any_gate: "fst ` set m \<subseteq> G \<Longrightarrow> g \<notin> G \<Longrightarrow> \<not> group_any m g f"
  by (force simp: group_any_def dest: map_of_SomeD split: option.splits)

lemma advanced_verdict_gate:
  assumes "index_ok fx ix" "g \<notin> groups_with_advanced_rules ix"
  shows "advanced_verdict ix d g = None"
  using assms(1) by (simp add: advanced_verdict_def group_any_gate [OF _ assms(2)] index_ok_def)

lemma evaluate_eq:
  assumes "index_ok fx ix"
  shows "evaluate fx ix d g =
    (if al_is_allowed (allowlists ix) d g then Got ManualAllow
     else case advanced_verdict ix d g of
       Some v \<Rightarrow> Got v | None \<Rightarrow> list_verdict fx ix d (group_mask ix g))"
  using advanced_verdict_gate [OF assms, of g d] by (auto simp: evaluate_def Let_def split: option.splits)

lemma regex_matches_Nil: "regex_matches m g d = [] \<longleftrightarrow> \<not> group_any m g (list_ex (regex_hit d))"
  by (auto simp: regex_matches_def group_any_def filter_empty_conv list_ex_iff split: option.splits)

lemma allow_matches_Nil:
  assumes "index_ok fx ix"
  shows "collect_allow_matches ix d g = [] \<longleftrightarrow>
    \<not> al_is_allowed (allowlists ix) d g \<and> \<not> group_any (allow_regex_patterns ix) g (list_ex (regex_hit d))"
  using assms
  by (auto simp: collect_allow_matches_def Let_def collect_allow_bits_def al_is_allowed_def group_any_def
      regex_matches_Nil index_ok_def split: option.splits)

lemma pattern_matches_Nil:
  "pattern_matches ix d msk = [] \<longleftrightarrow> (\<forall>(ac, m) \<in> set (patterns ix). m AND msk = 0 \<or> \<not> ac d)"
  by (auto simp: pattern_matches_def collect_bit_matches_def Let_def split: prod.splits if_splits)

lemma block_matches_Nil:
  "collect_block_matches ix d g = [] \<longleftrightarrow>
    \<not> group_any (managed_denies ix) g (\<lambda>s. d \<in> s) \<and>
    \<not> group_any (managed_deny_wildcards ix) g (\<lambda>t. trie_lookup t d \<noteq> 0) \<and>
    exact_bits ix d AND group_mask ix g = 0 \<and>
    check_wildcard_and_patterns ix d (group_mask ix g) = None \<and>
    \<not> group_any (block_regex_patterns ix) g (list_ex (regex_hit d))"
  by (auto simp: collect_block_matches_def Let_def collect_bit_matches_def exact_bits_def check_None
      pattern_matches_Nil regex_matches_Nil split: option.splits)

section \<open>Properties\<close>

text \<open>
  The explanation shown to the operator agrees with what the filter enforces: on an index in
  the state the compiler leaves it in, it reports the name as blocked exactly when the verdict is
  a deny or a block, and it lists an allow reason exactly when the verdict is a manual allow.
\<close>

lemma explain_agrees_with_evaluate:
  assumes "index_ok fx ix"
  shows "\<exists>v. evaluate fx ix d g = Got v \<and>
    (fe_blocked (explain ix d g) \<longleftrightarrow> (\<exists>s. v = ManualDeny s \<or> v = Block s)) \<and>
    (fe_allow_reasons (explain ix d g) \<noteq> [] \<longleftrightarrow> v = ManualAllow)"
proof -
  have deny: "classify_deny s bits \<noteq> NoMatch" "classify_deny s bits \<noteq> ManualAllow"
    "\<exists>t. classify_deny s bits = ManualDeny t \<or> classify_deny s bits = Block t" for s bits
    by (auto simp: classify_deny_def)
  show ?thesis
    unfolding evaluate_eq [OF assms] list_verdict_eq [OF assms] explain_def Let_def
    by (simp add: allow_matches_Nil [OF assms] block_matches_Nil advanced_verdict_def deny
        split: option.splits)
qed

lemma empty_index_ok: "next_power_of_two m < 2 ^ 64 \<Longrightarrow> index_ok fx (empty_index m h)"
  by (simp add: index_ok_def empty_index_def bloom_ok_new empty_allowlists_def)

lemma explain_agrees_with_evaluate_witness:
  "\<exists>v. evaluate (\<lambda>s. word_of_nat (length s)) ((empty_index 64 2)
      \<lparr>managed_denies := [(1, {''ads.example.com''})], groups_with_advanced_rules := {1}\<rparr>) ''ads.example.com'' 1 = Got v \<and>
    v = ManualDeny ManagedDomain \<and>
    fe_blocked (explain ((empty_index 64 2)
      \<lparr>managed_denies := [(1, {''ads.example.com''})], groups_with_advanced_rules := {1}\<rparr>) ''ads.example.com'' 1)"
proof -
  let ?fx = "\<lambda>s :: string. word_of_nat (length s) :: u64"
  let ?ix = "(empty_index 64 2)\<lparr>managed_denies := [(1, {''ads.example.com''})], groups_with_advanced_rules := {1}\<rparr>"
  have "next_power_of_two 64 < 2 ^ 64" by (simp add: next_power_of_two.simps)
  then have ok: "index_ok ?fx ?ix" using empty_index_ok [of 64 ?fx 2] by (simp add: index_ok_def empty_index_def)
  have v: "evaluate ?fx ?ix ''ads.example.com'' 1 = Got (ManualDeny ManagedDomain)"
    by (simp add: evaluate_def empty_index_def empty_allowlists_def al_is_allowed_def group_any_def
        advanced_verdict_def trie_lookup_empty)
  show ?thesis using explain_agrees_with_evaluate [OF ok, of "''ads.example.com''" 1] v by auto
qed

end
