(* ===== verification/List_Parser.thy ===== *)
theory List_Parser
  imports Text Domain_Types
begin

text \<open>
  The line formats of filter lists (\<open>infrastructure/src/dns/block_filter/compiler.rs\<close>,
  \<open>parse_list_line\<close> and \<open>parse_list_text\<close>), and the two enumerations of the domain crate that
  the compiler stores: the action of a rule and the outcome of a download.
\<close>

datatype parsed_entry =
    Exact string
  | Wildcard string
  | Pattern string
  | DomainAndSubdomains string

definition hosts_addresses :: "string list" where
  "hosts_addresses = [''0.0.0.0'', ''127.0.0.1'', ''::'', ''::1'']"

definition hosts_own_names :: "string list" where
  "hosts_own_names = [''localhost'', ''0.0.0.0'', ''broadcasthost'', ''ip6-localhost'', ''ip6-loopback'']"

text \<open>The adblock form, after its two bars.\<close>

definition parse_adblock :: "string \<Rightarrow> parsed_entry option" where
  "parse_adblock inner =
    (let domain = lower (trim (takeWhile (\<lambda>c. c \<noteq> CHR ''^'') inner)) in
     if domain = [] \<or> CHR ''.'' \<notin> set domain then None
     else if starts_with ''*.'' domain then Some (Wildcard domain)
     else Some (DomainAndSubdomains domain))"

text \<open>Hosts lines and bare names, by their white-space separated parts.\<close>

definition parse_parts :: "string list \<Rightarrow> parsed_entry option" where
  "parse_parts parts =
    (if 2 \<le> length parts \<and> parts ! 0 \<in> set hosts_addresses then
       (if parts ! 1 \<in> set hosts_own_names then None
        else if CHR ''.'' \<notin> set (parts ! 1) then None
        else Some (Exact (lower (parts ! 1))))
     else if length parts = 1 \<and> CHR ''.'' \<in> set (parts ! 0) then Some (Exact (lower (parts ! 0)))
     else None)"

text \<open>
  The length test of the source counts bytes; a line that starts and ends in a slash has more
  than two bytes exactly when it has more than two characters.
\<close>

definition parse_list_line :: "string \<Rightarrow> parsed_entry option" where
  "parse_list_line raw =
    (let line = trim raw in
     if line = [] \<or> starts_with ''#'' line \<or> starts_with ''!'' line then None
     else if starts_with ''@@'' line then None
     else if starts_with ''/'' line \<and> ends_with ''/'' line \<and> 2 < length line
       then Some (Pattern (to_lowercase (butlast (tl line))))
     else if starts_with ''||'' line then parse_adblock (drop 2 line)
     else if starts_with ''*.'' line then Some (Wildcard (lower line))
     else parse_parts (split_whitespace line))"

definition parse_list_text :: "string \<Rightarrow> parsed_entry list" where
  "parse_list_text text = List.map_filter parse_list_line (lines text)"

section \<open>Actions and download outcomes\<close>

datatype domain_action = Allow | Deny

fun action_to_str :: "domain_action \<Rightarrow> string" where
  "action_to_str Allow = ''allow''"
| "action_to_str Deny = ''deny''"

definition action_from_str :: "string \<Rightarrow> domain_error + domain_action" where
  "action_from_str s =
    (if s = ''allow'' then Inr Allow else if s = ''deny'' then Inr Deny
     else Inl (InvalidInput (''invalid action '' @ [CHR 0x27] @ s @ [CHR 0x27] @ '': expected '' @
       [CHR 0x27] @ ''allow'' @ [CHR 0x27] @ '' or '' @ [CHR 0x27] @ ''deny'' @ [CHR 0x27])))"

text \<open>\<open>parse_action\<close>: rules with another action are skipped.\<close>

definition parse_action :: "string \<Rightarrow> domain_action option" where
  "parse_action s = (case action_from_str s of Inr a \<Rightarrow> Some a | Inl _ \<Rightarrow> None)"

datatype list_sync_status = Updated | Unchanged | FailedKeptCopy | FailedNoCopy

fun status_code :: "list_sync_status \<Rightarrow> i64" where
  "status_code Updated = 1"
| "status_code Unchanged = 2"
| "status_code FailedKeptCopy = 3"
| "status_code FailedNoCopy = 4"

definition status_from_code :: "i64 \<Rightarrow> list_sync_status option" where
  "status_from_code c =
    (if c = 1 then Some Updated else if c = 2 then Some Unchanged
     else if c = 3 then Some FailedKeptCopy else if c = 4 then Some FailedNoCopy else None)"

definition downloaded :: "list_sync_status \<Rightarrow> bool" where
  "downloaded s \<longleftrightarrow> s = Updated \<or> s = Unchanged"

interpretation action_code: codec action_to_str parse_action
proof
  show "parse_action (action_to_str x) = Some x" for x
    by (cases x) (simp_all add: parse_action_def action_from_str_def)
  show "action_to_str x = k" if "parse_action k = Some x" for k x
    using that by (auto simp: parse_action_def action_from_str_def split: if_splits)
qed

interpretation status_codes: codec status_code status_from_code
proof
  show "status_from_code (status_code x) = Some x" for x
    by (cases x) (simp_all add: status_from_code_def)
  show "status_code x = k" if "status_from_code k = Some x" for k x
    using that by (auto simp: status_from_code_def split: if_splits)
qed

section \<open>Lemmas\<close>

fun entry_text :: "parsed_entry \<Rightarrow> string" where
  "entry_text (Exact d) = d"
| "entry_text (Wildcard d) = d"
| "entry_text (Pattern d) = d"
| "entry_text (DomainAndSubdomains d) = d"

fun is_pattern :: "parsed_entry \<Rightarrow> bool" where
  "is_pattern (Pattern d) = True"
| "is_pattern _ = False"

lemma lower_Nil [simp]: "lower s = [] \<longleftrightarrow> s = []"
  by (simp add: lower_def)

lemma lower_to_lowercase: "lower (to_lowercase s) = to_lowercase s"
proof (rule lower_id)
  fix c assume "c \<in> set (to_lowercase s)"
  then show "\<not> ascii_upper c"
    by (auto simp: to_lowercase_def ascii_upper_def unicode_upper_def Let_def of_char_of take_bit_eq_mod)
qed

lemma dot_in_lower [simp]: "CHR ''.'' \<in> set (lower s) \<longleftrightarrow> CHR ''.'' \<in> set s"
proof -
  have "ascii_lower c = CHR ''.'' \<longleftrightarrow> c = CHR ''.''" for c
    by (rule ascii_lower_char_iff) (simp_all add: ascii_upper_def)
  then have "CHR ''.'' = ascii_lower c \<longleftrightarrow> CHR ''.'' = c" for c by metis
  then show ?thesis by (induction s) (simp_all only: lower_def list.map list.set insert_iff empty_iff)
qed

lemma starts_with_Cons [simp]:
  "starts_with [] s" "starts_with (c # p) (x # s) \<longleftrightarrow> x = c \<and> starts_with p s" "\<not> starts_with (c # p) []"
  by (auto simp: starts_with_def)

lemma starts_with_dot: "starts_with ''*.'' s \<Longrightarrow> CHR ''.'' \<in> set s"
  by (auto simp: starts_with_iff)

definition plain_name :: "string \<Rightarrow> bool" where
  "plain_name d \<longleftrightarrow> d \<noteq> [] \<and> CHR ''.'' \<in> set d \<and> hd d \<notin> set ''#!@/|*'' \<and>
    list_all (\<lambda>c. \<not> is_whitespace c \<and> c \<noteq> CHR ''^'') d"

lemma plain_nameD:
  assumes "plain_name d"
  shows "d \<noteq> []" "CHR ''.'' \<in> set d" "c \<in> set d \<Longrightarrow> \<not> is_whitespace c" "c \<in> set d \<Longrightarrow> c \<noteq> CHR ''^''"
    "\<not> is_whitespace (hd d)" "\<not> is_whitespace (last d)" "trim d = d"
proof -
  have all: "\<forall>c \<in> set d. \<not> is_whitespace c \<and> c \<noteq> CHR ''^''" and ne: "d \<noteq> []"
    using assms by (simp_all add: plain_name_def list_all_iff)
  show "d \<noteq> []" "CHR ''.'' \<in> set d" using assms by (simp_all add: plain_name_def)
  show "c \<in> set d \<Longrightarrow> \<not> is_whitespace c" "c \<in> set d \<Longrightarrow> c \<noteq> CHR ''^''" using all by blast+
  show ends: "\<not> is_whitespace (hd d)" "\<not> is_whitespace (last d)" using all ne by simp_all
  show "trim d = d" using ends by (intro trim_id) blast
qed

lemma whitespace_chars [simp]:
  "is_whitespace CHR '' ''" "\<not> is_whitespace CHR ''^''" "\<not> is_whitespace CHR ''|''" "\<not> is_whitespace CHR ''#''"
  "\<not> is_whitespace CHR ''!''" "\<not> is_whitespace CHR ''@''" "\<not> is_whitespace CHR ''*''"
  by (simp_all add: is_whitespace_def)

lemma plain_prefix: "plain_name d \<Longrightarrow> p \<in> set ''#!@/|*'' \<Longrightarrow> \<not> starts_with (p # q) d"
  by (cases d) (auto simp: plain_name_def)

lemma line_hosts:
  assumes "plain_name d" "a \<in> set hosts_addresses" "d \<notin> set hosts_own_names"
  shows "parse_list_line (a @ '' '' @ d) = Some (Exact (lower d))"
proof -
  have a: "a \<noteq> []" "\<And>c. c \<in> set a \<Longrightarrow> \<not> is_whitespace c" "hd a \<notin> set ''#!@/|*''"
    using assms(2) by (auto simp: hosts_addresses_def is_whitespace_def)
  have "trim (a @ '' '' @ d) = a @ '' '' @ d"
    using a plain_nameD [OF assms(1)] by (intro trim_id) simp
  moreover have "split_whitespace (a @ '' '' @ d) = [a, d]"
    using split_whitespace_word [OF a(1,2), of "'' '' @ d"] plain_nameD [OF assms(1)]
      split_whitespace_word [of d "[]"] by (simp add: split_whitespace_skip)
  ultimately show ?thesis
    using a assms plain_nameD(2) [OF assms(1)]
    by (cases a) (auto simp: parse_list_line_def Let_def parse_parts_def)
qed

lemma line_adblock:
  assumes "plain_name d" "opts = [] \<or> \<not> is_whitespace (last opts)"
  shows "parse_list_line (''||'' @ d @ ''^'' @ opts) = Some (DomainAndSubdomains (lower d))"
proof -
  have "trim (''||'' @ d @ ''^'' @ opts) = ''||'' @ d @ ''^'' @ opts"
    using assms by (intro trim_id) auto
  moreover have "takeWhile (\<lambda>c. c \<noteq> CHR ''^'') (d @ ''^'' @ opts) = d"
    using plain_nameD(4) [OF assms(1)] by (subst takeWhile_append2) auto
  moreover have "\<not> starts_with ''*.'' (lower d)"
  proof -
    have "ascii_lower c = CHR ''*'' \<longleftrightarrow> c = CHR ''*''" for c
      by (rule ascii_lower_char_iff) (simp_all add: ascii_upper_def)
    then show ?thesis using assms(1) by (cases d) (auto simp: plain_name_def lower_def)
  qed
  ultimately show ?thesis
    using plain_nameD [OF assms(1)]
    by (auto simp: parse_list_line_def Let_def parse_adblock_def)
qed

section \<open>Properties\<close>

text \<open>
  One name, every list format: written bare, in hosts form, as an adblock rule or as a
  wildcard, a name parses to the entry that format stands for, in lower case; comments and
  adblock exceptions parse to nothing.
\<close>

lemma list_formats:
  assumes "plain_name d"
  shows "parse_list_line d = Some (Exact (lower d)) \<and>
    (a \<in> set hosts_addresses \<and> d \<notin> set hosts_own_names \<longrightarrow>
      parse_list_line (a @ '' '' @ d) = Some (Exact (lower d))) \<and>
    (opts = [] \<or> \<not> is_whitespace (last opts) \<longrightarrow>
      parse_list_line (''||'' @ d @ ''^'' @ opts) = Some (DomainAndSubdomains (lower d))) \<and>
    parse_list_line (''*.'' @ d) = Some (Wildcard (''*.'' @ lower d)) \<and>
    parse_list_line (''#'' @ d) = None \<and> parse_list_line (''!'' @ d) = None \<and>
    parse_list_line (''@@'' @ d) = None"
proof -
  note d = plain_nameD [OF assms]
  have bare: "parse_list_line d = Some (Exact (lower d))"
    using d plain_prefix [OF assms] split_whitespace_word [of d "[]"]
    by (simp add: parse_list_line_def Let_def parse_parts_def)
  have tr: "trim (p # q @ d) = p # q @ d" if "p \<in> set ''#!@*''" for p q
    using that d by (intro trim_id) auto
  have "parse_list_line (''*.'' @ d) = Some (Wildcard (''*.'' @ lower d))"
    using tr [of "CHR ''*''" "''.''"] by (simp add: parse_list_line_def Let_def lower_def ascii_lower_def ascii_upper_def)
  moreover have "parse_list_line (''#'' @ d) = None" "parse_list_line (''!'' @ d) = None"
    "parse_list_line (''@@'' @ d) = None"
    using tr [of "CHR ''#''" "[]"] tr [of "CHR ''!''" "[]"] tr [of "CHR ''@''" "''@''"]
    by (simp_all add: parse_list_line_def Let_def)
  ultimately show ?thesis using bare line_hosts [OF assms] line_adblock [OF assms] by blast
qed

lemma list_formats_witness:
  "parse_list_line ''Ads.example.com'' = Some (Exact ''ads.example.com'') \<and>
   parse_list_line ''0.0.0.0 Ads.example.com'' = Some (Exact ''ads.example.com'') \<and>
   parse_list_line ''||Ads.example.com^$third-party'' = Some (DomainAndSubdomains ''ads.example.com'')"
proof -
  have d: "plain_name ''Ads.example.com''" by code_simp
  have l: "lower ''Ads.example.com'' = ''ads.example.com''" by code_simp
  have o1: "\<not> is_whitespace (last ''$third-party'')" by code_simp
  have o2: "''0.0.0.0'' \<in> set hosts_addresses \<and> ''Ads.example.com'' \<notin> set hosts_own_names" by code_simp
  show ?thesis
    using list_formats [OF d, of "''0.0.0.0''" "''$third-party''"] o1 o2 by (simp add: l)
qed



end
