(* ===== verification/Block_Compiler.thy ===== *)
theory Block_Compiler
  imports Block_Index List_Parser
begin

unbundle bit_operations_syntax

text \<open>
  The compiler of the filter index (\<open>infrastructure/src/dns/block_filter/compiler.rs\<close>). The rows
  that its SQL queries return are the record \<open>database\<close>; the list downloader, the regular
  expression and substring matcher constructors of third-party crates, the hash of the Bloom
  filter and the floating-point sizing of it are parameters. Hash maps that are iterated are
  association lists: the results do not depend on the order, which the interface \<open>rule_index\<close>
  shows for the lists compiled in parallel. Writing the outcome of a download back to the
  database is not modelled.
\<close>

section \<open>Inputs\<close>

record db_source =
  ds_id :: i64
  ds_name :: string
  ds_url :: "string option"

record db_regex =
  rx_id :: i64
  rx_name :: string
  rx_pattern :: string
  rx_action :: string
  rx_group :: i64

record db_allow_source =
  as_source_id :: i64
  as_group_id :: i64
  as_url :: string
  as_name :: string

record database =
  blocklist_sources :: "db_source list"
  source_groups :: "(i64 \<times> i64) list"
  group_ids :: "i64 list"
  blocklist_rows :: "string list"
  managed_rows :: "(string \<times> string \<times> i64) list"
  regex_rows :: "db_regex list"
  whitelist_rows :: "string list"
  whitelist_sources :: "db_allow_source list"

datatype list_fetch = ReuseHeld | Redownload

datatype source_table = Blocklist_table | Whitelist_table

type_synonym held_lists = "string \<Rightarrow> string option"

record tools =
  fetch :: "source_table \<Rightarrow> string \<Rightarrow> domain_error + string"
  regex_new :: "string \<Rightarrow> (string \<Rightarrow> bool option) option"
  ac_build :: "string list \<Rightarrow> (string \<Rightarrow> bool) option"
  fx_hash :: "string \<Rightarrow> u64"
  bloom_size :: "nat \<Rightarrow> nat \<times> nat"

section \<open>Sources and masks\<close>

record source_load =
  sl_sources :: "source_meta list"
  url_tasks :: "(u8 \<times> string) list"
  all_group_ids :: "i64 list"
  sl_bit_to_source :: "source_descriptor option list"

definition load_sources :: "database \<Rightarrow> source_load" where
  "load_sources db =
    (let rows = take 63 (blocklist_sources db);
         id_to_bit = map_of (rev (zip (map ds_id rows) [0..<63]))
     in \<lparr>sl_sources = List.map_filter (\<lambda>(source_id, group_id).
           map_option (\<lambda>b. \<lparr>sm_group_id = group_id, sm_bit = word_of_nat b\<rparr>) (id_to_bit source_id))
           (source_groups db),
         url_tasks = List.map_filter (\<lambda>(i, r). map_option (\<lambda>u. (word_of_nat i, u)) (ds_url r))
           (zip [0..<63] rows),
         all_group_ids = group_ids db,
         sl_bit_to_source = map (\<lambda>r. Some \<lparr>sd_id = ds_id r, sd_name = ds_name r\<rparr>) rows
           @ replicate (64 - length rows) None\<rparr>)"

text \<open>\<open>1u64 << bit\<close>; the shift amount is taken modulo the width.\<close>

definition source_bit :: "u8 \<Rightarrow> u64" where
  "source_bit b = push_bit (unat b mod 64) 1"

definition build_group_masks :: "source_meta list \<Rightarrow> i64 list \<Rightarrow> u64 group_map" where
  "build_group_masks sources all_ids =
    (let masks = fold (\<lambda>g m. AList.update g MANUAL_SOURCE_BIT m) all_ids [] in
     fold (\<lambda>src m. AList.map_default (sm_group_id src) (MANUAL_SOURCE_BIT OR source_bit (sm_bit src))
         (\<lambda>bits. bits OR source_bit (sm_bit src)) m)
       sources masks)"

section \<open>Fetching the lists\<close>

definition fetch_one ::
  "held_lists \<Rightarrow> string \<times> (domain_error + string) \<Rightarrow>
   held_lists \<times> (string \<Rightarrow> list_sync_status option) \<Rightarrow> held_lists \<times> (string \<Rightarrow> list_sync_status option)" where
  "fetch_one held r acc =
    (case (r, acc) of ((url, result), (next, outcomes)) \<Rightarrow>
      case (result, held url) of
        (Inr text, old) \<Rightarrow>
          (next(url \<mapsto> text), outcomes(url \<mapsto> (if old = Some text then Unchanged else Updated)))
      | (Inl e, Some text) \<Rightarrow> (next(url \<mapsto> text), outcomes(url \<mapsto> FailedKeptCopy))
      | (Inl e, None) \<Rightarrow> (next, outcomes(url \<mapsto> FailedNoCopy)))"

definition fetch_lists ::
  "string list \<Rightarrow> (string \<Rightarrow> domain_error + string) \<Rightarrow> held_lists \<Rightarrow> list_fetch \<Rightarrow> held_lists \<Rightarrow>
   held_lists \<times> (string \<Rightarrow> list_sync_status option)" where
  "fetch_lists urls download held mode next =
    (let reused = (\<lambda>u. held u \<noteq> None \<and> mode = ReuseHeld);
         next = fold (\<lambda>u n. n(u := held u)) (filter reused urls) next;
         to_download = filter (\<lambda>u. \<not> reused u) urls
     in fold (fetch_one held) (map (\<lambda>u. (u, download u)) to_download) (next, Map.empty))"

section \<open>Exact names, suffixes and patterns\<close>

definition is_star :: "string \<Rightarrow> bool" where
  "is_star d \<longleftrightarrow> starts_with ''*.'' d"

text \<open>\<open>exact.entry(d).and_modify(|b| *b |= bits).or_insert(bits)\<close>.\<close>

definition add_exact :: "string \<Rightarrow> u64 \<Rightarrow> (string \<times> u64) list \<Rightarrow> (string \<times> u64) list" where
  "add_exact d bits es = AList.map_default d bits (\<lambda>b. b OR bits) es"

fun exact_name :: "parsed_entry \<Rightarrow> string option" where
  "exact_name (Exact d) = Some d"
| "exact_name (DomainAndSubdomains d) = Some d"
| "exact_name _ = None"

fun suffix_name :: "parsed_entry \<Rightarrow> string option" where
  "suffix_name (Wildcard p) = Some p"
| "suffix_name (DomainAndSubdomains d) = Some d"
| "suffix_name _ = None"

fun pattern_text :: "parsed_entry \<Rightarrow> string option" where
  "pattern_text (Pattern p) = Some p"
| "pattern_text _ = None"

text \<open>The entries of the sources that \<open>f\<close> selects, each with its source's bit.\<close>

definition source_rules :: "(parsed_entry \<Rightarrow> string option) \<Rightarrow> (u8 \<times> parsed_entry list) list \<Rightarrow> (string \<times> u64) list" where
  "source_rules f entries =
    concat (map (\<lambda>(b, es). map (\<lambda>d. (d, source_bit b)) (List.map_filter f es)) entries)"

definition exact_rules :: "string list \<Rightarrow> (u8 \<times> parsed_entry list) list \<Rightarrow> (string \<times> u64) list" where
  "exact_rules manual entries =
    map (\<lambda>d. (d, MANUAL_SOURCE_BIT)) (filter (\<lambda>d. \<not> is_star d) manual) @ source_rules exact_name entries"

definition suffix_rules :: "string list \<Rightarrow> (u8 \<times> parsed_entry list) list \<Rightarrow> (string \<times> u64) list" where
  "suffix_rules manual entries =
    map (\<lambda>d. (d, MANUAL_SOURCE_BIT)) (filter is_star manual) @ source_rules suffix_name entries"

definition insert_suffix ::
  "(string \<times> u64) list \<Rightarrow> string \<times> u64 \<Rightarrow> suffix_trie \<times> nat \<Rightarrow> suffix_trie \<times> nat" where
  "insert_suffix es r acc =
    (case (r, acc) of ((p, bits), (t, n)) \<Rightarrow>
      let (t1, is_new) = insert_wildcard t p bits in
      (t1, if is_new \<and> map_of es (strip_star p) = None then n + 1 else n))"

definition build_patterns ::
  "(string list \<Rightarrow> (string \<Rightarrow> bool) option) \<Rightarrow> (u8 \<times> parsed_entry list) list \<Rightarrow> ((string \<Rightarrow> bool) \<times> u64) list" where
  "build_patterns build entries =
    List.map_filter (\<lambda>(b, es).
      let pats = List.map_filter pattern_text es in
      if pats = [] then None else map_option (\<lambda>ac. (ac, source_bit b)) (build pats)) entries"

record block_index_data =
  bd_total_exact :: nat
  bd_total_wildcard :: nat
  bd_total_names :: nat
  bd_bloom :: bloom
  bd_exact :: "(string \<times> u64) list"
  bd_wildcard :: suffix_trie
  bd_patterns :: "((string \<Rightarrow> bool) \<times> u64) list"

definition exact_count :: "string list \<Rightarrow> (u8 \<times> parsed_entry list) list \<Rightarrow> nat" where
  "exact_count manual entries =
    length manual + length (concat (map (\<lambda>(b, es). List.map_filter exact_name es) entries))"

definition build_exact_and_wildcard ::
  "tools \<Rightarrow> string list \<Rightarrow> (u8 \<times> parsed_entry list) list \<Rightarrow> block_index_data res" where
  "build_exact_and_wildcard tk manual entries =
    (let capacity = max (exact_count manual entries + 100) 1000;
         (bits, hashes) = bloom_size tk capacity;
         rules = exact_rules manual entries
     in and_then (fold_res (bloom_set (fx_hash tk)) (map fst rules) (new_bloom bits hashes)) (\<lambda>filt.
       let es = fold (\<lambda>(d, b). add_exact d b) rules [];
           (trie, suffix_only_names) = fold (insert_suffix es) (suffix_rules manual entries) (empty_trie, 0)
       in Got \<lparr>bd_total_exact = length es, bd_total_wildcard = trie_len trie,
               bd_total_names = length es + suffix_only_names, bd_bloom = filt, bd_exact = es,
               bd_wildcard = trie, bd_patterns = build_patterns (ac_build tk) entries\<rparr>))"

section \<open>Hand-written rules\<close>

text \<open>\<open>map.entry(key).or_default()\<close>, then an update of the entry.\<close>

definition push_group :: "('x \<Rightarrow> 'v \<Rightarrow> 'v) \<Rightarrow> 'v \<Rightarrow> 'k \<Rightarrow> 'x \<Rightarrow> ('k \<times> 'v) list \<Rightarrow> ('k \<times> 'v) list" where
  "push_group f z k x m = AList.map_default k (f x z) (f x) m"

record managed_entry =
  me_domain :: string
  me_action :: domain_action
  me_group :: i64

definition managed_entries :: "(string \<times> string \<times> i64) list \<Rightarrow> managed_entry list" where
  "managed_entries rows =
    List.map_filter (\<lambda>(d, action, g).
      map_option (\<lambda>a. \<lparr>me_domain = lower d, me_action = a, me_group = g\<rparr>) (parse_action action)) rows"

definition add_managed_deny ::
  "managed_entry \<Rightarrow> string set group_map \<times> suffix_trie group_map \<Rightarrow> string set group_map \<times> suffix_trie group_map" where
  "add_managed_deny e acc =
    (case acc of (denies, wild) \<Rightarrow>
      case me_action e of
        Deny \<Rightarrow>
          if is_star (me_domain e)
          then (denies, push_group (\<lambda>d. add_wildcard d 1) empty_trie (me_group e) (me_domain e) wild)
          else (push_group insert {} (me_group e) (me_domain e) denies, wild)
      | Allow \<Rightarrow> (denies, wild))"

definition add_regex ::
  "tools \<Rightarrow> db_regex \<Rightarrow> regex_rule list group_map \<times> regex_rule list group_map \<Rightarrow>
   regex_rule list group_map \<times> regex_rule list group_map" where
  "add_regex tk row acc =
    (case acc of (block, allow) \<Rightarrow>
      case parse_action (rx_action row) of
        None \<Rightarrow> acc
      | Some action \<Rightarrow>
          (case regex_new tk (''(?i)'' @ rx_pattern row) of
             None \<Rightarrow> acc
           | Some m \<Rightarrow>
               (let rule = \<lparr>rr_id = rx_id row, rr_name = rx_name row, rr_match = m\<rparr>;
                    push = push_group (\<lambda>r rs. rs @ [r]) [] (rx_group row) rule
                in case action of Deny \<Rightarrow> (push block, allow) | Allow \<Rightarrow> (block, push allow))))"

definition build_regex_filters ::
  "tools \<Rightarrow> db_regex list \<Rightarrow> regex_rule list group_map \<times> regex_rule list group_map" where
  "build_regex_filters tk rows = fold (add_regex tk) rows ([], [])"

section \<open>Allowlists\<close>

record allowlist_load =
  ll_manual :: "string list"
  ll_sources :: "((i64 \<times> i64) list \<times> string) list"
  ll_names :: "(i64 \<times> string) list"

definition allow_urls :: "db_allow_source list \<Rightarrow> (string \<times> (i64 \<times> i64) list) list" where
  "allow_urls rows =
    fold (\<lambda>r. push_group (\<lambda>x xs. xs @ [x]) [] (as_url r) (as_source_id r, as_group_id r)) rows []"

definition load_allowlists ::
  "database \<Rightarrow> (string \<Rightarrow> domain_error + string) \<Rightarrow> held_lists \<Rightarrow> list_fetch \<Rightarrow> held_lists \<Rightarrow>
   allowlist_load \<times> held_lists" where
  "load_allowlists db download held mode next =
    (let urls = allow_urls (whitelist_sources db);
         names = fold (\<lambda>r. AList.update (as_source_id r) (as_name r)) (whitelist_sources db) [];
         (next1, _) = fetch_lists (map fst urls) download held mode next
     in (\<lparr>ll_manual = whitelist_rows db,
          ll_sources = List.map_filter (\<lambda>(url, assignments). map_option (Pair assignments) (next1 url)) urls,
          ll_names = names\<rparr>, next1))"

definition insert_allow :: "i64 \<Rightarrow> string \<Rightarrow> u64 \<Rightarrow> allowlist_index \<Rightarrow> allowlist_index" where
  "insert_allow g d bits al =
    al\<lparr>group_exact := push_group (\<lambda>(d, b). add_exact d b) [] g (d, bits) (group_exact al)\<rparr>"

definition insert_allow_wildcard :: "i64 \<Rightarrow> string \<Rightarrow> u64 \<Rightarrow> allowlist_index \<Rightarrow> allowlist_index" where
  "insert_allow_wildcard g p bits al =
    al\<lparr>group_wildcard := push_group (\<lambda>(p, b). add_wildcard p b) empty_trie g (p, bits) (group_wildcard al)\<rparr>"

definition add_manual_allow :: "string \<Rightarrow> allowlist_index \<Rightarrow> allowlist_index" where
  "add_manual_allow row al =
    (let d = lower row in
     if is_star d then al\<lparr>global_wildcard := add_wildcard d 1 (global_wildcard al)\<rparr>
     else al\<lparr>global_exact := insert d (global_exact al)\<rparr>)"

definition add_managed_allow :: "managed_entry \<Rightarrow> allowlist_index \<Rightarrow> allowlist_index" where
  "add_managed_allow e al =
    (case me_action e of
       Allow \<Rightarrow>
         if is_star (me_domain e) then insert_allow_wildcard (me_group e) (me_domain e) UNNAMED_ALLOW_BIT al
         else insert_allow (me_group e) (me_domain e) UNNAMED_ALLOW_BIT al
     | Deny \<Rightarrow> al)"

fun add_entry_allow :: "i64 \<Rightarrow> u64 \<Rightarrow> parsed_entry \<Rightarrow> allowlist_index \<Rightarrow> allowlist_index" where
  "add_entry_allow g bits (Exact d) al = insert_allow g d bits al"
| "add_entry_allow g bits (Wildcard p) al = insert_allow_wildcard g p bits al"
| "add_entry_allow g bits (DomainAndSubdomains d) al =
    insert_allow_wildcard g d bits (insert_allow g d bits al)"
| "add_entry_allow g bits (Pattern _) al = al"

definition allow_source_bits :: "(i64 \<times> string) list \<Rightarrow> (i64 \<times> u64) list" where
  "allow_source_bits names =
    map (\<lambda>(i, (id, _)). (id, if i < MANUAL_SOURCE_BIT_INDEX then push_bit i 1 else UNNAMED_ALLOW_BIT))
      (List.enumerate 0 (sort_key fst names))"

definition allow_descriptors :: "(i64 \<times> string) list \<Rightarrow> source_descriptor option list" where
  "allow_descriptors names =
    (let first = take MANUAL_SOURCE_BIT_INDEX (sort_key fst names) in
     map (\<lambda>(id, n). Some \<lparr>sd_id = id, sd_name = n\<rparr>) first @ replicate (64 - length first) None)"

definition group_bits_of :: "(i64 \<times> u64) list \<Rightarrow> (i64 \<times> i64) list \<Rightarrow> u64 group_map" where
  "group_bits_of bits assignments =
    fold (\<lambda>(sid, g). push_group (\<lambda>b m. m OR b) 0 g
      (case map_of bits sid of Some b \<Rightarrow> b | None \<Rightarrow> UNNAMED_ALLOW_BIT)) assignments []"

definition add_source_allow ::
  "(i64 \<times> u64) list \<Rightarrow> (i64 \<times> i64) list \<times> string \<Rightarrow> allowlist_index \<Rightarrow> allowlist_index" where
  "add_source_allow bits src al =
    (case src of (assignments, text) \<Rightarrow>
      let entries = parse_list_text text in
      fold (\<lambda>(g, b) al. fold (add_entry_allow g b) entries al) (group_bits_of bits assignments) al)"

definition build_allowlist_index :: "allowlist_load \<Rightarrow> managed_entry list \<Rightarrow> allowlist_index" where
  "build_allowlist_index loaded entries =
    (let al = empty_allowlists\<lparr>al_bit_to_source := allow_descriptors (ll_names loaded)\<rparr>;
         al = fold add_manual_allow (ll_manual loaded) al;
         al = fold add_managed_allow entries al
     in fold (add_source_allow (allow_source_bits (ll_names loaded))) (ll_sources loaded) al)"

section \<open>The whole build\<close>

definition source_texts :: "(u8 \<times> string) list \<Rightarrow> held_lists \<Rightarrow> (u8 \<times> string) list" where
  "source_texts tasks next = List.map_filter (\<lambda>(b, url). map_option (Pair b) (next url)) tasks"

definition compile_block_index ::
  "tools \<Rightarrow> database \<Rightarrow> held_lists \<Rightarrow> list_fetch \<Rightarrow> (block_index \<times> held_lists) res" where
  "compile_block_index tk db held mode =
    (let sl = load_sources db;
         (next, outcomes) = fetch_lists (remdups (map snd (url_tasks sl))) (fetch tk Blocklist_table) held mode Map.empty;
         texts = source_texts (url_tasks sl) next;
         (allow_load, next) = load_allowlists db (fetch tk Whitelist_table) held mode next;
         entries = map (\<lambda>(b, text). (b, parse_list_text text)) texts;
         managed = managed_entries (managed_rows db);
         (block_regex, allow_regex) = build_regex_filters tk (regex_rows db);
         (denies, deny_wildcards) = fold add_managed_deny managed ([], [])
     in and_then (build_exact_and_wildcard tk (map lower (blocklist_rows db)) entries) (\<lambda>data.
       Got (\<lparr>group_masks = build_group_masks (sl_sources sl) (all_group_ids sl),
             total_blocked_domains = bd_total_names data, exact = bd_exact data,
             bi_bloom = bd_bloom data, wildcard = bd_wildcard data, patterns = bd_patterns data,
             allowlists = build_allowlist_index allow_load managed,
             managed_denies = denies, managed_deny_wildcards = deny_wildcards,
             allow_regex_patterns = allow_regex, block_regex_patterns = block_regex,
             groups_with_advanced_rules =
               set (map fst denies @ map fst deny_wildcards @ map fst allow_regex @ map fst block_regex),
             bit_to_source = sl_bit_to_source sl\<rparr>, next)))"

end
