(* ===== verification/Block_Rules.thy ===== *)
theory Block_Rules
  imports Block_Compiler
begin

unbundle bit_operations_syntax

text \<open>
  What the compiled index enforces, stated over the rules the operator wrote: the rows of the
  database and the lines of the lists, without bit sets, tries, Bloom filters or group maps. The
  lemmas follow the compiler map by map; the theorems show that the index refines the rules,
  that it counts names once, and what becomes of a list whose download fails.
\<close>

section \<open>The table of exact names\<close>

definition exact_find :: "(string \<times> u64) list \<Rightarrow> string \<Rightarrow> u64" where
  "exact_find es d = (case map_of es d of Some b \<Rightarrow> b | None \<Rightarrow> 0)"

interpretation exact_table: rule_index "[]" add_exact exact_find "(=)"
  by unfold_locales (auto simp: exact_find_def add_exact_def map_of_map_default split: option.splits)

abbreviation exact_of :: "(string \<times> u64) list \<Rightarrow> (string \<times> u64) list" where
  "exact_of rules \<equiv> fold (\<lambda>(d, b). add_exact d b) rules []"

lemma exact_keys:
  "fst ` set (fold (\<lambda>(d, b). add_exact d b) rules es) = fst ` set rules \<union> fst ` set es"
proof (induction rules arbitrary: es)
  case (Cons r rules)
  then show ?case by (cases r) (simp add: add_exact_def dom_map_default)
qed simp

lemma exact_distinct:
  "distinct (map fst es) \<Longrightarrow> distinct (map fst (fold (\<lambda>(d, b). add_exact d b) rules es))"
  by (induction rules arbitrary: es) (auto simp: add_exact_def distinct_map_default)

lemma exact_of_dom: "map_of (exact_of rules) d \<noteq> None \<longleftrightarrow> d \<in> fst ` set rules"
  unfolding map_of_eq_None_iff exact_keys by simp

lemma length_exact_of: "length (exact_of rules) = card (fst ` set rules)"
  using distinct_card [OF exact_distinct [of "[]" rules]] exact_keys [of rules "[]"]
  by (simp flip: set_map)

section \<open>Group maps\<close>

definition rules_of :: "'k \<Rightarrow> ('k \<times> 'x) list \<Rightarrow> 'x list" where
  "rules_of k xs = map snd (filter (\<lambda>(j, _). j = k) xs)"

lemma rules_of_simps [simp]:
  "rules_of k [] = []" "rules_of k ((j, x) # xs) = (if j = k then x # rules_of k xs else rules_of k xs)"
  by (simp_all add: rules_of_def)

lemma set_rules_of [simp]: "x \<in> set (rules_of k xs) \<longleftrightarrow> (k, x) \<in> set xs"
  by (force simp: rules_of_def)

abbreviation push_all :: "('x \<Rightarrow> 'v \<Rightarrow> 'v) \<Rightarrow> 'v \<Rightarrow> ('k \<times> 'x) list \<Rightarrow> ('k \<times> 'v) list \<Rightarrow> ('k \<times> 'v) list" where
  "push_all f z xs m \<equiv> fold (\<lambda>(k, x). push_group f z k x) xs m"

lemma map_of_push_all:
  "map_of (push_all f z xs m) k =
    (if rules_of k xs = [] then map_of m k
     else Some (fold f (rules_of k xs) (case map_of m k of Some v \<Rightarrow> v | None \<Rightarrow> z)))"
proof (induction xs arbitrary: m)
  case (Cons r xs)
  obtain j x where r: "r = (j, x)" by (cases r)
  have "map_of (push_group f z j x m) k =
      (if j = k then Some (f x (case map_of m k of Some v \<Rightarrow> v | None \<Rightarrow> z)) else map_of m k)"
    by (auto simp: push_group_def map_of_map_default split: option.splits)
  then show ?case using Cons.IH [of "push_group f z j x m"] by (auto simp: r)
qed simp

lemma group_any_push:
  "group_any (push_all f z xs []) g P \<longleftrightarrow> rules_of g xs \<noteq> [] \<and> P (fold f (rules_of g xs) z)"
  by (simp add: group_any_def map_of_push_all)

lemma keys_push_all: "fst ` set (push_all f z xs m) = fst ` set xs \<union> fst ` set m"
proof (induction xs arbitrary: m)
  case (Cons r xs)
  then show ?case by (cases r) (simp add: push_group_def dom_map_default)
qed simp

lemma rules_of_nonempty: "rules_of g xs \<noteq> [] \<longleftrightarrow> (\<exists>x. (g, x) \<in> set xs)"
  by (metis set_rules_of set_empty ex_in_conv)

text \<open>A group's trie answers for the rules pushed to the group.\<close>

lemma group_any_trie:
  assumes "\<And>g p b. (g, (p, b)) \<in> set xs \<Longrightarrow> b \<noteq> 0"
  shows "group_any (push_all (\<lambda>(p, b). add_wildcard p b) empty_trie xs []) g (\<lambda>t. trie_lookup t d \<noteq> 0) \<longleftrightarrow>
    (\<exists>p b. (g, (p, b)) \<in> set xs \<and> covers_wildcard p d)"
proof -
  have "b \<noteq> 0" if "(p, b) \<in> set (rules_of g xs)" for p b using assms that by simp
  from trie.find_built_nonzero [of "rules_of g xs" d, OF this] show ?thesis
    by (auto simp: group_any_push rules_of_nonempty)
qed

lemma group_any_exact:
  "group_any (push_all (\<lambda>(d, b). add_exact d b) [] xs []) g (\<lambda>es. map_of es d \<noteq> None) \<longleftrightarrow>
    (\<exists>b. (g, (d, b)) \<in> set xs)"
proof -
  have "map_of (exact_of (rules_of g xs)) d \<noteq> None \<longleftrightarrow> (\<exists>b. (g, (d, b)) \<in> set xs)"
    unfolding exact_of_dom by force
  then show ?thesis by (auto simp: group_any_push rules_of_nonempty)
qed

lemma group_exact_nonzero:
  assumes "\<And>g d b. (g, (d, b)) \<in> set xs \<Longrightarrow> b \<noteq> 0"
    and "map_of (push_all (\<lambda>(d, b). add_exact d b) [] xs []) g = Some es"
  shows "map_of es d \<noteq> Some 0"
proof
  assume z: "map_of es d = Some 0"
  have es: "es = exact_of (rules_of g xs)"
    using assms(2) by (simp add: map_of_push_all split: if_splits)
  then have "\<exists>b. (d, b) \<in> set (rules_of g xs)" using z exact_of_dom [of "rules_of g xs" d] by force
  moreover have "b \<noteq> 0" if "(p, b) \<in> set (rules_of g xs)" for p b using assms(1) that by simp
  ultimately have "exact_find es d \<noteq> 0" unfolding es by (subst exact_table.find_built_nonzero) auto
  then show False using z by (simp add: exact_find_def)
qed

section \<open>Hand-written denies and regular expressions\<close>

definition deny_rules :: "bool \<Rightarrow> managed_entry list \<Rightarrow> (i64 \<times> string) list" where
  "deny_rules star es =
    map (\<lambda>e. (me_group e, me_domain e)) (filter (\<lambda>e. me_action e = Deny \<and> is_star (me_domain e) = star) es)"

lemma fold_managed_deny:
  "fold add_managed_deny es (denies, wild) =
    (push_all insert {} (deny_rules False es) denies,
     push_all (\<lambda>d. add_wildcard d 1) empty_trie (deny_rules True es) wild)"
proof (induction es arbitrary: denies wild)
  case (Cons e es)
  then show ?case by (cases "me_action e") (auto simp: add_managed_deny_def deny_rules_def)
qed (simp add: deny_rules_def)

definition regex_rules :: "tools \<Rightarrow> domain_action \<Rightarrow> db_regex list \<Rightarrow> (i64 \<times> regex_rule) list" where
  "regex_rules tk a rows = List.map_filter (\<lambda>row.
     if parse_action (rx_action row) = Some a
     then map_option (\<lambda>m. (rx_group row, \<lparr>rr_id = rx_id row, rr_name = rx_name row, rr_match = m\<rparr>))
       (regex_new tk (''(?i)'' @ rx_pattern row))
     else None) rows"

lemma fold_add_regex:
  "fold (add_regex tk) rows (block, allow) =
    (push_all (\<lambda>r rs. rs @ [r]) [] (regex_rules tk Deny rows) block,
     push_all (\<lambda>r rs. rs @ [r]) [] (regex_rules tk Allow rows) allow)"
proof (induction rows arbitrary: block allow)
  case (Cons row rows)
  then show ?case
    by (cases "parse_action (rx_action row)"; cases "the (parse_action (rx_action row))")
      (auto simp: add_regex_def regex_rules_def List.map_filter_simps Let_def split: option.splits)
qed (simp add: regex_rules_def List.map_filter_simps)

lemma fold_snoc: "fold (\<lambda>r rs. rs @ [r]) xs ys = ys @ xs"
  by (induction xs arbitrary: ys) auto

lemma group_any_regex:
  "group_any (push_all (\<lambda>r rs. rs @ [r]) [] xs []) g (list_ex P) \<longleftrightarrow> (\<exists>r. (g, r) \<in> set xs \<and> P r)"
  by (auto simp: group_any_push fold_snoc list_ex_iff rules_of_nonempty)

lemma group_any_denies:
  "group_any (push_all insert {} xs []) g (\<lambda>s. d \<in> s) \<longleftrightarrow> (g, d) \<in> set xs"
proof -
  have "d \<in> fold insert ys z \<longleftrightarrow> d \<in> set ys \<or> d \<in> z" for ys z
    by (induction ys arbitrary: z) auto
  then show ?thesis by (auto simp: group_any_push rules_of_nonempty)
qed

lemma group_any_deny_trie:
  "group_any (push_all (\<lambda>d. add_wildcard d 1) empty_trie xs []) g (\<lambda>t. trie_lookup t d \<noteq> 0) \<longleftrightarrow>
    (\<exists>p. (g, p) \<in> set xs \<and> covers_wildcard p d)"
proof -
  let ?ys = "map (\<lambda>p. (p, 1 :: u64)) (rules_of g xs)"
  have nz: "b \<noteq> 0" if "(p, b) \<in> set ?ys" for p b using that by auto
  have "fold (\<lambda>d. add_wildcard d 1) ps t = fold (\<lambda>(p, b). add_wildcard p b) (map (\<lambda>p. (p, 1)) ps) t" for ps t
    by (induction ps arbitrary: t) auto
  moreover have "trie_lookup (fold (\<lambda>(p, b). add_wildcard p b) ?ys empty_trie) d \<noteq> 0 \<longleftrightarrow>
      (\<exists>p. (g, p) \<in> set xs \<and> covers_wildcard p d)"
    using trie.find_built_nonzero [of ?ys d, OF nz] by (simp add: image_iff)
  ultimately show ?thesis by (auto simp: group_any_push rules_of_nonempty)
qed

section \<open>Allowlists\<close>

definition managed_allow_rules :: "bool \<Rightarrow> managed_entry list \<Rightarrow> (i64 \<times> string \<times> u64) list" where
  "managed_allow_rules star es =
    map (\<lambda>e. (me_group e, (me_domain e, UNNAMED_ALLOW_BIT)))
      (filter (\<lambda>e. me_action e = Allow \<and> is_star (me_domain e) = star) es)"

definition list_allow_rules ::
  "(parsed_entry \<Rightarrow> string option) \<Rightarrow> i64 \<Rightarrow> u64 \<Rightarrow> parsed_entry list \<Rightarrow> (i64 \<times> string \<times> u64) list" where
  "list_allow_rules f g b es = map (\<lambda>d. (g, (d, b))) (List.map_filter f es)"

definition source_allow_rules ::
  "(parsed_entry \<Rightarrow> string option) \<Rightarrow> (i64 \<times> u64) list \<Rightarrow> (i64 \<times> i64) list \<times> string \<Rightarrow> (i64 \<times> string \<times> u64) list" where
  "source_allow_rules f bits src =
    (case src of (assignments, text) \<Rightarrow>
      concat (map (\<lambda>(g, b). list_allow_rules f g b (parse_list_text text)) (group_bits_of bits assignments)))"

text \<open>An allowlist step pushes exact rules, suffix rules, and leaves the rest.\<close>

definition pushes ::
  "(i64 \<times> string \<times> u64) list \<Rightarrow> (i64 \<times> string \<times> u64) list \<Rightarrow> allowlist_index \<Rightarrow> allowlist_index \<Rightarrow> bool" where
  "pushes es ws al al' \<longleftrightarrow>
    al' = al\<lparr>group_exact := push_all (\<lambda>(d, b). add_exact d b) [] es (group_exact al),
             group_wildcard := push_all (\<lambda>(p, b). add_wildcard p b) empty_trie ws (group_wildcard al)\<rparr>"

lemma pushes_Nil: "pushes [] [] al al"
  by (simp add: pushes_def)

lemma pushes_append: "pushes es ws al al1 \<Longrightarrow> pushes es' ws' al1 al2 \<Longrightarrow> pushes (es @ es') (ws @ ws') al al2"
  by (simp add: pushes_def)

lemma pushes_fold:
  assumes "\<And>x al. x \<in> set xs \<Longrightarrow> pushes (e x) (w x) al (step x al)"
  shows "pushes (concat (map e xs)) (concat (map w xs)) al (fold step xs al)"
  using assms
proof (induction xs arbitrary: al)
  case (Cons x xs)
  then show ?case using pushes_append [of "e x" "w x" al "step x al"] by simp
qed (simp add: pushes_Nil)

lemma pushes_entry:
  "pushes (list_allow_rules exact_name g b [e]) (list_allow_rules suffix_name g b [e]) al (add_entry_allow g b e al)"
  by (cases e) (simp_all add: list_allow_rules_def List.map_filter_simps pushes_def insert_allow_def
      insert_allow_wildcard_def)

lemma list_allow_rules_concat:
  "list_allow_rules f g b es = concat (map (\<lambda>e. list_allow_rules f g b [e]) es)"
  by (induction es) (auto simp: list_allow_rules_def List.map_filter_simps split: option.splits)

lemma pushes_source:
  "pushes (source_allow_rules exact_name bits src) (source_allow_rules suffix_name bits src) al (add_source_allow bits src al)"
proof -
  obtain assignments content where src: "src = (assignments, content)" by (cases src)
  have list: "pushes (list_allow_rules exact_name g b es) (list_allow_rules suffix_name g b es) al
      (fold (add_entry_allow g b) es al)" for g b es al
    unfolding list_allow_rules_concat [of _ g b es] by (rule pushes_fold) (rule pushes_entry)
  show ?thesis
    unfolding src source_allow_rules_def add_source_allow_def prod.case Let_def
    by (rule pushes_fold) (auto simp: list split: prod.splits)
qed

lemma pushes_managed:
  "pushes (managed_allow_rules False es) (managed_allow_rules True es) al (fold add_managed_allow es al)"
proof -
  have "managed_allow_rules s es = concat (map (\<lambda>e. managed_allow_rules s [e]) es)" for s
    by (induction es) (auto simp: managed_allow_rules_def)
  moreover have "pushes (managed_allow_rules False [e]) (managed_allow_rules True [e]) al (add_managed_allow e al)" for e al
    by (cases "me_action e") (simp_all add: managed_allow_rules_def pushes_def add_managed_allow_def
        insert_allow_def insert_allow_wildcard_def)
  ultimately show ?thesis using pushes_fold [of es "\<lambda>e. managed_allow_rules False [e]"
      "\<lambda>e. managed_allow_rules True [e]" add_managed_allow al] by simp
qed

definition manual_covers :: "string \<Rightarrow> string \<Rightarrow> bool" where
  "manual_covers r d \<longleftrightarrow> (if is_star r then covers_wildcard r d else d = r)"

lemma manual_allows:
  "fold add_manual_allow rows al =
    al\<lparr>global_exact := global_exact al \<union> {d. \<exists>r \<in> set rows. lower r = d \<and> \<not> is_star d},
       global_wildcard := fold (\<lambda>(p, b). add_wildcard p b)
         (map (\<lambda>p. (p, 1)) (filter is_star (map lower rows))) (global_wildcard al)\<rparr>"
proof (induction rows arbitrary: al)
  case (Cons r rows)
  have "insert (lower r) E \<union> {d. \<exists>r \<in> set rows. lower r = d \<and> \<not> is_star d} =
      E \<union> {d. \<exists>r \<in> set (r # rows). lower r = d \<and> \<not> is_star d}" if "\<not> is_star (lower r)" for E
    using that by auto
  moreover have "{d. \<exists>r \<in> set rows. lower r = d \<and> \<not> is_star d} =
      {d. \<exists>r \<in> set (r # rows). lower r = d \<and> \<not> is_star d}" if "is_star (lower r)"
    using that by auto
  ultimately show ?case
    using Cons.IH [of "add_manual_allow r al"] by (simp add: add_manual_allow_def Let_def)
qed simp

definition all_allow_rules ::
  "bool \<Rightarrow> (parsed_entry \<Rightarrow> string option) \<Rightarrow> allowlist_load \<Rightarrow> managed_entry list \<Rightarrow> (i64 \<times> string \<times> u64) list" where
  "all_allow_rules star f loaded es =
    managed_allow_rules star es
    @ concat (map (source_allow_rules f (allow_source_bits (ll_names loaded))) (ll_sources loaded))"

lemma build_allowlist_index_eq:
  "build_allowlist_index loaded es =
    \<lparr>global_exact = {d. \<exists>r \<in> set (ll_manual loaded). lower r = d \<and> \<not> is_star d},
     global_wildcard = fold (\<lambda>(p, b). add_wildcard p b)
       (map (\<lambda>p. (p, 1)) (filter is_star (map lower (ll_manual loaded)))) empty_trie,
     group_exact = push_all (\<lambda>(d, b). add_exact d b) [] (all_allow_rules False exact_name loaded es) [],
     group_wildcard = push_all (\<lambda>(p, b). add_wildcard p b) empty_trie (all_allow_rules True suffix_name loaded es) [],
     al_bit_to_source = allow_descriptors (ll_names loaded)\<rparr>"
proof -
  let ?bits = "allow_source_bits (ll_names loaded)"
  have "pushes (all_allow_rules False exact_name loaded es) (all_allow_rules True suffix_name loaded es) al
      (fold (add_source_allow ?bits) (ll_sources loaded) (fold add_managed_allow es al))" for al
    unfolding all_allow_rules_def
    by (rule pushes_append [OF pushes_managed pushes_fold]) (rule pushes_source)
  then show ?thesis
    by (simp add: build_allowlist_index_def Let_def manual_allows pushes_def empty_allowlists_def)
qed

section \<open>Which allow rules there are\<close>

lemma set_map_default:
  "(j, v) \<in> set (AList.map_default k v0 f m) \<Longrightarrow>
    (j, v) \<in> set m \<or> j = k \<and> (v = v0 \<or> (\<exists>u. (k, u) \<in> set m \<and> v = f u))"
  by (induction m) (auto split: if_splits)

lemma distinct_push_all: "distinct (map fst m) \<Longrightarrow> distinct (map fst (push_all f z xs m))"
proof (induction xs arbitrary: m)
  case (Cons r xs)
  then show ?case by (cases r) (simp add: push_group_def distinct_map_default)
qed simp

lemma set_push_all:
  "(k, v) \<in> set (push_all f z xs []) \<longleftrightarrow> rules_of k xs \<noteq> [] \<and> v = fold f (rules_of k xs) z"
proof -
  have "(k, v) \<in> set (push_all f z xs []) \<longleftrightarrow> map_of (push_all f z xs []) k = Some v"
    by (rule map_of_eq_Some_iff [symmetric, OF distinct_push_all]) simp
  then show ?thesis by (simp only: map_of_push_all) auto
qed

lemma push_bit_one_nonzero: "i < 64 \<Longrightarrow> push_bit i (1 :: u64) \<noteq> 0"
  unfolding word_nonzero_bit by (intro exI [of _ i]) (simp add: bit_simps)

lemma allow_bits_nonzero: "(sid, b) \<in> set (allow_source_bits names) \<Longrightarrow> b \<noteq> 0"
  using push_bit_one_nonzero
  by (auto simp: allow_source_bits_def MANUAL_SOURCE_BIT_INDEX_def UNNAMED_ALLOW_BIT_def
      simp del: push_bit_of_1 split: if_splits)

definition assignment_bits :: "(i64 \<times> u64) list \<Rightarrow> (i64 \<times> i64) list \<Rightarrow> (i64 \<times> u64) list" where
  "assignment_bits bits asg =
    map (\<lambda>(sid, g). (g, case map_of bits sid of Some b \<Rightarrow> b | None \<Rightarrow> UNNAMED_ALLOW_BIT)) asg"

lemma group_bits_of_push: "group_bits_of bits asg = push_all (\<lambda>b m. m OR b) 0 (assignment_bits bits asg) []"
proof -
  have "fold (\<lambda>(sid, g). push_group f z g (h sid)) asg m = push_all f z (map (\<lambda>(sid, g). (g, h sid)) asg) m" for f z h m
    by (induction asg arbitrary: m) auto
  then show ?thesis by (simp add: group_bits_of_def assignment_bits_def)
qed

lemma fold_or_nonzero: "b \<in> set bs \<Longrightarrow> b \<noteq> 0 \<Longrightarrow> fold (\<lambda>b m. m OR b) bs z \<noteq> 0" for z :: u64
proof -
  have "bit (fold (\<lambda>b m. m OR b) bs z) n \<longleftrightarrow> bit z n \<or> (\<exists>b \<in> set bs. bit b n)" for n
    by (induction bs arbitrary: z) (auto simp: bit_or_iff)
  then show "b \<in> set bs \<Longrightarrow> b \<noteq> 0 \<Longrightarrow> fold (\<lambda>b m. m OR b) bs z \<noteq> 0"
    unfolding word_nonzero_bit by blast
qed

lemma group_bits_iff:
  assumes "0 \<notin> snd ` set bits"
  shows "(\<exists>b. (g, b) \<in> set (group_bits_of bits asg)) \<longleftrightarrow> g \<in> snd ` set asg"
    "(g, b) \<in> set (group_bits_of bits asg) \<Longrightarrow> b \<noteq> 0"
proof -
  show "(\<exists>b. (g, b) \<in> set (group_bits_of bits asg)) \<longleftrightarrow> g \<in> snd ` set asg"
    unfolding group_bits_of_push set_push_all rules_of_nonempty by (force simp: assignment_bits_def)
  assume "(g, b) \<in> set (group_bits_of bits asg)"
  then obtain x where x: "(g, x) \<in> set (assignment_bits bits asg)"
    and b: "b = fold (\<lambda>b m. m OR b) (rules_of g (assignment_bits bits asg)) 0"
    unfolding group_bits_of_push set_push_all rules_of_nonempty by blast
  have "UNNAMED_ALLOW_BIT \<noteq> 0" using push_bit_one_nonzero [of 63] by (simp add: UNNAMED_ALLOW_BIT_def)
  then have "x \<noteq> 0" using x assms
    by (auto simp: assignment_bits_def split: option.splits) (metis map_of_SomeD image_eqI snd_conv)
  then show "b \<noteq> 0" unfolding b using x by (intro fold_or_nonzero [of x]) simp_all
qed

lemma allow_urls_iff:
  "(url, asg) \<in> set (allow_urls rows) \<longleftrightarrow> asg \<noteq> [] \<and>
    asg = map (\<lambda>r. (as_source_id r, as_group_id r)) (filter (\<lambda>r. as_url r = url) rows)"
proof -
  have "allow_urls rows = push_all (\<lambda>x xs. xs @ [x]) []
      (map (\<lambda>r. (as_url r, (as_source_id r, as_group_id r))) rows) []"
    by (simp add: allow_urls_def fold_map comp_def)
  moreover have "rules_of url (map (\<lambda>r. (as_url r, (as_source_id r, as_group_id r))) rows) =
      map (\<lambda>r. (as_source_id r, as_group_id r)) (filter (\<lambda>r. as_url r = url) rows)"
    by (induction rows) auto
  ultimately show ?thesis by (auto simp: set_push_all fold_snoc)
qed

fun entry_covers :: "parsed_entry \<Rightarrow> string \<Rightarrow> bool" where
  "entry_covers (Exact x) d \<longleftrightarrow> d = x"
| "entry_covers (Wildcard p) d \<longleftrightarrow> covers_wildcard p d"
| "entry_covers (DomainAndSubdomains x) d \<longleftrightarrow> d = x \<or> covers_wildcard x d"
| "entry_covers (Pattern p) d \<longleftrightarrow> False"

lemma entry_covers_iff:
  "entry_covers e d \<longleftrightarrow> exact_name e = Some d \<or> (\<exists>p. suffix_name e = Some p \<and> covers_wildcard p d)"
  by (cases e) auto

text \<open>The allow rules in force: the manual allowlist, managed entries, and the lists a group uses.\<close>

definition allowed_by_rules :: "database \<Rightarrow> held_lists \<Rightarrow> string \<Rightarrow> i64 \<Rightarrow> bool" where
  "allowed_by_rules db texts d g \<longleftrightarrow>
    (\<exists>r \<in> set (whitelist_rows db). manual_covers (lower r) d) \<or>
    (\<exists>e \<in> set (managed_entries (managed_rows db)).
      me_action e = Allow \<and> me_group e = g \<and> manual_covers (me_domain e) d) \<or>
    (\<exists>s \<in> set (whitelist_sources db). \<exists>content. as_group_id s = g \<and> texts (as_url s) = Some content \<and>
      (\<exists>e \<in> set (parse_list_text content). entry_covers e d))"

definition allow_load_of :: "database \<Rightarrow> held_lists \<Rightarrow> allowlist_load" where
  "allow_load_of db texts =
    \<lparr>ll_manual = whitelist_rows db,
     ll_sources = List.map_filter (\<lambda>(url, asg). map_option (Pair asg) (texts url)) (allow_urls (whitelist_sources db)),
     ll_names = fold (\<lambda>r. AList.update (as_source_id r) (as_name r)) (whitelist_sources db) []\<rparr>"

lemma allow_urls_groups:
  "(\<exists>asg. (url, asg) \<in> set (allow_urls rows) \<and> g \<in> snd ` set asg) \<longleftrightarrow>
    (\<exists>s \<in> set rows. as_url s = url \<and> as_group_id s = g)"
  unfolding allow_urls_iff by (force simp: filter_empty_conv)

lemma source_allow_rules_iff:
  assumes "0 \<notin> snd ` set bits"
  shows "(\<exists>b. (g, (p, b)) \<in> set (source_allow_rules f bits (asg, content))) \<longleftrightarrow>
      g \<in> snd ` set asg \<and> (\<exists>e \<in> set (parse_list_text content). f e = Some p)"
    "(g, (p, b)) \<in> set (source_allow_rules f bits (asg, content)) \<Longrightarrow> b \<noteq> 0"
proof -
  have mem: "(g, (p, b)) \<in> set (source_allow_rules f bits (asg, content)) \<longleftrightarrow>
      (g, b) \<in> set (group_bits_of bits asg) \<and> (\<exists>e \<in> set (parse_list_text content). f e = Some p)" for b
    by (force simp: source_allow_rules_def list_allow_rules_def set_map_filter)
  show "(\<exists>b. (g, (p, b)) \<in> set (source_allow_rules f bits (asg, content))) \<longleftrightarrow>
      g \<in> snd ` set asg \<and> (\<exists>e \<in> set (parse_list_text content). f e = Some p)"
    unfolding mem group_bits_iff(1) [OF assms, of g asg, symmetric] by blast
  show "(g, (p, b)) \<in> set (source_allow_rules f bits (asg, content)) \<Longrightarrow> b \<noteq> 0"
    unfolding mem using group_bits_iff(2) [OF assms] by blast
qed

lemma all_allow_rules_iff:
  "(\<exists>b. (g, (p, b)) \<in> set (all_allow_rules star f (allow_load_of db texts) es)) \<longleftrightarrow>
    (\<exists>e \<in> set es. me_action e = Allow \<and> is_star (me_domain e) = star \<and> me_group e = g \<and> me_domain e = p) \<or>
    (\<exists>s \<in> set (whitelist_sources db). \<exists>content. as_group_id s = g \<and> texts (as_url s) = Some content \<and>
      (\<exists>e \<in> set (parse_list_text content). f e = Some p))" (is ?iff)
  and all_allow_rules_nonzero:
  "(g, (p, b)) \<in> set (all_allow_rules star f (allow_load_of db texts) es) \<Longrightarrow> b \<noteq> 0" (is "?in \<Longrightarrow> _")
proof -
  define bits where "bits = allow_source_bits (ll_names (allow_load_of db texts))"
  have nz: "0 \<notin> snd ` set bits" using allow_bits_nonzero by (force simp: bits_def)
  note src = source_allow_rules_iff [OF nz]
  have srcs: "(asg, content) \<in> set (ll_sources (allow_load_of db texts)) \<longleftrightarrow>
      (\<exists>url. (url, asg) \<in> set (allow_urls (whitelist_sources db)) \<and> texts url = Some content)" for asg content
    unfolding allow_load_of_def allowlist_load.select_convs set_map_filter by force
  have "(\<exists>b. (g, (p, b)) \<in> set (concat (map (source_allow_rules f bits) (ll_sources (allow_load_of db texts))))) \<longleftrightarrow>
      (\<exists>asg content. (asg, content) \<in> set (ll_sources (allow_load_of db texts)) \<and>
        (\<exists>b. (g, (p, b)) \<in> set (source_allow_rules f bits (asg, content))))"
    by auto
  also have "\<dots> \<longleftrightarrow> (\<exists>url content. (\<exists>asg. (url, asg) \<in> set (allow_urls (whitelist_sources db)) \<and> g \<in> snd ` set asg) \<and>
      texts url = Some content \<and> (\<exists>e \<in> set (parse_list_text content). f e = Some p))"
    unfolding src(1) srcs by blast
  also have "\<dots> \<longleftrightarrow> (\<exists>s \<in> set (whitelist_sources db). \<exists>content. as_group_id s = g \<and>
      texts (as_url s) = Some content \<and> (\<exists>e \<in> set (parse_list_text content). f e = Some p))"
    unfolding allow_urls_groups by blast
  finally show ?iff
    by (auto simp: all_allow_rules_def managed_allow_rules_def simp flip: bits_def)
  show "b \<noteq> 0" if rule: ?in
  proof (cases "(g, (p, b)) \<in> set (managed_allow_rules star es)")
    case True
    then show ?thesis
      using push_bit_one_nonzero [of 63] by (auto simp: managed_allow_rules_def UNNAMED_ALLOW_BIT_def)
  next
    case False
    then obtain asg content where "(g, (p, b)) \<in> set (source_allow_rules f bits (asg, content))"
      using rule by (auto simp: all_allow_rules_def simp flip: bits_def)
    then show ?thesis by (rule src(2))
  qed
qed

lemma compiled_allowlist:
  "al_is_allowed (build_allowlist_index (allow_load_of db texts) (managed_entries (managed_rows db))) d g \<longleftrightarrow>
    allowed_by_rules db texts d g"
proof -
  let ?es = "managed_entries (managed_rows db)"
  let ?man = "map (\<lambda>p. (p, 1 :: u64)) (filter is_star (map lower (whitelist_rows db)))"
  have nz: "b \<noteq> 0" if "(p, b) \<in> set ?man" for p b using that by auto
  have glob: "trie_lookup (fold (\<lambda>(p, b). add_wildcard p b) ?man empty_trie) d \<noteq> 0 \<longleftrightarrow>
      (\<exists>r \<in> set (whitelist_rows db). is_star (lower r) \<and> covers_wildcard (lower r) d)"
    using trie.find_built_nonzero [of ?man d, OF nz] by (auto simp: image_iff)
  have ex: "group_any (push_all (\<lambda>(d, b). add_exact d b) [] (all_allow_rules False exact_name (allow_load_of db texts) ?es) [])
      g (\<lambda>es. map_of es d \<noteq> None) \<longleftrightarrow>
    (\<exists>b. (g, (d, b)) \<in> set (all_allow_rules False exact_name (allow_load_of db texts) ?es))"
    by (rule group_any_exact)
  have wild: "group_any (push_all (\<lambda>(p, b). add_wildcard p b) empty_trie
      (all_allow_rules True suffix_name (allow_load_of db texts) ?es) []) g (\<lambda>t. trie_lookup t d \<noteq> 0) \<longleftrightarrow>
    (\<exists>p. (\<exists>b. (g, (p, b)) \<in> set (all_allow_rules True suffix_name (allow_load_of db texts) ?es)) \<and> covers_wildcard p d)"
    using group_any_trie [of "all_allow_rules True suffix_name (allow_load_of db texts) ?es"] all_allow_rules_nonzero
    by blast
  have al: "al_is_allowed al d g \<longleftrightarrow> group_any (group_exact al) g (\<lambda>es. map_of es d \<noteq> None) \<or>
      group_any (group_wildcard al) g (\<lambda>t. trie_lookup t d \<noteq> 0) \<or> d \<in> global_exact al \<or>
      trie_lookup (global_wildcard al) d \<noteq> 0" for al
    by (simp add: al_is_allowed_def)
  have load: "ll_manual (allow_load_of db texts) = whitelist_rows db" by (simp add: allow_load_of_def)
  have man: "(\<exists>r \<in> set (whitelist_rows db). manual_covers (lower r) d) \<longleftrightarrow>
      (\<exists>r \<in> set (whitelist_rows db). lower r = d \<and> \<not> is_star d) \<or>
      (\<exists>r \<in> set (whitelist_rows db). is_star (lower r) \<and> covers_wildcard (lower r) d)"
    by (auto simp: manual_covers_def)
  have mgd: "(\<exists>e \<in> set ?es. me_action e = Allow \<and> me_group e = g \<and> manual_covers (me_domain e) d) \<longleftrightarrow>
      (\<exists>e \<in> set ?es. me_action e = Allow \<and> is_star (me_domain e) = False \<and> me_group e = g \<and> me_domain e = d) \<or>
      (\<exists>p. (\<exists>e \<in> set ?es. me_action e = Allow \<and> is_star (me_domain e) = True \<and> me_group e = g \<and> me_domain e = p)
        \<and> covers_wildcard p d)"
    unfolding manual_covers_def by (auto split: if_splits)
  show ?thesis
    unfolding al build_allowlist_index_eq allowlist_index.select_convs ex wild all_allow_rules_iff
      allowed_by_rules_def entry_covers_iff load glob mem_Collect_eq man mgd by blast
qed

section \<open>Group masks and source bits\<close>

lemma bit_manual: "bit MANUAL_SOURCE_BIT n \<longleftrightarrow> n = 63"
  using bit_single [of 63 n] by (simp add: MANUAL_SOURCE_BIT_def)

lemma bit_source: "bit (source_bit b) n \<longleftrightarrow> n = unat b mod 64"
  using bit_single [of "unat b mod 64" n] by (simp add: source_bit_def)

lemma bit_group_mask:
  "bit (case map_of (build_group_masks sources ids) g of Some m \<Rightarrow> m | None \<Rightarrow> MANUAL_SOURCE_BIT) n \<longleftrightarrow>
    n = 63 \<or> (\<exists>s \<in> set sources. sm_group_id s = g \<and> n = unat (sm_bit s) mod 64)"
proof -
  define mask_of where "mask_of m = (case map_of m g of Some b \<Rightarrow> b | None \<Rightarrow> MANUAL_SOURCE_BIT)" for m :: "u64 group_map"
  let ?add = "\<lambda>src m. AList.map_default (sm_group_id src) (MANUAL_SOURCE_BIT OR source_bit (sm_bit src))
    (\<lambda>bits. bits OR source_bit (sm_bit src)) m"
  have "mask_of (fold (\<lambda>g m. AList.update g MANUAL_SOURCE_BIT m) ids m) = MANUAL_SOURCE_BIT"
    if "mask_of m = MANUAL_SOURCE_BIT" for m
    using that by (induction ids arbitrary: m) (auto simp: mask_of_def update_conv)
  then have start: "mask_of (fold (\<lambda>g m. AList.update g MANUAL_SOURCE_BIT m) ids []) = MANUAL_SOURCE_BIT"
    by (simp add: mask_of_def)
  have "bit (mask_of (?add s m)) n \<longleftrightarrow> bit (mask_of m) n \<or> sm_group_id s = g \<and> n = unat (sm_bit s) mod 64" for s m
    by (auto simp: mask_of_def map_of_map_default bit_or_iff bit_source split: option.splits)
  then have "bit (mask_of (fold ?add sources m)) n \<longleftrightarrow>
      bit (mask_of m) n \<or> (\<exists>s \<in> set sources. sm_group_id s = g \<and> n = unat (sm_bit s) mod 64)" for m
    by (induction sources arbitrary: m) auto
  from this [of "fold (\<lambda>g m. AList.update g MANUAL_SOURCE_BIT m) ids []"] show ?thesis
    unfolding build_group_masks_def Let_def mask_of_def [symmetric] start bit_manual .
qed

lemma unat_source_index: "i < 63 \<Longrightarrow> unat (word_of_nat i :: u8) = i"
  by (simp add: unat_of_nat)

lemma map_of_index:
  assumes "distinct xs" "length xs \<le> n"
  shows "map_of (rev (zip xs [0..<n])) x = Some i \<longleftrightarrow> i < length xs \<and> xs ! i = x"
proof -
  have "distinct (map fst (rev (zip xs [0..<n])))" using assms by (simp add: rev_map [symmetric] map_fst_zip_take distinct_take)
  then have "map_of (rev (zip xs [0..<n])) x = Some i \<longleftrightarrow> (x, i) \<in> set (zip xs [0..<n])"
    by (simp add: map_of_eq_Some_iff)
  also have "\<dots> \<longleftrightarrow> i < length xs \<and> xs ! i = x" using assms by (auto simp: set_zip)
  finally show ?thesis .
qed

text \<open>The source with bit \<open>i\<close> is the \<open>i\<close>-th enabled one.\<close>

definition bit_sources :: "database \<Rightarrow> db_source list" where
  "bit_sources db = take 63 (blocklist_sources db)"

lemma sl_sources_iff:
  assumes "distinct (map ds_id (blocklist_sources db))"
  shows "s \<in> set (sl_sources (load_sources db)) \<longleftrightarrow>
    (\<exists>i < length (bit_sources db). (ds_id (bit_sources db ! i), sm_group_id s) \<in> set (source_groups db) \<and>
      sm_bit s = word_of_nat i)"
proof -
  have "distinct (map ds_id (bit_sources db))"
    using assms by (simp add: bit_sources_def take_map distinct_take flip: take_map)
  then have "map_of (rev (zip (map ds_id (bit_sources db)) [0..<63])) x = Some i \<longleftrightarrow>
      i < length (bit_sources db) \<and> ds_id (bit_sources db ! i) = x" for x i
    by (subst map_of_index) (auto simp: bit_sources_def)
  then show ?thesis
    unfolding load_sources_def Let_def source_load.select_convs set_map_filter bit_sources_def [symmetric]
    by (cases s) (force simp: split_beta)
qed

lemma source_texts_iff:
  "(b, content) \<in> set (source_texts (url_tasks (load_sources db)) texts) \<longleftrightarrow>
    (\<exists>i < length (bit_sources db). \<exists>url. b = word_of_nat i \<and> ds_url (bit_sources db ! i) = Some url \<and>
      texts url = Some content)"
proof -
  have z: "(i, r) \<in> set (zip [0..<63] (bit_sources db)) \<longleftrightarrow> i < length (bit_sources db) \<and> r = bit_sources db ! i" for i r
    by (auto simp: set_zip bit_sources_def intro!: exI [of _ i])
  have tasks: "url_tasks (load_sources db) =
      List.map_filter (\<lambda>(i, r). map_option (Pair (word_of_nat i)) (ds_url r)) (zip [0..<63] (bit_sources db))"
    by (simp add: load_sources_def Let_def bit_sources_def)
  have "(b, url) \<in> set (url_tasks (load_sources db)) \<longleftrightarrow>
      (\<exists>i r. (i, r) \<in> set (zip [0..<63] (bit_sources db)) \<and> b = word_of_nat i \<and> ds_url r = Some url)" for url
    unfolding tasks set_map_filter by (auto split: prod.splits)
  moreover have "(b, content) \<in> set (source_texts ts texts) \<longleftrightarrow> (\<exists>url. (b, url) \<in> set ts \<and> texts url = Some content)" for ts
    unfolding source_texts_def set_map_filter by (auto split: prod.splits)
  ultimately show ?thesis unfolding z by blast
qed

section \<open>The lists a group uses\<close>

definition source_entry :: "database \<Rightarrow> held_lists \<Rightarrow> i64 \<Rightarrow> parsed_entry list \<Rightarrow> bool" where
  "source_entry db texts g es \<longleftrightarrow>
    (\<exists>r \<in> set (bit_sources db). \<exists>url content. (ds_id r, g) \<in> set (source_groups db) \<and> ds_url r = Some url \<and>
      texts url = Some content \<and> es = parse_list_text content)"

abbreviation parsed_sources :: "database \<Rightarrow> held_lists \<Rightarrow> (u8 \<times> parsed_entry list) list" where
  "parsed_sources db texts \<equiv>
    map (\<lambda>(b, content). (b, parse_list_text content)) (source_texts (url_tasks (load_sources db)) texts)"

abbreviation db_mask :: "database \<Rightarrow> i64 \<Rightarrow> u64" where
  "db_mask db g \<equiv>
    (case map_of (build_group_masks (sl_sources (load_sources db)) (all_group_ids (load_sources db))) g of
       Some m \<Rightarrow> m | None \<Rightarrow> MANUAL_SOURCE_BIT)"

text \<open>The lists of the sources assigned to a group are those whose bit is in its mask.\<close>

lemma assigned_source_iff:
  assumes "distinct (map ds_id (blocklist_sources db))"
  shows "(\<exists>b. (b, es) \<in> set (parsed_sources db texts) \<and> source_bit b AND db_mask db g \<noteq> 0) \<longleftrightarrow>
    source_entry db texts g es"
proof -
  have len: "length (bit_sources db) \<le> 63" by (simp add: bit_sources_def)
  have msk: "source_bit (word_of_nat i) AND db_mask db g \<noteq> 0 \<longleftrightarrow>
      (ds_id (bit_sources db ! i), g) \<in> set (source_groups db)" if i: "i < length (bit_sources db)" for i
  proof -
    have u: "unat (word_of_nat j :: u8) mod 64 = j" if "j < length (bit_sources db)" for j
      using that len by (simp add: unat_source_index)
    have "source_bit (word_of_nat i) AND db_mask db g \<noteq> 0 \<longleftrightarrow>
        (\<exists>s \<in> set (sl_sources (load_sources db)). sm_group_id s = g \<and> i = unat (sm_bit s) mod 64)"
      unfolding word_nonzero_bit bit_and_iff bit_source bit_group_mask u [OF i] using i len by auto
    also have "\<dots> \<longleftrightarrow> (ds_id (bit_sources db ! i), g) \<in> set (source_groups db)"
      (is "?l \<longleftrightarrow> ?r")
    proof
      assume ?l
      then show ?r unfolding sl_sources_iff [OF assms] by (metis u sl_sources_iff [OF assms])
    next
      assume ?r
      then have "\<lparr>sm_group_id = g, sm_bit = word_of_nat i\<rparr> \<in> set (sl_sources (load_sources db))"
        unfolding sl_sources_iff [OF assms] using i by auto
      then show ?l using u [OF i] by force
    qed
    finally show ?thesis .
  qed
  have "(\<exists>b. (b, es) \<in> set (parsed_sources db texts) \<and> source_bit b AND db_mask db g \<noteq> 0) \<longleftrightarrow>
      (\<exists>b content. (b, content) \<in> set (source_texts (url_tasks (load_sources db)) texts) \<and>
        es = parse_list_text content \<and> source_bit b AND db_mask db g \<noteq> 0)"
    by auto
  also have "\<dots> \<longleftrightarrow> (\<exists>i < length (bit_sources db). \<exists>url content. ds_url (bit_sources db ! i) = Some url \<and>
      texts url = Some content \<and> es = parse_list_text content \<and>
      (ds_id (bit_sources db ! i), g) \<in> set (source_groups db))"
    unfolding source_texts_iff using msk by blast
  also have "\<dots> \<longleftrightarrow> source_entry db texts g es"
    unfolding source_entry_def by (metis in_set_conv_nth)
  finally show ?thesis .
qed

lemma source_rules_iff:
  "(p, m) \<in> set (source_rules f entries) \<longleftrightarrow>
    (\<exists>b es. (b, es) \<in> set entries \<and> m = source_bit b \<and> (\<exists>e \<in> set es. f e = Some p))"
  unfolding source_rules_def by (force simp: set_map_filter)

lemma parsed_source_not_manual: "(b, es) \<in> set (parsed_sources db texts) \<Longrightarrow> \<not> bit (source_bit b) 63"
proof -
  assume "(b, es) \<in> set (parsed_sources db texts)"
  then obtain i where "i < length (bit_sources db)" "b = word_of_nat i"
    using source_texts_iff by fastforce
  then have "i < 63" "b = word_of_nat i" by (simp_all add: bit_sources_def)
  then show ?thesis by (simp add: bit_source unat_source_index)
qed

definition source_hit ::
  "database \<Rightarrow> held_lists \<Rightarrow> (parsed_entry \<Rightarrow> string option) \<Rightarrow> (string \<Rightarrow> string \<Rightarrow> bool) \<Rightarrow> string \<Rightarrow> i64 \<Rightarrow> bool" where
  "source_hit db texts f cov d g \<longleftrightarrow>
    (\<exists>es e p. source_entry db texts g es \<and> e \<in> set es \<and> f e = Some p \<and> cov p d)"

lemma rule_hits:
  fixes w :: u64
  assumes dist: "distinct (map ds_id (blocklist_sources db))"
    and bits: "\<And>n. bit w n \<longleftrightarrow> (\<exists>p m. (p, m) \<in> set (map (\<lambda>d. (d, MANUAL_SOURCE_BIT)) man
      @ source_rules f (parsed_sources db texts)) \<and> cov p d \<and> bit m n)"
  shows "w AND db_mask db g \<noteq> 0 \<longleftrightarrow> (\<exists>p \<in> set man. cov p d) \<or> source_hit db texts f cov d g"
    "(w AND db_mask db g) AND MANUAL_SOURCE_BIT \<noteq> 0 \<longleftrightarrow> (\<exists>p \<in> set man. cov p d)"
proof -
  have rules: "(p, m) \<in> set (map (\<lambda>d. (d, MANUAL_SOURCE_BIT)) man @ source_rules f (parsed_sources db texts)) \<longleftrightarrow>
      p \<in> set man \<and> m = MANUAL_SOURCE_BIT \<or>
      (\<exists>b es. (b, es) \<in> set (parsed_sources db texts) \<and> m = source_bit b \<and> (\<exists>e \<in> set es. f e = Some p))" for p m
    unfolding set_append Un_iff source_rules_iff by auto
  have man: "MANUAL_SOURCE_BIT AND db_mask db g \<noteq> 0"
    unfolding word_nonzero_bit bit_and_iff bit_group_mask bit_manual by auto
  have "w AND db_mask db g \<noteq> 0 \<longleftrightarrow>
      (\<exists>p m. (p, m) \<in> set (map (\<lambda>d. (d, MANUAL_SOURCE_BIT)) man @ source_rules f (parsed_sources db texts)) \<and>
        cov p d \<and> m AND db_mask db g \<noteq> 0)"
    unfolding word_nonzero_bit bit_and_iff bits by blast
  also have "\<dots> \<longleftrightarrow> (\<exists>p \<in> set man. cov p d) \<or> source_hit db texts f cov d g"
    unfolding rules source_hit_def assigned_source_iff [OF dist, symmetric] using man by blast
  finally show "w AND db_mask db g \<noteq> 0 \<longleftrightarrow> (\<exists>p \<in> set man. cov p d) \<or> source_hit db texts f cov d g" .
  have "(w AND db_mask db g) AND MANUAL_SOURCE_BIT \<noteq> 0 \<longleftrightarrow> bit w 63"
    unfolding word_nonzero_bit bit_and_iff bit_group_mask bit_manual by auto
  also have "\<dots> \<longleftrightarrow> (\<exists>p \<in> set man. cov p d)"
    unfolding bits rules using parsed_source_not_manual bit_manual by blast
  finally show "(w AND db_mask db g) AND MANUAL_SOURCE_BIT \<noteq> 0 \<longleftrightarrow> (\<exists>p \<in> set man. cov p d)" .
qed

section \<open>The verdict of the rules\<close>

definition regex_rule_hits :: "tools \<Rightarrow> database \<Rightarrow> domain_action \<Rightarrow> string \<Rightarrow> i64 \<Rightarrow> bool" where
  "regex_rule_hits tk db a d g \<longleftrightarrow>
    (\<exists>row \<in> set (regex_rows db). parse_action (rx_action row) = Some a \<and> rx_group row = g \<and>
      (\<exists>m. regex_new tk (''(?i)'' @ rx_pattern row) = Some m \<and> m d = Some True))"

definition managed_deny_hits :: "database \<Rightarrow> string \<Rightarrow> i64 \<Rightarrow> bool" where
  "managed_deny_hits db d g \<longleftrightarrow>
    (\<exists>e \<in> set (managed_entries (managed_rows db)).
      me_action e = Deny \<and> me_group e = g \<and> manual_covers (me_domain e) d)"

definition pattern_hits :: "tools \<Rightarrow> database \<Rightarrow> held_lists \<Rightarrow> string \<Rightarrow> i64 \<Rightarrow> bool" where
  "pattern_hits tk db texts d g \<longleftrightarrow>
    (\<exists>es ac. source_entry db texts g es \<and> List.map_filter pattern_text es \<noteq> [] \<and>
      ac_build tk (List.map_filter pattern_text es) = Some ac \<and> ac d)"

text \<open>
  The order of precedence: allow rules, then the denies the operator wrote for the group, then
  the names of the blocklists, then their suffixes, then their substring patterns.
\<close>

definition rule_verdict :: "tools \<Rightarrow> database \<Rightarrow> held_lists \<Rightarrow> held_lists \<Rightarrow> string \<Rightarrow> i64 \<Rightarrow> verdict" where
  "rule_verdict tk db texts allow_texts d g =
    (if allowed_by_rules db allow_texts d g then ManualAllow
     else if regex_rule_hits tk db Allow d g then ManualAllow
     else if managed_deny_hits db d g then ManualDeny ManagedDomain
     else if regex_rule_hits tk db Deny d g then ManualDeny RegexFilter
     else if \<exists>r \<in> set (blocklist_rows db). lower r = d \<and> \<not> is_star d then ManualDeny Blocklist
     else if source_hit db texts exact_name (=) d g then Block Blocklist
     else if \<exists>r \<in> set (blocklist_rows db). is_star (lower r) \<and> covers_wildcard (lower r) d then ManualDeny Blocklist
     else if source_hit db texts suffix_name covers_wildcard d g then Block Blocklist
     else if pattern_hits tk db texts d g then Block Blocklist
     else NoMatch)"

definition list_texts :: "tools \<Rightarrow> database \<Rightarrow> held_lists \<Rightarrow> list_fetch \<Rightarrow> held_lists" where
  "list_texts tk db held mode =
    fst (fetch_lists (remdups (map snd (url_tasks (load_sources db)))) (fetch tk Blocklist_table) held mode Map.empty)"

definition allow_texts :: "tools \<Rightarrow> database \<Rightarrow> held_lists \<Rightarrow> list_fetch \<Rightarrow> held_lists" where
  "allow_texts tk db held mode =
    fst (fetch_lists (map fst (allow_urls (whitelist_sources db))) (fetch tk Whitelist_table) held mode
      (list_texts tk db held mode))"

lemma load_allowlists_eq:
  "load_allowlists db dl held mode next =
    (let t = fst (fetch_lists (map fst (allow_urls (whitelist_sources db))) dl held mode next) in (allow_load_of db t, t))"
  by (simp add: load_allowlists_def allow_load_of_def Let_def split: prod.splits)

lemma fold_insert_suffix: "fst (fold (insert_suffix es) rules (t, n)) = fold (\<lambda>(p, b). add_wildcard p b) rules t"
proof (induction rules arbitrary: t n)
  case (Cons r rules)
  obtain p b where r: "r = (p, b)" by (cases r)
  have "insert_suffix es r (t, n) = (add_wildcard p b t, snd (insert_suffix es r (t, n)))"
    by (simp add: insert_suffix_def add_wildcard_def r split: prod.splits)
  then show ?case using Cons.IH [of "add_wildcard p b t" "snd (insert_suffix es r (t, n))"]
    by (metis fold_Cons comp_apply prod.case r)
qed simp

text \<open>The parts of a compiled index, map by map.\<close>

definition compiled :: "tools \<Rightarrow> database \<Rightarrow> held_lists \<Rightarrow> held_lists \<Rightarrow> block_index \<Rightarrow> bool" where
  "compiled tk db texts atexts ix \<longleftrightarrow>
    (let man = map lower (blocklist_rows db); entries = parsed_sources db texts;
         es = managed_entries (managed_rows db); sl = load_sources db
     in group_masks ix = build_group_masks (sl_sources sl) (all_group_ids sl) \<and>
        exact ix = exact_of (exact_rules man entries) \<and>
        wildcard ix = fold (\<lambda>(p, b). add_wildcard p b) (suffix_rules man entries) empty_trie \<and>
        patterns ix = build_patterns (ac_build tk) entries \<and>
        allowlists ix = build_allowlist_index (allow_load_of db atexts) es \<and>
        managed_denies ix = push_all insert {} (deny_rules False es) [] \<and>
        managed_deny_wildcards ix = push_all (\<lambda>d. add_wildcard d 1) empty_trie (deny_rules True es) [] \<and>
        allow_regex_patterns ix = push_all (\<lambda>r rs. rs @ [r]) [] (regex_rules tk Allow (regex_rows db)) [] \<and>
        block_regex_patterns ix = push_all (\<lambda>r rs. rs @ [r]) [] (regex_rules tk Deny (regex_rows db)) [] \<and>
        total_blocked_domains ix = length (exact ix) +
          snd (fold (insert_suffix (exact ix)) (suffix_rules man entries) (empty_trie, 0)))"

lemma build_data:
  assumes size: "\<And>n. next_power_of_two (fst (bloom_size tk n)) < 2 ^ 64"
  shows "\<exists>data. build_exact_and_wildcard tk man entries = Got data \<and>
    bd_exact data = exact_of (exact_rules man entries) \<and>
    bd_wildcard data = fold (\<lambda>(p, b). add_wildcard p b) (suffix_rules man entries) empty_trie \<and>
    bd_patterns data = build_patterns (ac_build tk) entries \<and>
    bd_total_names data = length (bd_exact data) +
      snd (fold (insert_suffix (bd_exact data)) (suffix_rules man entries) (empty_trie, 0)) \<and>
    bloom_ok (bd_bloom data) \<and>
    (\<forall>d. map_of (bd_exact data) d \<noteq> None \<longrightarrow> bloom_check (fx_hash tk) (bd_bloom data) d = Got True)"
proof -
  let ?rules = "exact_rules man entries"
  obtain m h where mh: "bloom_size tk (max (exact_count man entries + 100) 1000) = (m, h)" by fastforce
  have ok: "bloom_ok (new_bloom m h)"
    using bloom_ok_new [of m h] size [of "max (exact_count man entries + 100) 1000"] mh by simp
  obtain filt where filt: "fold_res (bloom_set (fx_hash tk)) (map fst ?rules) (new_bloom m h) = Got filt" "bloom_ok filt"
    using bloom.adds_total [OF ok] by blast
  have "bloom_check (fx_hash tk) filt d = Got True" if "map_of (exact_of ?rules) d \<noteq> None" for d
    using that bloom.no_false_negative [OF ok filt(1)] exact_of_dom [of ?rules d] by simp
  then show ?thesis
    using filt fold_insert_suffix [of "exact_of ?rules" "suffix_rules man entries" empty_trie 0]
    by (auto simp: build_exact_and_wildcard_def mh Let_def split_beta)
qed

lemma compile_Got:
  assumes size: "\<And>n. next_power_of_two (fst (bloom_size tk n)) < 2 ^ 64"
  shows "\<exists>ix. compile_block_index tk db held mode = Got (ix, allow_texts tk db held mode) \<and>
    compiled tk db (list_texts tk db held mode) (allow_texts tk db held mode) ix \<and> index_ok (fx_hash tk) ix"
proof -
  let ?man = "map lower (blocklist_rows db)" and ?texts = "list_texts tk db held mode"
  let ?atexts = "allow_texts tk db held mode"
  obtain data where data: "build_exact_and_wildcard tk ?man (parsed_sources db ?texts) = Got data"
    "bd_exact data = exact_of (exact_rules ?man (parsed_sources db ?texts))"
    "bd_wildcard data = fold (\<lambda>(p, b). add_wildcard p b) (suffix_rules ?man (parsed_sources db ?texts)) empty_trie"
    "bd_patterns data = build_patterns (ac_build tk) (parsed_sources db ?texts)"
    "bd_total_names data = length (bd_exact data) +
      snd (fold (insert_suffix (bd_exact data)) (suffix_rules ?man (parsed_sources db ?texts)) (empty_trie, 0))"
    "bloom_ok (bd_bloom data)"
    "\<And>d. map_of (bd_exact data) d \<noteq> None \<Longrightarrow> bloom_check (fx_hash tk) (bd_bloom data) d = Got True"
    using build_data [OF size] by metis
  let ?es = "managed_entries (managed_rows db)"
  let ?denies = "push_all insert {} (deny_rules False ?es) []"
    and ?dwild = "push_all (\<lambda>d. add_wildcard d 1) empty_trie (deny_rules True ?es) []"
    and ?allow = "push_all (\<lambda>r rs. rs @ [r]) [] (regex_rules tk Allow (regex_rows db)) []"
    and ?block = "push_all (\<lambda>r rs. rs @ [r]) [] (regex_rules tk Deny (regex_rows db)) []"
  define ix where "ix = \<lparr>group_masks = build_group_masks (sl_sources (load_sources db)) (all_group_ids (load_sources db)),
    total_blocked_domains = bd_total_names data, exact = bd_exact data, bi_bloom = bd_bloom data,
    wildcard = bd_wildcard data, patterns = bd_patterns data,
    allowlists = build_allowlist_index (allow_load_of db ?atexts) ?es,
    managed_denies = ?denies, managed_deny_wildcards = ?dwild,
    allow_regex_patterns = ?allow, block_regex_patterns = ?block,
    groups_with_advanced_rules = set (map fst ?denies @ map fst ?dwild @ map fst ?allow @ map fst ?block),
    bit_to_source = sl_bit_to_source (load_sources db)\<rparr>"
  have "compile_block_index tk db held mode = Got (ix, ?atexts)"
    unfolding compile_block_index_def Let_def split_beta load_allowlists_eq build_regex_filters_def
      fold_add_regex fold_managed_deny fst_conv snd_conv list_texts_def [symmetric] allow_texts_def [symmetric]
    using data(1) [unfolded split_beta] by (simp add: ix_def [unfolded split_beta])
  moreover have "compiled tk db ?texts ?atexts ix"
    unfolding compiled_def Let_def ix_def using data by simp
  moreover have "index_ok (fx_hash tk) ix"
  proof -
    have "map_of es d \<noteq> Some 0" if "map_of (group_exact (allowlists ix)) g = Some es" for g es d
      using that group_exact_nonzero [OF all_allow_rules_nonzero]
      by (simp add: ix_def build_allowlist_index_eq)
    then show ?thesis unfolding index_ok_def using data by (simp add: ix_def) blast
  qed
  ultimately show ?thesis by blast
qed

section \<open>The index refines the rules\<close>

lemma compiledD:
  assumes "compiled tk db texts atexts ix"
  shows "group_mask ix g = db_mask db g"
    "exact_bits ix d = exact_find (exact_of (exact_rules (map lower (blocklist_rows db)) (parsed_sources db texts))) d"
    "wildcard ix = fold (\<lambda>(p, b). add_wildcard p b)
      (suffix_rules (map lower (blocklist_rows db)) (parsed_sources db texts)) empty_trie"
    "patterns ix = build_patterns (ac_build tk) (parsed_sources db texts)"
    "al_is_allowed (allowlists ix) d g \<longleftrightarrow> allowed_by_rules db atexts d g"
  using assms compiled_allowlist [of db atexts d g]
  by (simp_all add: compiled_def Let_def group_mask_def exact_bits_def exact_find_def)

lemma regex_rules_hit:
  "(\<exists>r. (g, r) \<in> set (regex_rules tk a (regex_rows db)) \<and> regex_hit d r) \<longleftrightarrow> regex_rule_hits tk db a d g"
proof -
  have "(g, r) \<in> set (regex_rules tk a rows) \<longleftrightarrow>
      (\<exists>row \<in> set rows. parse_action (rx_action row) = Some a \<and> rx_group row = g \<and>
        (\<exists>m. regex_new tk (''(?i)'' @ rx_pattern row) = Some m \<and>
          r = \<lparr>rr_id = rx_id row, rr_name = rx_name row, rr_match = m\<rparr>))" for r rows
    unfolding regex_rules_def set_map_filter by (auto split: if_splits)
  then show ?thesis unfolding regex_rule_hits_def by (force simp: regex_hit_def)
qed

lemma deny_rules_hit:
  "(g, d) \<in> set (deny_rules False es) \<or> (\<exists>p. (g, p) \<in> set (deny_rules True es) \<and> covers_wildcard p d) \<longleftrightarrow>
    (\<exists>e \<in> set es. me_action e = Deny \<and> me_group e = g \<and> manual_covers (me_domain e) d)"
  unfolding deny_rules_def manual_covers_def by (auto split: if_splits)

lemma advanced_compiled:
  assumes "compiled tk db texts atexts ix"
  shows "advanced_verdict ix d g =
    (if regex_rule_hits tk db Allow d g then Some ManualAllow
     else if managed_deny_hits db d g then Some (ManualDeny ManagedDomain)
     else if regex_rule_hits tk db Deny d g then Some (ManualDeny RegexFilter)
     else None)"
proof -
  have maps: "allow_regex_patterns ix = push_all (\<lambda>r rs. rs @ [r]) [] (regex_rules tk Allow (regex_rows db)) []"
    "block_regex_patterns ix = push_all (\<lambda>r rs. rs @ [r]) [] (regex_rules tk Deny (regex_rows db)) []"
    "managed_denies ix = push_all insert {} (deny_rules False (managed_entries (managed_rows db))) []"
    "managed_deny_wildcards ix =
      push_all (\<lambda>d. add_wildcard d 1) empty_trie (deny_rules True (managed_entries (managed_rows db))) []"
    using assms by (simp_all add: compiled_def Let_def)
  have hits: "managed_deny_hits db d g \<longleftrightarrow> (g, d) \<in> set (deny_rules False (managed_entries (managed_rows db))) \<or>
      (\<exists>p. (g, p) \<in> set (deny_rules True (managed_entries (managed_rows db))) \<and> covers_wildcard p d)"
    unfolding managed_deny_hits_def by (rule deny_rules_hit [symmetric])
  show ?thesis
    unfolding advanced_verdict_def maps group_any_regex group_any_denies group_any_deny_trie regex_rules_hit hits
    by auto
qed

lemma first_pattern_Some: "first_pattern ps d msk = Some m \<Longrightarrow> \<exists>ac sm. (ac, sm) \<in> set ps \<and> m = sm AND msk"
  by (induction ps d msk rule: first_pattern.induct) (auto simp: Let_def split: if_splits)

lemma build_patterns_iff:
  "(ac, m) \<in> set (build_patterns build entries) \<longleftrightarrow>
    (\<exists>b es. (b, es) \<in> set entries \<and> m = source_bit b \<and> List.map_filter pattern_text es \<noteq> [] \<and>
      build (List.map_filter pattern_text es) = Some ac)"
(is "?l \<longleftrightarrow> ?r")
proof
  show ?r if ?l
    using that unfolding build_patterns_def set_map_filter by (auto simp: Let_def split: if_splits) blast
  show ?l if ?r
  proof -
    obtain b es where "(b, es) \<in> set entries" "m = source_bit b" "List.map_filter pattern_text es \<noteq> []"
      "build (List.map_filter pattern_text es) = Some ac"
      using \<open>?r\<close> by blast
    then show ?thesis
      unfolding build_patterns_def set_map_filter by (intro bexI [of _ "(b, es)"]) (simp_all add: Let_def)
  qed
qed

lemma pattern_compiled:
  assumes dist: "distinct (map ds_id (blocklist_sources db))"
  shows "(case first_pattern (build_patterns (ac_build tk) (parsed_sources db texts)) d (db_mask db g) of
      Some bits \<Rightarrow> classify_deny Blocklist bits | None \<Rightarrow> NoMatch) =
    (if pattern_hits tk db texts d g then Block Blocklist else NoMatch)"
proof -
  let ?ps = "build_patterns (ac_build tk) (parsed_sources db texts)" and ?m = "db_mask db g"
  have hits: "pattern_hits tk db texts d g \<longleftrightarrow> (\<exists>ac m. (ac, m) \<in> set ?ps \<and> m AND ?m \<noteq> 0 \<and> ac d)"
    unfolding pattern_hits_def assigned_source_iff [OF dist, symmetric] build_patterns_iff by blast
  show ?thesis
  proof (cases "first_pattern ?ps d ?m")
    case None
    then have "\<not> pattern_hits tk db texts d g" unfolding hits first_pattern_None by blast
    then show ?thesis by (simp add: None)
  next
    case (Some m)
    then have "first_pattern ?ps d ?m \<noteq> None" by simp
    then have "pattern_hits tk db texts d g" unfolding hits first_pattern_None by blast
    moreover obtain b es where "m = source_bit b AND ?m" "(b, es) \<in> set (parsed_sources db texts)"
      using first_pattern_Some [OF Some] unfolding build_patterns_iff by blast
    then have "\<not> bit m 63" using parsed_source_not_manual bit_and_iff by blast
    then have "m AND MANUAL_SOURCE_BIT = 0" by (auto simp: bit_and_iff bit_manual intro!: bit_word_eqI)
    ultimately show ?thesis by (simp add: Some classify_deny_def)
  qed
qed

lemma evaluate_compiled:
  assumes dist: "distinct (map ds_id (blocklist_sources db))"
    and comp: "compiled tk db texts atexts ix" and ok: "index_ok fx ix"
  shows "evaluate fx ix d g = Got (rule_verdict tk db texts atexts d g)"
proof -
  let ?man = "map lower (blocklist_rows db)" and ?entries = "parsed_sources db texts"
  let ?e = "exact_bits ix d" and ?t = "trie_lookup (wildcard ix) d" and ?m = "db_mask db g"
  define E where "E \<longleftrightarrow> (\<exists>r \<in> set (blocklist_rows db). lower r = d \<and> \<not> is_star d)"
  define W where "W \<longleftrightarrow> (\<exists>r \<in> set (blocklist_rows db). is_star (lower r) \<and> covers_wildcard (lower r) d)"
  note c = compiledD [OF comp]
  have "(\<exists>p \<in> set (filter (\<lambda>d. \<not> is_star d) ?man). p = d) \<longleftrightarrow> E" by (auto simp: E_def)
  then have e: "?e AND ?m \<noteq> 0 \<longleftrightarrow> E \<or> source_hit db texts exact_name (=) d g"
    "(?e AND ?m) AND MANUAL_SOURCE_BIT \<noteq> 0 \<longleftrightarrow> E"
    using rule_hits [OF dist, of ?e "filter (\<lambda>d. \<not> is_star d) ?man" exact_name texts "(=)" d g]
      exact_table.bit_find_built [of "exact_rules ?man ?entries" d]
    unfolding c(2) exact_rules_def by blast+
  have "(\<exists>p \<in> set (filter is_star ?man). covers_wildcard p d) \<longleftrightarrow> W" by (auto simp: W_def)
  then have t: "?t AND ?m \<noteq> 0 \<longleftrightarrow> W \<or> source_hit db texts suffix_name covers_wildcard d g"
    "(?t AND ?m) AND MANUAL_SOURCE_BIT \<noteq> 0 \<longleftrightarrow> W"
    using rule_hits [OF dist, of ?t "filter is_star ?man" suffix_name texts covers_wildcard d g]
      trie.bit_find_built [of "suffix_rules ?man ?entries" d]
    unfolding c(3) suffix_rules_def by blast+
  have "list_verdict fx ix d ?m = Got
      (if E then ManualDeny Blocklist
       else if source_hit db texts exact_name (=) d g then Block Blocklist
       else if W then ManualDeny Blocklist
       else if source_hit db texts suffix_name covers_wildcard d g then Block Blocklist
       else if pattern_hits tk db texts d g then Block Blocklist else NoMatch)"
    unfolding list_verdict_eq [OF ok] check_wildcard_and_patterns_def Let_def c(4)
    using e t pattern_compiled [OF dist, of tk texts d g] by (cases E; cases W; simp add: classify_deny_def)
  then show ?thesis
    unfolding evaluate_eq [OF ok] c(1,5) advanced_compiled [OF comp] rule_verdict_def E_def W_def by simp
qed

section \<open>Counting names\<close>

lemma insert_suffix_count:
  assumes "\<And>p b. (p, b) \<in> set rules \<Longrightarrow> b \<noteq> 0"
  shows "snd (fold (insert_suffix es) rules (empty_trie, 0)) = card ((\<lambda>(p, b). strip_star p) ` set rules - fst ` set es)"
  using assms
proof (induction rules rule: rev_induct)
  case (snoc r rules)
  obtain p b where r: "r = (p, b)" by (cases r)
  have nz: "b \<noteq> 0" if "(p, b) \<in> set rules" for p b using snoc.prems [of p b] that by simp
  let ?t = "fold (\<lambda>(p, b). add_wildcard p b) rules empty_trie"
  obtain n where n: "fold (insert_suffix es) rules (empty_trie, 0) = (?t, n)"
    "n = card ((\<lambda>(p, b). strip_star p) ` set rules - fst ` set es)"
    using snoc.IH [OF nz] fold_insert_suffix [of es rules empty_trie 0] by (metis prod.collapse)
  have "snd (insert_suffix es r (?t, n)) =
      (if strip_star p \<notin> (\<lambda>(p, b). strip_star p) ` set rules \<and> strip_star p \<notin> fst ` set es then n + 1 else n)"
    using insert_wildcard_new [of rules p b, OF nz]
    by (cases "insert_wildcard ?t p b") (auto simp: insert_suffix_def r map_of_eq_None_iff)
  moreover have "card (insert x S - T) = (if x \<notin> S \<and> x \<notin> T then card (S - T) + 1 else card (S - T))"
    if "finite S" for x and S T :: "string set"
    using that by (auto simp: insert_Diff_if insert_absorb)
  ultimately show ?case by (simp add: n r)
qed simp

lemma source_bit_nonzero: "source_bit b \<noteq> 0"
  unfolding word_nonzero_bit bit_source by auto

lemma manual_bit_nonzero: "MANUAL_SOURCE_BIT \<noteq> 0"
  unfolding word_nonzero_bit bit_manual by auto

lemma suffix_rules_nonzero: "(p, b) \<in> set (suffix_rules man entries) \<Longrightarrow> b \<noteq> 0"
  using source_bit_nonzero manual_bit_nonzero by (auto simp: suffix_rules_def source_rules_iff)

section \<open>Properties\<close>

text \<open>
  C3. The compiler is correct: for every database and every outcome of the downloads it yields an
  index, without panicking, and for every name and group the verdict of that index is the one
  the operator's rules give in their order of precedence. Bit sets, tries, the Bloom filter and
  the grouping of rules leave no trace in the verdict.
\<close>

theorem compile_refines_rules:
  assumes "distinct (map ds_id (blocklist_sources db))"
    and "\<And>n. next_power_of_two (fst (bloom_size tk n)) < 2 ^ 64"
  shows "\<exists>ix. compile_block_index tk db held mode = Got (ix, allow_texts tk db held mode) \<and>
    index_ok (fx_hash tk) ix \<and>
    (\<forall>d g. evaluate (fx_hash tk) ix d g =
      Got (rule_verdict tk db (list_texts tk db held mode) (allow_texts tk db held mode) d g))"
  using compile_Got [OF assms(2), where db = db and held = held and mode = mode]
    evaluate_compiled [OF assms(1)] by metis

definition demo_tools :: tools where
  "demo_tools = \<lparr>fetch = \<lambda>_ _. Inr ''ads.example.com'', regex_new = \<lambda>_. None, ac_build = \<lambda>_. None,
    fx_hash = \<lambda>s. word_of_nat (length s), bloom_size = \<lambda>_. (64, 2)\<rparr>"

definition demo_db :: database where
  "demo_db = \<lparr>blocklist_sources = [\<lparr>ds_id = 4, ds_name = ''list'', ds_url = Some ''u''\<rparr>], source_groups = [(4, 1)],
    group_ids = [1], blocklist_rows = [''*.Example.com''], managed_rows = [], regex_rows = [],
    whitelist_rows = [''ok.example.com''], whitelist_sources = []\<rparr>"

lemma demo_facts:
  "distinct (map ds_id (blocklist_sources demo_db))"
  "next_power_of_two (fst (bloom_size demo_tools n)) < 2 ^ 64"
  "\<not> allowed_by_rules demo_db at ''ads.example.com'' 1"
  "\<not> regex_rule_hits demo_tools demo_db a d g" "\<not> managed_deny_hits demo_db d g"
  "source_hit demo_db (list_texts demo_tools demo_db Map.empty ReuseHeld) exact_name (=) ''ads.example.com'' 1"
  "lower ''*.Example.com'' = ''*.example.com''" "is_star ''*.example.com''"
  "covers_wildcard ''*.example.com'' ''ads.example.com''"
  "\<exists>r \<in> set (blocklist_rows demo_db). is_star (lower r) \<and> covers_wildcard (lower r) ''ads.example.com''"
  "\<forall>r \<in> set (blocklist_rows demo_db). lower r \<noteq> ''ads.example.com''"
proof -
  show "distinct (map ds_id (blocklist_sources demo_db))" by (simp add: demo_db_def)
  have "next_power_of_two 64 = 64" by (simp add: next_power_of_two.simps)
  then show "next_power_of_two (fst (bloom_size demo_tools n)) < 2 ^ 64" by (simp add: demo_tools_def)
  have "\<not> manual_covers (lower ''ok.example.com'') ''ads.example.com''" by code_simp
  then show "\<not> allowed_by_rules demo_db at ''ads.example.com'' 1"
    by (simp add: allowed_by_rules_def demo_db_def managed_entries_def List.map_filter_simps)
  show "\<not> regex_rule_hits demo_tools demo_db a d g" by (simp add: regex_rule_hits_def demo_db_def)
  show "\<not> managed_deny_hits demo_db d g"
    by (simp add: managed_deny_hits_def demo_db_def managed_entries_def List.map_filter_simps)
  have texts: "list_texts demo_tools demo_db Map.empty ReuseHeld ''u'' = Some ''ads.example.com''" by code_simp
  have parsed: "parse_list_text ''ads.example.com'' = [Exact ''ads.example.com'']" by code_simp
  have "source_entry demo_db (list_texts demo_tools demo_db Map.empty ReuseHeld) 1 [Exact ''ads.example.com'']"
    unfolding source_entry_def using texts parsed by (simp add: bit_sources_def demo_db_def)
  then show "source_hit demo_db (list_texts demo_tools demo_db Map.empty ReuseHeld) exact_name (=) ''ads.example.com'' 1"
    unfolding source_hit_def by force
  show low: "lower ''*.Example.com'' = ''*.example.com''" "is_star ''*.example.com''"
    "covers_wildcard ''*.example.com'' ''ads.example.com''" by (code_simp, code_simp, code_simp)
  then show "\<exists>r \<in> set (blocklist_rows demo_db). is_star (lower r) \<and> covers_wildcard (lower r) ''ads.example.com''"
    by (simp add: demo_db_def)
  show "\<forall>r \<in> set (blocklist_rows demo_db). lower r \<noteq> ''ads.example.com''" using low by (simp add: demo_db_def)
qed

theorem compile_refines_rules_witness:
  "\<exists>ix held'. compile_block_index demo_tools demo_db Map.empty ReuseHeld = Got (ix, held') \<and>
    evaluate (fx_hash demo_tools) ix ''ads.example.com'' 1 = Got (Block Blocklist)"
proof -
  have "rule_verdict demo_tools demo_db (list_texts demo_tools demo_db Map.empty ReuseHeld)
      (allow_texts demo_tools demo_db Map.empty ReuseHeld) ''ads.example.com'' 1 = Block Blocklist"
    unfolding rule_verdict_def using demo_facts by simp
  then show ?thesis
    using compile_refines_rules [OF demo_facts(1,2), where held = Map.empty and mode = ReuseHeld] by metis
qed

text \<open>
  C34. A manual wildcard does not keep its rank: when a downloaded list of the group names a host
  exactly, the verdict is that of the list, a plain block, even though the operator's manual
  blocklist covers the host with a wildcard. Such a block yields to the blocking toggle and to
  bypass schedules, which a manual deny does not.
\<close>

theorem manual_wildcard_outranked:
  assumes "distinct (map ds_id (blocklist_sources db))"
    and "\<And>n. next_power_of_two (fst (bloom_size tk n)) < 2 ^ 64"
    and "compile_block_index tk db held mode = Got (ix, held')"
    and "\<not> allowed_by_rules db (allow_texts tk db held mode) d g"
    and "\<not> regex_rule_hits tk db Allow d g" "\<not> regex_rule_hits tk db Deny d g" "\<not> managed_deny_hits db d g"
    and "\<exists>r \<in> set (blocklist_rows db). is_star (lower r) \<and> covers_wildcard (lower r) d"
    and "\<forall>r \<in> set (blocklist_rows db). lower r \<noteq> d"
  shows "evaluate (fx_hash tk) ix d g =
    Got (if source_hit db (list_texts tk db held mode) exact_name (=) d g then Block Blocklist else ManualDeny Blocklist)"
proof -
  obtain ix' where "compile_block_index tk db held mode = Got (ix', allow_texts tk db held mode)"
    "compiled tk db (list_texts tk db held mode) (allow_texts tk db held mode) ix'" "index_ok (fx_hash tk) ix'"
    using compile_Got [OF assms(2), where db = db and held = held and mode = mode] by blast
  then have "evaluate (fx_hash tk) ix d g =
      Got (rule_verdict tk db (list_texts tk db held mode) (allow_texts tk db held mode) d g)"
    using assms(3) evaluate_compiled [OF assms(1)] by simp
  then show ?thesis using assms(4-9) by (auto simp: rule_verdict_def)
qed

theorem manual_wildcard_outranked_witness:
  "\<exists>ix held'. compile_block_index demo_tools demo_db Map.empty ReuseHeld = Got (ix, held') \<and>
    evaluate (fx_hash demo_tools) ix ''ads.example.com'' 1 = Got (Block Blocklist)"
proof -
  obtain ix held' where ix: "compile_block_index demo_tools demo_db Map.empty ReuseHeld = Got (ix, held')"
    using compile_Got [of demo_tools demo_db Map.empty ReuseHeld, OF demo_facts(2)] by blast
  show ?thesis
    using manual_wildcard_outranked [OF demo_facts(1,2) ix demo_facts(3,4,4,5,10,11)] ix demo_facts(6) by auto
qed

text \<open>
  The number of blocked names the server reports counts every name once: names of exact
  entries and suffixes, from whichever sources and in whichever form they come.
\<close>

lemma blocked_names_counted_once:
  assumes "\<And>n. next_power_of_two (fst (bloom_size tk n)) < 2 ^ 64"
    and "compile_block_index tk db held mode = Got (ix, held')"
  shows "total_blocked_domains ix =
    card (fst ` set (exact_rules (map lower (blocklist_rows db)) (parsed_sources db (list_texts tk db held mode))) \<union>
      (\<lambda>(p, b). strip_star p) ` set (suffix_rules (map lower (blocklist_rows db))
        (parsed_sources db (list_texts tk db held mode))))"
proof -
  let ?e = "exact_rules (map lower (blocklist_rows db)) (parsed_sources db (list_texts tk db held mode))"
  let ?s = "suffix_rules (map lower (blocklist_rows db)) (parsed_sources db (list_texts tk db held mode))"
  have comp: "compiled tk db (list_texts tk db held mode) (allow_texts tk db held mode) ix"
    using compile_Got [OF assms(1), where db = db and held = held and mode = mode] assms(2) by force
  have keys: "fst ` set (exact_of ?e) = fst ` set ?e" using exact_keys [of ?e "[]"] by simp
  have "total_blocked_domains ix = card (fst ` set ?e) + card ((\<lambda>(p, b). strip_star p) ` set ?s - fst ` set ?e)"
    using comp insert_suffix_count [OF suffix_rules_nonzero]
    by (simp add: compiled_def Let_def length_exact_of keys)
  also have "\<dots> = card (fst ` set ?e \<union> ((\<lambda>(p, b). strip_star p) ` set ?s - fst ` set ?e))"
    by (subst card_Un_disjoint) auto
  finally show ?thesis by (simp add: Un_Diff_cancel)
qed

lemma blocked_names_counted_once_witness:
  "\<exists>ix held'. compile_block_index demo_tools demo_db Map.empty ReuseHeld = Got (ix, held') \<and> total_blocked_domains ix = 2"
proof -
  let ?t = "list_texts demo_tools demo_db Map.empty ReuseHeld"
  obtain ix held' where ix: "compile_block_index demo_tools demo_db Map.empty ReuseHeld = Got (ix, held')"
    using compile_Got [of demo_tools demo_db Map.empty ReuseHeld, OF demo_facts(2)] by blast
  have "card (fst ` set (exact_rules (map lower (blocklist_rows demo_db)) (parsed_sources demo_db ?t)) \<union>
      (\<lambda>(p, b). strip_star p) ` set (suffix_rules (map lower (blocklist_rows demo_db)) (parsed_sources demo_db ?t))) = 2"
    by code_simp
  then show ?thesis using blocked_names_counted_once [OF demo_facts(2) ix] ix by auto
qed

text \<open>
  A failed download never unblocks a list: after a fetch, the text in use for each requested
  list is the copy held when it is reused, the new text when the download succeeded, and the copy
  held before when it failed; the outcome recorded says which, and no other list is touched.
\<close>

lemma fetch_lists_outcomes:
  assumes "distinct urls" and "fetch_lists urls download held mode next = (texts, outcomes)"
  shows "(url \<notin> set urls \<longrightarrow> texts url = next url \<and> outcomes url = None) \<and>
    (url \<in> set urls \<and> mode = ReuseHeld \<and> held url \<noteq> None \<longrightarrow> texts url = held url \<and> outcomes url = None) \<and>
    (url \<in> set urls \<and> \<not> (mode = ReuseHeld \<and> held url \<noteq> None) \<longrightarrow>
      (case download url of
         Inr t \<Rightarrow> texts url = Some t \<and> outcomes url = Some (if held url = Some t then Unchanged else Updated)
       | Inl e \<Rightarrow> if held url \<noteq> None then texts url = held url \<and> outcomes url = Some FailedKeptCopy
           else texts url = next url \<and> outcomes url = Some FailedNoCopy))"
proof -
  define reused where "reused = (\<lambda>u. held u \<noteq> None \<and> mode = ReuseHeld)"
  have first: "fold (\<lambda>u n. n(u := held u)) us n url = (if url \<in> set us then held url else n url)" for us n
    by (induction us arbitrary: n) auto
  have step: "fold (fetch_one held) (map (\<lambda>u. (u, download u)) us) (n, out) = (n', out') \<Longrightarrow> distinct us \<Longrightarrow>
    (if url \<in> set us then
       (case download url of
          Inr t \<Rightarrow> n' url = Some t \<and> out' url = Some (if held url = Some t then Unchanged else Updated)
        | Inl e \<Rightarrow> if held url \<noteq> None then n' url = held url \<and> out' url = Some FailedKeptCopy
            else n' url = n url \<and> out' url = Some FailedNoCopy)
     else n' url = n url \<and> out' url = out url)" for us n out n' out'
  proof (induction us arbitrary: n out)
    case (Cons u us)
    obtain n1 out1 where one: "fetch_one held (u, download u) (n, out) = (n1, out1)" by fastforce
    have "fold (fetch_one held) (map (\<lambda>u. (u, download u)) us) (n1, out1) = (n', out')" "distinct us"
      using Cons.prems one by simp_all
    note IH = Cons.IH [OF this]
    show ?case
      using IH one Cons.prems(2) by (auto simp: fetch_one_def split: sum.splits option.splits if_splits)
  qed simp
  have "fold (fetch_one held) (map (\<lambda>u. (u, download u)) (filter (\<lambda>u. \<not> reused u) urls))
      (fold (\<lambda>u n. n(u := held u)) (filter reused urls) next, Map.empty) = (texts, outcomes)"
    using assms(2) unfolding fetch_lists_def Let_def reused_def .
  from step [OF this] show ?thesis
    using assms(1) by (cases "download url") (auto simp: first reused_def split: if_splits)
qed

lemma fetch_lists_outcomes_witness:
  "fst (fetch_lists [''u''] (\<lambda>_. Inl QueryTimeout) [''u'' \<mapsto> ''ads.example.com''] Redownload Map.empty) ''u''
    = Some ''ads.example.com''"
proof -
  obtain t out where f: "fetch_lists [''u''] (\<lambda>_. Inl QueryTimeout) [''u'' \<mapsto> ''ads.example.com''] Redownload Map.empty = (t, out)"
    by fastforce
  show ?thesis using fetch_lists_outcomes [OF _ f, of "''u''"] f by simp
qed

end
