(* ===== verification/Decision_Cache.thy ===== *)
theory Decision_Cache
  imports Block_Index
begin

unbundle bit_operations_syntax

text \<open>
  The two-level cache of filter verdicts (\<open>infrastructure/src/dns/block_filter/decision_cache.rs\<close>):
  a thread-local level whose entries carry the epoch they were written in, and a shared level of
  64 shards. The bounded maps of the lru crate are the parameter \<open>lru_ops\<close>; the interface
  \<open>lru_laws\<close> states their documented behaviour, and the bounded recency list below meets it. Times are
  readings of the coarse clock, passed in; the hash that makes a key of a name and a group is an
  argument of the engine.
\<close>

section \<open>Least-recently-used maps\<close>

record ('s, 'k, 'v) lru_ops =
  lru_get :: "'s \<Rightarrow> 'k \<Rightarrow> 'v option \<times> 's"
  lru_put :: "'s \<Rightarrow> 'k \<Rightarrow> 'v \<Rightarrow> 's"
  lru_pop :: "'s \<Rightarrow> 'k \<Rightarrow> 's"
  lru_clear :: "'s \<Rightarrow> 's"
  lru_new :: "nat \<Rightarrow> 's"

locale lru_laws =
  fixes ops :: "('s, 'k, 'v) lru_ops" and view :: "'s \<Rightarrow> 'k \<Rightarrow> 'v option"
  assumes get_view: "fst (lru_get ops s k) = view s k"
    and get_keeps: "view (snd (lru_get ops s k)) = view s"
    and put_same: "view (lru_put ops s k v) k = Some v"
    and put_other: "j \<noteq> k \<Longrightarrow> view (lru_put ops s k v) j \<in> {view s j, None}"
    and pop_view: "view (lru_pop ops s k) = (view s)(k := None)"
    and clear_view: "view (lru_clear ops s) = Map.empty"
    and new_view: "0 < c \<Longrightarrow> view (lru_new ops c) = Map.empty"
begin

lemma put_cases: "view (lru_put ops s k v) j = Some w \<Longrightarrow> j = k \<and> w = v \<or> j \<noteq> k \<and> view s j = Some w"
  using put_same [of s k v] put_other [of j k s v] by (cases "j = k") auto

end

text \<open>A recency list, most recent first, and its capacity.\<close>

type_synonym ('k, 'v) recency = "nat \<times> ('k \<times> 'v) list"

definition recency_ops :: "(('k, 'v) recency, 'k, 'v) lru_ops" where
  "recency_ops =
    \<lparr>lru_get = \<lambda>(c, xs) k. (case map_of xs k of
       None \<Rightarrow> (None, (c, xs)) | Some v \<Rightarrow> (Some v, (c, (k, v) # filter (\<lambda>(j, _). j \<noteq> k) xs))),
     lru_put = \<lambda>(c, xs) k v. (c, (k, v) # take (c - 1) (filter (\<lambda>(j, _). j \<noteq> k) xs)),
     lru_pop = \<lambda>(c, xs) k. (c, filter (\<lambda>(j, _). j \<noteq> k) xs),
     lru_clear = \<lambda>(c, xs). (c, []), lru_new = \<lambda>c. (c, [])\<rparr>"

lemma map_of_filter_key: "map_of (filter (\<lambda>(j, _). j \<noteq> k) xs) = (map_of xs)(k := None)"
  by (induction xs) auto

lemma map_of_take: "map_of (take n xs) j \<in> {map_of xs j, None}"
proof (cases "map_of (take n xs) j")
  case (Some v)
  then have "map_of (take n xs @ drop n xs) j = Some v" unfolding map_of_append map_add_Some_iff by blast
  then show ?thesis using Some by simp
qed simp

interpretation recency: lru_laws recency_ops "\<lambda>s. map_of (snd s)"
proof
  fix s :: "('k, 'v) recency" and k j :: 'k and v :: 'v and c :: nat
  obtain n xs where s: "s = (n, xs)" by (cases s)
  show "fst (lru_get recency_ops s k) = map_of (snd s) k"
    by (simp add: recency_ops_def s split: option.splits)
  show "map_of (snd (snd (lru_get recency_ops s k))) = map_of (snd s)"
    by (auto simp: recency_ops_def s map_of_filter_key split: option.splits)
  show "map_of (snd (lru_put recency_ops s k v)) k = Some v" by (simp add: recency_ops_def s)
  show "map_of (snd (lru_put recency_ops s k v)) j \<in> {map_of (snd s) j, None}" if "j \<noteq> k"
    using that map_of_take [of "n - 1" "filter (\<lambda>(j, _). j \<noteq> k) xs" j]
    by (simp add: recency_ops_def s map_of_filter_key)
  show "map_of (snd (lru_pop recency_ops s k)) = (map_of (snd s))(k := None)"
    by (simp add: recency_ops_def s map_of_filter_key)
  show "map_of (snd (lru_clear recency_ops s)) = Map.empty" by (simp add: recency_ops_def s)
  show "map_of (snd (lru_new recency_ops c :: ('k, 'v) recency)) = Map.empty" by (simp add: recency_ops_def)
qed

section \<open>Verdicts as bytes\<close>

definition TTL_SECS :: u64 where "TTL_SECS = 60"
definition L0_CAPACITY :: nat where "L0_CAPACITY = 256"
definition L1_CAPACITY :: nat where "L1_CAPACITY = 100000"
definition L1_SHARDS :: nat where "L1_SHARDS = 64"
definition CACHE_ALLOW :: u8 where "CACHE_ALLOW = 0"
definition CACHE_MANUAL :: u8 where "CACHE_MANUAL = 0x80"

fun encode_verdict :: "verdict \<Rightarrow> u8" where
  "encode_verdict NoMatch = CACHE_ALLOW"
| "encode_verdict ManualAllow = CACHE_MANUAL"
| "encode_verdict (Block s) = as_u8 s + 1"
| "encode_verdict (ManualDeny s) = CACHE_MANUAL OR (as_u8 s + 1)"

definition decode_verdict :: "u8 \<Rightarrow> verdict" where
  "decode_verdict val =
    (let manual = (val AND CACHE_MANUAL \<noteq> 0); encoded = val AND NOT CACHE_MANUAL in
     if encoded = CACHE_ALLOW then (if manual then ManualAllow else NoMatch)
     else case from_u8 (encoded - 1) of
       Some s \<Rightarrow> if manual then ManualDeny s else Block s
     | None \<Rightarrow> NoMatch)"

lemma verdict_byte: "decode_verdict (encode_verdict v) = v"
proof -
  let ?all = "NoMatch # ManualAllow # map Block all_sources @ map ManualDeny all_sources"
  have "list_all (\<lambda>v. decode_verdict (encode_verdict v) = v) ?all" by code_simp
  moreover have "v \<in> set ?all" using all_sources_complete by (cases v) auto
  ultimately show ?thesis by (simp only: list_all_iff)
qed

section \<open>The caches\<close>

type_synonym l0_entry = "u8 \<times> u64 \<times> u64"
type_synonym l1_entry = "u8 \<times> u64"

record ('x, 'y) decision_state =
  ds_epoch :: u64
  ds_l0 :: "nat \<Rightarrow> 'x"
  ds_shards :: "'y list"

record ('x, 'y) cache_ops =
  l0_ops :: "('x, u64, l0_entry) lru_ops"
  l1_ops :: "('y, u64, l1_entry) lru_ops"

definition new_decision_state :: "('x, 'y) cache_ops \<Rightarrow> ('x, 'y) decision_state" where
  "new_decision_state co =
    \<lparr>ds_epoch = 0, ds_l0 = \<lambda>_. lru_new (l0_ops co) L0_CAPACITY,
     ds_shards = replicate L1_SHARDS (lru_new (l1_ops co) (max 1 ((L1_CAPACITY + L1_SHARDS - 1) div L1_SHARDS)))\<rparr>"

definition decision_l0_get ::
  "('x, 'y) cache_ops \<Rightarrow> u64 \<Rightarrow> nat \<Rightarrow> u64 \<Rightarrow> ('x, 'y) decision_state \<Rightarrow> verdict option \<times> ('x, 'y) decision_state" where
  "decision_l0_get co now t key st =
    (case lru_get (l0_ops co) (ds_l0 st t) key of
       (Some (encoded, expires_at, epoch), c) \<Rightarrow>
         if epoch = ds_epoch st \<and> now < expires_at
         then (Some (decode_verdict encoded), st\<lparr>ds_l0 := (ds_l0 st)(t := c)\<rparr>)
         else (None, st\<lparr>ds_l0 := (ds_l0 st)(t := lru_pop (l0_ops co) c key)\<rparr>)
     | (None, c) \<Rightarrow> (None, st\<lparr>ds_l0 := (ds_l0 st)(t := c)\<rparr>))"

definition decision_l0_set ::
  "('x, 'y) cache_ops \<Rightarrow> nat \<Rightarrow> u64 \<Rightarrow> verdict \<Rightarrow> u64 \<Rightarrow> ('x, 'y) decision_state \<Rightarrow> ('x, 'y) decision_state" where
  "decision_l0_set co t key v expires_at st =
    st\<lparr>ds_l0 := (ds_l0 st)(t :=
      lru_put (l0_ops co) (ds_l0 st t) key (encode_verdict v, expires_at, ds_epoch st))\<rparr>"

definition decision_l0_clear :: "('x, 'y) decision_state \<Rightarrow> ('x, 'y) decision_state" where
  "decision_l0_clear st = st\<lparr>ds_epoch := ds_epoch st + 1\<rparr>"

definition shard_index :: "u64 \<Rightarrow> nat" where
  "shard_index key = unat (drop_bit 56 (key * 0x9E3779B97F4A7C15) AND (word_of_nat (L1_SHARDS - 1)))"

definition l1_get ::
  "('x, 'y) cache_ops \<Rightarrow> u64 \<Rightarrow> u64 \<Rightarrow> ('x, 'y) decision_state \<Rightarrow> (verdict \<times> u64) option \<times> ('x, 'y) decision_state" where
  "l1_get co now key st =
    (let i = shard_index key in
     case lru_get (l1_ops co) (ds_shards st ! i) key of
       (None, c) \<Rightarrow> (None, st\<lparr>ds_shards := (ds_shards st)[i := c]\<rparr>)
     | (Some (encoded, expires_at), c) \<Rightarrow>
         if now < expires_at
         then (Some (decode_verdict encoded, expires_at), st\<lparr>ds_shards := (ds_shards st)[i := c]\<rparr>)
         else (None, st\<lparr>ds_shards := (ds_shards st)[i := lru_pop (l1_ops co) c key]\<rparr>))"

definition l1_set_with_ttl ::
  "('x, 'y) cache_ops \<Rightarrow> u64 \<Rightarrow> u64 \<Rightarrow> verdict \<Rightarrow> u64 \<Rightarrow> ('x, 'y) decision_state \<Rightarrow> u64 \<times> ('x, 'y) decision_state" where
  "l1_set_with_ttl co now key v ttl st =
    (let expires_at = sat_add now ttl; i = shard_index key in
     (expires_at, st\<lparr>ds_shards := (ds_shards st)[i :=
        lru_put (l1_ops co) (ds_shards st ! i) key (encode_verdict v, expires_at)]\<rparr>))"

definition l1_set :: "('x, 'y) cache_ops \<Rightarrow> u64 \<Rightarrow> u64 \<Rightarrow> verdict \<Rightarrow> ('x, 'y) decision_state \<Rightarrow> u64 \<times> ('x, 'y) decision_state" where
  "l1_set co now key v st = l1_set_with_ttl co now key v TTL_SECS st"

definition l1_clear :: "('x, 'y) cache_ops \<Rightarrow> ('x, 'y) decision_state \<Rightarrow> ('x, 'y) decision_state" where
  "l1_clear co st =
    st\<lparr>ds_shards := map (lru_clear (l1_ops co)) (ds_shards st)\<rparr>"

lemma shard_index_lt: "shard_index key < L1_SHARDS"
proof -
  have "drop_bit 56 (key * 0x9E3779B97F4A7C15) AND 63 \<le> (63 :: u64)" by (rule word_and_le1)
  then show ?thesis by (simp add: shard_index_def L1_SHARDS_def word_le_nat_alt)
qed

section \<open>Lookups after updates\<close>

lemma epoch_succ: "e \<noteq> - 1 \<Longrightarrow> e < e + 1" for e :: u64
proof -
  assume "e \<noteq> - 1"
  then have "unat e \<noteq> 2 ^ 64 - 1" using unat_max_word [where 'a = 64] by (simp add: word_unat_eq_iff)
  then have "unat e + unat (1 :: u64) < 2 ^ LENGTH(64)" using unat_u64_lt [of e] by (simp del: unat_u64_lt)
  from unat_add_no_wrap [OF this] show ?thesis by (simp add: word_less_nat_alt)
qed

text \<open>No thread-local entry is from the future, and the shards are all there.\<close>

definition caches_ok :: "('x \<Rightarrow> u64 \<Rightarrow> l0_entry option) \<Rightarrow> ('x, 'y) decision_state \<Rightarrow> bool" where
  "caches_ok view st \<longleftrightarrow> length (ds_shards st) = L1_SHARDS \<and>
    (\<forall>t k e x ep. view (ds_l0 st t) k = Some (e, x, ep) \<longrightarrow> ep \<le> ds_epoch st)"

locale decision_caches =
  l0: lru_laws "l0_ops co" view0 + l1: lru_laws "l1_ops co" view1
  for co :: "('x, 'y) cache_ops" and view0 :: "'x \<Rightarrow> u64 \<Rightarrow> l0_entry option" and view1 :: "'y \<Rightarrow> u64 \<Rightarrow> l1_entry option"
begin

lemma l0_get_result:
  "fst (decision_l0_get co now t key st) =
    (case view0 (ds_l0 st t) key of
       Some (e, x, ep) \<Rightarrow> if ep = ds_epoch st \<and> now < x then Some (decode_verdict e) else None
     | None \<Rightarrow> None)"
  using l0.get_view [of "ds_l0 st t" key]
  by (auto simp: decision_l0_get_def split: prod.splits option.splits)

lemma l1_get_result:
  "fst (l1_get co now key st) =
    (case view1 (ds_shards st ! shard_index key) key of
       Some (e, x) \<Rightarrow> if now < x then Some (decode_verdict e, x) else None
     | None \<Rightarrow> None)"
  using l1.get_view [of "ds_shards st ! shard_index key" key]
  by (auto simp: l1_get_def Let_def split: prod.splits option.splits)

text \<open>A lookup drops entries at most.\<close>

lemma l0_get_state:
  "ds_epoch (snd (decision_l0_get co now t key st)) = ds_epoch st"
  "ds_shards (snd (decision_l0_get co now t key st)) = ds_shards st"
  "view0 (ds_l0 (snd (decision_l0_get co now t key st)) u) k \<in> {view0 (ds_l0 st u) k, None}"
  using l0.get_keeps [of "ds_l0 st t" key] l0.pop_view [of "snd (lru_get (l0_ops co) (ds_l0 st t) key)" key]
  by (auto simp: decision_l0_get_def split: prod.splits option.splits if_splits)

lemma l1_get_state:
  "ds_epoch (snd (l1_get co now key st)) = ds_epoch st"
  "ds_l0 (snd (l1_get co now key st)) = ds_l0 st"
  "length (ds_shards (snd (l1_get co now key st))) = length (ds_shards st)"
  by (auto simp: l1_get_def Let_def split: prod.splits option.splits if_splits)

lemma caches_ok_l0_get: "caches_ok view0 st \<Longrightarrow> caches_ok view0 (snd (decision_l0_get co now t key st))"
  using l0_get_state(3) [of now t key st] unfolding caches_ok_def l0_get_state by (metis insertE option.distinct(1) singletonD)

lemma caches_ok_l1_get: "caches_ok view0 st \<Longrightarrow> caches_ok view0 (snd (l1_get co now key st))"
  unfolding caches_ok_def l1_get_state by simp

lemma caches_ok_l1_set: "caches_ok view0 st \<Longrightarrow> caches_ok view0 (snd (l1_set_with_ttl co now key v ttl st))"
  by (simp add: caches_ok_def l1_set_with_ttl_def Let_def)

lemma caches_ok_l0_set: "caches_ok view0 st \<Longrightarrow> caches_ok view0 (decision_l0_set co t key v x st)"
  by (auto simp: caches_ok_def decision_l0_set_def dest!: l0.put_cases split: if_splits)

lemma caches_ok_l1_clear: "caches_ok view0 st \<Longrightarrow> caches_ok view0 (l1_clear co st)"
  by (simp add: caches_ok_def l1_clear_def)

lemma caches_ok_l0_clear:
  assumes "caches_ok view0 st" "ds_epoch st \<noteq> - 1"
  shows "caches_ok view0 (decision_l0_clear st)"
proof -
  have "ds_epoch st \<le> ds_epoch st + 1" using epoch_succ [OF assms(2)] by simp
  then show ?thesis using assms(1) unfolding caches_ok_def decision_l0_clear_def
    by (simp, meson order_trans)
qed

lemma caches_ok_new: "caches_ok view0 (new_decision_state co)"
  by (simp add: caches_ok_def new_decision_state_def l0.new_view L0_CAPACITY_def)

text \<open>After a clear nothing is found, on any thread.\<close>

lemma cleared_misses:
  assumes "caches_ok view0 st" "ds_epoch st \<noteq> - 1"
  shows "fst (decision_l0_get co now t key (decision_l0_clear (l1_clear co st))) = None"
    "fst (l1_get co now key (decision_l0_clear (l1_clear co st))) = None"
proof -
  have "ep \<noteq> ds_epoch st + 1" if "view0 (ds_l0 st t) key = Some (e, x, ep)" for e x ep
  proof -
    have "ep \<le> ds_epoch st" using assms(1) that unfolding caches_ok_def by blast
    moreover have "ds_epoch st < ds_epoch st + 1" by (rule epoch_succ [OF assms(2)])
    ultimately show ?thesis by force
  qed
  then show "fst (decision_l0_get co now t key (decision_l0_clear (l1_clear co st))) = None"
    unfolding l0_get_result by (auto simp: decision_l0_clear_def l1_clear_def split: option.splits)
  show "fst (l1_get co now key (decision_l0_clear (l1_clear co st))) = None"
    using assms(1) shard_index_lt [of key]
    unfolding l1_get_result by (simp add: decision_l0_clear_def l1_clear_def caches_ok_def l1.clear_view)
qed

text \<open>What was just stored is found until it expires.\<close>

lemma l0_set_get: "now < x \<Longrightarrow> fst (decision_l0_get co now t key (decision_l0_set co t key v x st)) = Some v"
  unfolding l0_get_result by (simp add: decision_l0_set_def l0.put_same verdict_byte)

lemma l1_set_get:
  assumes "length (ds_shards st) = L1_SHARDS" "l1_set_with_ttl co now key v ttl st = (x, st')" "now2 < x"
  shows "fst (l1_get co now2 key st') = Some (v, x)"
  using assms shard_index_lt [of key]
  unfolding l1_get_result by (auto simp: l1_set_with_ttl_def Let_def l1.put_same verdict_byte)

end

type_synonym 'v recency_map = "(u64, 'v) recency"

definition recency_caches :: "(l0_entry recency_map, l1_entry recency_map) cache_ops" where
  "recency_caches = \<lparr>l0_ops = recency_ops, l1_ops = recency_ops\<rparr>"

interpretation recency_caches: decision_caches recency_caches "\<lambda>s. map_of (snd s)" "\<lambda>s. map_of (snd s)"
  unfolding decision_caches_def recency_caches_def by (simp add: recency.lru_laws_axioms)

section \<open>Properties\<close>

text \<open>
  The byte a verdict is cached as decodes to that verdict: no verdict, source or tier is lost
  or confused with another, whatever number of block sources there are today.
\<close>

lemma verdict_byte_roundtrip:
  "decode_verdict (encode_verdict v) = v \<and> (encode_verdict v = encode_verdict w \<longleftrightarrow> v = w)"
  by (metis verdict_byte)

end
