(* ===== verification/Filter_Engine.thy ===== *)
theory Filter_Engine
  imports Block_Rules Decision_Cache Ip_Addr
begin

unbundle bit_operations_syntax

text \<open>
  The filter engine (\<open>infrastructure/src/dns/block_filter/engine.rs\<close>) and the subnet matcher of
  the domain crate (\<open>entities/client_subnet.rs\<close>): reloads with their tickets, the group a client
  belongs to, the memoised verdict, and the decision on a query with its tiers. Networks
  (ipnetwork) are the predicate they decide and their prefix length; the override a schedule
  puts on a group is an argument; \<open>clk i\<close> is the \<open>i\<close>-th reading of the coarse clock during a call.
\<close>

section \<open>Client groups\<close>

record ip_network =
  net_contains :: "ip_addr \<Rightarrow> bool"
  net_prefix :: u8

type_synonym subnet_matcher = "(ip_network \<times> i64) list"

fun new_matcher :: "(string \<Rightarrow> string + ip_network) \<Rightarrow> (string \<times> i64) list \<Rightarrow> string + subnet_matcher" where
  "new_matcher parse [] = Inr []"
| "new_matcher parse ((cidr, g) # rest) =
    (case parse cidr of
       Inl e \<Rightarrow> Inl (''Invalid CIDR '' @ cidr @ '': '' @ e)
     | Inr n \<Rightarrow> (case new_matcher parse rest of Inl e \<Rightarrow> Inl e | Inr ns \<Rightarrow> Inr ((n, g) # ns)))"

text \<open>\<open>min_by_key\<close> on the reversed prefix keeps the first of equal candidates.\<close>

definition better :: "(ip_network \<times> i64) option \<Rightarrow> ip_network \<times> i64 \<Rightarrow> (ip_network \<times> i64) option" where
  "better best x =
    (case best of None \<Rightarrow> Some x
     | Some b \<Rightarrow> if net_prefix (fst b) < net_prefix (fst x) then Some x else Some b)"

definition find_group_for_ip :: "subnet_matcher \<Rightarrow> ip_addr \<Rightarrow> i64 option" where
  "find_group_for_ip m ip = map_option snd (foldl better None (filter (\<lambda>(n, _). net_contains n ip) m))"

section \<open>The engine\<close>

datatype group_override = BlockAll | AllowAll | TimedBypassUntil u64 | TimedBlockUntil u64

datatype filter_decision = Filter_Block block_source | Filter_Allow | Filter_ExplicitAllow

record ('x, 'y, 'z) filter_engine =
  eng_index :: block_index
  eng_cache :: "('x, 'y) decision_state"
  reload_tickets :: u64
  published_ticket :: u64
  eng_lists :: held_lists
  client_groups :: "ip_addr \<Rightarrow> i64 option"
  subnet_matcher :: "subnet_matcher option"
  group_epoch :: u64
  group_l0 :: "nat \<Rightarrow> 'z"
  blocking_enabled :: bool
  default_group_id :: i64

definition issue_reload_ticket :: "('x, 'y, 'z) filter_engine \<Rightarrow> u64 \<times> ('x, 'y, 'z) filter_engine" where
  "issue_reload_ticket eng = (reload_tickets eng + 1, eng\<lparr>reload_tickets := reload_tickets eng + 1\<rparr>)"

definition clear_decisions :: "('x, 'y) cache_ops \<Rightarrow> ('x, 'y) decision_state \<Rightarrow> ('x, 'y) decision_state" where
  "clear_decisions co st = decision_l0_clear (l1_clear co st)"

definition rebuild_through ::
  "tools \<Rightarrow> ('x, 'y) cache_ops \<Rightarrow> database \<Rightarrow> u64 \<Rightarrow> list_fetch \<Rightarrow> ('x, 'y, 'z) filter_engine \<Rightarrow> ('x, 'y, 'z) filter_engine res" where
  "rebuild_through tk co db ticket mode eng =
    (if mode = ReuseHeld \<and> ticket \<le> published_ticket eng then Got eng
     else
       let covered = reload_tickets eng in
       and_then (compile_block_index tk db (eng_lists eng) mode) (\<lambda>(new_index, lists).
       Got (eng\<lparr>eng_lists := lists, eng_index := new_index, eng_cache := clear_decisions co (eng_cache eng),
                published_ticket := covered\<rparr>)))"

definition rebuild_detached ::
  "tools \<Rightarrow> ('x, 'y) cache_ops \<Rightarrow> database \<Rightarrow> list_fetch \<Rightarrow> ('x, 'y, 'z) filter_engine \<Rightarrow> ('x, 'y, 'z) filter_engine res" where
  "rebuild_detached tk co db mode eng =
    (let (ticket, eng) = issue_reload_ticket eng in rebuild_through tk co db ticket mode eng)"

definition resolve_group_uncached :: "('x, 'y, 'z) filter_engine \<Rightarrow> ip_addr \<Rightarrow> i64" where
  "resolve_group_uncached eng ip =
    (case client_groups eng ip of
       Some g \<Rightarrow> g
     | None \<Rightarrow>
         (case Option.bind (subnet_matcher eng) (\<lambda>m. find_group_for_ip m ip) of
            Some g \<Rightarrow> g
          | None \<Rightarrow> default_group_id eng))"

definition load_client_groups_inner ::
  "(string \<Rightarrow> string + ip_network) \<Rightarrow> (string \<times> i64) list \<Rightarrow> (string \<times> i64) list \<Rightarrow>
   ('x, 'y, 'z) filter_engine \<Rightarrow> ('x, 'y, 'z) filter_engine" where
  "load_client_groups_inner parse client_rows subnet_rows eng =
    eng\<lparr>client_groups := fold (\<lambda>(ip, g) m. case parse_ip ip of Some a \<Rightarrow> m(a \<mapsto> g) | None \<Rightarrow> m) client_rows Map.empty,
        subnet_matcher := (case new_matcher parse subnet_rows of Inr m \<Rightarrow> Some m | Inl _ \<Rightarrow> None)\<rparr>"

definition load_client_groups ::
  "('x, 'y) cache_ops \<Rightarrow> (string \<Rightarrow> string + ip_network) \<Rightarrow> (string \<times> i64) list \<Rightarrow> (string \<times> i64) list \<Rightarrow>
   ('x, 'y, 'z) filter_engine \<Rightarrow> ('x, 'y, 'z) filter_engine" where
  "load_client_groups co parse client_rows subnet_rows eng =
    (let eng = load_client_groups_inner parse client_rows subnet_rows eng in
     eng\<lparr>group_epoch := group_epoch eng + 1, eng_cache := clear_decisions co (eng_cache eng)\<rparr>)"

type_synonym group_entry = "i64 \<times> u64 \<times> u64"

definition resolve_group ::
  "('z, ip_addr, group_entry) lru_ops \<Rightarrow> (nat \<Rightarrow> u64) \<Rightarrow> nat \<Rightarrow> ip_addr \<Rightarrow>
   ('x, 'y, 'z) filter_engine \<Rightarrow> i64 \<times> ('x, 'y, 'z) filter_engine" where
  "resolve_group go clk t ip eng =
    (let current_epoch = group_epoch eng;
         store = (\<lambda>c g. lru_put go c ip (g, clk 1 + 60, current_epoch));
         miss = (\<lambda>c. let g = resolve_group_uncached eng ip in
           (g, eng\<lparr>group_l0 := (group_l0 eng)(t := store c g)\<rparr>))
     in case lru_get go (group_l0 eng t) ip of
          (Some (g, expires, epoch), c) \<Rightarrow>
            if epoch = current_epoch \<and> clk 0 < expires then (g, eng\<lparr>group_l0 := (group_l0 eng)(t := c)\<rparr>)
            else miss (lru_pop go c ip)
        | (None, c) \<Rightarrow> miss c)"

section \<open>Verdicts and decisions\<close>

definition remember ::
  "('x, 'y) cache_ops \<Rightarrow> u64 \<Rightarrow> nat \<Rightarrow> u64 \<Rightarrow> verdict \<Rightarrow> ('x, 'y, 'z) filter_engine \<Rightarrow> ('x, 'y, 'z) filter_engine" where
  "remember co now t key v eng =
    (let (expires_at, st) = l1_set co now key v (eng_cache eng) in
     eng\<lparr>eng_cache := decision_l0_set co t key v expires_at st\<rparr>)"

definition resolve_fresh ::
  "tools \<Rightarrow> ('x, 'y) cache_ops \<Rightarrow> (nat \<Rightarrow> u64) \<Rightarrow> nat \<Rightarrow> string \<Rightarrow> i64 \<Rightarrow> u64 \<Rightarrow>
   ('x, 'y, 'z) filter_engine \<Rightarrow> (verdict \<times> ('x, 'y, 'z) filter_engine) res" where
  "resolve_fresh tk co clk t d g key eng =
    and_then (evaluate (fx_hash tk) (eng_index eng) d g) (\<lambda>v. Got (v, remember co (clk 3) t key v eng))"

definition resolve_verdict ::
  "tools \<Rightarrow> ('x, 'y) cache_ops \<Rightarrow> (nat \<Rightarrow> u64) \<Rightarrow> nat \<Rightarrow> string \<Rightarrow> i64 \<Rightarrow> u64 \<Rightarrow> bool \<Rightarrow>
   ('x, 'y, 'z) filter_engine \<Rightarrow> (verdict \<times> ('x, 'y, 'z) filter_engine) res" where
  "resolve_verdict tk co clk t d g key skip_cache eng =
    (if skip_cache then resolve_fresh tk co clk t d g key eng
     else case decision_l0_get co (clk 1) t key (eng_cache eng) of
       (Some cached, st) \<Rightarrow> Got (cached, eng\<lparr>eng_cache := st\<rparr>)
     | (None, st) \<Rightarrow>
         (case l1_get co (clk 2) key st of
            (Some (cached, expires_at), st1) \<Rightarrow>
              Got (cached, eng\<lparr>eng_cache := decision_l0_set co t key cached expires_at st1\<rparr>)
          | (None, st1) \<Rightarrow> resolve_fresh tk co clk t d g key (eng\<lparr>eng_cache := st1\<rparr>)))"

definition skip_decision_cache :: "u64 \<Rightarrow> group_override option \<Rightarrow> bool" where
  "skip_decision_cache now ovr = (case ovr of Some (TimedBypassUntil t) \<Rightarrow> t \<le> now | _ \<Rightarrow> False)"

definition tiers :: "bool \<Rightarrow> group_override option \<Rightarrow> u64 \<Rightarrow> verdict \<Rightarrow> filter_decision" where
  "tiers enabled ovr now v =
    (case v of
       ManualAllow \<Rightarrow> Filter_ExplicitAllow
     | ManualDeny source \<Rightarrow> Filter_Block source
     | _ \<Rightarrow>
         if \<not> enabled then Filter_Allow
         else case ovr of
           Some BlockAll \<Rightarrow> Filter_Block Schedule
         | Some AllowAll \<Rightarrow> Filter_Allow
         | Some (TimedBypassUntil t) \<Rightarrow>
             if now < t then Filter_Allow else (case v of Block source \<Rightarrow> Filter_Block source | _ \<Rightarrow> Filter_Allow)
         | Some (TimedBlockUntil t) \<Rightarrow>
             if now < t then Filter_Block Schedule
             else (case v of Block source \<Rightarrow> Filter_Block source | _ \<Rightarrow> Filter_Allow)
         | None \<Rightarrow> (case v of Block source \<Rightarrow> Filter_Block source | _ \<Rightarrow> Filter_Allow))"

definition check_filter ::
  "tools \<Rightarrow> ('x, 'y) cache_ops \<Rightarrow> (string \<Rightarrow> i64 \<Rightarrow> u64) \<Rightarrow> group_override option \<Rightarrow> (nat \<Rightarrow> u64) \<Rightarrow> nat \<Rightarrow>
   string \<Rightarrow> i64 \<Rightarrow> ('x, 'y, 'z) filter_engine \<Rightarrow> (filter_decision \<times> ('x, 'y, 'z) filter_engine) res" where
  "check_filter tk co decision_key ovr clk t d g eng =
    and_then (resolve_verdict tk co clk t d g (decision_key d g) (skip_decision_cache (clk 0) ovr) eng) (\<lambda>(v, eng).
    Got (tiers (blocking_enabled eng) ovr (clk 4) v, eng))"

definition store_cname_decision ::
  "('x, 'y) cache_ops \<Rightarrow> (string \<Rightarrow> i64 \<Rightarrow> u64) \<Rightarrow> u64 \<Rightarrow> nat \<Rightarrow> string \<Rightarrow> i64 \<Rightarrow> u64 \<Rightarrow>
   ('x, 'y, 'z) filter_engine \<Rightarrow> ('x, 'y, 'z) filter_engine" where
  "store_cname_decision co decision_key now t d g ttl_secs eng =
    (let key = decision_key d g; v = Block CnameCloaking;
         (expires_at, st) = l1_set_with_ttl co now key v ttl_secs (eng_cache eng)
     in eng\<lparr>eng_cache := decision_l0_set co t key v expires_at st\<rparr>)"

definition set_blocking_enabled :: "bool \<Rightarrow> ('x, 'y, 'z) filter_engine \<Rightarrow> ('x, 'y, 'z) filter_engine" where
  "set_blocking_enabled enabled eng = eng\<lparr>blocking_enabled := enabled\<rparr>"

section \<open>Trying a candidate list\<close>

text \<open>The text of a rejected regular expression stands for the error message.\<close>

fun compile_regexes :: "tools \<Rightarrow> string list \<Rightarrow> domain_error + (string \<Rightarrow> bool option) list" where
  "compile_regexes tk [] = Inr []"
| "compile_regexes tk (p # ps) =
    (case regex_new tk (''(?i)'' @ p) of
       None \<Rightarrow> Inl (InvalidRegexFilter p)
     | Some m \<Rightarrow> (case compile_regexes tk ps of Inl e \<Rightarrow> Inl e | Inr ms \<Rightarrow> Inr (m # ms)))"

definition candidate_matches ::
  "string set \<Rightarrow> suffix_trie \<Rightarrow> (string \<Rightarrow> bool) option \<Rightarrow> (string \<Rightarrow> bool option) list \<Rightarrow> string \<Rightarrow> bool" where
  "candidate_matches names suffixes substrings compiled_res d =
    (let d = lower d in
     d \<in> names \<or> trie_lookup suffixes d \<noteq> 0
     \<or> (case substrings of Some ac \<Rightarrow> ac d | None \<Rightarrow> False)
     \<or> list_ex (\<lambda>m. m d = Some True) compiled_res)"

fun join_lines :: "string list \<Rightarrow> string" where
  "join_lines ls = join_char (CHR 0x0A) ls"

definition match_candidate ::
  "tools \<Rightarrow> string list \<Rightarrow> string list \<Rightarrow> string list \<Rightarrow> domain_error + bool list" where
  "match_candidate tk domains list_lines regexes =
    (let entries = parse_list_text (join_lines list_lines);
         names = set (List.map_filter exact_name entries);
         suffixes = fold (\<lambda>p. add_wildcard p 1) (List.map_filter suffix_name entries) empty_trie;
         pats = List.map_filter pattern_text entries;
         substrings = (if pats = [] then None else ac_build tk pats)
     in case compile_regexes tk regexes of
          Inl e \<Rightarrow> Inl e
        | Inr ms \<Rightarrow> Inr (map (candidate_matches names suffixes substrings ms) domains))"

section \<open>The state of an engine\<close>

text \<open>
  No cached entry is from a later epoch than the present one, and no index is published for a
  ticket that was not issued.
\<close>

definition engine_ok ::
  "('x \<Rightarrow> u64 \<Rightarrow> l0_entry option) \<Rightarrow> ('z \<Rightarrow> ip_addr \<Rightarrow> group_entry option) \<Rightarrow> ('x, 'y, 'z) filter_engine \<Rightarrow> bool" where
  "engine_ok view0 viewg eng \<longleftrightarrow>
    caches_ok view0 (eng_cache eng) \<and> published_ticket eng \<le> reload_tickets eng \<and>
    (\<forall>t ip g x ep. viewg (group_l0 eng t) ip = Some (g, x, ep) \<longrightarrow> ep \<le> group_epoch eng)"

locale filter_caches = decision_caches co view0 view1 + groups: lru_laws go viewg
  for co :: "('x, 'y) cache_ops" and view0 view1 and go :: "('z, ip_addr, group_entry) lru_ops" and viewg
begin

lemma caches_ok_clear_decisions:
  "caches_ok view0 st \<Longrightarrow> ds_epoch st \<noteq> - 1 \<Longrightarrow> caches_ok view0 (clear_decisions co st)"
  unfolding clear_decisions_def
  by (rule caches_ok_l0_clear [OF caches_ok_l1_clear]) (simp_all add: l1_clear_def)

lemma cache_ok_remember:
  assumes "caches_ok view0 (eng_cache eng)"
  shows "caches_ok view0 (eng_cache (remember co now t key v eng))"
  using caches_ok_l0_set [OF caches_ok_l1_set [OF assms]]
  by (simp add: remember_def l1_set_def split: prod.split) (metis snd_conv)

lemma engine_ok_cache: "engine_ok view0 viewg eng \<Longrightarrow> caches_ok view0 st \<Longrightarrow> engine_ok view0 viewg (eng\<lparr>eng_cache := st\<rparr>)"
  by (simp add: engine_ok_def)

lemma engine_ok_remember: "engine_ok view0 viewg eng \<Longrightarrow> engine_ok view0 viewg (remember co now t key v eng)"
proof -
  assume ok: "engine_ok view0 viewg eng"
  have "remember co now t key v eng = eng\<lparr>eng_cache := eng_cache (remember co now t key v eng)\<rparr>"
    by (simp add: remember_def split: prod.split)
  moreover have "caches_ok view0 (eng_cache (remember co now t key v eng))"
    using ok by (intro cache_ok_remember) (simp add: engine_ok_def)
  ultimately show ?thesis using engine_ok_cache [OF ok] by metis
qed

lemma engine_ok_verdict:
  assumes ok: "engine_ok view0 viewg eng"
    and run: "resolve_verdict tk co clk t d g key skip eng = Got (v, eng')"
  shows "engine_ok view0 viewg eng' \<and> blocking_enabled eng' = blocking_enabled eng"
proof -
  have fresh: "engine_ok view0 viewg e2 \<and> blocking_enabled e2 = blocking_enabled e1"
    if "engine_ok view0 viewg e1" "resolve_fresh tk co clk t d g key e1 = Got (v, e2)" for e1 e2
  proof -
    have "e2 = remember co (clk 3) t key v e1" using that(2) by (auto simp: resolve_fresh_def and_then_Got)
    then show ?thesis using engine_ok_remember [OF that(1)] by (auto simp: remember_def split: prod.splits)
  qed
  have c: "caches_ok view0 (eng_cache eng)" using ok by (simp add: engine_ok_def)
  show ?thesis
  proof (cases skip)
    case True
    then show ?thesis using run fresh [OF ok] by (simp add: resolve_verdict_def)
  next
    case False
    obtain r st where l0: "decision_l0_get co (clk 1) t key (eng_cache eng) = (r, st)" by fastforce
    obtain r1 st1 where l1: "l1_get co (clk 2) key st = (r1, st1)" by fastforce
    have ok0: "caches_ok view0 st" using caches_ok_l0_get [OF c, of "clk 1" t key] by (simp add: l0 del: One_nat_def)
    have ok1: "caches_ok view0 st1" using caches_ok_l1_get [OF ok0, of "clk 2" key] by (simp add: l1)
    show ?thesis
      using run False l0 l1 engine_ok_cache [OF ok ok0] engine_ok_cache [OF ok caches_ok_l0_set [OF ok1]]
        fresh [OF engine_ok_cache [OF ok ok1]]
      by (auto simp: resolve_verdict_def split: option.splits)
  qed
qed

text \<open>After the caches are cleared a verdict is evaluated on the index, whether or not they are asked.\<close>

lemma verdict_after_clear:
  assumes "caches_ok view0 st" "ds_epoch st \<noteq> - 1" "eng_cache eng = clear_decisions co st"
    and "evaluate (fx_hash tk) (eng_index eng) d g = Got v"
  shows "\<exists>e. resolve_verdict tk co clk t d g key skip eng = Got (v, e) \<and> blocking_enabled e = blocking_enabled eng"
proof -
  obtain st0 where l0: "decision_l0_get co (clk 1) t key (eng_cache eng) = (None, st0)"
    using cleared_misses(1) [OF assms(1,2)] assms(3) by (metis clear_decisions_def prod.collapse)
  have "fst (l1_get co (clk 2) key st0) = fst (l1_get co (clk 2) key (eng_cache eng))"
    using l0_get_state(2) [of "clk 1" t key "eng_cache eng"] by (simp add: l0 l1_get_result del: One_nat_def)
  also have "\<dots> = None" using cleared_misses(2) [OF assms(1,2)] assms(3) by (simp add: clear_decisions_def)
  finally obtain st1 where l1: "l1_get co (clk 2) key st0 = (None, st1)" by (metis prod.collapse)
  have "\<exists>e. resolve_fresh tk co clk t d g key e1 = Got (v, e) \<and> blocking_enabled e = blocking_enabled e1"
    if "eng_index e1 = eng_index eng" for e1 :: "('x, 'y, 'c) filter_engine"
    using that assms(4) by (simp add: resolve_fresh_def remember_def split: prod.split)
  from this [of eng] this [of "eng\<lparr>eng_cache := st1\<rparr>"] show ?thesis
    by (simp add: resolve_verdict_def l0 l1 del: One_nat_def)
qed

text \<open>What a thread remembers is what every thread then finds, until it expires.\<close>

lemma remembered_verdict:
  assumes "length (ds_shards (eng_cache eng)) = L1_SHARDS" "clk 1 < sat_add now TTL_SECS"
  shows "\<exists>e. resolve_verdict tk co clk t d g key False (remember co now t key v eng) = Got (v, e)"
proof -
  obtain x st where x: "l1_set co now key v (eng_cache eng) = (x, st)" by fastforce
  then have "x = sat_add now TTL_SECS" by (auto simp: l1_set_def l1_set_with_ttl_def Let_def)
  then have "fst (decision_l0_get co (clk 1) t key (decision_l0_set co t key v x st)) = Some v"
    using l0_set_get assms(2) by simp
  then show ?thesis
    by (cases "decision_l0_get co (clk 1) t key (decision_l0_set co t key v x st)")
      (simp add: resolve_verdict_def remember_def x)
qed

end

interpretation recency_filter: filter_caches recency_caches "\<lambda>s. map_of (snd s)" "\<lambda>s. map_of (snd s)"
  recency_ops "\<lambda>s. map_of (snd s)"
  unfolding filter_caches_def by (simp add: recency_caches.decision_caches_axioms recency.lru_laws_axioms)

section \<open>Groups\<close>

lemma better_simps [simp]:
  "better None x = Some x"
  "better (Some b) x = Some (if net_prefix (fst b) < net_prefix (fst x) then x else b)"
  by (simp_all add: better_def)

lemma fold_better_None: "foldl better None xs = None \<longleftrightarrow> xs = []"
  by (cases xs rule: rev_cases) (auto simp: better_def split: option.splits if_splits)

text \<open>The best candidate beats those before it and is not beaten by those after it.\<close>

lemma fold_better:
  "foldl better None xs = Some x \<Longrightarrow>
    \<exists>before after. xs = before @ x # after \<and> (\<forall>y \<in> set before. net_prefix (fst y) < net_prefix (fst x)) \<and>
      (\<forall>y \<in> set after. net_prefix (fst y) \<le> net_prefix (fst x))"
proof (induction xs arbitrary: x rule: rev_induct)
  case (snoc y xs)
  show ?case
  proof (cases "foldl better None xs")
    case None
    then show ?thesis using snoc.prems by (intro exI [of _ "[]"] exI [of _ "[]"]) (simp add: fold_better_None)
  next
    case (Some b)
    from snoc.IH [OF this] obtain l r where b: "xs = l @ b # r"
      "\<forall>y \<in> set l. net_prefix (fst y) < net_prefix (fst b)" "\<forall>y \<in> set r. net_prefix (fst y) \<le> net_prefix (fst b)"
      by blast
    show ?thesis
    proof (cases "net_prefix (fst b) < net_prefix (fst y)")
      case True
      then have "x = y" using snoc.prems Some by simp
      then show ?thesis using b True by (intro exI [of _ xs] exI [of _ "[]"]) force
    next
      case False
      then have "x = b" using snoc.prems Some by simp
      then show ?thesis using b False by (intro exI [of _ l] exI [of _ "r @ [y]"]) auto
    qed
  qed
qed simp

text \<open>The group of an address: its own row, else the longest network around it, else the default.\<close>

definition client_map :: "(string \<times> i64) list \<Rightarrow> ip_addr \<Rightarrow> i64 option" where
  "client_map rows = map_of (rev (List.map_filter (\<lambda>(s, g). map_option (\<lambda>a. (a, g)) (parse_ip s)) rows))"

lemma fold_client_rows:
  "fold (\<lambda>(s, g) m. case parse_ip s of Some a \<Rightarrow> m(a \<mapsto> g) | None \<Rightarrow> m) rows m0 = m0 ++ client_map rows"
proof (induction rows arbitrary: m0)
  case (Cons r rows)
  then show ?case
    by (cases r) (auto simp: client_map_def List.map_filter_simps split: option.splits)
qed (simp add: client_map_def List.map_filter_simps)

lemma uncached_group:
  assumes "client_groups eng = client_map client_rows"
    and "subnet_matcher eng = (case new_matcher parse subnet_rows of Inr m \<Rightarrow> Some m | Inl _ \<Rightarrow> None)"
  shows "case client_map client_rows ip of
      Some own \<Rightarrow> resolve_group_uncached eng ip = own
    | None \<Rightarrow>
        (\<exists>m n before after. new_matcher parse subnet_rows = Inr m \<and>
          filter (\<lambda>(n, _). net_contains n ip) m = before @ (n, resolve_group_uncached eng ip) # after \<and>
          (\<forall>(n', _) \<in> set before. net_prefix n' < net_prefix n) \<and> (\<forall>(n', _) \<in> set after. net_prefix n' \<le> net_prefix n)) \<or>
        resolve_group_uncached eng ip = default_group_id eng \<and>
          (\<forall>m. new_matcher parse subnet_rows = Inr m \<longrightarrow> (\<forall>(n, _) \<in> set m. \<not> net_contains n ip))"
proof (cases "client_map client_rows ip")
  case None
  show ?thesis
  proof (cases "new_matcher parse subnet_rows")
    case (Inl e)
    then show ?thesis using None assms by (simp add: resolve_group_uncached_def)
  next
    case (Inr m)
    let ?xs = "filter (\<lambda>(n, _). net_contains n ip) m"
    show ?thesis
    proof (cases "foldl better None ?xs")
      case None': None
      then have "?xs = []" by (simp only: fold_better_None)
      then have "\<forall>(n, _) \<in> set m. \<not> net_contains n ip" by (auto simp: filter_empty_conv)
      then show ?thesis using None Inr assms None' by (simp add: resolve_group_uncached_def find_group_for_ip_def)
    next
      case (Some x)
      then have "resolve_group_uncached eng ip = snd x"
        using None Inr assms by (simp add: resolve_group_uncached_def find_group_for_ip_def)
      moreover obtain l r where "?xs = l @ (fst x, snd x) # r" "\<forall>y \<in> set l. net_prefix (fst y) < net_prefix (fst x)"
        "\<forall>y \<in> set r. net_prefix (fst y) \<le> net_prefix (fst x)"
        using fold_better [OF Some] by auto
      ultimately have "\<exists>m n before after. new_matcher parse subnet_rows = Inr m \<and>
          filter (\<lambda>(n, _). net_contains n ip) m = before @ (n, resolve_group_uncached eng ip) # after \<and>
          (\<forall>(n', _) \<in> set before. net_prefix n' < net_prefix n) \<and> (\<forall>(n', _) \<in> set after. net_prefix n' \<le> net_prefix n)"
        using Inr by (intro exI [of _ m] exI [of _ "fst x"] exI [of _ l] exI [of _ r]) auto
      then show ?thesis using None by simp
    qed
  qed
qed (simp add: resolve_group_uncached_def assms)

lemma resolve_group_stale:
  assumes "lru_laws go viewg" "\<forall>g x ep. viewg (group_l0 eng t) ip = Some (g, x, ep) \<longrightarrow> ep \<noteq> group_epoch eng"
  shows "fst (resolve_group go clk t ip eng) = resolve_group_uncached eng ip"
  using lru_laws.get_view [OF assms(1), of "group_l0 eng t" ip] assms(2)
  by (cases "lru_get go (group_l0 eng t) ip") (auto simp: resolve_group_def Let_def split: option.split)

lemma rebuild_detached_eq:
  assumes "engine_ok view0 viewg eng" "reload_tickets eng \<noteq> - 1"
  shows "rebuild_detached tk co db mode eng =
    and_then (compile_block_index tk db (eng_lists eng) mode) (\<lambda>(ix, lists).
      Got (eng\<lparr>reload_tickets := reload_tickets eng + 1, eng_lists := lists, eng_index := ix,
        eng_cache := clear_decisions co (eng_cache eng), published_ticket := reload_tickets eng + 1\<rparr>))"
proof -
  have "published_ticket eng < reload_tickets eng + 1"
    using assms(1) epoch_succ [OF assms(2)] by (auto simp: engine_ok_def)
  then show ?thesis by (simp add: rebuild_detached_def issue_reload_ticket_def rebuild_through_def flip: not_less)
qed

section \<open>Candidate lists\<close>

lemma compile_regexes_Inr:
  "compile_regexes tk ps = Inr ms \<Longrightarrow>
    list_ex (\<lambda>m. m d = Some True) ms \<longleftrightarrow>
    (\<exists>p \<in> set ps. \<exists>m. regex_new tk (''(?i)'' @ p) = Some m \<and> m d = Some True)"
  by (induction ps arbitrary: ms) (auto split: option.splits sum.splits)

lemma compile_regexes_Inl:
  "compile_regexes tk ps = Inl e \<longleftrightarrow>
    (\<exists>i < length ps. e = InvalidRegexFilter (ps ! i) \<and> regex_new tk (''(?i)'' @ ps ! i) = None \<and>
      (\<forall>j < i. regex_new tk (''(?i)'' @ ps ! j) \<noteq> None))"
proof (induction ps)
  case (Cons p ps)
  show ?case
  proof (cases "regex_new tk (''(?i)'' @ p)")
    case None
    then show ?thesis by (auto simp: Ex_less_Suc2 split: sum.splits)
  next
    case (Some m)
    then show ?thesis using Cons.IH by (auto simp: Ex_less_Suc2 All_less_Suc2 split: sum.splits)
  qed
qed simp

text \<open>The database whose only rules are a candidate's: one list, assigned to one group, and its expressions.\<close>

definition candidate_db :: "string list \<Rightarrow> i64 \<Rightarrow> database" where
  "candidate_db regexes g =
    \<lparr>blocklist_sources = [\<lparr>ds_id = 0, ds_name = [], ds_url = Some []\<rparr>], source_groups = [(0, g)],
     group_ids = [g], blocklist_rows = [], managed_rows = [],
     regex_rows = map (\<lambda>p. \<lparr>rx_id = 0, rx_name = [], rx_pattern = p, rx_action = ''deny'', rx_group = g\<rparr>) regexes,
     whitelist_rows = [], whitelist_sources = []\<rparr>"

lemma candidate_source_entry:
  "source_entry (candidate_db regexes g) [[] \<mapsto> content] g es \<longleftrightarrow> es = parse_list_text content"
  by (auto simp: source_entry_def candidate_db_def bit_sources_def)

lemma candidate_suffixes:
  "trie_lookup (fold (\<lambda>p. add_wildcard p 1) ps empty_trie) d \<noteq> 0 \<longleftrightarrow> (\<exists>p \<in> set ps. covers_wildcard p d)"
proof -
  let ?ys = "map (\<lambda>p. (p, 1 :: u64)) ps"
  have "fold (\<lambda>d. add_wildcard d 1) ps t = fold (\<lambda>(p, b). add_wildcard p b) (map (\<lambda>p. (p, 1)) ps) t" for t
    by (induction ps arbitrary: t) auto
  moreover have "b \<noteq> 0" if "(p, b) \<in> set ?ys" for p b using that by auto
  ultimately show ?thesis using trie.find_built_nonzero [of ?ys d] by (simp add: image_iff Bex_def)
qed

lemma candidate_verdict:
  assumes "compile_regexes tk regexes = Inr ms"
  shows "candidate_matches (set (List.map_filter exact_name (parse_list_text content)))
      (fold (\<lambda>p. add_wildcard p 1) (List.map_filter suffix_name (parse_list_text content)) empty_trie)
      (if List.map_filter pattern_text (parse_list_text content) = [] then None
       else ac_build tk (List.map_filter pattern_text (parse_list_text content))) ms d \<longleftrightarrow>
    rule_verdict tk (candidate_db regexes g) [[] \<mapsto> content] Map.empty (lower d) g \<noteq> NoMatch"
proof -
  let ?db = "candidate_db regexes g" let ?es = "parse_list_text content"
  have deny: "parse_action ''deny'' = Some Deny" by code_simp
  have rx: "regex_rule_hits tk ?db Deny x g \<longleftrightarrow> list_ex (\<lambda>m. m x = Some True) ms"
    "\<not> regex_rule_hits tk ?db Allow x g" for x
    unfolding compile_regexes_Inr [OF assms] by (auto simp: regex_rule_hits_def candidate_db_def deny)
  have no: "\<not> allowed_by_rules ?db Map.empty x g" "\<not> managed_deny_hits ?db x g" for x
    by (simp_all add: allowed_by_rules_def managed_deny_hits_def candidate_db_def managed_entries_def List.map_filter_simps)
  have hit: "source_hit ?db [[] \<mapsto> content] f cov x g \<longleftrightarrow> (\<exists>p \<in> set (List.map_filter f ?es). cov p x)" for f cov x
    unfolding source_hit_def candidate_source_entry by (force simp: set_map_filter)
  have pat: "pattern_hits tk ?db [[] \<mapsto> content] x g \<longleftrightarrow> List.map_filter pattern_text ?es \<noteq> [] \<and>
      (\<exists>ac. ac_build tk (List.map_filter pattern_text ?es) = Some ac \<and> ac x)" for x
    unfolding pattern_hits_def candidate_source_entry by blast
  have rows: "blocklist_rows ?db = []" by (simp add: candidate_db_def)
  show ?thesis
    unfolding candidate_matches_def Let_def candidate_suffixes rule_verdict_def hit pat rows
    using no rx by (auto split: option.splits)
qed

lemma check_of_verdict:
  assumes "\<exists>e. resolve_verdict tk co clk t d g (dk d g) (skip_decision_cache (clk 0) ovr) eng = Got (v, e) \<and>
    blocking_enabled e = blocking_enabled eng"
  shows "\<exists>e. check_filter tk co dk ovr clk t d g eng = Got (tiers (blocking_enabled eng) ovr (clk 4) v, e)"
  using assms by (auto simp: check_filter_def)

section \<open>Properties\<close>


definition demo_engine ::
  "bool \<Rightarrow> (l0_entry recency_map, l1_entry recency_map, (ip_addr, group_entry) recency) filter_engine" where
  "demo_engine enabled =
    \<lparr>eng_index = empty_index 64 2, eng_cache = new_decision_state recency_caches, reload_tickets = 0,
     published_ticket = 0, eng_lists = Map.empty, client_groups = Map.empty, subnet_matcher = None,
     group_epoch = 0, group_l0 = \<lambda>_. (256, []), blocking_enabled = enabled, default_group_id = 1\<rparr>"

lemma demo_engine_ok: "engine_ok (\<lambda>s. map_of (snd s)) (\<lambda>s. map_of (snd s)) (demo_engine b)"
  using recency_caches.caches_ok_new by (simp add: engine_ok_def demo_engine_def)

lemma empty_index_verdict:
  assumes "next_power_of_two m < 2 ^ 64"
  shows "evaluate fx (empty_index m h) d g = Got NoMatch"
  unfolding evaluate_eq [OF empty_index_ok [OF assms]] list_verdict_eq [OF empty_index_ok [OF assms]]
  by (simp add: empty_index_def empty_allowlists_def al_is_allowed_def group_any_def advanced_verdict_def
      trie_lookup_empty exact_bits_def check_wildcard_and_patterns_def)

lemma demo_verdict:
  "rule_verdict demo_tools demo_db (list_texts demo_tools demo_db Map.empty ReuseHeld)
    (allow_texts demo_tools demo_db Map.empty ReuseHeld) ''ads.example.com'' 1 = Block Blocklist"
  unfolding rule_verdict_def using demo_facts by simp




text \<open>
  A client's group: after the client tables are loaded, any thread resolves an address to the
  group of the last row that names it; failing that, and provided every subnet parses, to the
  group of a network that contains it, of the longest prefix and the first of those; failing
  that to the default group. Groups cached before the load are not used.
\<close>

lemma load_then_resolve_group:
  assumes "filter_caches co view0 view1 go viewg" "engine_ok view0 viewg eng" "group_epoch eng \<noteq> - 1"
    and "load_client_groups co parse client_rows subnet_rows eng = eng1"
    and "resolve_group go clk t ip eng1 = (g, eng2)"
  shows "case client_map client_rows ip of
      Some own \<Rightarrow> g = own
    | None \<Rightarrow>
        (\<exists>m n before after. new_matcher parse subnet_rows = Inr m \<and>
          filter (\<lambda>(n, _). net_contains n ip) m = before @ (n, g) # after \<and>
          (\<forall>(n', _) \<in> set before. net_prefix n' < net_prefix n) \<and> (\<forall>(n', _) \<in> set after. net_prefix n' \<le> net_prefix n)) \<or>
        g = default_group_id eng \<and>
          (\<forall>m. new_matcher parse subnet_rows = Inr m \<longrightarrow> (\<forall>(n, _) \<in> set m. \<not> net_contains n ip))"
proof -
  have eng1: "client_groups eng1 = client_map client_rows" "default_group_id eng1 = default_group_id eng"
    "subnet_matcher eng1 = (case new_matcher parse subnet_rows of Inr m \<Rightarrow> Some m | Inl _ \<Rightarrow> None)"
    "group_l0 eng1 = group_l0 eng" "group_epoch eng1 = group_epoch eng + 1"
    using assms(4) by (auto simp: load_client_groups_def load_client_groups_inner_def Let_def fold_client_rows)
  have "ep \<noteq> group_epoch eng1" if "viewg (group_l0 eng1 t) ip = Some (g, x, ep)" for g x ep
  proof -
    have "ep \<le> group_epoch eng" using assms(2) that unfolding eng1 engine_ok_def by blast
    then show ?thesis using epoch_succ [OF assms(3)] unfolding eng1 by force
  qed
  moreover have "lru_laws go viewg" using assms(1) by (simp add: filter_caches_def)
  ultimately have "fst (resolve_group go clk t ip eng1) = resolve_group_uncached eng1 ip"
    by (intro resolve_group_stale) auto
  then have g: "g = resolve_group_uncached eng1 ip" using assms(5) by simp
  show ?thesis using uncached_group [OF eng1(1,3)] unfolding g eng1(2) .
qed

definition demo_network :: "string \<Rightarrow> string + ip_network" where
  "demo_network c = Inr \<lparr>net_contains = \<lambda>_. True, net_prefix = word_of_nat (length c)\<rparr>"

lemma load_then_resolve_group_witness:
  "fst (resolve_group recency_ops (\<lambda>_. 100) 0 (V4 7)
     (load_client_groups recency_caches demo_network [] [(''a'', 3), (''bb'', 4)] (demo_engine True))) = 4"
proof -
  let ?eng1 = "load_client_groups recency_caches demo_network [] [(''a'', 3), (''bb'', 4)] (demo_engine True)"
  obtain g eng2 where g: "resolve_group recency_ops (\<lambda>_. 100) 0 (V4 7) ?eng1 = (g, eng2)" by fastforce
  have m: "new_matcher demo_network [(''a'', 3), (''bb'', 4)] = Inr m \<longleftrightarrow>
      m = [(\<lparr>net_contains = \<lambda>_. True, net_prefix = 1\<rparr>, 3), (\<lparr>net_contains = \<lambda>_. True, net_prefix = 2\<rparr>, 4)]" for m
    by (auto simp: demo_network_def)
  have "client_map [] (V4 7) = None" "group_epoch (demo_engine True) \<noteq> - 1"
    by (simp_all add: client_map_def List.map_filter_simps demo_engine_def)
  from load_then_resolve_group [OF recency_filter.filter_caches_axioms demo_engine_ok this(2) refl g, unfolded this(1) m]
  show ?thesis unfolding g by (auto simp: Cons_eq_append_conv word_le_nat_alt)
qed

text \<open>
  Trying a candidate list answers what the compiled index would enforce if the list and its
  expressions were the only rules of a group: for each name, whether it would be blocked. The
  first expression that does not compile is the error returned.
\<close>

lemma match_candidate_predicts:
  "case match_candidate tk domains list_lines regexes of
     Inr bs \<Rightarrow> length bs = length domains \<and> (\<forall>p \<in> set regexes. regex_new tk (''(?i)'' @ p) \<noteq> None) \<and>
       (\<forall>i < length domains. bs ! i \<longleftrightarrow>
         rule_verdict tk (candidate_db regexes g) [[] \<mapsto> join_lines list_lines] Map.empty (lower (domains ! i)) g \<noteq> NoMatch)
   | Inl e \<Rightarrow> (\<exists>i < length regexes. e = InvalidRegexFilter (regexes ! i) \<and>
       regex_new tk (''(?i)'' @ regexes ! i) = None \<and> (\<forall>j < i. regex_new tk (''(?i)'' @ regexes ! j) \<noteq> None))"
proof (cases "compile_regexes tk regexes")
  case (Inl e)
  then show ?thesis using compile_regexes_Inl [of tk regexes e] by (simp add: match_candidate_def Let_def)
next
  case (Inr ms)
  have "regex_new tk (''(?i)'' @ p) \<noteq> None" if "p \<in> set regexes" for p
    using that Inr by (induction regexes arbitrary: ms) (auto split: option.splits sum.splits)
  then show ?thesis
    using candidate_verdict [OF Inr, of "join_lines list_lines" _ g] Inr
    by (simp add: match_candidate_def Let_def del: join_lines.simps)
qed

lemma match_candidate_predicts_witness:
  "\<exists>b. match_candidate demo_tools [''ads.example.com''] [''||example.com^''] [] = Inr [b] \<and>
    (b \<longleftrightarrow> rule_verdict demo_tools (candidate_db [] 1) [[] \<mapsto> join_lines [''||example.com^'']] Map.empty
      (lower ''ads.example.com'') 1 \<noteq> NoMatch)"
proof (cases "match_candidate demo_tools [''ads.example.com''] [''||example.com^''] []")
  case (Inl e)
  then show ?thesis
    using match_candidate_predicts [where tk = demo_tools and regexes = "[]" and list_lines = "[''||example.com^'']"
        and domains = "[''ads.example.com'']" and g = 1] by simp
next
  case (Inr bs)
  then show ?thesis
    using match_candidate_predicts [where tk = demo_tools and regexes = "[]" and list_lines = "[''||example.com^'']"
        and domains = "[''ads.example.com'']" and g = 1]
    by (cases bs) (simp_all del: join_lines.simps)
qed

section \<open>Runs of the engine\<close>

text \<open>
  The operations of the engine in any order, on any threads, from a new engine. A counter is
  incremented only while it does not wrap; a \<open>u64\<close> that counts reloads does not.
\<close>

inductive reachable_engine ::
  "tools \<Rightarrow> ('x, 'y) cache_ops \<Rightarrow> ('z, ip_addr, group_entry) lru_ops \<Rightarrow> ('x, 'y, 'z) filter_engine \<Rightarrow>
   ('x, 'y, 'z) filter_engine \<Rightarrow> bool"
  for tk :: tools and co :: "('x, 'y) cache_ops" and go :: "('z, ip_addr, group_entry) lru_ops"
    and eng0 :: "('x, 'y, 'z) filter_engine" where
  start: "reachable_engine tk co go eng0 eng0"
| ticket: "reachable_engine tk co go eng0 eng \<Longrightarrow> reload_tickets eng \<noteq> - 1 \<Longrightarrow>
    reachable_engine tk co go eng0 (snd (issue_reload_ticket eng))"
| rebuild: "reachable_engine tk co go eng0 eng \<Longrightarrow> ds_epoch (eng_cache eng) \<noteq> - 1 \<Longrightarrow>
    rebuild_through tk co db ticket mode eng = Got eng' \<Longrightarrow> reachable_engine tk co go eng0 eng'"
| check: "reachable_engine tk co go eng0 eng \<Longrightarrow> check_filter tk co dk ovr clk t d g eng = Got (r, eng') \<Longrightarrow>
    reachable_engine tk co go eng0 eng'"
| store_late: "reachable_engine tk co go eng0 eng \<Longrightarrow> reachable_engine tk co go eng0 (remember co now t key v eng)"
| cname: "reachable_engine tk co go eng0 eng \<Longrightarrow>
    reachable_engine tk co go eng0 (store_cname_decision co dk now t d g ttl eng)"
| group: "reachable_engine tk co go eng0 eng \<Longrightarrow> reachable_engine tk co go eng0 (snd (resolve_group go clk t ip eng))"
| groups: "reachable_engine tk co go eng0 eng \<Longrightarrow> ds_epoch (eng_cache eng) \<noteq> - 1 \<Longrightarrow> group_epoch eng \<noteq> - 1 \<Longrightarrow>
    reachable_engine tk co go eng0 (load_client_groups co parse cs ss eng)"
| toggle: "reachable_engine tk co go eng0 eng \<Longrightarrow> reachable_engine tk co go eng0 (set_blocking_enabled b eng)"

lemma verdict_index:
  "resolve_verdict tk co clk t d g key skip eng = Got (v, eng') \<Longrightarrow> eng_index eng' = eng_index eng"
  by (auto simp: resolve_verdict_def resolve_fresh_def remember_def and_then_Got split: if_splits prod.splits option.splits)

lemma eng_index_keeps:
  "eng_index (remember co now t key v eng) = eng_index eng"
  "eng_index (store_cname_decision co dk now t d g ttl eng) = eng_index eng"
  "eng_index (snd (resolve_group go clk t ip eng)) = eng_index eng"
  "eng_index (load_client_groups co parse cs ss eng) = eng_index eng"
  by (simp_all add: remember_def store_cname_decision_def resolve_group_def load_client_groups_def
      load_client_groups_inner_def Let_def split: prod.split option.split)

context filter_caches
begin

lemma ok_rebuild:
  assumes "engine_ok view0 viewg eng" "ds_epoch (eng_cache eng) \<noteq> - 1" "rebuild_through tk co db ticket mode eng = Got eng'"
  shows "engine_ok view0 viewg eng'"
proof (cases "mode = ReuseHeld \<and> ticket \<le> published_ticket eng")
  case False
  then obtain ix lists where "eng' = eng\<lparr>eng_lists := lists, eng_index := ix,
      eng_cache := clear_decisions co (eng_cache eng), published_ticket := reload_tickets eng\<rparr>"
    using assms(3) by (auto simp: rebuild_through_def Let_def and_then_Got)
  then show ?thesis
    using assms(1) caches_ok_clear_decisions [OF _ assms(2)] by (simp add: engine_ok_def)
qed (use assms in \<open>simp add: rebuild_through_def\<close>)

lemma ok_cname: "engine_ok view0 viewg eng \<Longrightarrow> engine_ok view0 viewg (store_cname_decision co dk now t d g ttl eng)"
proof -
  assume ok: "engine_ok view0 viewg eng"
  then have c: "caches_ok view0 (eng_cache eng)" by (simp add: engine_ok_def)
  obtain x st where x: "l1_set_with_ttl co now (dk d g) (Block CnameCloaking) ttl (eng_cache eng) = (x, st)" by fastforce
  have "caches_ok view0 st" using caches_ok_l1_set [OF c, of now "dk d g" "Block CnameCloaking" ttl] by (simp add: x)
  from engine_ok_cache [OF ok caches_ok_l0_set [OF this]] show ?thesis by (simp add: store_cname_decision_def Let_def x)
qed

lemma ok_resolve_group: "engine_ok view0 viewg eng \<Longrightarrow> engine_ok view0 viewg (snd (resolve_group go clk t ip eng))"
proof -
  assume ok: "engine_ok view0 viewg eng"
  obtain r c where rc: "lru_get go (group_l0 eng t) ip = (r, c)" by fastforce
  have old: "viewg c j = Some (g, x, ep) \<Longrightarrow> ep \<le> group_epoch eng" for j g x ep
    using ok groups.get_keeps [of "group_l0 eng t" ip] unfolding engine_ok_def rc by (metis snd_conv)
  have upd: "engine_ok view0 viewg (eng\<lparr>group_l0 := (group_l0 eng)(t := c')\<rparr>)"
    if "\<And>j g x ep. viewg c' j = Some (g, x, ep) \<Longrightarrow> ep \<le> group_epoch eng" for c'
    using ok that by (auto simp: engine_ok_def)
  have put: "viewg (lru_put go c' ip (g, x, group_epoch eng)) j = Some (g', x', ep) \<Longrightarrow> ep \<le> group_epoch eng"
    if "c' = c \<or> c' = lru_pop go c ip" for c' g x j g' x' ep
    using that old by (auto dest!: groups.put_cases simp: groups.pop_view split: if_splits)
  have "engine_ok view0 viewg (eng\<lparr>group_l0 := (group_l0 eng)(t := lru_put go c' ip (g, x, group_epoch eng))\<rparr>)"
    if "c' = c \<or> c' = lru_pop go c ip" for c' g x
    using that by (intro upd) (rule put)
  moreover have "engine_ok view0 viewg (eng\<lparr>group_l0 := (group_l0 eng)(t := c)\<rparr>)" using old by (intro upd)
  ultimately show ?thesis by (cases r) (simp_all add: resolve_group_def Let_def rc split: prod.split)
qed

lemma ok_groups:
  assumes "engine_ok view0 viewg eng" "ds_epoch (eng_cache eng) \<noteq> - 1" "group_epoch eng \<noteq> - 1"
  shows "engine_ok view0 viewg (load_client_groups co parse cs ss eng)"
proof -
  have "ep \<le> group_epoch eng \<Longrightarrow> ep \<le> group_epoch eng + 1" for ep
    using epoch_succ [OF assms(3)] by simp
  then show ?thesis
    using assms(1) caches_ok_clear_decisions [OF _ assms(2)]
    by (auto simp: load_client_groups_def load_client_groups_inner_def Let_def engine_ok_def)
qed

lemma check_total:
  assumes "index_ok (fx_hash tk) (eng_index eng)"
  shows "\<exists>r. resolve_verdict tk co clk t d g key skip eng = Got r"
proof -
  have "\<exists>v. evaluate (fx_hash tk) (eng_index eng) d g = Got v"
    unfolding evaluate_eq [OF assms] list_verdict_eq [OF assms] by (auto split: option.splits)
  then have "\<exists>r. resolve_fresh tk co clk t d g key e = Got r" if "eng_index e = eng_index eng" for e :: "('x, 'y, 'c) filter_engine"
    using that by (auto simp: resolve_fresh_def)
  then show ?thesis by (auto simp: resolve_verdict_def split: prod.splits option.splits)
qed

end

text \<open>
  C16. In every state the engine can reach, whatever the order of reloads, queries, group lookups and
  late stores of any threads, its caches hold nothing from a later epoch, no unissued ticket is
  published, and every query gets a decision: neither the index nor the Bloom filter behind it
  is ever read out of bounds.
\<close>

theorem reachable_engine_decides:
  assumes "filter_caches co view0 view1 go viewg"
    and "engine_ok view0 viewg eng0" "index_ok (fx_hash tk) (eng_index eng0)"
    and "\<And>n. next_power_of_two (fst (bloom_size tk n)) < 2 ^ 64"
    and "reachable_engine tk co go eng0 eng"
  shows "engine_ok view0 viewg eng \<and> index_ok (fx_hash tk) (eng_index eng) \<and>
    (\<exists>r. check_filter tk co dk ovr clk t d g eng = Got r)"
proof -
  note fc = assms(1)
  have "engine_ok view0 viewg eng \<and> index_ok (fx_hash tk) (eng_index eng)"
    using assms(5)
  proof induction
    case (ticket eng)
    then show ?case using epoch_succ [of "reload_tickets eng"] by (auto simp: issue_reload_ticket_def engine_ok_def)
  next
    case (rebuild eng db ticket mode eng')
    have "index_ok (fx_hash tk) (eng_index eng')"
      using rebuild compile_Got [of tk db "eng_lists eng" mode, OF assms(4)]
      by (auto simp: rebuild_through_def Let_def and_then_Got split: if_splits)
    then show ?case using filter_caches.ok_rebuild [OF fc] rebuild by blast
  next
    case (check eng dk ovr clk t d g r eng')
    then obtain v where "resolve_verdict tk co clk t d g (dk d g) (skip_decision_cache (clk 0) ovr) eng = Got (v, eng')"
      by (auto simp: check_filter_def and_then_Got)
    then show ?case using filter_caches.engine_ok_verdict [OF fc] verdict_index check.IH by metis
  next
    case (store_late eng now t key v)
    then show ?case using filter_caches.engine_ok_remember [OF fc] by (simp add: eng_index_keeps)
  next
    case (cname eng dk now t d g ttl)
    then show ?case using filter_caches.ok_cname [OF fc] by (simp add: eng_index_keeps)
  next
    case (group eng clk t ip)
    then show ?case unfolding eng_index_keeps by (blast intro: filter_caches.ok_resolve_group [OF fc])
  next
    case (groups eng parse cs ss)
    then show ?case using filter_caches.ok_groups [OF fc] by (simp add: eng_index_keeps)
  next
    case (toggle eng b)
    then show ?case by (auto simp: set_blocking_enabled_def engine_ok_def)
  qed (use assms in auto)
  moreover from this obtain v e where "resolve_verdict tk co clk t d g (dk d g) (skip_decision_cache (clk 0) ovr) eng = Got (v, e)"
    using filter_caches.check_total [OF fc] by (metis surj_pair)
  ultimately show ?thesis by (simp add: check_filter_def)
qed

theorem reachable_engine_decides_witness:
  "\<exists>r. check_filter demo_tools recency_caches (\<lambda>d g. 7) None (\<lambda>_. 100) 0 ''ads.example.com'' 1
    (set_blocking_enabled False (demo_engine True)) = Got r"
proof -
  have "next_power_of_two 64 < 2 ^ 64" by (simp add: next_power_of_two.simps)
  then have "index_ok (fx_hash demo_tools) (eng_index (demo_engine True))"
    using empty_index_ok by (simp add: demo_engine_def)
  moreover have "reachable_engine demo_tools recency_caches recency_ops (demo_engine True)
      (set_blocking_enabled False (demo_engine True))"
    by (rule reachable_engine.toggle [OF reachable_engine.start])
  ultimately show ?thesis
    using reachable_engine_decides [OF recency_filter.filter_caches_axioms demo_engine_ok [of True] _ demo_facts(2)] by blast
qed

end
