(* ===== verification/Cache_Record.thy ===== *)
theory Cache_Record
  imports Wire_Relay Text
begin

unbundle bit_operations_syntax

text \<open>
  Keys, data and records of the DNS cache (\<open>infrastructure/src/dns/cache/key.rs\<close>, \<open>data.rs\<close>,
  \<open>record.rs\<close>) and the second a record falls due for renewal (\<open>schedule.rs\<close>). The atomic fields of
  a record are plain fields, each atomic operation one function on the record. The product of a
  TTL and the floating-point refresh threshold is a parameter, at most the TTL.
\<close>

section \<open>Keys\<close>

record cache_key =
  ck_domain :: string
  ck_type :: record_type
  ck_view :: u32

definition no_upper :: "string \<Rightarrow> bool" where
  "no_upper d = list_all (\<lambda>c. \<not> ascii_upper c) d"

definition normalize_domain :: "string \<Rightarrow> string" where
  "normalize_domain d = (if no_upper d then d else lower d)"

definition trim_end_dots :: "string \<Rightarrow> string" where
  "trim_end_dots d = rev (dropWhile (\<lambda>c. c = CHR ''.'') (rev d))"

definition normalize_wire_name :: "string \<Rightarrow> string" where
  "normalize_wire_name d = normalize_domain (trim_end_dots d)"

definition from_lowercase :: "string \<Rightarrow> record_type \<Rightarrow> cache_key" where
  "from_lowercase d rt = \<lparr>ck_domain = d, ck_type = rt, ck_view = 0\<rparr>"

definition new_key :: "string \<Rightarrow> record_type \<Rightarrow> cache_key" where
  "new_key d rt = \<lparr>ck_domain = (if no_upper d then d else lower d), ck_type = rt, ck_view = 0\<rparr>"

definition in_view :: "u32 \<Rightarrow> cache_key \<Rightarrow> cache_key" where
  "in_view view k = k\<lparr>ck_view := view\<rparr>"

lemma no_upper_lower_id: "no_upper d \<Longrightarrow> lower d = d"
  by (rule lower_id) (simp add: no_upper_def list_all_iff)

lemma normalize_domain_lower: "normalize_domain d = lower d"
  by (simp add: normalize_domain_def no_upper_lower_id)

lemma new_key_normal: "new_key d rt = from_lowercase (normalize_domain d) rt"
  by (simp add: new_key_def from_lowercase_def normalize_domain_def)

section \<open>Data\<close>

datatype dnssec_status = Secure | Insecure | Bogus | Indeterminate

datatype cached_dnssec =
  Cached_unknown | Cached_secure | Cached_insecure | Cached_bogus | Cached_indeterminate

fun dnssec_from :: "dnssec_status \<Rightarrow> cached_dnssec" where
  "dnssec_from Secure = Cached_secure"
| "dnssec_from Insecure = Cached_insecure"
| "dnssec_from Bogus = Cached_bogus"
| "dnssec_from Indeterminate = Cached_indeterminate"

fun dnssec_to_domain :: "cached_dnssec \<Rightarrow> dnssec_status option" where
  "dnssec_to_domain Cached_unknown = None"
| "dnssec_to_domain Cached_secure = Some Secure"
| "dnssec_to_domain Cached_insecure = Some Insecure"
| "dnssec_to_domain Cached_bogus = Some Bogus"
| "dnssec_to_domain Cached_indeterminate = Some Indeterminate"

record cached_addresses =
  ca_addresses :: "ip_addr list"
  ca_chain :: "string list option"

record cached_wire =
  cw_bytes :: bytes
  cw_chain :: "string list option"

datatype cached_data =
    IpAddresses cached_addresses
  | CanonicalName string
  | WireData cached_wire
  | NegativeResponse

definition non_empty :: "string list \<Rightarrow> string list option" where
  "non_empty chain = (if chain \<noteq> [] then Some chain else None)"

record resolution =
  res_addresses :: "ip_addr list"
  res_wire :: "bytes option"
  res_chain :: "string list"

definition from_resolution :: "resolution \<Rightarrow> cached_data option" where
  "from_resolution r =
    (if res_addresses r \<noteq> []
     then Some (IpAddresses \<lparr>ca_addresses = res_addresses r, ca_chain = non_empty (res_chain r)\<rparr>)
     else map_option (\<lambda>b. WireData \<lparr>cw_bytes = b, cw_chain = non_empty (res_chain r)\<rparr>) (res_wire r))"

definition into_stored :: "cached_data \<Rightarrow> u32 \<Rightarrow> u32 \<Rightarrow> u32 \<Rightarrow> cached_data res" where
  "into_stored d ttl lo hi =
    (case d of
       WireData w \<Rightarrow> and_then (cache_form (cw_bytes w) ttl lo hi) (\<lambda>b. Got (WireData (w\<lparr>cw_bytes := b\<rparr>)))
     | _ \<Rightarrow> Got d)"

fun is_negative :: "cached_data \<Rightarrow> bool" where
  "is_negative NegativeResponse = True"
| "is_negative _ = False"

fun as_cached_addresses :: "cached_data \<Rightarrow> cached_addresses option" where
  "as_cached_addresses (IpAddresses a) = Some a"
| "as_cached_addresses _ = None"

section \<open>Records\<close>

definition FLAG_DELETED :: u8 where "FLAG_DELETED = 1"
definition FLAG_REFRESHING :: u8 where "FLAG_REFRESHING = 2"
definition FLAG_PERMANENT :: u8 where "FLAG_PERMANENT = 4"
definition FLAG_LOCAL_DNS :: u8 where "FLAG_LOCAL_DNS = 16"
definition STALE_GRACE_PERIOD_MULTIPLIER :: u64 where "STALE_GRACE_PERIOD_MULTIPLIER = 2"
definition TIMER_LAPSED :: u64 where "TIMER_LAPSED = 0"
definition TIMER_PARKED :: u64 where "TIMER_PARKED = - 2"
definition TIMER_CLAIMED :: u64 where "TIMER_CLAIMED = - 1"

record cached_record =
  cr_data :: cached_data
  cr_dnssec :: cached_dnssec
  expires_at_secs :: u64
  inserted_at_secs :: u64
  hit_count :: u64
  last_access :: u64
  hits_at_last_refresh :: u64
  refresh_count :: u64
  refresh_timer :: u64
  cr_ttl :: u32
  cr_type :: record_type
  cr_flags :: u8

definition new_record :: "cached_data \<Rightarrow> u32 \<Rightarrow> record_type \<Rightarrow> cached_dnssec option \<Rightarrow> u64 \<Rightarrow> cached_record" where
  "new_record d ttl rt dnssec now =
    \<lparr>cr_data = d, cr_dnssec = (case dnssec of Some s \<Rightarrow> s | None \<Rightarrow> Cached_unknown),
     expires_at_secs = now + ucast ttl, inserted_at_secs = now, hit_count = 0, last_access = now,
     hits_at_last_refresh = 0, refresh_count = 0, refresh_timer = TIMER_LAPSED, cr_ttl = ttl,
     cr_type = rt, cr_flags = 0\<rparr>"

definition permanent_record :: "cached_data \<Rightarrow> u32 \<Rightarrow> record_type \<Rightarrow> u64 \<Rightarrow> cached_record" where
  "permanent_record d ttl rt now =
    \<lparr>cr_data = d, cr_dnssec = Cached_unknown, expires_at_secs = - 1, inserted_at_secs = now,
     hit_count = 0, last_access = now, hits_at_last_refresh = 0, refresh_count = 0,
     refresh_timer = TIMER_LAPSED, cr_ttl = ttl, cr_type = rt, cr_flags = FLAG_PERMANENT\<rparr>"

definition rec_permanent :: "cached_record \<Rightarrow> bool" where
  "rec_permanent r \<longleftrightarrow> cr_flags r AND FLAG_PERMANENT \<noteq> 0"

definition with_local_dns :: "cached_record \<Rightarrow> cached_record" where
  "with_local_dns r = r\<lparr>cr_flags := cr_flags r OR FLAG_LOCAL_DNS\<rparr>"

definition is_local_dns :: "cached_record \<Rightarrow> bool" where
  "is_local_dns r \<longleftrightarrow> cr_flags r AND FLAG_LOCAL_DNS \<noteq> 0"

definition remaining_ttl_at :: "u64 \<Rightarrow> cached_record \<Rightarrow> u32" where
  "remaining_ttl_at now r =
    (if rec_permanent r then cr_ttl r else ucast (sat_sub (expires_at_secs r) now))"

definition is_expired_at :: "u64 \<Rightarrow> cached_record \<Rightarrow> bool" where
  "is_expired_at now r \<longleftrightarrow> (if rec_permanent r then False else expires_at_secs r \<le> now)"

definition is_stale_usable_at :: "u64 \<Rightarrow> cached_record \<Rightarrow> bool" where
  "is_stale_usable_at now r \<longleftrightarrow>
    (let age = sat_sub now (inserted_at_secs r);
         max_stale_age = ucast (cr_ttl r) * STALE_GRACE_PERIOD_MULTIPLIER
     in expires_at_secs r \<le> now \<and> age < max_stale_age)"

definition is_dead_at :: "u64 \<Rightarrow> cached_record \<Rightarrow> bool" where
  "is_dead_at now r \<longleftrightarrow> is_expired_at now r \<and> \<not> is_stale_usable_at now r"

definition refresh_deadline :: "cached_record \<Rightarrow> u64" where
  "refresh_deadline r =
    sat_add (expires_at_secs r) (ucast (cr_ttl r) * (STALE_GRACE_PERIOD_MULTIPLIER - 1))"

definition mark_for_deletion :: "cached_record \<Rightarrow> cached_record" where
  "mark_for_deletion r = r\<lparr>cr_flags := cr_flags r OR FLAG_DELETED\<rparr>"

definition is_marked :: "cached_record \<Rightarrow> bool" where
  "is_marked r \<longleftrightarrow> cr_flags r AND FLAG_DELETED \<noteq> 0"

definition try_set_flag :: "u8 \<Rightarrow> cached_record \<Rightarrow> bool \<times> cached_record" where
  "try_set_flag b r =
    (if cr_flags r AND b \<noteq> 0 then (False, r) else (True, r\<lparr>cr_flags := cr_flags r OR b\<rparr>))"

definition try_set_refreshing :: "cached_record \<Rightarrow> bool \<times> cached_record" where
  "try_set_refreshing r = try_set_flag FLAG_REFRESHING r"

definition clear_refreshing :: "cached_record \<Rightarrow> cached_record" where
  "clear_refreshing r = r\<lparr>cr_flags := cr_flags r AND NOT FLAG_REFRESHING\<rparr>"

definition REFRESH_LEAD_SECS :: u64 where "REFRESH_LEAD_SECS = 60"

definition refresh_due_at :: "(u32 \<Rightarrow> u64) \<Rightarrow> u64 \<Rightarrow> u32 \<Rightarrow> u64" where
  "refresh_due_at proportional inserted ttl32 =
    (let ttl = ucast ttl32 :: u64;
         lead = (if REFRESH_LEAD_SECS < ttl
                 then max (ttl - REFRESH_LEAD_SECS) (ttl div 2 + (if ttl mod 2 = 0 then 0 else 1)) else ttl)
     in inserted + max (min (proportional ttl32) lead) 1)"

definition refresh_due_secs :: "(u32 \<Rightarrow> u64) \<Rightarrow> cached_record \<Rightarrow> u64" where
  "refresh_due_secs proportional r = refresh_due_at proportional (inserted_at_secs r) (cr_ttl r)"

definition set_refresh_timer :: "u64 \<Rightarrow> cached_record \<Rightarrow> cached_record" where
  "set_refresh_timer due r = r\<lparr>refresh_timer := due\<rparr>"

definition lapse_refresh_timer :: "cached_record \<Rightarrow> cached_record" where
  "lapse_refresh_timer r = r\<lparr>refresh_timer := TIMER_LAPSED\<rparr>"

definition is_refresh_parked :: "cached_record \<Rightarrow> bool" where
  "is_refresh_parked r \<longleftrightarrow> refresh_timer r = TIMER_PARKED"

definition swap_refresh_timer :: "u64 \<Rightarrow> u64 \<Rightarrow> cached_record \<Rightarrow> bool \<times> cached_record" where
  "swap_refresh_timer from to r =
    (if refresh_timer r = from then (True, r\<lparr>refresh_timer := to\<rparr>) else (False, r))"

definition try_claim_refresh_timer :: "u64 \<Rightarrow> cached_record \<Rightarrow> bool \<times> cached_record" where
  "try_claim_refresh_timer due r = swap_refresh_timer due TIMER_CLAIMED r"

definition try_start_claimed :: "cached_record \<Rightarrow> bool \<times> cached_record" where
  "try_start_claimed r = swap_refresh_timer TIMER_CLAIMED TIMER_LAPSED r"

definition park_claimed_refresh :: "cached_record \<Rightarrow> cached_record" where
  "park_claimed_refresh r = snd (swap_refresh_timer TIMER_CLAIMED TIMER_PARKED r)"

definition try_reclaim_parked :: "cached_record \<Rightarrow> bool \<times> cached_record" where
  "try_reclaim_parked r = swap_refresh_timer TIMER_PARKED TIMER_CLAIMED r"

definition try_unpark_refresh :: "u64 \<Rightarrow> cached_record \<Rightarrow> bool \<times> cached_record" where
  "try_unpark_refresh due r = swap_refresh_timer TIMER_PARKED due r"

definition try_rearm_lapsed :: "u64 \<Rightarrow> cached_record \<Rightarrow> bool \<times> cached_record" where
  "try_rearm_lapsed due r = swap_refresh_timer TIMER_LAPSED due r"

text \<open>
  The comparison of the hit rate with a threshold is a parameter, given the hits since the last
  renewal and the seconds they were counted over.
\<close>

definition hits_below_rate :: "(u64 \<Rightarrow> u64 \<Rightarrow> bool) \<Rightarrow> u64 \<Rightarrow> cached_record \<Rightarrow> bool" where
  "hits_below_rate below now r =
    below (sat_sub (hit_count r) (hits_at_last_refresh r)) (max (sat_sub now (inserted_at_secs r)) 1)"

definition note_refreshed :: "cached_record \<Rightarrow> cached_record" where
  "note_refreshed r = r\<lparr>hits_at_last_refresh := hit_count r, refresh_count := refresh_count r + 1\<rparr>"

definition record_hits :: "u64 \<Rightarrow> u64 \<Rightarrow> cached_record \<Rightarrow> cached_record" where
  "record_hits count now r =
    (let r = r\<lparr>hit_count := hit_count r + count\<rparr> in
     if last_access r < now then r\<lparr>last_access := now\<rparr> else r)"

definition record_hit :: "u64 \<Rightarrow> cached_record \<Rightarrow> cached_record" where
  "record_hit now r = record_hits 1 now r"

section \<open>Flags\<close>

lemma and_flag: "n < 8 \<Longrightarrow> w AND 2 ^ n \<noteq> 0 \<longleftrightarrow> bit w n" for w :: u8
  by (simp add: and_exp_eq_0_iff_not_bit)

lemma flag_bits:
  "is_marked r \<longleftrightarrow> bit (cr_flags r) 0" "rec_permanent r \<longleftrightarrow> bit (cr_flags r) 2" "is_local_dns r \<longleftrightarrow> bit (cr_flags r) 4"
  using and_flag [of 0 "cr_flags r"] and_flag [of 2 "cr_flags r"] and_flag [of 4 "cr_flags r"]
  by (simp_all add: is_marked_def rec_permanent_def is_local_dns_def FLAG_DELETED_def FLAG_PERMANENT_def FLAG_LOCAL_DNS_def)

lemma bit_flag: "bit (2 ^ k :: u8) n \<longleftrightarrow> k < 8 \<and> n = k"
  by (auto simp: bit_exp_iff)

lemma bit_flags:
  "bit FLAG_DELETED n \<longleftrightarrow> n = 0" "bit FLAG_REFRESHING n \<longleftrightarrow> n = 1" "bit FLAG_PERMANENT n \<longleftrightarrow> n = 2" "bit FLAG_LOCAL_DNS n \<longleftrightarrow> n = 4"
  using bit_flag [of 0 n] bit_flag [of 1 n] bit_flag [of 2 n] bit_flag [of 4 n]
  by (simp_all add: FLAG_DELETED_def FLAG_REFRESHING_def FLAG_LOCAL_DNS_def FLAG_PERMANENT_def)

text \<open>Which operations touch which flags.\<close>

lemma flag_simps [simp]:
  "is_marked (mark_for_deletion r)" "rec_permanent (mark_for_deletion r) = rec_permanent r"
  "is_local_dns (mark_for_deletion r) = is_local_dns r"
  "is_marked (with_local_dns r) = is_marked r" "rec_permanent (with_local_dns r) = rec_permanent r" "is_local_dns (with_local_dns r)"
  "is_marked (clear_refreshing r) = is_marked r" "rec_permanent (clear_refreshing r) = rec_permanent r"
  "is_local_dns (clear_refreshing r) = is_local_dns r"
  "is_marked (snd (try_set_refreshing r)) = is_marked r" "rec_permanent (snd (try_set_refreshing r)) = rec_permanent r"
  "is_local_dns (snd (try_set_refreshing r)) = is_local_dns r"
  by (auto simp: flag_bits mark_for_deletion_def with_local_dns_def clear_refreshing_def try_set_refreshing_def
      try_set_flag_def bit_or_iff bit_and_iff bit_not_iff bit_flags)

lemma new_flags [simp]:
  "\<not> is_marked (new_record d ttl rt s now)" "\<not> rec_permanent (new_record d ttl rt s now)"
  "\<not> is_local_dns (new_record d ttl rt s now)"
  "\<not> is_marked (permanent_record d ttl rt now)" "rec_permanent (permanent_record d ttl rt now)"
  "\<not> is_local_dns (permanent_record d ttl rt now)"
  by (simp_all add: flag_bits new_record_def permanent_record_def bit_flags)

section \<open>Lifetimes\<close>

text \<open>
  A record of an upstream answer expires its TTL after it was stored; the clock, epoch seconds,
  stays clear of the top bit.
\<close>

definition lifetime_ok :: "cached_record \<Rightarrow> bool" where
  "lifetime_ok r \<longleftrightarrow> expires_at_secs r = inserted_at_secs r + ucast (cr_ttl r) \<and> unat (inserted_at_secs r) < 2 ^ 63"

lemma unat_ttl: "unat (ucast (ttl :: u32) :: u64) = unat ttl"
  by (simp add: unat_ucast_up)

lemma lifetimeD:
  assumes "lifetime_ok r"
  shows "unat (expires_at_secs r) = unat (inserted_at_secs r) + unat (cr_ttl r)"
    "unat (refresh_deadline r) = unat (inserted_at_secs r) + 2 * unat (cr_ttl r)"
proof -
  have lt: "unat (inserted_at_secs r) + unat (ucast (cr_ttl r) :: u64) < 2 ^ LENGTH(64)"
    using assms unat_u32_lt [of "cr_ttl r"] by (simp add: lifetime_ok_def unat_ttl del: unat_u32_lt)
  then show e: "unat (expires_at_secs r) = unat (inserted_at_secs r) + unat (cr_ttl r)"
    using assms unat_add_no_wrap [OF lt] by (simp add: lifetime_ok_def unat_ttl)
  have "unat (inserted_at_secs r) + 2 * unat (cr_ttl r) < 2 ^ 64"
    using assms unat_u32_lt [of "cr_ttl r"] by (simp add: lifetime_ok_def del: unat_u32_lt)
  then show "unat (refresh_deadline r) = unat (inserted_at_secs r) + 2 * unat (cr_ttl r)"
    by (simp add: refresh_deadline_def STALE_GRACE_PERIOD_MULTIPLIER_def unat_sat_add e unat_ttl)
qed

text \<open>The deadline is exactly the second from which no client is served the record.\<close>

lemma dead_iff_deadline:
  assumes "lifetime_ok r" "\<not> rec_permanent r"
  shows "is_dead_at now r \<longleftrightarrow> refresh_deadline r \<le> now"
proof -
  have "unat (ucast (cr_ttl r) * 2 :: u64) = 2 * unat (cr_ttl r)"
    using unat_mult_lem [of "ucast (cr_ttl r) :: u64" 2] unat_u32_lt [of "cr_ttl r"]
    by (simp add: unat_ttl mult.commute del: unat_u32_lt)
  then show ?thesis
    using assms lifetimeD [OF assms(1)]
    by (auto simp: is_dead_at_def is_expired_at_def is_stale_usable_at_def Let_def STALE_GRACE_PERIOD_MULTIPLIER_def
        word_le_nat_alt word_less_nat_alt unat_sat_sub)
qed

lemma permanent_never_dead: "rec_permanent r \<Longrightarrow> \<not> is_dead_at now r"
  by (simp add: is_dead_at_def is_expired_at_def)

text \<open>The second a renewal falls due, as a natural number.\<close>

lemma unat_due:
  assumes "proportional ttl \<le> ucast ttl" "unat inserted < 2 ^ 63"
  shows "unat (refresh_due_at proportional inserted ttl) = unat inserted +
    max (min (unat (proportional ttl)) (if 60 < unat ttl then max (unat ttl - 60) ((unat ttl + 1) div 2) else unat ttl)) 1"
proof -
  let ?t = "ucast ttl :: u64"
  let ?lead = "if REFRESH_LEAD_SECS < ?t then max (?t - REFRESH_LEAD_SECS) (?t div 2 + (if ?t mod 2 = 0 then 0 else 1)) else ?t"
  have half: "unat (?t div 2 + (if ?t mod 2 = 0 then 0 else 1)) = (unat ttl + 1) div 2"
  proof -
    have "unat (?t div 2) = unat ttl div 2" "unat (?t mod 2) = unat ttl mod 2"
      by (simp_all add: unat_div unat_mod unat_ttl)
    moreover have "unat (?t div 2 + 1) = unat (?t div 2) + 1"
      using unat_add_no_wrap [of "?t div 2" 1] unat_u32_lt [of ttl] by (simp add: unat_div unat_ttl del: unat_u32_lt)
    ultimately show ?thesis by (simp add: word_unat_eq_iff split: if_splits) presburger
  qed
  have max_unat: "unat (max a b) = max (unat a) (unat b)" "unat (min a b) = min (unat a) (unat b)" for a b :: u64
    by (auto simp: max_def min_def word_le_nat_alt)
  have lead: "unat ?lead = (if 60 < unat ttl then max (unat ttl - 60) ((unat ttl + 1) div 2) else unat ttl)"
  proof (cases "REFRESH_LEAD_SECS < ?t")
    case True
    then have "unat (?t - REFRESH_LEAD_SECS) = unat ttl - 60" "60 < unat ttl"
      by (simp_all add: REFRESH_LEAD_SECS_def unat_sub word_le_nat_alt word_less_nat_alt unat_ttl)
    then show ?thesis using True half by (simp add: max_unat)
  next
    case False
    then show ?thesis by (simp add: REFRESH_LEAD_SECS_def word_less_nat_alt unat_ttl)
  qed
  have "unat (max (min (proportional ttl) l) 1) \<le> max (unat ttl) 1" for l
    using assms(1) unfolding max_unat word_le_nat_alt unat_ttl unsigned_1 by linarith
  from this [of ?lead] have "unat (max (min (proportional ttl) ?lead) 1) \<le> max (unat ttl) 1" .
  also have "\<dots> < 2 ^ 32" using unat_u32_lt [of ttl] by (simp del: unat_u32_lt)
  finally have "unat inserted + unat (max (min (proportional ttl) ?lead) 1) < 2 ^ LENGTH(64)"
    using assms(2) by simp
  from unat_add_no_wrap [OF this] show ?thesis
    unfolding refresh_due_at_def Let_def max_unat lead unsigned_1 .
qed

lemma due_in_lifetime:
  assumes "proportional ttl \<le> ucast ttl" "unat inserted < 2 ^ 63" "ttl \<noteq> 0"
  shows "unat inserted < unat (refresh_due_at proportional inserted ttl)"
    "unat (refresh_due_at proportional inserted ttl) \<le> unat inserted + unat ttl"
proof -
  have "0 < unat ttl" using assms(3) by (simp add: unat_gt_0)
  then show "unat inserted < unat (refresh_due_at proportional inserted ttl)"
    "unat (refresh_due_at proportional inserted ttl) \<le> unat inserted + unat ttl"
    unfolding unat_due [of proportional ttl, OF assms(1,2)] by auto
qed

end
