(* ===== verification/Dns_Cache.thy ===== *)
theory Dns_Cache
  imports Cache_Record Bloom Decision_Cache
begin

unbundle bit_operations_syntax

text \<open>
  The DNS cache (\<open>infrastructure/src/dns/cache/storage.rs\<close>, \<open>l1.rs\<close>, \<open>negative_cache.rs\<close>, \<open>expiry.rs\<close>,
  \<open>refresh.rs\<close>): the shared map behind its Bloom filter, the thread-local level in front of it,
  the negative entries, the permanent local records, and the timers that renew and remove
  entries. A concurrent map is the list of its entries in iteration order; an operation that takes
  locks is one step. Every reading of the coarse clock during an operation is a value of \<open>clk\<close>.
  The LRU map, the hash, and what is computed in floating point (the share of a TTL at which an
  entry is renewed, eviction scores and headroom, hit rates) are parameters.
\<close>

section \<open>State\<close>

datatype timer_kind = Due | Retry | NegativeExpiry

record scheduled_refresh =
  due_at :: u64
  sr_key :: cache_key
  sr_kind :: timer_kind

record dns_l1_entry =
  le_answer :: cached_addresses
  le_dnssec :: cached_dnssec
  le_local :: bool
  pending_hits :: u16
  le_expires :: u64
  flushed_at :: u32

record cache_config =
  max_entries :: nat
  access_window :: u64
  eviction_sample_size :: nat
  cfg_min_ttl :: u32
  cfg_max_ttl :: u32
  renew_ahead :: bool
  retry_lapsed_after :: u64
  proportional :: "u32 \<Rightarrow> u64"
  eviction_headroom :: nat
  eviction_score :: "u64 \<Rightarrow> u64 \<Rightarrow> u64 \<Rightarrow> u64 \<Rightarrow> int"

record 'l cache_env =
  cfg :: cache_config
  key_hash :: "cache_key \<Rightarrow> u64"
  lru :: "('l, string, dns_l1_entry) lru_ops"

record cache_metrics =
  m_hits :: u64
  m_misses :: u64
  m_insertions :: u64
  m_evictions :: u64
  m_optimistic_refreshes :: u64
  m_stale_hits :: u64
  m_lazy_deletions :: u64
  m_compactions :: u64
  m_expirations :: u64
  m_batch_evictions :: u64
  m_transient_errors :: u64
  m_stale_refresh_drops :: u64
  m_refresh_shed :: u64

record 'l dns_cache =
  dc_map :: "(cache_key \<times> cached_record) list"
  dc_metrics :: cache_metrics
  dc_bloom :: bloom
  eviction_cursor :: nat
  dc_negative :: "(cache_key \<times> u64) list"
  permanent_records :: "(string \<times> record_type list) list"
  dc_timers :: "scheduled_refresh list"
  stale_repairs :: "(string \<times> record_type \<times> u32) list option"
  l1_generation :: u64
  l1_threads :: "nat \<Rightarrow> 'l \<times> u64"

definition new_metrics :: cache_metrics where
  "new_metrics =
    \<lparr>m_hits = 0, m_misses = 0, m_insertions = 0, m_evictions = 0, m_optimistic_refreshes = 0,
     m_stale_hits = 0, m_lazy_deletions = 0, m_compactions = 0, m_expirations = 0, m_batch_evictions = 0,
     m_transient_errors = 0, m_stale_refresh_drops = 0, m_refresh_shed = 0\<rparr>"

text \<open>The size of the Bloom filter is computed in floating point: its bits and hashes are arguments.\<close>

definition new_cache :: "'l cache_env \<Rightarrow> nat \<Rightarrow> nat \<Rightarrow> 'l dns_cache" where
  "new_cache env bits hashes =
    \<lparr>dc_map = [], dc_metrics = new_metrics, dc_bloom = new_bloom bits hashes, eviction_cursor = 0, dc_negative = [],
     permanent_records = [], dc_timers = [], stale_repairs = None, l1_generation = 0,
     l1_threads = \<lambda>_. (lru_new (lru env) 1024, 0)\<rparr>"

definition put_record :: "cache_key \<Rightarrow> cached_record \<Rightarrow> 'l dns_cache \<Rightarrow> 'l dns_cache" where
  "put_record k r c = c\<lparr>dc_map := AList.update k r (dc_map c)\<rparr>"

definition drop_record :: "cache_key \<Rightarrow> 'l dns_cache \<Rightarrow> 'l dns_cache" where
  "drop_record k c = c\<lparr>dc_map := AList.delete k (dc_map c)\<rparr>"

definition count_hit :: "cache_metrics \<Rightarrow> cache_metrics" where
  "count_hit m = m\<lparr>m_hits := m_hits m + 1\<rparr>"

definition clamp_ttl :: "cache_config \<Rightarrow> u32 \<Rightarrow> u32 res" where
  "clamp_ttl g ttl =
    (if cfg_max_ttl g < cfg_min_ttl g then Panic
     else Got (if ttl < cfg_min_ttl g then cfg_min_ttl g else if cfg_max_ttl g < ttl then cfg_max_ttl g else ttl))"

section \<open>The thread-local level\<close>

definition STACK_KEY_LEN :: nat where "STACK_KEY_LEN = 260"

definition stack_key :: "string \<Rightarrow> string \<Rightarrow> string option" where
  "stack_key type_str d =
    (if length type_str + 1 + length d \<le> STACK_KEY_LEN then Some (type_str @ '':'' @ map ascii_lower d) else None)"

definition heap_key :: "string \<Rightarrow> string \<Rightarrow> string" where
  "heap_key type_str d = type_str @ '':'' @ lower d"

definition l1_key :: "record_type \<Rightarrow> string \<Rightarrow> string" where
  "l1_key rt d = (case stack_key (as_str rt) d of Some k \<Rightarrow> k | None \<Rightarrow> heap_key (as_str rt) d)"

definition lookup_l1 ::
  "'l cache_env \<Rightarrow> u64 \<Rightarrow> nat \<Rightarrow> string \<Rightarrow> 'l dns_cache \<Rightarrow>
   (cached_addresses \<times> cached_dnssec \<times> bool \<times> u32 \<times> u16) option \<times> 'l dns_cache" where
  "lookup_l1 env now t key c =
    (case l1_threads c t of (s, gen) \<Rightarrow>
      if gen \<noteq> l1_generation c
      then (None, c\<lparr>l1_threads := (l1_threads c)(t := (lru_clear (lru env) s, l1_generation c))\<rparr>)
      else case lru_get (lru env) s key of
        (None, s1) \<Rightarrow> (None, c\<lparr>l1_threads := (l1_threads c)(t := (s1, gen))\<rparr>)
      | (Some e, s1) \<Rightarrow>
          if now < le_expires e
          then
            let remaining = ucast (min (le_expires e - now) 0xFFFFFFFF);
                pending = pending_hits e + 1; second = ucast now;
                keep = (flushed_at e = second \<and> pending < 0xFFFF);
                flushed = (if keep then 0 else pending);
                e1 = (if keep then e\<lparr>pending_hits := pending\<rparr> else e\<lparr>pending_hits := 0, flushed_at := second\<rparr>)
            in (Some (le_answer e, le_dnssec e, le_local e, remaining, flushed),
                c\<lparr>l1_threads := (l1_threads c)(t := (lru_put (lru env) s1 key e1, gen))\<rparr>)
          else (None, c\<lparr>l1_threads := (l1_threads c)(t := (s1, gen))\<rparr>))"

definition l1_insert ::
  "'l cache_env \<Rightarrow> u64 \<Rightarrow> nat \<Rightarrow> string \<Rightarrow> record_type \<Rightarrow> cached_addresses \<Rightarrow> cached_dnssec \<Rightarrow> bool \<Rightarrow> u64 \<Rightarrow>
   'l dns_cache \<Rightarrow> u16 \<times> 'l dns_cache" where
  "l1_insert env now t d rt answer dnssec loc expires c =
    (case l1_threads c t of (s, gen) \<Rightarrow>
      let key = l1_key rt d; (replaced, s1) = lru_get (lru env) s key;
          e = \<lparr>le_answer = answer, le_dnssec = dnssec, le_local = loc, pending_hits = 0, le_expires = expires,
               flushed_at = ucast now\<rparr>
      in (case replaced of Some old \<Rightarrow> pending_hits old | None \<Rightarrow> 0,
          c\<lparr>l1_threads := (l1_threads c)(t := (lru_put (lru env) s1 key e, gen))\<rparr>))"

definition dns_l1_clear :: "'l cache_env \<Rightarrow> nat \<Rightarrow> 'l dns_cache \<Rightarrow> 'l dns_cache" where
  "dns_l1_clear env t c =
    (let gen = l1_generation c + 1 in
     c\<lparr>l1_generation := gen,
       l1_threads := (l1_threads c)(t := (lru_clear (lru env) (fst (l1_threads c t)), gen))\<rparr>)"

section \<open>Negative entries\<close>

definition MIN_NEGATIVE_TTL :: u32 where "MIN_NEGATIVE_TTL = 300"
definition MAX_NEGATIVE_TTL :: u32 where "MAX_NEGATIVE_TTL = 3600"
definition EVICTION_BATCH_SIZE :: nat where "EVICTION_BATCH_SIZE = 64"
definition LOCAL_DNS_BIT :: u64 where "LOCAL_DNS_BIT = push_bit 63 1"

definition negative_ttl :: "u32 option \<Rightarrow> u32" where
  "negative_ttl soa_ttl =
    (let ttl = (case soa_ttl of Some t \<Rightarrow> t | None \<Rightarrow> MIN_NEGATIVE_TTL) in
     if ttl < MIN_NEGATIVE_TTL then MIN_NEGATIVE_TTL else if MAX_NEGATIVE_TTL < ttl then MAX_NEGATIVE_TTL else ttl)"

definition negative_entry :: "u64 \<Rightarrow> bool \<Rightarrow> u64" where
  "negative_entry expires loc = (expires AND NOT LOCAL_DNS_BIT) OR (if loc then LOCAL_DNS_BIT else 0)"

definition neg_expires :: "u64 \<Rightarrow> u64" where
  "neg_expires e = e AND NOT LOCAL_DNS_BIT"

definition neg_local :: "u64 \<Rightarrow> bool" where
  "neg_local e \<longleftrightarrow> e AND LOCAL_DNS_BIT \<noteq> 0"

definition evict_if_full :: "nat \<Rightarrow> nat \<Rightarrow> ('v \<Rightarrow> bool) \<Rightarrow> ('k \<times> 'v) list \<Rightarrow> ('k \<times> 'v) list" where
  "evict_if_full batch limit is_expired m =
    (if length m < limit then m
     else
       let expired = map fst (filter (\<lambda>(_, v). is_expired v) (take batch m));
           m1 = filter (\<lambda>(k, _). k \<notin> set expired) m
       in if limit \<le> length m1 then (case m1 of [] \<Rightarrow> [] | _ # rest \<Rightarrow> rest) else m1)"

definition negative_get :: "u64 \<Rightarrow> cache_key \<Rightarrow> 'l dns_cache \<Rightarrow> (u32 \<times> bool) option \<times> 'l dns_cache" where
  "negative_get now key c =
    (case map_of (dc_negative c) key of
       None \<Rightarrow> (None, c)
     | Some e \<Rightarrow>
         if now < neg_expires e then (Some (ucast (sat_sub (neg_expires e) now), neg_local e), c)
         else (None, c\<lparr>dc_negative := AList.delete key (dc_negative c)\<rparr>))"

definition negative_insert ::
  "cache_config \<Rightarrow> u64 \<Rightarrow> cache_key \<Rightarrow> u32 \<Rightarrow> bool \<Rightarrow> 'l dns_cache \<Rightarrow> u64 \<times> 'l dns_cache" where
  "negative_insert g now key ttl0 loc c =
    (let ttl = negative_ttl (Some ttl0);
         m = evict_if_full EVICTION_BATCH_SIZE (max_entries g) (\<lambda>e. neg_expires e \<le> now) (dc_negative c);
         expires = now + ucast ttl
     in (expires, c\<lparr>dc_negative := AList.update key (negative_entry expires loc) m\<rparr>))"

definition negative_remove_expired :: "u64 \<Rightarrow> cache_key \<Rightarrow> 'l dns_cache \<Rightarrow> bool \<times> 'l dns_cache" where
  "negative_remove_expired now key c =
    (case map_of (dc_negative c) key of
       Some e \<Rightarrow> if neg_expires e \<le> now then (True, c\<lparr>dc_negative := AList.delete key (dc_negative c)\<rparr>) else (False, c)
     | None \<Rightarrow> (False, c))"

section \<open>Timers\<close>

definition renews_ahead :: "cache_config \<Rightarrow> u32 \<Rightarrow> bool" where
  "renews_ahead g ttl \<longleftrightarrow> renew_ahead g \<and> ttl \<noteq> 0"

definition arm_timer :: "cache_key \<Rightarrow> u64 \<Rightarrow> timer_kind \<Rightarrow> 'l dns_cache \<Rightarrow> 'l dns_cache" where
  "arm_timer key due kind c = c\<lparr>dc_timers := dc_timers c @ [\<lparr>due_at = due, sr_key = key, sr_kind = kind\<rparr>]\<rparr>"

definition first_timer_at :: "cache_config \<Rightarrow> cached_record \<Rightarrow> u64 \<times> cached_record" where
  "first_timer_at g r =
    (if renews_ahead g (cr_ttl r)
     then let due = refresh_due_secs (proportional g) r in (due, set_refresh_timer due r)
     else (refresh_deadline r, lapse_refresh_timer r))"

definition rearm_refresh :: "cache_config \<Rightarrow> cache_key \<Rightarrow> cached_record \<Rightarrow> 'l dns_cache \<Rightarrow> 'l dns_cache" where
  "rearm_refresh g key r c =
    (if \<not> renews_ahead g (cr_ttl r) then c
     else
       let due = refresh_due_secs (proportional g) r; (ok, r1) = try_unpark_refresh due r in
       if ok then arm_timer key due Due (put_record key r1 c) else c)"

definition schedule_retry :: "u64 \<Rightarrow> cache_key \<Rightarrow> u64 \<Rightarrow> 'l dns_cache \<Rightarrow> 'l dns_cache" where
  "schedule_retry now key in_secs c =
    (let due = now + in_secs in
     case map_of (dc_map c) key of
       None \<Rightarrow> c
     | Some r \<Rightarrow> (let (ok, r1) = try_rearm_lapsed due r in
         if ok then arm_timer key due Retry (put_record key r1 c) else c))"

definition rearm_lapsed :: "cache_config \<Rightarrow> u64 \<Rightarrow> cache_key \<Rightarrow> 'l dns_cache \<Rightarrow> 'l dns_cache" where
  "rearm_lapsed g now key c =
    (case map_of (dc_map c) key of
       None \<Rightarrow> c
     | Some r \<Rightarrow>
         if \<not> renews_ahead g (cr_ttl r) then c
         else
           let due = min (sat_add now (retry_lapsed_after g)) (refresh_deadline r); (ok, r1) = try_rearm_lapsed due r in
           if ok then arm_timer key due Due (put_record key r1 c) else c)"

section \<open>Lookup\<close>

text \<open>Hits a thread-local copy served are counted on the shared record, if it is still there.\<close>

definition record_l1_hits :: "cache_config \<Rightarrow> u64 \<Rightarrow> cache_key \<Rightarrow> u16 \<Rightarrow> 'l dns_cache \<Rightarrow> 'l dns_cache" where
  "record_l1_hits g now key hits c =
    (case map_of (dc_map c) key of
       None \<Rightarrow> c
     | Some r \<Rightarrow>
         let r1 = record_hits (ucast hits) now r; c1 = put_record key r1 c in
         if is_refresh_parked r1 then rearm_refresh g key r1 c1 else c1)"

definition promote_to_l1 ::
  "'l cache_env \<Rightarrow> (nat \<Rightarrow> u64) \<Rightarrow> u64 \<Rightarrow> nat \<Rightarrow> cache_key \<Rightarrow> cached_record \<Rightarrow> 'l dns_cache \<Rightarrow> 'l dns_cache" where
  "promote_to_l1 env clk now t key r c =
    (case cr_data r of
       IpAddresses a \<Rightarrow>
         if expires_at_secs r \<le> now then c
         else
           let expires = (if rec_permanent r then now + ucast (cr_ttl r) else expires_at_secs r);
               (batched, c1) = l1_insert env (clk 4) t (ck_domain key) (ck_type key) a (cr_dnssec r) (is_local_dns r) expires c
           in if 0 < batched
              then put_record key (record_hits (ucast batched) (clk 5) r) c1 else c1
     | _ \<Rightarrow> c)"

type_synonym cache_hit = "cached_data \<times> cached_dnssec option \<times> u32 option \<times> bool"

definition get_negative :: "u64 \<Rightarrow> cache_key \<Rightarrow> 'l dns_cache \<Rightarrow> cache_hit option \<times> 'l dns_cache" where
  "get_negative now key c =
    (case negative_get now key c of
       (Some (remaining, loc), c1) \<Rightarrow>
         (Some (NegativeResponse, None, Some remaining, loc), c1\<lparr>dc_metrics := count_hit (dc_metrics c1)\<rparr>)
     | (None, c1) \<Rightarrow> (None, c1\<lparr>dc_metrics := (dc_metrics c1)\<lparr>m_misses := m_misses (dc_metrics c1) + 1\<rparr>\<rparr>))"

definition request_repair :: "bool \<Rightarrow> cache_key \<Rightarrow> cached_record \<Rightarrow> 'l dns_cache \<Rightarrow> 'l dns_cache" where
  "request_repair sends key r c =
    (case stale_repairs c of
       None \<Rightarrow> put_record key r c
     | Some queue \<Rightarrow>
         (case try_set_refreshing r of
            (False, _) \<Rightarrow> put_record key r c
          | (True, r1) \<Rightarrow>
              if sends
              then (put_record key r1 c)\<lparr>stale_repairs := Some (queue @ [(ck_domain key, ck_type key, ck_view key)])\<rparr>
              else (put_record key (clear_refreshing r1) c)
                \<lparr>dc_metrics := (dc_metrics c)\<lparr>m_stale_refresh_drops := m_stale_refresh_drops (dc_metrics c) + 1\<rparr>\<rparr>))"

definition get_stale :: "(nat \<Rightarrow> u64) \<Rightarrow> bool \<Rightarrow> cache_key \<Rightarrow> cached_record \<Rightarrow> 'l dns_cache \<Rightarrow> cache_hit option \<times> 'l dns_cache" where
  "get_stale clk sends key r c =
    (let m = count_hit (dc_metrics c); c1 = c\<lparr>dc_metrics := m\<lparr>m_stale_hits := m_stale_hits m + 1\<rparr>\<rparr>;
         r1 = record_hit (clk 3) r
     in (Some (cr_data r, Some (cr_dnssec r), Some STALE_SERVE_TTL, is_local_dns r), request_repair sends key r1 c1))"

definition get_live ::
  "'l cache_env \<Rightarrow> (nat \<Rightarrow> u64) \<Rightarrow> nat \<Rightarrow> cache_key \<Rightarrow> cached_record \<Rightarrow> 'l dns_cache \<Rightarrow> cache_hit option \<times> 'l dns_cache" where
  "get_live env clk t key r c =
    (let now = clk 2;
         r1 = record_hit (clk 3) r;
         c1 = put_record key r1 (c\<lparr>dc_metrics := count_hit (dc_metrics c)\<rparr>);
         c2 = (if is_refresh_parked r1 then rearm_refresh (cfg env) key r1 c1 else c1);
         r2 = (case map_of (dc_map c2) key of Some r2 \<Rightarrow> r2 | None \<Rightarrow> r1);
         c3 = (if ck_view key = 0 then promote_to_l1 env clk now t key r2 c2 else c2)
     in (Some (cr_data r, Some (cr_dnssec r), Some (remaining_ttl_at now r), is_local_dns r), c3))"

definition get_shared ::
  "'l cache_env \<Rightarrow> (nat \<Rightarrow> u64) \<Rightarrow> nat \<Rightarrow> bool \<Rightarrow> cache_key \<Rightarrow> 'l dns_cache \<Rightarrow> (cache_hit option \<times> 'l dns_cache) res" where
  "get_shared env clk t sends key c =
    and_then (bloom_check (key_hash env) (dc_bloom c) key) (\<lambda>in_bloom.
    Got (if \<not> in_bloom then get_negative (clk 6) key c
      else case map_of (dc_map c) key of
        None \<Rightarrow> get_negative (clk 6) key c
      | Some r \<Rightarrow>
          if is_stale_usable_at (clk 2) r then get_stale clk sends key r c
          else if is_expired_at (clk 2) r
          then get_negative (clk 6) key
            ((put_record key (mark_for_deletion r) c)
              \<lparr>dc_metrics := (dc_metrics c)\<lparr>m_lazy_deletions := m_lazy_deletions (dc_metrics c) + 1\<rparr>\<rparr>)
          else get_live env clk t key r c))"

definition get_in ::
  "'l cache_env \<Rightarrow> (nat \<Rightarrow> u64) \<Rightarrow> nat \<Rightarrow> bool \<Rightarrow> string \<Rightarrow> record_type \<Rightarrow> u32 \<Rightarrow> 'l dns_cache \<Rightarrow>
   (cache_hit option \<times> 'l dns_cache) res" where
  "get_in env clk t sends domain0 rt view c =
    (let d = normalize_domain domain0; key = in_view view (from_lowercase d rt) in
     if view = 0 \<and> (rt = A \<or> rt = AAAA)
     then case lookup_l1 env (clk 0) t (l1_key rt d) c of
       (Some (answer, dnssec, loc, remaining, l1_hits), c1) \<Rightarrow>
         let c2 = c1\<lparr>dc_metrics := count_hit (dc_metrics c1)\<rparr> in
         Got (Some (IpAddresses answer, Some dnssec, Some remaining, loc),
           if 0 < l1_hits then record_l1_hits (cfg env) (clk 1) key l1_hits c2 else c2)
     | (None, c1) \<Rightarrow> get_shared env clk t sends key c1
     else get_shared env clk t sends key c)"

section \<open>Storing answers\<close>

definition keep_l1 ::
  "'l cache_env \<Rightarrow> u64 \<Rightarrow> nat \<Rightarrow> cache_key \<Rightarrow> cached_addresses option \<Rightarrow> cached_dnssec \<Rightarrow> bool \<Rightarrow> u64 \<Rightarrow>
   'l dns_cache \<Rightarrow> u16 \<times> 'l dns_cache" where
  "keep_l1 env now t key answer dnssec loc expires c =
    (case answer of
       None \<Rightarrow> (0, c)
     | Some a \<Rightarrow> l1_insert env now t (ck_domain key) (ck_type key) a dnssec loc expires c)"

definition store_positive ::
  "'l cache_env \<Rightarrow> (nat \<Rightarrow> u64) \<Rightarrow> nat \<Rightarrow> cache_key \<Rightarrow> cached_data \<Rightarrow> u32 \<Rightarrow> cached_dnssec option \<Rightarrow> bool \<Rightarrow>
   'l dns_cache \<Rightarrow> 'l dns_cache res" where
  "store_positive env clk t key stored ttl dnssec local_dns c =
    (let answer = (if ck_view key = 0 then as_cached_addresses stored else None);
         fresh = new_record stored ttl (ck_type key) dnssec (clk 1);
         r = (if local_dns then with_local_dns fresh else fresh);
         (first_timer, r1) = first_timer_at (cfg env) r
     in and_then (bloom_set (key_hash env) (dc_bloom c) key) (\<lambda>b.
       let c1 = c\<lparr>dc_bloom := b\<rparr> in
       case map_of (dc_map c1) key of
         Some old \<Rightarrow>
           if rec_permanent old then Got c1
           else Got (snd (keep_l1 env (clk 2) t key answer (case dnssec of Some s \<Rightarrow> s | None \<Rightarrow> Cached_unknown) local_dns
             (expires_at_secs r) (arm_timer key first_timer Due (put_record key r1 c1))))
       | None \<Rightarrow>
           (let c2 = (put_record key r1 c1)
              \<lparr>dc_metrics := (dc_metrics c1)\<lparr>m_insertions := m_insertions (dc_metrics c1) + 1\<rparr>\<rparr>
            in Got (snd (keep_l1 env (clk 2) t key answer (case dnssec of Some s \<Rightarrow> s | None \<Rightarrow> Cached_unknown) local_dns
              (expires_at_secs r) (arm_timer key first_timer Due c2))))))"

definition store ::
  "'l cache_env \<Rightarrow> (nat \<Rightarrow> u64) \<Rightarrow> nat \<Rightarrow> cache_key \<Rightarrow> cached_data \<Rightarrow> u32 \<Rightarrow> cached_dnssec option \<Rightarrow> bool \<Rightarrow>
   'l dns_cache \<Rightarrow> 'l dns_cache res" where
  "store env clk t key d ttl dnssec local_dns c =
    (if is_negative d
     then let (expires, c1) = negative_insert (cfg env) (clk 0) key ttl local_dns c
       in Got (arm_timer key expires NegativeExpiry c1)
     else
       and_then (clamp_ttl (cfg env) ttl) (\<lambda>ttl1.
       case into_stored d ttl1 (cfg_min_ttl (cfg env)) (cfg_max_ttl (cfg env)) of
         Got stored \<Rightarrow> store_positive env clk t key stored ttl1 dnssec local_dns c
       | Nothing \<Rightarrow> Got c
       | Panic \<Rightarrow> Panic))"

definition cache_insert ::
  "'l cache_env \<Rightarrow> (nat \<Rightarrow> u64) \<Rightarrow> nat \<Rightarrow> string \<Rightarrow> record_type \<Rightarrow> cached_data \<Rightarrow> u32 \<Rightarrow> cached_dnssec option \<Rightarrow>
   'l dns_cache \<Rightarrow> 'l dns_cache res" where
  "cache_insert env clk t d rt data ttl dnssec c =
    store env clk t (from_lowercase (normalize_domain d) rt) data ttl dnssec False c"

section \<open>Eviction\<close>

text \<open>The window of entries a pass looks at, and how many it walked.\<close>

fun sample_window :: "nat \<Rightarrow> (cache_key \<times> cached_record) list \<Rightarrow> nat \<Rightarrow> (cache_key \<times> cached_record) list \<Rightarrow>
    nat \<times> (cache_key \<times> cached_record) list" where
  "sample_window want [] walked acc = (walked, acc)"
| "sample_window want ((k, r) # rest) walked acc =
    (if want \<le> length acc then (walked, acc)
     else sample_window want rest (walked + 1)
       (if is_marked r \<or> rec_permanent r then acc else acc @ [(k, r)]))"

text \<open>
  The heap of candidates as the list of their scores and keys, lowest score first; the greatest
  one gives way to a lower score.
\<close>

definition push_candidate :: "nat \<Rightarrow> int \<times> cache_key \<Rightarrow> (int \<times> cache_key) list \<Rightarrow> (int \<times> cache_key) list" where
  "push_candidate count cand heap =
    (if length heap < count then insort_key fst cand heap
     else if heap \<noteq> [] \<and> fst cand < fst (last heap) then insort_key fst cand (butlast heap)
     else heap)"

definition split_candidate ::
  "cache_config \<Rightarrow> u64 \<Rightarrow> nat \<Rightarrow> cache_key \<times> cached_record \<Rightarrow> cache_key list \<times> (int \<times> cache_key) list \<Rightarrow>
   cache_key list \<times> (int \<times> cache_key) list" where
  "split_candidate g now count snap acc =
    (case (snap, acc) of ((k, r), (urgent, heap)) \<Rightarrow>
      if is_expired_at now r \<and> \<not> sat_sub now (last_access r) \<le> access_window g then (urgent @ [k], heap)
      else (urgent, push_candidate count
        (eviction_score g (hit_count r) (last_access r) (inserted_at_secs r) now, k) heap))"

definition evict_by_strategy :: "cache_config \<Rightarrow> u64 \<Rightarrow> nat \<Rightarrow> 'l dns_cache \<Rightarrow> 'l dns_cache" where
  "evict_by_strategy g now count c =
    (let len = length (dc_map c) in
     if len = 0 then c
     else
       let want = min (count * eviction_sample_size g) len;
           start = eviction_cursor c mod len;
           (walked, snaps) = sample_window want (drop start (dc_map c) @ take start (dc_map c)) 0 [];
           (urgent, heap) = fold (split_candidate g now count) snaps ([], []);
           marked = map (\<lambda>(k, r). (k, if k \<in> set urgent then mark_for_deletion r else r)) (dc_map c);
           victims = map snd (take (count - length urgent) heap);
           kept = filter (\<lambda>(k, _). k \<notin> set victims) marked;
           retained = (if urgent \<noteq> [] then filter (\<lambda>(_, r). \<not> is_marked r) kept else kept);
           m = dc_metrics c
       in c\<lparr>dc_map := retained, eviction_cursor := (start + walked) mod len,
            dc_metrics := m\<lparr>m_evictions := m_evictions m + word_of_nat (len - length retained),
              m_batch_evictions := m_batch_evictions m + 1\<rparr>\<rparr>)"

definition evict_entries :: "cache_config \<Rightarrow> u64 \<Rightarrow> 'l dns_cache \<Rightarrow> 'l dns_cache" where
  "evict_entries g now c =
    (let len = length (dc_map c) in
     if len < max_entries g then c
     else evict_by_strategy g now (len - max_entries g + max (eviction_headroom g) 1) c)"

section \<open>Local records\<close>

definition claim_permanent :: "string \<Rightarrow> record_type \<Rightarrow> 'l dns_cache \<Rightarrow> 'l dns_cache" where
  "claim_permanent d rt c =
    c\<lparr>permanent_records := AList.map_default d [rt]
      (\<lambda>types. if rt \<in> set types then types else types @ [rt]) (permanent_records c)\<rparr>"

definition insert_permanent ::
  "'l cache_env \<Rightarrow> (nat \<Rightarrow> u64) \<Rightarrow> nat \<Rightarrow> string \<Rightarrow> record_type \<Rightarrow> cached_data \<Rightarrow> u32 \<Rightarrow> 'l dns_cache \<Rightarrow> 'l dns_cache res" where
  "insert_permanent env clk t domain0 rt d ttl c =
    (let key = from_lowercase (normalize_domain domain0) rt in
     case into_stored d ttl 0 (- 1) of
       Nothing \<Rightarrow> Got c
     | Panic \<Rightarrow> Panic
     | Got stored \<Rightarrow>
         and_then (bloom_set (key_hash env) (dc_bloom c) key) (\<lambda>b.
         let c1 = c\<lparr>dc_bloom := b\<rparr>;
             c2 = (if max_entries (cfg env) \<le> length (dc_map c1) then evict_entries (cfg env) (clk 0) c1 else c1);
             c3 = put_record key (permanent_record stored ttl rt (clk 1)) (claim_permanent (ck_domain key) rt c2)
         in Got (snd (keep_l1 env (clk 2) t key (as_cached_addresses stored) Cached_unknown False
           (clk 3 + ucast ttl) c3))))"

definition is_permanent :: "string \<Rightarrow> record_type \<Rightarrow> 'l dns_cache \<Rightarrow> bool" where
  "is_permanent d rt c \<longleftrightarrow>
    (case map_of (permanent_records c) (normalize_domain d) of Some types \<Rightarrow> rt \<in> set types | None \<Rightarrow> False)"

datatype local_record_status = NotLocal | MissingType | Present

definition local_record_status :: "string \<Rightarrow> record_type \<Rightarrow> 'l dns_cache \<Rightarrow> local_record_status" where
  "local_record_status d rt c =
    (case map_of (permanent_records c) (normalize_domain d) of
       None \<Rightarrow> NotLocal
     | Some types \<Rightarrow>
         if rt \<in> set types then Present
         else if A \<in> set types \<or> AAAA \<in> set types then MissingType else NotLocal)"

definition forget_permanent :: "string \<Rightarrow> record_type \<Rightarrow> 'l dns_cache \<Rightarrow> 'l dns_cache" where
  "forget_permanent d rt c =
    (case map_of (permanent_records c) d of
       None \<Rightarrow> c
     | Some types \<Rightarrow>
         (let rest = filter (\<lambda>k. k \<noteq> rt) types in
          c\<lparr>permanent_records := (if rest = [] then AList.delete d (permanent_records c)
            else AList.update d rest (permanent_records c))\<rparr>))"

definition count_eviction :: "'l dns_cache \<Rightarrow> 'l dns_cache" where
  "count_eviction c = c\<lparr>dc_metrics := (dc_metrics c)\<lparr>m_evictions := m_evictions (dc_metrics c) + 1\<rparr>\<rparr>"

definition cache_remove :: "'l cache_env \<Rightarrow> nat \<Rightarrow> string \<Rightarrow> record_type \<Rightarrow> 'l dns_cache \<Rightarrow> bool \<times> 'l dns_cache" where
  "cache_remove env t domain0 rt c =
    (let key = from_lowercase (normalize_domain domain0) rt in
     if map_of (dc_map c) key = None then (False, c)
     else (True, dns_l1_clear env t (count_eviction (forget_permanent (ck_domain key) rt (drop_record key c)))))"

definition remove_in ::
  "'l cache_env \<Rightarrow> nat \<Rightarrow> string \<Rightarrow> record_type \<Rightarrow> u32 \<Rightarrow> 'l dns_cache \<Rightarrow> bool \<times> 'l dns_cache" where
  "remove_in env t d rt view c =
    (if view = 0 then cache_remove env t d rt c
     else
       let key = in_view view (new_key d rt) in
       if map_of (dc_map c) key = None then (False, c) else (True, count_eviction (drop_record key c)))"

text \<open>The permanent entries of the map, in the order the table of names lists them.\<close>

definition preserved :: "'l dns_cache \<Rightarrow> (cache_key \<times> cached_data \<times> u32) list" where
  "preserved c =
    concat (map (\<lambda>(d, types). List.map_filter (\<lambda>rt.
      map_option (\<lambda>r. (from_lowercase d rt, cr_data r, cr_ttl r)) (map_of (dc_map c) (from_lowercase d rt))) types)
      (permanent_records c))"

definition restore_one ::
  "'l cache_env \<Rightarrow> u64 \<Rightarrow> 'l dns_cache \<Rightarrow> cache_key \<times> cached_data \<times> u32 \<Rightarrow> 'l dns_cache res" where
  "restore_one env now c x =
    (case x of (key, d, ttl) \<Rightarrow>
      and_then (bloom_set (key_hash env) (dc_bloom c) key) (\<lambda>b.
      Got (put_record key (permanent_record d ttl (ck_type key) now)
        (claim_permanent (ck_domain key) (ck_type key) (c\<lparr>dc_bloom := b\<rparr>)))))"

definition cache_clear :: "'l cache_env \<Rightarrow> u64 \<Rightarrow> nat \<Rightarrow> 'l dns_cache \<Rightarrow> 'l dns_cache res" where
  "cache_clear env now t c =
    (let keep = preserved c;
         c1 = dns_l1_clear env t (c\<lparr>dc_map := [], dc_bloom := bloom_clear (dc_bloom c), dc_negative := [],
           permanent_records := []\<rparr>);
         c2 = c1\<lparr>dc_metrics := (dc_metrics c1)\<lparr>m_hits := 0, m_misses := 0, m_evictions := 0\<rparr>\<rparr>
     in fold_res (restore_one env now) keep c2)"

section \<open>Maintenance\<close>

definition rotate_bloom :: "'l cache_env \<Rightarrow> u64 \<Rightarrow> 'l dns_cache \<Rightarrow> (nat \<times> 'l dns_cache) res" where
  "rotate_bloom env now c =
    (let live = map fst (filter (\<lambda>(_, r). \<not> is_marked r \<and> \<not> (is_expired_at now r \<and> \<not> is_stale_usable_at now r)) (dc_map c));
         locals = concat (map (\<lambda>(d, types). map (from_lowercase d) types) (permanent_records c))
     in and_then (bloom_rotate (dc_bloom c)) (\<lambda>b.
        and_then (fold_res (bloom_set (key_hash env)) (live @ locals) b) (\<lambda>b1.
        Got (length live, c\<lparr>dc_bloom := b1\<rparr>))))"

definition remove_dead :: "u64 \<Rightarrow> cache_key \<Rightarrow> 'l dns_cache \<Rightarrow> bool \<times> 'l dns_cache" where
  "remove_dead now key c =
    (case map_of (dc_map c) key of
       Some r \<Rightarrow>
         if \<not> rec_permanent r \<and> (is_marked r \<or> is_dead_at now r)
         then (True, (drop_record key c)\<lparr>dc_metrics := (dc_metrics c)
           \<lparr>m_compactions := m_compactions (dc_metrics c) + 1, m_expirations := m_expirations (dc_metrics c) + 1\<rparr>\<rparr>)
         else (False, c)
     | None \<Rightarrow> (False, c))"

definition expire_negative :: "u64 \<Rightarrow> cache_key \<Rightarrow> 'l dns_cache \<Rightarrow> bool \<times> 'l dns_cache" where
  "expire_negative now key c =
    (case negative_remove_expired now key c of
       (True, c1) \<Rightarrow> (True, c1\<lparr>dc_metrics := (dc_metrics c1)\<lparr>m_compactions := m_compactions (dc_metrics c1) + 1\<rparr>\<rparr>)
     | (False, c1) \<Rightarrow> (False, c1))"

definition record_transient_upstream_error :: "'l dns_cache \<Rightarrow> 'l dns_cache" where
  "record_transient_upstream_error c =
    c\<lparr>dc_metrics := (dc_metrics c)\<lparr>m_transient_errors := m_transient_errors (dc_metrics c) + 1\<rparr>\<rparr>"

definition is_over_capacity :: "cache_config \<Rightarrow> 'l dns_cache \<Rightarrow> bool" where
  "is_over_capacity g c \<longleftrightarrow> max_entries g \<le> length (dc_map c)"

definition holds :: "cache_key \<Rightarrow> 'l dns_cache \<Rightarrow> bool" where
  "holds key c \<longleftrightarrow> map_of (dc_map c) key \<noteq> None"

definition holds_negative :: "cache_key \<Rightarrow> 'l dns_cache \<Rightarrow> bool" where
  "holds_negative key c \<longleftrightarrow> map_of (dc_negative c) key \<noteq> None"

text \<open>The channel of repairs is connected once; the queue is what was sent and not yet received.\<close>

definition set_stale_repairs :: "'l dns_cache \<Rightarrow> 'l dns_cache" where
  "set_stale_repairs c = (if stale_repairs c = None then c\<lparr>stale_repairs := Some []\<rparr> else c)"

end
