(* ===== verification/Cache_Refresh.thy ===== *)
theory Cache_Refresh
  imports Dns_Cache "HOL-Library.Multiset"
begin

unbundle bit_operations_syntax

text \<open>
  Renewals (\<open>infrastructure/src/dns/cache/refresh.rs\<close>, \<open>storage.rs\<close>), the timers by the second they
  fall due (\<open>schedule.rs\<close>) and the worker that takes them (\<open>infrastructure/src/dns/cache_maintenance.rs\<close>).
  The resolver's answer to a renewal is an argument, and so is the comparison of hit rates.
\<close>

section \<open>Renewing a record\<close>

definition renewed ::
  "u32 \<Rightarrow> u64 \<Rightarrow> cached_dnssec option \<Rightarrow> cached_data \<Rightarrow> cached_record \<Rightarrow> cached_record" where
  "renewed ttl now dnssec stored r =
    (clear_refreshing (note_refreshed (r\<lparr>expires_at_secs := now + ucast ttl, inserted_at_secs := now, cr_ttl := ttl,
      cr_dnssec := (case dnssec of Some s \<Rightarrow> s | None \<Rightarrow> cr_dnssec r)\<rparr>)))\<lparr>cr_data := stored\<rparr>"

text \<open>The entry that is there, renewed in place, and what is written beside it.\<close>

definition renew_entry ::
  "'l cache_env \<Rightarrow> (nat \<Rightarrow> u64) \<Rightarrow> nat \<Rightarrow> cache_key \<Rightarrow> u32 \<Rightarrow> cached_data \<Rightarrow> cached_dnssec option \<Rightarrow> cached_record \<Rightarrow>
   'l dns_cache \<Rightarrow> (bool \<times> 'l dns_cache) res" where
  "renew_entry env clk t key ttl stored dnssec r c =
    (let r1 = renewed ttl (clk 0) dnssec stored r;
         answer = (if ck_view key = 0 then as_cached_addresses stored else None);
         (batched, c1) = keep_l1 env (clk 1) t key answer (cr_dnssec r1) (is_local_dns r1) (expires_at_secs r1) c;
         r2 = (if 0 < batched then record_hits (ucast batched) (clk 2) r1 else r1);
         (first_timer, r3) = first_timer_at (cfg env) r2
     in and_then (bloom_set (key_hash env) (dc_bloom c1) key) (\<lambda>b.
        Got (True, arm_timer key first_timer Due (put_record key r3 (c1\<lparr>dc_bloom := b\<rparr>)))))"

definition refresh_record_of ::
  "'l cache_env \<Rightarrow> (nat \<Rightarrow> u64) \<Rightarrow> nat \<Rightarrow> cache_key \<Rightarrow> u32 option \<Rightarrow> cached_data \<Rightarrow> cached_dnssec option \<Rightarrow>
   'l dns_cache \<Rightarrow> (bool \<times> 'l dns_cache) res" where
  "refresh_record_of env clk t key new_ttl new_data dnssec c =
    (case (case new_ttl of Some ttl \<Rightarrow> Some ttl | None \<Rightarrow> map_option cr_ttl (map_of (dc_map c) key)) of
       None \<Rightarrow> Got (False, c)
     | Some ttl0 \<Rightarrow>
         and_then (clamp_ttl (cfg env) ttl0) (\<lambda>ttl.
         case into_stored new_data ttl (cfg_min_ttl (cfg env)) (cfg_max_ttl (cfg env)) of
           Nothing \<Rightarrow> Got (False, c)
         | Panic \<Rightarrow> Panic
         | Got stored \<Rightarrow>
             (case map_of (dc_map c) key of
                None \<Rightarrow> Got (False, c)
              | Some r \<Rightarrow>
                  if rec_permanent r \<or> is_marked r then Got (False, c)
                  else renew_entry env clk t key ttl stored dnssec r c)))"

definition remaining_ttl_of :: "u64 \<Rightarrow> cache_key \<Rightarrow> 'l dns_cache \<Rightarrow> u32 option" where
  "remaining_ttl_of now key c = map_option (remaining_ttl_at now) (map_of (dc_map c) key)"

section \<open>Claims\<close>

record due_refresh =
  dr_key :: cache_key
  dr_retry :: bool
  dr_cold :: bool
  dr_deadline :: u64

record cold_thresholds =
  below_rate :: "u64 \<Rightarrow> u64 \<Rightarrow> bool"
  min_frequency :: u64

definition has_died_by :: "u64 \<Rightarrow> due_refresh \<Rightarrow> bool" where
  "has_died_by now d \<longleftrightarrow> dr_deadline d \<le> now"

definition is_worth_renewing :: "cache_config \<Rightarrow> u64 \<Rightarrow> cached_record \<Rightarrow> bool" where
  "is_worth_renewing g now r \<longleftrightarrow>
    (if access_window g < sat_sub now (last_access r) then False
     else REFRESH_LEAD_SECS \<le> ucast (cr_ttl r) \<or> inserted_at_secs r \<le> last_access r)"

definition claimed_refresh :: "cold_thresholds \<Rightarrow> u64 \<Rightarrow> scheduled_refresh \<Rightarrow> cached_record \<Rightarrow> due_refresh" where
  "claimed_refresh th now timer r =
    \<lparr>dr_key = sr_key timer, dr_retry = (sr_kind timer = Retry),
     dr_cold = (hits_below_rate (below_rate th) now r \<or> hit_count r < min_frequency th),
     dr_deadline = refresh_deadline r\<rparr>"

definition claim_due_refresh ::
  "cache_config \<Rightarrow> cold_thresholds \<Rightarrow> u64 \<Rightarrow> scheduled_refresh \<Rightarrow> 'l dns_cache \<Rightarrow> due_refresh option \<times> 'l dns_cache" where
  "claim_due_refresh g th now timer c =
    (let key = sr_key timer in
     case map_of (dc_map c) key of
       None \<Rightarrow> (None, c)
     | Some r \<Rightarrow>
         if rec_permanent r then (None, c)
         else if is_marked r \<or> is_dead_at now r then (None, snd (remove_dead now key c))
         else case try_claim_refresh_timer (due_at timer) r of
           (False, _) \<Rightarrow> (None, c)
         | (True, r1) \<Rightarrow>
             if is_worth_renewing g now r1 then (Some (claimed_refresh th now timer r1), put_record key r1 c)
             else
               let r2 = park_claimed_refresh r1 in
               if \<not> is_worth_renewing g now r2
               then (None, arm_timer key (refresh_deadline r2) Due (put_record key r2 c))
               else (case try_reclaim_parked r2 of
                 (False, _) \<Rightarrow> (None, arm_timer key (refresh_deadline r2) Due (put_record key r2 c))
               | (True, r3) \<Rightarrow> (Some (claimed_refresh th now timer r3), put_record key r3 c)))"

definition give_up_dead_claim :: "u64 \<Rightarrow> cache_key \<Rightarrow> 'l dns_cache \<Rightarrow> 'l dns_cache" where
  "give_up_dead_claim now key c =
    snd (remove_dead now key
      (c\<lparr>dc_metrics := (dc_metrics c)\<lparr>m_refresh_shed := m_refresh_shed (dc_metrics c) + 1\<rparr>\<rparr>))"

definition start_claimed_refresh ::
  "cache_config \<Rightarrow> u64 \<Rightarrow> u64 \<Rightarrow> cache_key \<Rightarrow> 'l dns_cache \<Rightarrow> bool \<times> 'l dns_cache" where
  "start_claimed_refresh g now coarse key c =
    (case map_of (dc_map c) key of
       None \<Rightarrow> (False, c)
     | Some r \<Rightarrow>
         (case try_start_claimed r of
            (False, _) \<Rightarrow> (False, c)
          | (True, r1) \<Rightarrow>
              if is_marked r1 \<or> is_dead_at now r1
              then (False, give_up_dead_claim now key (put_record key r1 c))
              else (case try_set_refreshing r1 of
                (True, r2) \<Rightarrow> (True, put_record key r2 c)
              | (False, _) \<Rightarrow> (False, rearm_lapsed g coarse key (put_record key r1 c)))))"

definition reset_refreshing_of :: "cache_key \<Rightarrow> 'l dns_cache \<Rightarrow> 'l dns_cache" where
  "reset_refreshing_of key c =
    (case map_of (dc_map c) key of None \<Rightarrow> c | Some r \<Rightarrow> put_record key (clear_refreshing r) c)"

end
