(* ===== verification/Refresh_Schedule.thy ===== *)
theory Refresh_Schedule
  imports Cache_Refresh
begin

text \<open>
  The timers of the refresh worker by the second they fall due (\<open>infrastructure/src/dns/cache/schedule.rs\<close>).
  Each ordered map is the list of its seconds in ascending order with the keys of each second. The
  interface \<open>timer_queue\<close> states what the worker relies on: a timer that was registered stays until
  it is taken, and taking yields exactly the timers that came due, earliest first.
\<close>

section \<open>Lanes\<close>

type_synonym lane = "(u64 \<times> cache_key list) list"

record refresh_schedule =
  timers :: lane
  retries :: lane
  negatives :: lane
  sched_len :: nat

datatype sweep_from = SweepFrom timer_kind u64

definition sweep_start :: sweep_from where
  "sweep_start = SweepFrom Due 0"

definition empty_schedule :: refresh_schedule where
  "empty_schedule = \<lparr>timers = [], retries = [], negatives = [], sched_len = 0\<rparr>"

fun lane_push :: "u64 \<Rightarrow> cache_key \<Rightarrow> lane \<Rightarrow> lane" where
  "lane_push s k [] = [(s, [k])]"
| "lane_push s k ((s', ks) # rest) =
    (if s = s' then (s', ks @ [k]) # rest
     else if s < s' then (s, [k]) # (s', ks) # rest
     else (s', ks) # lane_push s k rest)"

definition register :: "scheduled_refresh \<Rightarrow> refresh_schedule \<Rightarrow> refresh_schedule" where
  "register t s =
    (let s1 = (case sr_kind t of
       Due \<Rightarrow> s\<lparr>timers := lane_push (due_at t) (sr_key t) (timers s)\<rparr>
     | Retry \<Rightarrow> s\<lparr>retries := lane_push (due_at t) (sr_key t) (retries s)\<rparr>
     | NegativeExpiry \<Rightarrow> s\<lparr>negatives := lane_push (due_at t) (sr_key t) (negatives s)\<rparr>)
     in s1\<lparr>sched_len := sched_len s1 + 1\<rparr>)"

definition slot :: "timer_kind \<Rightarrow> u64 \<Rightarrow> cache_key list \<Rightarrow> scheduled_refresh list" where
  "slot kind s ks = map (\<lambda>k. \<lparr>due_at = s, sr_key = k, sr_kind = kind\<rparr>) ks"

fun take_lane :: "timer_kind \<Rightarrow> u64 \<Rightarrow> lane \<Rightarrow> scheduled_refresh list \<times> lane" where
  "take_lane kind now [] = ([], [])"
| "take_lane kind now ((s, ks) # rest) =
    (if now < s then ([], (s, ks) # rest)
     else case take_lane kind now rest of (due, rest') \<Rightarrow> (slot kind s ks @ due, rest'))"

definition take_due :: "u64 \<Rightarrow> refresh_schedule \<Rightarrow> scheduled_refresh list \<times> refresh_schedule" where
  "take_due now s =
    (let (d1, l1) = take_lane Due now (timers s); (d2, l2) = take_lane Retry now (retries s);
         (d3, l3) = take_lane NegativeExpiry now (negatives s);
         due = sort_key due_at (d1 @ d2 @ d3)
     in (due, \<lparr>timers = l1, retries = l2, negatives = l3, sched_len = sched_len s - length due\<rparr>))"

text \<open>One step of a sweep through a lane: the lane, the budget left, what was dropped, where to resume.\<close>

fun sweep_lane :: "u64 \<Rightarrow> (cache_key \<Rightarrow> bool) \<Rightarrow> nat \<Rightarrow> lane \<Rightarrow> lane \<times> nat \<times> nat \<times> u64 option" where
  "sweep_lane from alive budget [] = ([], budget, 0, None)"
| "sweep_lane from alive budget ((s, ks) # rest) =
    (if s < from
     then case sweep_lane from alive budget rest of (l, b, n, res) \<Rightarrow> ((s, ks) # l, b, n, res)
     else if budget = 0 then ((s, ks) # rest, 0, 0, Some s)
     else let kept = filter alive ks in
       case sweep_lane from alive (budget - length ks) rest of (l, b, n, res) \<Rightarrow>
         (if kept = [] then l else (s, kept) # l, b, length ks - length kept + n, res))"

definition retain_lane :: "(cache_key \<Rightarrow> bool) \<Rightarrow> lane \<Rightarrow> lane" where
  "retain_lane alive l = filter (\<lambda>(_, ks). ks \<noteq> []) (map (\<lambda>(s, ks). (s, filter alive ks)) l)"

definition lane_size :: "lane \<Rightarrow> nat" where
  "lane_size l = length (concat (map snd l))"

definition sweep :: "sweep_from \<Rightarrow> nat \<Rightarrow> (cache_key \<Rightarrow> timer_kind \<Rightarrow> bool) \<Rightarrow> refresh_schedule \<Rightarrow>
    sweep_from option \<times> refresh_schedule" where
  "sweep from budget alive s =
    (let ret = (if from = sweep_start then retain_lane (\<lambda>k. alive k Retry) (retries s) else retries s);
         removed0 = lane_size (retries s) - lane_size ret;
         (tim, budget1, removed1, res1) = (case from of
            SweepFrom Due second \<Rightarrow> sweep_lane second (\<lambda>k. alive k Due) budget (timers s)
          | _ \<Rightarrow> (timers s, budget, 0, None));
         (neg, removed2, resume) = (case res1 of
            Some second \<Rightarrow> (negatives s, 0, Some (SweepFrom Due second))
          | None \<Rightarrow>
              (case sweep_lane (case from of SweepFrom NegativeExpiry second \<Rightarrow> second | _ \<Rightarrow> 0)
                 (\<lambda>k. alive k NegativeExpiry) budget1 (negatives s) of
               (l, _, n, res) \<Rightarrow> (l, n, map_option (SweepFrom NegativeExpiry) res)))
     in (resume, \<lparr>timers = tim, retries = ret, negatives = neg,
          sched_len = sched_len s - (removed0 + removed1 + removed2)\<rparr>))"

section \<open>Pending timers\<close>

definition lane_ok :: "lane \<Rightarrow> bool" where
  "lane_ok l \<longleftrightarrow> sorted_wrt (<) (map fst l) \<and> (\<forall>(s, ks) \<in> set l. ks \<noteq> [])"

definition lane_timers :: "timer_kind \<Rightarrow> lane \<Rightarrow> scheduled_refresh list" where
  "lane_timers kind l = concat (map (\<lambda>(s, ks). slot kind s ks) l)"

definition pending :: "refresh_schedule \<Rightarrow> scheduled_refresh multiset" where
  "pending s = mset (lane_timers Due (timers s)) + mset (lane_timers Retry (retries s)) +
    mset (lane_timers NegativeExpiry (negatives s))"

definition schedule_ok :: "refresh_schedule \<Rightarrow> bool" where
  "schedule_ok s \<longleftrightarrow> lane_ok (timers s) \<and> lane_ok (retries s) \<and> lane_ok (negatives s) \<and> sched_len s = size (pending s)"

definition seconds :: "lane \<Rightarrow> u64 set" where
  "seconds l = fst ` set l"

lemma seconds_simps [simp]: "seconds [] = {}" "seconds ((s, ks) # l) = insert s (seconds l)"
  by (simp_all add: seconds_def)

lemma slot_simps [simp]: "length (slot kind s ks) = length ks" "slot kind s [] = []"
  "mset (slot kind s (ks @ [k])) = add_mset \<lparr>due_at = s, sr_key = k, sr_kind = kind\<rparr> (mset (slot kind s ks))"
  by (simp_all add: slot_def)

lemma slot_mem: "t \<in> set (slot kind s ks) \<longleftrightarrow> due_at t = s \<and> sr_kind t = kind \<and> sr_key t \<in> set ks"
  by (cases t) (auto simp: slot_def)

lemma lane_timers_simps [simp]: "lane_timers kind [] = []"
  "lane_timers kind ((s, ks) # l) = slot kind s ks @ lane_timers kind l"
  by (simp_all add: lane_timers_def)

lemma lane_ok_Cons [simp]: "lane_ok ((s, ks) # l) \<longleftrightarrow> ks \<noteq> [] \<and> lane_ok l \<and> (\<forall>x \<in> seconds l. s < x)"
  by (auto simp: lane_ok_def seconds_def)

lemma lane_ok_Nil [simp]: "lane_ok []"
  by (simp add: lane_ok_def)

lemma lane_push_mset: "mset (lane_timers kind (lane_push s k l)) = add_mset \<lparr>due_at = s, sr_key = k, sr_kind = kind\<rparr> (mset (lane_timers kind l))"
  by (induction s k l rule: lane_push.induct) (auto simp: slot_def)

lemma lane_push_fst: "seconds (lane_push s k l) = insert s (seconds l)"
  by (induction s k l rule: lane_push.induct) auto

lemma lane_push_ok: "lane_ok l \<Longrightarrow> lane_ok (lane_push s k l)"
  by (induction s k l rule: lane_push.induct) (auto simp: lane_push_fst)

lemma pending_register: "pending (register t s) = add_mset t (pending s)"
  by (cases t; cases "sr_kind t") (auto simp: pending_def register_def lane_push_mset)

lemma register_ok: "schedule_ok s \<Longrightarrow> schedule_ok (register t s)"
  using pending_register [of t s]
  by (cases "sr_kind t") (auto simp: schedule_ok_def register_def Let_def lane_push_ok)

lemma take_lane_spec:
  "take_lane kind now l = (due, rest) \<Longrightarrow> lane_ok l \<Longrightarrow>
    lane_ok rest \<and> lane_timers kind l = due @ lane_timers kind rest \<and> (\<forall>t \<in> set due. due_at t \<le> now) \<and>
    (\<forall>t \<in> set (lane_timers kind rest). now < due_at t)"
proof (induction kind now l arbitrary: due rule: take_lane.induct)
  case (2 kind now s ks l)
  show ?case
  proof (cases "now < s")
    case True
    have "now < due_at t" if pend: "t \<in> set (lane_timers kind l)" for t
    proof -
      obtain s' ks' where "(s', ks') \<in> set l" "t \<in> set (slot kind s' ks')" using pend by (auto simp: lane_timers_def)
      then show ?thesis using 2(3) True by (force simp: slot_mem seconds_def)
    qed
    then show ?thesis using True 2 by (auto simp: slot_mem)
  next
    case False
    obtain due1 where d: "take_lane kind now l = (due1, rest)" "due = slot kind s ks @ due1"
      using 2(2) False by (auto split: prod.splits)
    then show ?thesis using 2(1) [OF False d(1)] 2(3) False by (auto simp: slot_mem not_less)
  qed
qed simp

text \<open>Taking yields exactly what came due, in order.\<close>

lemma take_due_spec:
  assumes ok: "schedule_ok s" and t: "take_due now s = (due, s')"
  shows "schedule_ok s'" "pending s = mset due + pending s'" "sorted (map due_at due)"
    "\<forall>t \<in> set due. due_at t \<le> now" "\<forall>t \<in># pending s'. now < due_at t"
proof -
  obtain d1 l1 d2 l2 d3 l3 where l: "take_lane Due now (timers s) = (d1, l1)" "take_lane Retry now (retries s) = (d2, l2)"
    "take_lane NegativeExpiry now (negatives s) = (d3, l3)" by (metis surj_pair)
  note sp = take_lane_spec [OF l(1)] take_lane_spec [OF l(2)] take_lane_spec [OF l(3)]
  have due: "due = sort_key due_at (d1 @ d2 @ d3)"
    and s': "s' = \<lparr>timers = l1, retries = l2, negatives = l3, sched_len = sched_len s - length due\<rparr>"
    using t by (auto simp: take_due_def l Let_def)
  show p: "pending s = mset due + pending s'"
    using ok sp by (simp add: schedule_ok_def pending_def due s')
  show "schedule_ok s'"
    using ok sp p by (simp add: schedule_ok_def s') (metis add_diff_cancel_left' size_mset size_union)
  show "sorted (map due_at due)" by (simp add: due)
  show "\<forall>t \<in> set due. due_at t \<le> now" using ok sp by (auto simp: schedule_ok_def due)
  show "\<forall>t \<in># pending s'. now < due_at t" using ok sp by (auto simp: schedule_ok_def pending_def s')
qed

section \<open>The interface\<close>

locale timer_queue =
  fixes ok :: "'s \<Rightarrow> bool" and waiting :: "'s \<Rightarrow> scheduled_refresh multiset"
    and add :: "scheduled_refresh \<Rightarrow> 's \<Rightarrow> 's" and take_until :: "u64 \<Rightarrow> 's \<Rightarrow> scheduled_refresh list \<times> 's"
  assumes add_ok: "ok s \<Longrightarrow> ok (add t s)"
    and waiting_add: "waiting (add t s) = add_mset t (waiting s)"
    and take_exact: "ok s \<Longrightarrow> take_until now s = (due, s') \<Longrightarrow>
      ok s' \<and> waiting s = mset due + waiting s' \<and> (\<forall>t \<in> set due. due_at t \<le> now) \<and> (\<forall>t \<in># waiting s'. now < due_at t)"
begin

lemma collect: "ok s \<Longrightarrow> ok (fold add ts s) \<and> waiting (fold add ts s) = waiting s + mset ts"
  by (induction ts arbitrary: s) (simp_all add: add_ok waiting_add)

end

interpretation schedule: timer_queue schedule_ok pending register take_due
  by unfold_locales (auto simp: register_ok pending_register dest: take_due_spec)

section \<open>Sweeps\<close>

lemma lane_timers_due: "t \<in> set (lane_timers kind l) \<Longrightarrow> due_at t \<in> seconds l \<and> sr_kind t = kind"
  by (induction l) (auto simp: slot_mem)

lemma filter_slot: "filter (\<lambda>t. P (sr_key t)) (slot kind s ks) = slot kind s (filter P ks)"
  by (induction ks) (auto simp: slot_def)

text \<open>A step drops the rejected timers of the seconds it went through, and only those.\<close>

lemma sweep_lane_spec:
  "sweep_lane from alive b l = (l', b', n, res) \<Longrightarrow> lane_ok l \<Longrightarrow>
    lane_ok l' \<and> seconds l' \<subseteq> seconds l \<and>
    lane_timers kind l' = filter (\<lambda>t. due_at t < from \<or> (\<exists>s. res = Some s \<and> s \<le> due_at t) \<or> alive (sr_key t)) (lane_timers kind l) \<and>
    length (lane_timers kind l') + n = length (lane_timers kind l) \<and>
    (\<forall>s. res = Some s \<longrightarrow> s \<in> seconds l \<and> from \<le> s \<and> (0 < b \<longrightarrow> (\<exists>s0 \<in> seconds l. from \<le> s0 \<and> s0 < s)))"
proof (induction "from" alive b l arbitrary: l' b' n res rule: sweep_lane.induct)
  case (2 "from" alive b s ks rest)
  have keep_all: "filter (\<lambda>t. P t) (slot kind s ks) = slot kind s ks" if "\<And>t. due_at t = s \<Longrightarrow> P t" for P
    using that by (intro filter_True) (auto simp: slot_mem)
  have later: "s < due_at t" if "t \<in> set (lane_timers kind rest)" for t
    using lane_timers_due [OF that] 2(4) by auto
  have above: "\<forall>x \<in> seconds rest. s < x" using 2(4) by simp
  consider (before) "s < from" | (stop) "\<not> s < from" "b = 0" | (visit) "\<not> s < from" "b \<noteq> 0" by blast
  then show ?case
  proof cases
    case before
    obtain l1 b1 n1 r1 where r: "sweep_lane from alive b rest = (l1, b1, n1, r1)" by (metis prod_cases4)
    note ih = 2(1) [OF before r]
    have ok: "lane_ok rest" using 2(4) by simp
    have lt: "\<forall>x \<in> seconds l1. s < x" using conjunct1 [OF conjunct2 [OF ih [OF ok]]] above by blast
    show ?thesis using ih [OF ok] 2(3,4) lt before r by (auto simp: keep_all)
  next
    case stop
    then have e: "l' = (s, ks) # rest" "n = 0" "res = Some s" using 2(3) by auto
    have "filter (\<lambda>t. due_at t < from \<or> s \<le> due_at t \<or> alive (sr_key t)) (lane_timers kind rest) = lane_timers kind rest"
      using later by (intro filter_True) (auto intro: less_imp_le)
    then show ?thesis using stop 2(4) by (auto simp: e keep_all not_less)
  next
    case visit
    obtain l1 b1 n1 r1 where r: "sweep_lane from alive (b - length ks) rest = (l1, b1, n1, r1)" by (metis prod_cases4)
    have ok: "lane_ok rest" using 2(4) by simp
    note ih = 2(2) [OF visit refl r ok]
    have lt: "\<forall>x \<in> seconds l1. s < x" using conjunct1 [OF conjunct2 [OF ih]] above by blast
    have e: "l' = (if filter alive ks = [] then l1 else (s, filter alive ks) # l1)" "n = length ks - length (filter alive ks) + n1" "res = r1"
      using 2(3) visit r by (auto simp: Let_def)
    have out: "\<not> (\<exists>s'. r1 = Some s' \<and> s' \<le> s)" using ih 2(4) by fastforce
    have "filter (\<lambda>t. due_at t < from \<or> (\<exists>s'. r1 = Some s' \<and> s' \<le> due_at t) \<or> alive (sr_key t)) (slot kind s ks) = slot kind s (filter alive ks)"
      using visit(1) out by (subst filter_slot [symmetric], intro filter_cong) (auto simp: slot_mem)
    then show ?thesis using ih 2(4) lt visit
      by (auto simp: e not_less) (use length_filter_le [of alive ks] in linarith)
  qed
qed simp

text \<open>The timers a sweep has been through when it stands at a point.\<close>

fun covered :: "sweep_from option \<Rightarrow> scheduled_refresh \<Rightarrow> bool" where
  "covered None t = True"
| "covered (Some (SweepFrom kind s)) t =
    (case sr_kind t of
       Due \<Rightarrow> kind = NegativeExpiry \<or> due_at t < s
     | Retry \<Rightarrow> SweepFrom kind s \<noteq> sweep_start
     | NegativeExpiry \<Rightarrow> kind = NegativeExpiry \<and> due_at t < s)"

fun point_ok :: "sweep_from \<Rightarrow> bool" where
  "point_ok (SweepFrom kind s) = (kind \<noteq> Retry)"

definition left_over :: "sweep_from \<Rightarrow> refresh_schedule \<Rightarrow> nat" where
  "left_over from s = (case from of
     SweepFrom Due x \<Rightarrow> card {y \<in> seconds (timers s). x \<le> y} + card (seconds (negatives s)) + 1
   | SweepFrom _ x \<Rightarrow> card {y \<in> seconds (negatives s). x \<le> y})"

lemma retain_lane_spec:
  "lane_timers kind (retain_lane alive l) = filter (\<lambda>t. alive (sr_key t)) (lane_timers kind l)"
  "lane_ok l \<Longrightarrow> lane_ok (retain_lane alive l) \<and> seconds (retain_lane alive l) \<subseteq> seconds l"
  by (induction l) (auto simp: retain_lane_def filter_slot, blast)

lemma lane_size_timers: "lane_size l = length (lane_timers kind l)"
  by (induction l) (auto simp: lane_size_def lane_timers_def)

lemma finite_seconds [simp]: "finite (seconds l)"
  by (simp add: seconds_def)

lemma fewer_left:
  assumes "S \<subseteq> T" "finite T" "s0 \<in> T" "x \<le> s0" "s0 < y"
  shows "card {z \<in> S. y \<le> z} < card {z \<in> T. x \<le> (z :: u64)}"
proof (rule psubset_card_mono)
  have "s0 \<in> {z \<in> T. x \<le> z} - {z \<in> S. y \<le> z}" using assms by auto
  then show "{z \<in> S. y \<le> z} \<subset> {z \<in> T. x \<le> z}" using assms by force
qed (use assms in simp)

text \<open>What one step does to each lane.\<close>

definition sweeps :: "(scheduled_refresh \<Rightarrow> bool) \<Rightarrow> timer_kind \<Rightarrow> lane \<Rightarrow> lane \<Rightarrow> bool" where
  "sweeps P kind l l' \<longleftrightarrow> lane_ok l' \<and> seconds l' \<subseteq> seconds l \<and> lane_timers kind l' = filter P (lane_timers kind l)"

lemma sweeps_refl: "lane_ok l \<Longrightarrow> (\<And>t. t \<in> set (lane_timers kind l) \<Longrightarrow> P t) \<Longrightarrow> sweeps P kind l l"
  by (simp add: sweeps_def)

lemma sweeps_pending:
  assumes "sweeps P Due (timers s) (timers s')" "sweeps P Retry (retries s) (retries s')" "sweeps P NegativeExpiry (negatives s) (negatives s')"
  shows "pending s' = filter_mset P (pending s)"
  using assms by (simp add: sweeps_def pending_def flip: mset_filter)

definition advances :: "(cache_key \<Rightarrow> timer_kind \<Rightarrow> bool) \<Rightarrow> sweep_from \<Rightarrow> sweep_from option \<Rightarrow> refresh_schedule \<Rightarrow> refresh_schedule \<Rightarrow> bool" where
  "advances alive from res s s' \<longleftrightarrow>
    schedule_ok s' \<and> pending s' = filter_mset (\<lambda>t. covered (Some from) t \<or> \<not> covered res t \<or> alive (sr_key t) (sr_kind t)) (pending s) \<and>
    (\<forall>f. res = Some f \<longrightarrow> point_ok f \<and> f \<noteq> sweep_start \<and> left_over f s' < left_over from s) \<and>
    (\<forall>t \<in># pending s. covered (Some from) t \<longrightarrow> covered res t)"

lemma pending_kind: "t \<in># pending s \<Longrightarrow>
    sr_kind t = Due \<and> t \<in> set (lane_timers Due (timers s)) \<or> sr_kind t = Retry \<and> t \<in> set (lane_timers Retry (retries s)) \<or>
    sr_kind t = NegativeExpiry \<and> t \<in> set (lane_timers NegativeExpiry (negatives s))"
  using lane_timers_due by (auto simp: pending_def)

lemma size_pending: "size (pending s) =
    length (lane_timers Due (timers s)) + length (lane_timers Retry (retries s)) + length (lane_timers NegativeExpiry (negatives s))"
  by (simp add: pending_def)

lemma sweep_negatives:
  assumes ok: "schedule_ok s" and b: "0 < budget" and sw: "sweep (SweepFrom NegativeExpiry x) budget alive s = (res, s')"
  shows "advances alive (SweepFrom NegativeExpiry x) res s s'"
proof -
  obtain l b' n r where l: "sweep_lane x (\<lambda>k. alive k NegativeExpiry) budget (negatives s) = (l, b', n, r)" by (metis prod_cases4)
  have lanes: "lane_ok (timers s)" "lane_ok (retries s)" "lane_ok (negatives s)" "sched_len s = size (pending s)"
    using ok by (simp_all add: schedule_ok_def)
  note sp = sweep_lane_spec [OF l lanes(3), of NegativeExpiry]
  have s': "s' = \<lparr>timers = timers s, retries = retries s, negatives = l, sched_len = sched_len s - n\<rparr>"
    and res: "res = map_option (SweepFrom NegativeExpiry) r"
    using sw by (auto simp: sweep_def l Let_def sweep_start_def lane_size_def)
  let ?P = "\<lambda>t. covered (Some (SweepFrom NegativeExpiry x)) t \<or> \<not> covered res t \<or> alive (sr_key t) (sr_kind t)"
  have "?P t \<longleftrightarrow> due_at t < x \<or> (\<exists>s. r = Some s \<and> s \<le> due_at t) \<or> alive (sr_key t) NegativeExpiry"
    if "t \<in> set (lane_timers NegativeExpiry (negatives s))" for t
    using lane_timers_due [OF that] by (cases r) (auto simp: res not_less)
  then have "lane_timers NegativeExpiry l = filter ?P (lane_timers NegativeExpiry (negatives s))"
    using sp by (simp only: cong: filter_cong)
  then have "sweeps ?P NegativeExpiry (negatives s) (negatives s')" using sp by (simp add: sweeps_def s')
  moreover have "sweeps ?P Due (timers s) (timers s')" "sweeps ?P Retry (retries s) (retries s')"
    using lanes lane_timers_due by (auto simp: s' sweep_start_def intro!: sweeps_refl)
  ultimately have p: "pending s' = filter_mset ?P (pending s)" by (intro sweeps_pending) auto
  have "length (lane_timers NegativeExpiry l) + n = length (lane_timers NegativeExpiry (negatives s))" using sp by blast
  then have size: "size (pending s') + n = size (pending s)" unfolding size_pending s' by simp
  have "schedule_ok s'" using lanes sp size by (simp add: schedule_ok_def s')
  moreover have "left_over f s' < left_over (SweepFrom NegativeExpiry x) s \<and> point_ok f \<and> f \<noteq> sweep_start" if f: "res = Some f" for f
  proof -
    obtain y where y: "f = SweepFrom NegativeExpiry y" "r = Some y" using f res by auto
    obtain s0 where "s0 \<in> seconds (negatives s)" "x \<le> s0" "s0 < y" using sp y(2) b by blast
    from fewer_left [OF _ _ this] sp show ?thesis by (simp add: left_over_def y s' sweep_start_def)
  qed
  moreover have "covered res t" if "t \<in># pending s" "covered (Some (SweepFrom NegativeExpiry x)) t" for t
    using that sp by (cases r) (auto simp: res sweep_start_def split: timer_kind.splits)
  ultimately show ?thesis using p unfolding advances_def by blast
qed

lemma sweep_renewals:
  assumes ok: "schedule_ok s" and b: "0 < budget" and sw: "sweep (SweepFrom Due x) budget alive s = (res, s')"
  shows "advances alive (SweepFrom Due x) res s s'"
proof -
  have lanes: "lane_ok (timers s)" "lane_ok (retries s)" "lane_ok (negatives s)" "sched_len s = size (pending s)"
    using ok by (simp_all add: schedule_ok_def)
  obtain l1 b1 n1 r1 where l1: "sweep_lane x (\<lambda>k. alive k Due) budget (timers s) = (l1, b1, n1, r1)" by (metis prod_cases4)
  obtain l2 b2 n2 r2 where l2: "sweep_lane 0 (\<lambda>k. alive k NegativeExpiry) b1 (negatives s) = (l2, b2, n2, r2)" by (metis prod_cases4)
  note sp = sweep_lane_spec [OF l1 lanes(1), of Due] and sn = sweep_lane_spec [OF l2 lanes(3), of NegativeExpiry]
  define ret where "ret = (if x = 0 then retain_lane (\<lambda>k. alive k Retry) (retries s) else retries s)"
  define n0 where "n0 = lane_size (retries s) - lane_size ret"
  have st: "SweepFrom Due x = sweep_start \<longleftrightarrow> x = 0" by (simp add: sweep_start_def)
  have out: "timers s' = l1" "retries s' = ret" "negatives s' = (if r1 = None then l2 else negatives s)"
    "sched_len s' = sched_len s - (n0 + n1 + (if r1 = None then n2 else 0))"
    "res = (case r1 of Some y \<Rightarrow> Some (SweepFrom Due y) | None \<Rightarrow> map_option (SweepFrom NegativeExpiry) r2)"
    using sw by (auto simp: sweep_def l1 l2 Let_def st ret_def n0_def split: option.splits)
  let ?P = "\<lambda>t. covered (Some (SweepFrom Due x)) t \<or> \<not> covered res t \<or> alive (sr_key t) (sr_kind t)"
  have prog: "x < y" if "r1 = Some y" for y using sp that b by force
  have "?P t \<longleftrightarrow> due_at t < x \<or> (\<exists>s. r1 = Some s \<and> s \<le> due_at t) \<or> alive (sr_key t) Due"
    if "t \<in> set (lane_timers Due (timers s))" for t
    using lane_timers_due [OF that] by (cases r1; cases r2) (auto simp: out(5) not_less)
  then have "lane_timers Due l1 = filter ?P (lane_timers Due (timers s))" using sp by (simp only: cong: filter_cong)
  then have sw1: "sweeps ?P Due (timers s) (timers s')" using sp by (simp add: sweeps_def out)
  have neg: "?P t \<longleftrightarrow> r1 \<noteq> None \<or> (\<exists>s. r2 = Some s \<and> s \<le> due_at t) \<or> alive (sr_key t) NegativeExpiry"
    if "t \<in> set (lane_timers NegativeExpiry (negatives s))" for t
    using lane_timers_due [OF that] by (cases r1; cases r2) (auto simp: out(5) not_less)
  have sw3: "sweeps ?P NegativeExpiry (negatives s) (negatives s')"
  proof (cases r1)
    case None
    have "lane_timers NegativeExpiry l2 = filter ?P (lane_timers NegativeExpiry (negatives s))"
      using sn neg None by (simp cong: filter_cong)
    then show ?thesis using sn None by (simp add: sweeps_def out)
  qed (use neg lanes(3) in \<open>auto simp: out intro!: sweeps_refl\<close>)
  have rt: "?P t \<longleftrightarrow> x \<noteq> 0 \<or> alive (sr_key t) Retry" if "t \<in> set (lane_timers Retry (retries s))" for t
    using lane_timers_due [OF that] prog by (cases r1; cases r2) (auto simp: out(5) sweep_start_def)
  have sw2: "sweeps ?P Retry (retries s) (retries s')"
    using rt retain_lane_spec(1) [of Retry "\<lambda>k. alive k Retry" "retries s"]
      retain_lane_spec(2) [of "retries s" "\<lambda>k. alive k Retry"] lanes(2)
    by (auto simp: sweeps_def out ret_def cong: filter_cong)
  note p = sweeps_pending [OF sw1 sw2 sw3]
  have "length (lane_timers Retry ret) \<le> length (lane_timers Retry (retries s))" using sw2 by (simp add: sweeps_def out)
  moreover have "length (lane_timers Due l1) + n1 = length (lane_timers Due (timers s))"
    "length (lane_timers NegativeExpiry l2) + n2 = length (lane_timers NegativeExpiry (negatives s))" using sp sn by blast+
  ultimately have size: "size (pending s') + (n0 + n1 + (if r1 = None then n2 else 0)) = size (pending s)"
    unfolding size_pending out n0_def lane_size_timers [of _ Retry] by simp
  have ok': "schedule_ok s'" using sw1 sw2 sw3 lanes(4) size by (simp add: schedule_ok_def sweeps_def out(4))
  have left: "left_over f s' < left_over (SweepFrom Due x) s \<and> point_ok f \<and> f \<noteq> sweep_start" if f: "res = Some f" for f
  proof (cases r1)
    case (Some y)
    obtain s0 where "s0 \<in> seconds (timers s)" "x \<le> s0" "s0 < y" using sp Some b by blast
    from fewer_left [where S = "seconds l1", OF _ _ this] sp f prog [OF Some] show ?thesis
      by (auto simp: left_over_def out Some sweep_start_def)
  next
    case None
    have "card {y \<in> seconds l2. z \<le> y} \<le> card (seconds (negatives s))" for z using sn by (intro card_mono) auto
    from le_less_trans [OF this] f None show ?thesis by (auto simp: left_over_def out sweep_start_def)
  qed
  have "covered res t" if "t \<in># pending s" "covered (Some (SweepFrom Due x)) t" for t
    using that prog by (cases r1; cases r2) (auto simp: out(5) sweep_start_def split: timer_kind.splits)
  then show ?thesis using p ok' left unfolding advances_def by blast
qed

text \<open>Sweep steps, one after another; \<open>fuel\<close> bounds their number.\<close>

fun sweep_run :: "nat \<Rightarrow> sweep_from \<Rightarrow> nat \<Rightarrow> (cache_key \<Rightarrow> timer_kind \<Rightarrow> bool) \<Rightarrow> refresh_schedule \<Rightarrow> refresh_schedule option" where
  "sweep_run 0 from budget alive s = None"
| "sweep_run (Suc fuel) from budget alive s =
    (case sweep from budget alive s of
       (None, s') \<Rightarrow> Some s'
     | (Some from', s') \<Rightarrow> sweep_run fuel from' budget alive s')"

lemma sweep_advances:
  assumes "schedule_ok s" "point_ok from" "0 < budget" "sweep from budget alive s = (res, s')"
  shows "advances alive from res s s'"
proof -
  obtain kind x where f: "from = SweepFrom kind x" by (cases "from")
  show ?thesis using assms unfolding f by (cases kind) (auto intro: sweep_negatives sweep_renewals)
qed

lemma sweep_run_finishes:
  assumes "0 < budget"
  shows "left_over from s < fuel \<Longrightarrow> schedule_ok s \<Longrightarrow> point_ok from \<Longrightarrow>
    \<exists>s'. sweep_run fuel from budget alive s = Some s' \<and> schedule_ok s' \<and>
      pending s' = filter_mset (\<lambda>t. covered (Some from) t \<or> alive (sr_key t) (sr_kind t)) (pending s)"
proof (induction fuel arbitrary: "from" s)
  case (Suc fuel)
  obtain res s1 where s1: "sweep from budget alive s = (res, s1)" by fastforce
  note adv = sweep_advances [OF Suc.prems(2,3) assms s1, unfolded advances_def]
  show ?case
  proof (cases res)
    case None
    then show ?thesis using adv s1 by auto
  next
    case (Some f)
    then have f: "left_over f s1 < fuel" "schedule_ok s1" "point_ok f" using adv Suc.prems(1) by auto
    obtain s' where s': "sweep_run fuel f budget alive s1 = Some s'" "schedule_ok s'"
      "pending s' = filter_mset (\<lambda>t. covered (Some f) t \<or> alive (sr_key t) (sr_kind t)) (pending s1)"
      using Suc.IH [OF f] by blast
    have "pending s' = filter_mset (\<lambda>t. covered (Some from) t \<or> alive (sr_key t) (sr_kind t)) (pending s)"
      using adv unfolding s'(3) Some by (auto simp: filter_filter_mset simp del: covered.simps intro!: filter_mset_cong)
    then show ?thesis using s' s1 Some by auto
  qed
qed simp

lemma covered_start: "\<not> covered (Some sweep_start) t"
  by (cases "sr_kind t") (auto simp: sweep_start_def)

section \<open>Properties\<close>

text \<open>
  Every timer that was registered and is due is handed out exactly once, earliest second first,
  and every other timer stays: none is lost or taken early, and the count of timers is theirs.
\<close>

lemma take_due_exact:
  assumes "schedule_ok s" "take_due now (fold register ts s) = (due, s')"
  shows "pending s + mset ts = mset due + pending s' \<and> (\<forall>t \<in> set due. due_at t \<le> now) \<and> (\<forall>t \<in># pending s'. now < due_at t) \<and>
    sorted (map due_at due) \<and> sched_len s' = size (pending s')"
  using schedule.collect [OF assms(1), of ts] take_due_spec [OF _ assms(2)] by (auto simp: schedule_ok_def)

definition demo_timer :: "u64 \<Rightarrow> timer_kind \<Rightarrow> scheduled_refresh" where
  "demo_timer s kind = \<lparr>due_at = s, sr_key = from_lowercase ''a.test'' A, sr_kind = kind\<rparr>"

lemma empty_schedule_ok: "schedule_ok empty_schedule" "pending empty_schedule = {#}"
  by (simp_all add: schedule_ok_def pending_def empty_schedule_def)

lemma take_due_exact_witness:
  "\<exists>due s'. take_due 5 (fold register [demo_timer 9 Due, demo_timer 5 Retry, demo_timer 3 Due] empty_schedule) = (due, s') \<and>
    due = [demo_timer 3 Due, demo_timer 5 Retry] \<and>
    {#demo_timer 9 Due, demo_timer 5 Retry, demo_timer 3 Due#} = mset due + pending s'"
proof -
  obtain due s' where t: "take_due 5 (fold register [demo_timer 9 Due, demo_timer 5 Retry, demo_timer 3 Due] empty_schedule) = (due, s')"
    by fastforce
  have "due = [demo_timer 3 Due, demo_timer 5 Retry]"
    using t by (auto simp: take_due_def register_def demo_timer_def empty_schedule_def slot_def)
  then show ?thesis using t take_due_exact [OF empty_schedule_ok(1) t] by (auto simp: empty_schedule_ok(2) add_mset_commute)
qed

text \<open>
  C32. A sweep ends: with any positive budget per step, as many steps as there are seconds with
  timers, and two more, bring it through every lane, and then exactly the timers whose entry is
  gone have been dropped.
\<close>

theorem sweep_terminates:
  assumes ok: "schedule_ok s" and b: "0 < budget"
    and fuel: "card (seconds (timers s)) + card (seconds (negatives s)) + 2 \<le> fuel"
  shows "\<exists>s'. sweep_run fuel sweep_start budget alive s = Some s' \<and> schedule_ok s' \<and>
    pending s' = filter_mset (\<lambda>t. alive (sr_key t) (sr_kind t)) (pending s)"
proof -
  have "left_over sweep_start s < fuel" using fuel by (simp add: left_over_def sweep_start_def)
  from sweep_run_finishes [OF b this ok] show ?thesis by (simp add: covered_start) (simp add: sweep_start_def)
qed

theorem sweep_terminates_witness:
  "\<exists>s'. sweep_run 3 sweep_start 1 (\<lambda>_ _. False) (register (demo_timer 9 Due) empty_schedule) = Some s' \<and> pending s' = {#}"
  using sweep_terminates [of "register (demo_timer 9 Due) empty_schedule" 1 3 "\<lambda>_ _. False"]
    register_ok [OF empty_schedule_ok(1), of "demo_timer 9 Due"]
  by (auto simp: register_def demo_timer_def empty_schedule_def)

end
