(* ===== verification/Cache_Safety.thy ===== *)
theory Cache_Safety
  imports Cache_Refresh
begin

unbundle bit_operations_syntax

text \<open>
  What the DNS cache keeps true: every entry that is alive passes the Bloom filter in front of the
  map, the table of local names is the set of permanent entries, lifetimes are consistent. The
  operations fall into two kinds: those that only touch counters and timers, mark or drop entries
  (\<open>shrinks\<close>), and the few that write records.
\<close>

section \<open>The invariant\<close>

definition listed :: "'l dns_cache \<Rightarrow> string \<Rightarrow> record_type \<Rightarrow> bool" where
  "listed c d rt \<longleftrightarrow> (case map_of (permanent_records c) d of Some types \<Rightarrow> rt \<in> set types | None \<Rightarrow> False)"

definition gate_open :: "'l cache_env \<Rightarrow> 'l dns_cache \<Rightarrow> cache_key \<Rightarrow> bool" where
  "gate_open env c k \<longleftrightarrow> bloom_check (key_hash env) (dc_bloom c) k = Got True"

definition record_ok :: "'l cache_env \<Rightarrow> u64 \<Rightarrow> 'l dns_cache \<Rightarrow> cache_key \<Rightarrow> cached_record \<Rightarrow> bool" where
  "record_ok env now c k r \<longleftrightarrow>
    (rec_permanent r \<longrightarrow> \<not> is_marked r \<and> ck_view k = 0 \<and> listed c (ck_domain k) (ck_type k)) \<and>
    (\<not> rec_permanent r \<longrightarrow> lifetime_ok r) \<and>
    (\<not> is_marked r \<and> \<not> is_dead_at now r \<longrightarrow> gate_open env c k)"

definition cache_ok :: "'l cache_env \<Rightarrow> u64 \<Rightarrow> 'l dns_cache \<Rightarrow> bool" where
  "cache_ok env now c \<longleftrightarrow>
    distinct (map fst (dc_map c)) \<and> distinct (map fst (permanent_records c)) \<and> bloom_ok (dc_bloom c) \<and>
    (\<forall>k r. map_of (dc_map c) k = Some r \<longrightarrow> record_ok env now c k r) \<and>
    (\<forall>d rt. listed c d rt \<longrightarrow> (\<exists>r. map_of (dc_map c) (from_lowercase d rt) = Some r \<and> rec_permanent r))"

lemma cache_okD:
  assumes "cache_ok env now c"
  shows "distinct (map fst (dc_map c))" "distinct (map fst (permanent_records c))" "bloom_ok (dc_bloom c)"
    "map_of (dc_map c) k = Some r \<Longrightarrow> record_ok env now c k r"
    "listed c d rt \<Longrightarrow> \<exists>r. map_of (dc_map c) (from_lowercase d rt) = Some r \<and> rec_permanent r"
  using assms unfolding cache_ok_def by blast+

section \<open>Operations that add nothing\<close>

text \<open>What lookups, claims and counters leave alone in a record.\<close>

definition same_life :: "cached_record \<Rightarrow> cached_record \<Rightarrow> bool" where
  "same_life r r' \<longleftrightarrow>
    cr_data r' = cr_data r \<and> cr_ttl r' = cr_ttl r \<and> cr_dnssec r' = cr_dnssec r \<and>
    expires_at_secs r' = expires_at_secs r \<and> inserted_at_secs r' = inserted_at_secs r \<and>
    rec_permanent r' = rec_permanent r \<and> is_marked r' = is_marked r \<and> is_local_dns r' = is_local_dns r"

lemma same_life_refl [simp]: "same_life r r"
  by (simp add: same_life_def)

lemma same_life_trans: "same_life a b \<Longrightarrow> same_life b d \<Longrightarrow> same_life a d"
  by (simp add: same_life_def)

lemma same_life_ops [simp]:
  "same_life r (record_hits n now r)" "same_life r (record_hit now r)" "same_life r (clear_refreshing r)"
  "same_life r (snd (try_set_refreshing r))" "same_life r (snd (swap_refresh_timer a b r))"
  "same_life r (r\<lparr>refresh_timer := x\<rparr>)"
  by (auto simp: same_life_def record_hit_def record_hits_def Let_def clear_refreshing_def try_set_refreshing_def
      try_set_flag_def swap_refresh_timer_def flag_bits bit_or_iff bit_and_iff bit_not_iff bit_flags)

lemma same_life_dead: "same_life r r' \<Longrightarrow> is_dead_at now r' = is_dead_at now r"
  by (simp add: same_life_def is_dead_at_def is_expired_at_def is_stale_usable_at_def)

lemma same_life_flags:
  "same_life r r' \<Longrightarrow> rec_permanent r' = rec_permanent r" "same_life r r' \<Longrightarrow> is_marked r' = is_marked r"
  "same_life r r' \<Longrightarrow> lifetime_ok r' = lifetime_ok r" "same_life r r' \<Longrightarrow> cr_data r' = cr_data r"
  by (simp_all add: same_life_def lifetime_ok_def)

lemma same_life_ok: "same_life r r' \<Longrightarrow> record_ok env now c k r' = record_ok env now c k r"
  unfolding record_ok_def by (simp add: same_life_dead same_life_flags)

definition keeps_record :: "cached_record \<Rightarrow> cached_record \<Rightarrow> bool" where
  "keeps_record r r' \<longleftrightarrow> same_life r r' \<or> \<not> rec_permanent r \<and> same_life (mark_for_deletion r) r'"

definition shrinks :: "'l dns_cache \<Rightarrow> 'l dns_cache \<Rightarrow> bool" where
  "shrinks c c' \<longleftrightarrow>
    dc_bloom c' = dc_bloom c \<and> permanent_records c' = permanent_records c \<and>
    (distinct (map fst (dc_map c)) \<longrightarrow> distinct (map fst (dc_map c'))) \<and>
    (\<forall>k r'. map_of (dc_map c') k = Some r' \<longrightarrow> (\<exists>r. map_of (dc_map c) k = Some r \<and> keeps_record r r')) \<and>
    (\<forall>k r. map_of (dc_map c) k = Some r \<longrightarrow> rec_permanent r \<longrightarrow> (\<exists>r'. map_of (dc_map c') k = Some r' \<and> same_life r r'))"

lemma same_life_mark: "same_life r r' \<Longrightarrow> same_life (mark_for_deletion r) (mark_for_deletion r')"
  by (simp add: same_life_def mark_for_deletion_def flag_bits bit_or_iff bit_flags)

lemma keeps_trans: "keeps_record a b \<Longrightarrow> keeps_record b d \<Longrightarrow> keeps_record a d"
proof -
  have mm: "same_life (mark_for_deletion r) (mark_for_deletion (mark_for_deletion r))" for r
    by (simp add: same_life_def mark_for_deletion_def flag_bits bit_or_iff bit_flags)
  have perm: "same_life r s \<Longrightarrow> rec_permanent s = rec_permanent r" for r s by (simp add: same_life_def)
  show "keeps_record a b \<Longrightarrow> keeps_record b d \<Longrightarrow> keeps_record a d"
    unfolding keeps_record_def using same_life_trans same_life_mark mm perm
    by (metis flag_simps(2))
qed

lemma shrinks_refl [simp]: "shrinks c c"
  by (auto simp: shrinks_def keeps_record_def)

lemma shrinksD:
  assumes "shrinks c c'"
  shows "dc_bloom c' = dc_bloom c" "permanent_records c' = permanent_records c"
    "distinct (map fst (dc_map c)) \<Longrightarrow> distinct (map fst (dc_map c'))"
    "map_of (dc_map c') k = Some r' \<Longrightarrow> \<exists>r. map_of (dc_map c) k = Some r \<and> keeps_record r r'"
    "map_of (dc_map c) k = Some r \<Longrightarrow> rec_permanent r \<Longrightarrow> \<exists>r'. map_of (dc_map c') k = Some r' \<and> same_life r r'"
  using assms unfolding shrinks_def by blast+

lemma shrinks_trans:
  assumes ab: "shrinks a b" and bd: "shrinks b d"
  shows "shrinks a d"
  unfolding shrinks_def
proof (intro conjI allI impI)
  fix k r'
  assume "map_of (dc_map d) k = Some r'"
  then show "\<exists>r. map_of (dc_map a) k = Some r \<and> keeps_record r r'"
    using shrinksD(4) [OF bd] shrinksD(4) [OF ab] keeps_trans by meson
next
  fix k r
  assume r: "map_of (dc_map a) k = Some r" "rec_permanent r"
  obtain s where s: "map_of (dc_map b) k = Some s" "same_life r s" using shrinksD(5) [OF ab r] by blast
  then show "\<exists>r'. map_of (dc_map d) k = Some r' \<and> same_life r r'"
    using shrinksD(5) [OF bd s(1)] same_life_flags(1) [OF s(2)] r(2) same_life_trans [OF s(2)] by blast
qed (use shrinksD [OF ab] shrinksD [OF bd] in auto)

lemma shrinks_eq:
  "dc_map c' = dc_map c \<Longrightarrow> dc_bloom c' = dc_bloom c \<Longrightarrow> permanent_records c' = permanent_records c \<Longrightarrow> shrinks c c'"
  by (auto simp: shrinks_def keeps_record_def)

lemma keeps_ok: "keeps_record r r' \<Longrightarrow> record_ok env now c k r \<Longrightarrow> record_ok env now c k r'"
proof -
  have "record_ok env now c k (mark_for_deletion r)" if "record_ok env now c k r" "\<not> rec_permanent r"
    using that by (simp add: record_ok_def) (simp add: lifetime_ok_def mark_for_deletion_def)
  then show "keeps_record r r' \<Longrightarrow> record_ok env now c k r \<Longrightarrow> record_ok env now c k r'"
    unfolding keeps_record_def using same_life_ok by blast
qed

lemma shrinks_ok:
  assumes "shrinks c c'" "cache_ok env now c"
  shows "cache_ok env now c'"
proof -
  have same: "record_ok env now c' k r = record_ok env now c k r" "listed c' d rt = listed c d rt" for k r d rt
    using assms(1) by (simp_all add: record_ok_def listed_def gate_open_def shrinks_def)
  show ?thesis
    unfolding cache_ok_def same
  proof (intro conjI allI impI)
    fix k r'
    assume "map_of (dc_map c') k = Some r'"
    then obtain r where "map_of (dc_map c) k = Some r" "keeps_record r r'" using shrinksD(4) [OF assms(1)] by blast
    then show "record_ok env now c k r'" using assms(2) keeps_ok unfolding cache_ok_def by blast
  next
    fix d rt
    assume "listed c d rt"
    then obtain r where r: "map_of (dc_map c) (from_lowercase d rt) = Some r" "rec_permanent r"
      using assms(2) unfolding cache_ok_def by blast
    then obtain r' where "map_of (dc_map c') (from_lowercase d rt) = Some r'" "same_life r r'"
      using shrinksD(5) [OF assms(1)] by blast
    then show "\<exists>r. map_of (dc_map c') (from_lowercase d rt) = Some r \<and> rec_permanent r"
      using r(2) same_life_flags(1) by blast
  qed (use assms shrinksD(1-3) [OF assms(1)] in \<open>simp_all add: cache_ok_def\<close>)
qed

lemma shrinks_put:
  assumes "map_of (dc_map c) k = Some r" "keeps_record r r'"
  shows "shrinks c (put_record k r' c)"
  using assms by (auto simp: shrinks_def put_record_def update_conv' distinct_update keeps_record_def)

lemma shrinks_drop:
  assumes "map_of (dc_map c) k = Some r" "\<not> rec_permanent r"
  shows "shrinks c (drop_record k c)"
  using assms by (auto simp: shrinks_def drop_record_def delete_conv' distinct_delete keeps_record_def split: if_splits)

lemma map_of_put [simp]: "map_of (dc_map (put_record k r c)) = (map_of (dc_map c))(k \<mapsto> r)"
  by (simp add: put_record_def update_conv')

lemma put_record_fields [simp]:
  "dc_bloom (put_record k r c) = dc_bloom c" "permanent_records (put_record k r c) = permanent_records c"
  "dc_timers (put_record k r c) = dc_timers c" "dc_negative (put_record k r c) = dc_negative c"
  "stale_repairs (put_record k r c) = stale_repairs c" "dc_metrics (put_record k r c) = dc_metrics c"
  by (simp_all add: put_record_def)

lemma arm_timer_fields [simp]:
  "dc_map (arm_timer k d kd c) = dc_map c" "dc_bloom (arm_timer k d kd c) = dc_bloom c"
  "permanent_records (arm_timer k d kd c) = permanent_records c"
  by (simp_all add: arm_timer_def)

lemma shrinks_arm [simp]: "shrinks c (arm_timer k d kd c)"
  by (rule shrinks_eq) simp_all

lemma shrinks_upd [simp]:
  "shrinks c (c\<lparr>dc_metrics := m\<rparr>)" "shrinks c (c\<lparr>l1_threads := th\<rparr>)" "shrinks c (c\<lparr>dc_negative := ng\<rparr>)"
  "shrinks c (c\<lparr>stale_repairs := q\<rparr>)"
  by (simp_all add: shrinks_eq)

lemma shrinks_put_same: "map_of (dc_map c) k = Some r \<Longrightarrow> same_life r r' \<Longrightarrow> shrinks c (put_record k r' c)"
  using shrinks_put [of c k r r'] by (simp add: keeps_record_def)

lemma shrinks_put_arm:
  assumes "map_of (dc_map c) k = Some r" "same_life r r'"
  shows "shrinks c (arm_timer k d kd (put_record k r' c))"
  by (rule shrinks_trans [OF shrinks_put_same [OF assms] shrinks_arm])

lemma shrinks_lookup_l1: "shrinks c (snd (lookup_l1 env now t key c))"
  by (rule shrinks_eq) (auto simp: lookup_l1_def Let_def split: prod.splits option.splits if_splits)

lemma shrinks_l1_insert: "shrinks c (snd (l1_insert env now t d rt a s l x c))"
  by (rule shrinks_eq) (auto simp: l1_insert_def Let_def split: prod.splits option.splits)

lemma keep_l1_fields:
  "dc_map (snd (keep_l1 env now t k a s l x c)) = dc_map c" "dc_bloom (snd (keep_l1 env now t k a s l x c)) = dc_bloom c"
  "permanent_records (snd (keep_l1 env now t k a s l x c)) = permanent_records c"
  "dc_timers (snd (keep_l1 env now t k a s l x c)) = dc_timers c"
  by (auto simp: keep_l1_def l1_insert_def Let_def split: prod.splits option.splits)

lemma l1_insert_fields:
  "dc_map (snd (l1_insert env now t d rt a s l x c)) = dc_map c"
  "dc_timers (snd (l1_insert env now t d rt a s l x c)) = dc_timers c"
  by (auto simp: l1_insert_def Let_def split: prod.splits option.splits)

lemma swap_cases: "swap_refresh_timer a b r = (ok, r') \<Longrightarrow> same_life r r'"
  using same_life_ops(5) [of r a b] by simp

lemma shrinks_rearm_refresh: "map_of (dc_map c) k = Some r \<Longrightarrow> shrinks c (rearm_refresh g k r c)"
  using shrinks_put_arm [of c k r]
  by (auto simp: rearm_refresh_def Let_def try_unpark_refresh_def dest: swap_cases split: prod.splits)

lemma shrinks_schedule_retry: "shrinks c (schedule_retry now k s c)"
  using shrinks_put_arm [of c k]
  by (auto simp: schedule_retry_def Let_def try_rearm_lapsed_def dest: swap_cases split: prod.splits option.splits)

lemma shrinks_rearm_lapsed: "shrinks c (rearm_lapsed g now k c)"
  using shrinks_put_arm [of c k]
  by (auto simp: rearm_lapsed_def Let_def try_rearm_lapsed_def dest: swap_cases split: prod.splits option.splits)

lemma rearm_refresh_map:
  "map_of (dc_map c) k = Some r \<Longrightarrow> \<exists>r'. map_of (dc_map (rearm_refresh g k r c)) k = Some r' \<and> same_life r r'"
  by (auto simp: rearm_refresh_def Let_def try_unpark_refresh_def dest: swap_cases split: prod.splits)

lemma shrinks_record_l1_hits: "shrinks c (record_l1_hits g now k n c)"
proof (cases "map_of (dc_map c) k")
  case (Some r)
  let ?r = "record_hits (ucast n) now r"
  have "shrinks c (put_record k ?r c)" using Some by (rule shrinks_put_same) simp
  moreover have "shrinks (put_record k ?r c) (rearm_refresh g k ?r (put_record k ?r c))"
    by (rule shrinks_rearm_refresh) simp
  ultimately show ?thesis using shrinks_trans Some by (fastforce simp: record_l1_hits_def Let_def)
qed (simp add: record_l1_hits_def)

lemma shrinks_promote:
  assumes "map_of (dc_map c) k = Some r"
  shows "shrinks c (promote_to_l1 env clk now t k r c)"
proof (cases "\<exists>a. cr_data r = IpAddresses a \<and> \<not> expires_at_secs r \<le> now")
  case True
  then obtain a where a: "cr_data r = IpAddresses a" "\<not> expires_at_secs r \<le> now" by blast
  define x where "x = (if rec_permanent r then now + ucast (cr_ttl r) else expires_at_secs r)"
  obtain n c1 where c1: "l1_insert env (clk 4) t (ck_domain k) (ck_type k) a (cr_dnssec r) (is_local_dns r) x c = (n, c1)"
    by fastforce
  have s1: "shrinks c c1" "map_of (dc_map c1) k = Some r"
    using shrinks_l1_insert [of c env "clk 4" t "ck_domain k" "ck_type k" a "cr_dnssec r" "is_local_dns r" x] assms
      l1_insert_fields(1) [of env "clk 4" t "ck_domain k" "ck_type k" a "cr_dnssec r" "is_local_dns r" x c] by (simp_all add: c1)
  have "shrinks c1 (put_record k (record_hits (ucast n) (clk 5) r) c1)" using s1(2) by (rule shrinks_put_same) simp
  then show ?thesis using shrinks_trans [OF s1(1)] s1(1) a by (simp add: promote_to_l1_def x_def [symmetric] c1)
next
  case False
  then show ?thesis by (auto simp: promote_to_l1_def split: cached_data.splits)
qed

lemma shrinks_get_negative: "shrinks c (snd (get_negative now k c))"
  by (rule shrinks_eq) (auto simp: get_negative_def negative_get_def split: prod.splits option.splits if_splits)

lemma shrinks_request_repair:
  assumes "map_of (dc_map c) k = Some r0" "same_life r0 r"
  shows "shrinks c (request_repair sends k r c)"
proof -
  have put: "shrinks c (put_record k r' c)" if "same_life r r'" for r'
    using assms that same_life_trans by (blast intro: shrinks_put_same)
  obtain ok r1 where ok: "try_set_refreshing r = (ok, r1)" by fastforce
  have "same_life r r1" using same_life_ops(4) [of r] by (simp add: ok)
  then have "shrinks c (put_record k r1 c)" "shrinks c (put_record k (clear_refreshing r1) c)" "shrinks c (put_record k r c)"
    using put same_life_trans same_life_ops(3) same_life_refl by blast+
  then show ?thesis
    by (auto simp: request_repair_def ok intro: shrinks_trans [OF _ shrinks_upd(1)] shrinks_trans [OF _ shrinks_upd(4)]
        split: option.splits bool.splits)
qed

lemma shrinks_get_stale: "map_of (dc_map c) k = Some r \<Longrightarrow> shrinks c (snd (get_stale clk sends k r c))"
proof -
  assume r: "map_of (dc_map c) k = Some r"
  have "shrinks c (request_repair sends k (record_hit (clk 3) r) (c\<lparr>dc_metrics := m\<rparr>))" for m
    by (rule shrinks_trans [OF shrinks_upd(1) shrinks_request_repair [of _ _ r]]) (use r in simp_all)
  then show ?thesis by (simp add: get_stale_def Let_def)
qed

lemma shrinks_get_live:
  assumes r: "map_of (dc_map c) k = Some r"
  shows "shrinks c (snd (get_live env clk t k r c))"
proof -
  define r1 where "r1 = record_hit (clk 3) r"
  define c1 where "c1 = put_record k r1 (c\<lparr>dc_metrics := count_hit (dc_metrics c)\<rparr>)"
  define c2 where "c2 = (if is_refresh_parked r1 then rearm_refresh (cfg env) k r1 c1 else c1)"
  have s1: "shrinks c c1" unfolding c1_def
    by (rule shrinks_trans [OF shrinks_upd(1) shrinks_put_same [of _ _ r]]) (use r in \<open>simp_all add: r1_def\<close>)
  have m1: "map_of (dc_map c1) k = Some r1" by (simp add: c1_def)
  have s2: "shrinks c1 c2" using shrinks_rearm_refresh [OF m1] by (simp add: c2_def)
  obtain r2 where m2: "map_of (dc_map c2) k = Some r2"
    using rearm_refresh_map [OF m1] m1 unfolding c2_def by (metis (full_types))
  have "shrinks c2 (promote_to_l1 env clk (clk 2) t k r2 c2)" by (rule shrinks_promote [OF m2])
  moreover have "snd (get_live env clk t k r c) = (if ck_view k = 0 then promote_to_l1 env clk (clk 2) t k r2 c2 else c2)"
    unfolding get_live_def Let_def r1_def [symmetric] c1_def [symmetric] c2_def [symmetric] m2 by simp
  ultimately show ?thesis using shrinks_trans [OF s1 s2] shrinks_trans by (cases "ck_view k = 0") auto
qed

lemma shrinks_mark: "map_of (dc_map c) k = Some r \<Longrightarrow> \<not> rec_permanent r \<Longrightarrow> shrinks c (put_record k (mark_for_deletion r) c)"
  using shrinks_put [of c k r "mark_for_deletion r"] by (simp add: keeps_record_def)

lemma shrinks_get_shared:
  assumes "get_shared env clk t sends k c = Got (hit, c')"
  shows "shrinks c c'"
proof -
  obtain b where b: "bloom_check (key_hash env) (dc_bloom c) k = Got b"
    using assms by (cases "bloom_check (key_hash env) (dc_bloom c) k") (auto simp: get_shared_def)
  have gn: "shrinks c d \<Longrightarrow> shrinks c (snd (get_negative now k d))" for d now
    using shrinks_get_negative shrinks_trans by blast
  show ?thesis
  proof (cases "b \<and> map_of (dc_map c) k \<noteq> None")
    case False
    then show ?thesis using assms gn [OF shrinks_refl, of "clk 6"] by (auto simp: get_shared_def b split: if_splits option.splits)
  next
    case True
    then obtain r where r: "map_of (dc_map c) k = Some r" by blast
    note e = assms [unfolded get_shared_def b] r
    consider (stale) "is_stale_usable_at (clk 2) r" | (dead) "\<not> is_stale_usable_at (clk 2) r" "is_expired_at (clk 2) r"
      | (live) "\<not> is_stale_usable_at (clk 2) r" "\<not> is_expired_at (clk 2) r" by blast
    then show ?thesis
    proof cases
      case stale
      then show ?thesis using e True shrinks_get_stale [OF r, of clk sends] by simp
    next
      case dead
      then have "shrinks c (put_record k (mark_for_deletion r) c)" using shrinks_mark [OF r] by (simp add: is_expired_at_def split: if_splits)
      then show ?thesis using e True dead gn [OF shrinks_trans [OF _ shrinks_upd(1)], of "put_record k (mark_for_deletion r) c" "clk 6"]
        by simp (metis snd_conv)
    next
      case live
      then show ?thesis using e True shrinks_get_live [OF r, of env clk t] by simp
    qed
  qed
qed

lemma shrinks_get_in:
  assumes "get_in env clk t sends d rt view c = Got (hit, c')"
  shows "shrinks c c'"
proof (cases "view = 0 \<and> (rt = A \<or> rt = AAAA)")
  case False
  then show ?thesis using assms shrinks_get_shared by (auto simp: get_in_def Let_def)
next
  case True
  obtain found c1 where l1: "lookup_l1 env (clk 0) t (l1_key rt (normalize_domain d)) c = (found, c1)" by fastforce
  then have s1: "shrinks c c1" using shrinks_lookup_l1 [of c env "clk 0" t "l1_key rt (normalize_domain d)"] by simp
  show ?thesis
  proof (cases found)
    case None
    then show ?thesis using assms True shrinks_trans [OF s1 shrinks_get_shared] by (auto simp: get_in_def Let_def l1)
  next
    case (Some x)
    have "shrinks c (c1\<lparr>dc_metrics := m\<rparr>)" "shrinks c (record_l1_hits g now k n (c1\<lparr>dc_metrics := m\<rparr>))" for m g now k n
      using shrinks_trans [OF s1] shrinks_trans [OF shrinks_upd(1) shrinks_record_l1_hits] by (simp, blast)
    then show ?thesis using assms True by (cases x) (auto simp: get_in_def Let_def l1 Some split: if_splits)
  qed
qed

lemma shrinks_remove_dead: "shrinks c (snd (remove_dead now k c))"
  using shrinks_drop [of c k] by (auto simp: remove_dead_def intro: shrinks_trans [OF _ shrinks_upd(1)] split: option.splits)

lemma shrinks_expire_negative: "shrinks c (snd (expire_negative now k c))"
  by (rule shrinks_eq) (auto simp: expire_negative_def negative_remove_expired_def split: option.splits)

lemma shrinks_negative_insert: "shrinks c (snd (negative_insert g now k ttl loc c))"
  by (simp add: negative_insert_def Let_def)

lemma shrinks_claim:
  "shrinks c (snd (claim_due_refresh g th now timer c))"
proof -
  let ?k = "sr_key timer"
  have claim: "same_life r r'" if "try_claim_refresh_timer due r = (ok, r')" for due r ok r'
    using that swap_cases by (simp add: try_claim_refresh_timer_def)
  have park: "same_life r (park_claimed_refresh r)" for r by (simp add: park_claimed_refresh_def)
  have reclaim: "same_life r r'" if "try_reclaim_parked r = (ok, r')" for r ok r'
    using that swap_cases by (simp add: try_reclaim_parked_def)
  show ?thesis
  proof (cases "map_of (dc_map c) ?k")
    case (Some r)
    obtain ok r1 where r1: "try_claim_refresh_timer (due_at timer) r = (ok, r1)" by fastforce
    define r2 where "r2 = park_claimed_refresh r1"
    obtain ok3 r3 where r3: "try_reclaim_parked r2 = (ok3, r3)" by fastforce
    have "same_life r r1" "same_life r r2" "same_life r r3"
      using claim [OF r1] park [of r1] reclaim [OF r3] same_life_trans unfolding r2_def by blast+
    then have "shrinks c (put_record ?k r1 c)" "shrinks c (put_record ?k r3 c)"
      "shrinks c (arm_timer ?k (refresh_deadline r2) Due (put_record ?k r2 c))"
      using shrinks_put_same [OF Some] shrinks_put_arm [OF Some] by blast+
    then show ?thesis
      using Some
      by (simp add: claim_due_refresh_def Let_def r1 r3 shrinks_remove_dead flip: r2_def split: bool.splits)
  qed (simp add: claim_due_refresh_def)
qed

lemma shrinks_give_up: "shrinks c (give_up_dead_claim now k c)"
  unfolding give_up_dead_claim_def by (rule shrinks_trans [OF shrinks_upd(1) shrinks_remove_dead])

lemma shrinks_start:
  "shrinks c (snd (start_claimed_refresh g now coarse k c))"
proof (cases "map_of (dc_map c) k")
  case (Some r)
  obtain ok r1 where s: "try_start_claimed r = (ok, r1)" by fastforce
  then have l1: "same_life r r1" using swap_cases by (simp add: try_start_claimed_def)
  obtain fl r2 where f: "try_set_refreshing r1 = (fl, r2)" by fastforce
  then have l2: "same_life r1 r2" using same_life_ops(4) [of r1] by simp
  have "shrinks c (put_record k r1 c)" "shrinks c (put_record k r2 c)"
    using shrinks_put_same [OF Some] l1 same_life_trans [OF l1 l2] by blast+
  then show ?thesis
    using Some shrinks_trans [OF _ shrinks_give_up] shrinks_trans [OF _ shrinks_rearm_lapsed]
    by (auto simp: start_claimed_refresh_def s f split: bool.splits)
qed (simp add: start_claimed_refresh_def)

lemma shrinks_reset: "shrinks c (reset_refreshing_of k c)"
  using shrinks_put_same [of c k] by (auto simp: reset_refreshing_of_def split: option.splits)

lemma shrinks_remove_in_view:
  "cache_ok env now c \<Longrightarrow> view \<noteq> 0 \<Longrightarrow> shrinks c (snd (remove_in env' t d rt view c))"
proof -
  assume ok: "cache_ok env now c" "view \<noteq> 0"
  let ?k = "in_view view (new_key d rt)"
  have "\<not> rec_permanent r" if "map_of (dc_map c) ?k = Some r" for r
    using cache_okD(4) [OF ok(1) that] ok(2) by (auto simp: record_ok_def in_view_def)
  then show ?thesis
    using ok(2) shrinks_drop [of c ?k] by (auto simp: remove_in_def count_eviction_def Let_def intro: shrinks_trans [OF _ shrinks_upd(1)])
qed

section \<open>Eviction\<close>

definition eligible :: "cache_key \<times> cached_record \<Rightarrow> bool" where
  "eligible x \<longleftrightarrow> \<not> is_marked (snd x) \<and> \<not> rec_permanent (snd x)"

definition abandoned :: "cache_config \<Rightarrow> u64 \<Rightarrow> cached_record \<Rightarrow> bool" where
  "abandoned g now r \<longleftrightarrow> is_expired_at now r \<and> \<not> sat_sub now (last_access r) \<le> access_window g"

definition score_of :: "cache_config \<Rightarrow> u64 \<Rightarrow> cached_record \<Rightarrow> int" where
  "score_of g now r = eviction_score g (hit_count r) (last_access r) (inserted_at_secs r) now"

lemma sample_window_eq: "snd (sample_window want xs walked acc) = acc @ take (want - length acc) (filter eligible xs)"
proof (induction want xs walked acc rule: sample_window.induct)
  case (2 want k r rest walked acc)
  then show ?case by (auto simp: eligible_def take_Cons' Suc_diff_Suc)
qed simp

text \<open>The candidate heap ends up with the lowest scores it was offered.\<close>

definition lowest :: "nat \<Rightarrow> (int \<times> cache_key) list \<Rightarrow> (int \<times> cache_key) list \<Rightarrow> bool" where
  "lowest n cands heap \<longleftrightarrow> sorted (map fst heap) \<and> length heap = min n (length cands) \<and>
    (\<exists>rest. mset cands = mset heap + rest \<and> (\<forall>x \<in># rest. \<forall>y \<in> set heap. fst y \<le> fst x))"

lemma lowest_push:
  assumes "lowest n cands heap"
  shows "lowest n (x # cands) (push_candidate n x heap)"
proof -
  obtain rest where r: "sorted (map fst heap)" "length heap = min n (length cands)"
      "mset cands = mset heap + rest" "\<forall>x \<in># rest. \<forall>y \<in> set heap. fst y \<le> fst x"
    using assms by (auto simp: lowest_def)
  have ms: "mset (insort_key fst x h) = add_mset x (mset h)" and st: "set (insort_key fst x h) = insert x (set h)" for h
    by (simp_all add: set_insort_key)
  consider (grow) "length heap < n" | (swap) "\<not> length heap < n" "heap \<noteq> []" "fst x < fst (last heap)"
    | (keep) "\<not> length heap < n" "heap = [] \<or> \<not> fst x < fst (last heap)" by blast
  then show ?thesis
  proof cases
    case grow
    have "length cands = length heap + size rest" using arg_cong [OF r(3), of size] by simp
    then have "rest = {#}" using grow r(2) by simp
    then show ?thesis using grow r by (auto simp: lowest_def push_candidate_def sorted_insort_key ms)
  next
    case swap
    obtain h l where h: "heap = h @ [l]" using swap(2) by (metis append_butlast_last_id)
    have le: "\<forall>y \<in> set h. fst y \<le> fst l" "sorted (map fst h)" using r(1) by (auto simp: h sorted_append)
    show ?thesis unfolding lowest_def
    proof (intro conjI exI [of _ "add_mset l rest"])
      show "\<forall>a \<in># add_mset l rest. \<forall>y \<in> set (push_candidate n x heap). fst y \<le> fst a"
        using le swap r(4) by (force simp: push_candidate_def h st)
    qed (use swap r le in \<open>auto simp: push_candidate_def h sorted_insort_key ms\<close>)
  next
    case keep
    have "fst y \<le> fst x" if "y \<in> set heap" for y
    proof -
      obtain h l where h: "heap = h @ [l]" using \<open>y \<in> set heap\<close> by (metis append_butlast_last_id list.distinct(1) list.set_cases)
      then show ?thesis using that keep(2) r(1) by (auto simp: sorted_append)
    qed
    then show ?thesis unfolding lowest_def
      using keep r by (intro conjI exI [of _ "add_mset x rest"]) (auto simp: push_candidate_def)
  qed
qed

lemma split_candidate_eq:
  "split_candidate g now n (k, r) (urgent, heap) =
    (if abandoned g now r then (urgent @ [k], heap) else (urgent, push_candidate n (score_of g now r, k) heap))"
  by (simp add: split_candidate_def abandoned_def score_of_def)

text \<open>What a pass over the sampled entries collects.\<close>

lemma split_window:
  assumes "fold (split_candidate g now n) snaps (u0, h0) = (urgent, heap)" "lowest n cands h0"
  shows "urgent = u0 @ map fst (filter (\<lambda>(k, r). abandoned g now r) snaps) \<and>
    lowest n (rev (map (\<lambda>(k, r). (score_of g now r, k)) (filter (\<lambda>(k, r). \<not> abandoned g now r) snaps)) @ cands) heap"
  using assms
proof (induction snaps arbitrary: u0 h0 cands)
  case (Cons x snaps)
  obtain k r where x: "x = (k, r)" by fastforce
  show ?case
  proof (cases "abandoned g now r")
    case True
    then show ?thesis using Cons.IH [of "u0 @ [k]" h0 cands] Cons.prems by (simp add: x split_candidate_eq)
  next
    case False
    then show ?thesis
      using Cons.IH [of u0 "push_candidate n (score_of g now r, k) h0" "(score_of g now r, k) # cands"] Cons.prems
        lowest_push [OF Cons.prems(2)]
      by (simp add: x split_candidate_eq)
  qed
qed simp

text \<open>The entries a pass looks at, and those it drops.\<close>

definition window :: "cache_config \<Rightarrow> nat \<Rightarrow> 'l dns_cache \<Rightarrow> (cache_key \<times> cached_record) list" where
  "window g n c = take (min (n * eviction_sample_size g) (length (dc_map c)))
    (filter eligible (rotate (eviction_cursor c mod length (dc_map c)) (dc_map c)))"

lemma rotate_mod: "drop (i mod length xs) xs @ take (i mod length xs) xs = rotate (i mod length xs) xs"
  by (simp add: rotate_drop_take)

lemma window_sub: "x \<in> set (window g n c) \<Longrightarrow> x \<in> set (dc_map c) \<and> eligible x"
  unfolding window_def by (auto dest: in_set_takeD)

lemma length_eligible_rotate: "length (filter P (rotate k xs)) = length (filter P xs)"
proof -
  let ?i = "k mod length xs"
  have "length (filter P (drop ?i xs)) + length (filter P (take ?i xs)) = length (filter P (take ?i xs @ drop ?i xs))"
    by (simp only: filter_append length_append add.commute)
  then show ?thesis by (simp add: rotate_drop_take)
qed

lemma length_window:
  assumes "0 < eviction_sample_size g"
  shows "min n (length (filter eligible (dc_map c))) \<le> length (window g n c)"
proof -
  have "n \<le> n * eviction_sample_size g" using assms by simp
  then show ?thesis
    using length_filter_le [of eligible "dc_map c"] unfolding window_def length_take length_eligible_rotate by linarith
qed

definition urgent_of :: "cache_config \<Rightarrow> u64 \<Rightarrow> nat \<Rightarrow> 'l dns_cache \<Rightarrow> cache_key list" where
  "urgent_of g now n c = map fst (filter (\<lambda>(k, r). abandoned g now r) (window g n c))"

definition scored :: "cache_config \<Rightarrow> u64 \<Rightarrow> nat \<Rightarrow> 'l dns_cache \<Rightarrow> (int \<times> cache_key) list" where
  "scored g now n c = rev (map (\<lambda>(k, r). (score_of g now r, k)) (filter (\<lambda>(k, r). \<not> abandoned g now r) (window g n c)))"

lemma retained_eq:
  "(if U \<noteq> []
    then filter (\<lambda>(_, r). \<not> is_marked r) (filter (\<lambda>(k, _). k \<notin> V) (map (\<lambda>(k, r). (k, if k \<in> set U then mark_for_deletion r else r)) m))
    else filter (\<lambda>(k, _). k \<notin> V) (map (\<lambda>(k, r). (k, if k \<in> set U then mark_for_deletion r else r)) m)) =
   filter (\<lambda>(k, r). k \<notin> V \<and> (U \<noteq> [] \<longrightarrow> k \<notin> set U \<and> \<not> is_marked r)) m"
  by (induction m) (auto split: if_splits)

lemma evict_eq:
  assumes "dc_map c \<noteq> []"
  obtains heap where "lowest n (scored g now n c) heap"
    "dc_map (evict_by_strategy g now n c) = filter (\<lambda>(k, r). k \<notin> snd ` set (take (n - length (urgent_of g now n c)) heap) \<and>
      (urgent_of g now n c \<noteq> [] \<longrightarrow> k \<notin> set (urgent_of g now n c) \<and> \<not> is_marked r)) (dc_map c)"
    "dc_bloom (evict_by_strategy g now n c) = dc_bloom c"
    "permanent_records (evict_by_strategy g now n c) = permanent_records c"
proof -
  let ?m = "dc_map c" and ?u = "urgent_of g now n c"
  obtain walked snaps where sw: "sample_window (min (n * eviction_sample_size g) (length ?m))
      (drop (eviction_cursor c mod length ?m) ?m @ take (eviction_cursor c mod length ?m) ?m) 0 [] = (walked, snaps)"
    by fastforce
  then have w: "snaps = window g n c"
    using sample_window_eq [of "min (n * eviction_sample_size g) (length ?m)" "drop (eviction_cursor c mod length ?m) ?m @ take (eviction_cursor c mod length ?m) ?m" 0 "[]"]
    by (simp add: window_def rotate_mod)
  obtain urgent heap where f: "fold (split_candidate g now n) snaps ([], []) = (urgent, heap)" by fastforce
  have "lowest n [] []" by (simp add: lowest_def)
  from split_window [OF f this] have u: "urgent = ?u" "lowest n (scored g now n c) heap"
    by (simp_all add: w urgent_of_def scored_def)
  have "dc_map (evict_by_strategy g now n c) = filter (\<lambda>(k, r). k \<notin> snd ` set (take (n - length ?u) heap) \<and>
      (?u \<noteq> [] \<longrightarrow> k \<notin> set ?u \<and> \<not> is_marked r)) ?m"
    using assms f u(1) unfolding evict_by_strategy_def Let_def sw by (simp add: retained_eq)
  moreover have "dc_bloom (evict_by_strategy g now n c) = dc_bloom c"
    "permanent_records (evict_by_strategy g now n c) = permanent_records c"
    using assms f by (simp_all add: evict_by_strategy_def Let_def sw)
  ultimately show thesis using that u(2) by blast
qed

lemma shrinks_filter:
  assumes "distinct (map fst (dc_map c))" "dc_map c' = filter P (dc_map c)" "dc_bloom c' = dc_bloom c"
    "permanent_records c' = permanent_records c" "\<And>k r. (k, r) \<in> set (dc_map c) \<Longrightarrow> rec_permanent r \<Longrightarrow> P (k, r)"
  shows "shrinks c c'"
proof -
  have d: "distinct (map fst (filter P (dc_map c)))" using assms(1) by (simp add: distinct_map inj_on_def)
  show ?thesis
    unfolding shrinks_def using assms d by (auto simp: keeps_record_def)
qed

lemma map_fst_filter_distinct: "distinct (map fst xs) \<Longrightarrow> distinct (map fst (filter P xs))"
  by (simp add: distinct_map inj_on_def)

lemma window_keys: "distinct (map fst (dc_map c)) \<Longrightarrow> distinct (map fst (window g n c))"
  unfolding window_def
  by (metis distinct_rotate distinct_take map_fst_filter_distinct rotate_map take_map)

lemma lowest_sub: "lowest n cands heap \<Longrightarrow> mset heap \<subseteq># mset cands"
  by (auto simp: lowest_def)

lemma scored_victims:
  assumes "distinct (map fst (dc_map c))" "lowest n (scored g now n c) heap"
  shows "distinct (map snd heap)" "(v, k) \<in> set heap \<Longrightarrow> \<exists>r. (k, r) \<in> set (window g n c) \<and> \<not> abandoned g now r \<and> v = score_of g now r"
proof -
  let ?w = "filter (\<lambda>(k, r). \<not> abandoned g now r) (window g n c)"
  have sub: "mset heap \<subseteq># mset (scored g now n c)" by (rule lowest_sub [OF assms(2)])
  have "map snd (scored g now n c) = rev (map fst ?w)"
    by (auto simp: scored_def rev_map comp_def case_prod_beta)
  then have "distinct (map snd (scored g now n c))"
    using map_fst_filter_distinct [OF window_keys [OF assms(1)]] by simp
  moreover obtain rs where "mset (scored g now n c) = mset (heap @ rs)"
    using sub ex_mset by (metis mset_append mset_subset_eq_exists_conv)
  ultimately have "distinct (map snd (heap @ rs))" by (metis mset_eq_imp_distinct_iff mset_map)
  then show "distinct (map snd heap)" by simp
  show "\<exists>r. (k, r) \<in> set (window g n c) \<and> \<not> abandoned g now r \<and> v = score_of g now r" if "(v, k) \<in> set heap"
  proof -
    have "(v, k) \<in> set (scored g now n c)" using mset_subset_eqD [OF sub] that by (metis set_mset_mset)
    then show ?thesis by (auto simp: scored_def)
  qed
qed

lemma in_window_unique:
  "distinct (map fst (dc_map c)) \<Longrightarrow> (k, r) \<in> set (window g n c) \<Longrightarrow> (k, r') \<in> set (dc_map c) \<Longrightarrow> r' = r \<and> eligible (k, r)"
  using window_sub [of "(k, r)" g n c] by (metis eq_key_imp_eq_value)

lemma shrinks_evict:
  assumes "cache_ok env now0 c"
  shows "shrinks c (evict_by_strategy g now n c)"
proof (cases "dc_map c = []")
  case False
  note d = cache_okD(1) [OF assms]
  obtain heap where h: "lowest n (scored g now n c) heap"
    "dc_map (evict_by_strategy g now n c) = filter (\<lambda>(k, r). k \<notin> snd ` set (take (n - length (urgent_of g now n c)) heap) \<and>
      (urgent_of g now n c \<noteq> [] \<longrightarrow> k \<notin> set (urgent_of g now n c) \<and> \<not> is_marked r)) (dc_map c)"
    "dc_bloom (evict_by_strategy g now n c) = dc_bloom c"
    "permanent_records (evict_by_strategy g now n c) = permanent_records c"
    using evict_eq [OF False] by blast
  show ?thesis
  proof (rule shrinks_filter [OF d h(2-4)])
    fix k r
    assume kr: "(k, r) \<in> set (dc_map c)" "rec_permanent r"
    have nw: "(k, r') \<notin> set (window g n c)" for r'
      using in_window_unique [OF d _ kr(1)] kr(2) by (auto simp: eligible_def)
    have "k \<notin> snd ` set (take m heap)" for m
      using scored_victims(2) [OF d h(1)] nw in_set_takeD by (metis (no_types, lifting) image_iff prod.collapse)
    moreover have "k \<notin> set (urgent_of g now n c)" using nw by (auto simp: urgent_of_def)
    moreover have "\<not> is_marked r"
      using cache_okD(4) [OF assms] kr d by (metis map_of_is_SomeI record_ok_def)
    ultimately show "case (k, r) of (k, r) \<Rightarrow> k \<notin> snd ` set (take (n - length (urgent_of g now n c)) heap) \<and>
      (urgent_of g now n c \<noteq> [] \<longrightarrow> k \<notin> set (urgent_of g now n c) \<and> \<not> is_marked r)" by blast
  qed
qed (simp add: evict_by_strategy_def)

lemma shrinks_evict_entries: "cache_ok env now0 c \<Longrightarrow> shrinks c (evict_entries g now c)"
  by (simp add: evict_entries_def Let_def shrinks_evict)

lemma evicted_count:
  assumes d: "distinct (map fst (dc_map c))" and ne: "dc_map c \<noteq> []" and s: "0 < eviction_sample_size g"
  shows "length (dc_map (evict_by_strategy g now n c)) + min n (length (filter eligible (dc_map c))) \<le> length (dc_map c)"
proof -
  let ?w = "window g n c" and ?u = "urgent_of g now n c"
  obtain heap where h: "lowest n (scored g now n c) heap"
    "dc_map (evict_by_strategy g now n c) = filter (\<lambda>(k, r). k \<notin> snd ` set (take (n - length ?u) heap) \<and>
      (?u \<noteq> [] \<longrightarrow> k \<notin> set ?u \<and> \<not> is_marked r)) (dc_map c)" (is "_ = filter ?P _")
    using evict_eq [OF ne] by blast
  let ?v = "map snd (take (n - length ?u) heap)"
  have vw: "\<exists>r. (k, r) \<in> set ?w \<and> \<not> abandoned g now r" if "k \<in> set ?v" for k
    using that scored_victims(2) [OF d h(1)] by (auto dest!: in_set_takeD) blast
  have uw: "\<exists>r. (k, r) \<in> set ?w \<and> abandoned g now r" if "k \<in> set ?u" for k
    using that by (auto simp: urgent_of_def)
  have "set ?u \<inter> set ?v = {}"
    using uw vw window_keys [OF d, of g n] by (metis disjoint_iff eq_key_imp_eq_value)
  moreover have "distinct ?u" unfolding urgent_of_def by (rule map_fst_filter_distinct [OF window_keys [OF d]])
  moreover have "distinct ?v" using scored_victims(1) [OF d h(1)] by (simp add: distinct_take flip: take_map)
  ultimately have "distinct (?u @ ?v)" by simp
  moreover have "set (?u @ ?v) \<subseteq> fst ` set (filter (\<lambda>x. \<not> ?P x) (dc_map c))"
  proof
    fix k assume k: "k \<in> set (?u @ ?v)"
    then obtain r where "(k, r) \<in> set ?w" using uw vw by (metis Un_iff set_append)
    then have "(k, r) \<in> set (dc_map c)" using window_sub by blast
    moreover have "\<not> ?P (k, r)" using k by auto
    ultimately show "k \<in> fst ` set (filter (\<lambda>x. \<not> ?P x) (dc_map c))" by force
  qed
  ultimately have "length (?u @ ?v) \<le> length (filter (\<lambda>x. \<not> ?P x) (dc_map c))"
    by (metis (no_types, lifting) card_mono distinct_card finite_set length_map list.set_map order_trans card_length)
  moreover have "length (filter (\<lambda>(k, r). A r) xs) + length (filter (\<lambda>(k, r). \<not> A r) xs) = length xs"
    for A and xs :: "(cache_key \<times> cached_record) list" by (induction xs) auto
  from this [of "abandoned g now" ?w]
  have "length heap = min n (length ?w - length ?u)" "length ?u \<le> length ?w"
    using h(1) by (auto simp: lowest_def scored_def urgent_of_def)
  ultimately have "min n (length ?w) \<le> length (filter (\<lambda>x. \<not> ?P x) (dc_map c))" by auto
  then show ?thesis
    using length_window [OF s, of n c] sum_length_filter_compl [of ?P "dc_map c"]
    unfolding h(2) by linarith
qed

lemma evicted_lowest:
  assumes d: "distinct (map fst (dc_map c))" and gone: "(k, r) \<in> set (dc_map c)" "(k, r) \<notin> set (dc_map (evict_by_strategy g now n c))"
    and kept: "(k', r') \<in> set (window g n c)" "(k', r') \<in> set (dc_map (evict_by_strategy g now n c))"
  shows "is_marked r \<or> abandoned g now r \<or> score_of g now r \<le> score_of g now r'"
proof -
  let ?u = "urgent_of g now n c"
  have "dc_map c \<noteq> []" using gone(1) by auto
  then obtain heap where h: "lowest n (scored g now n c) heap"
    "dc_map (evict_by_strategy g now n c) = filter (\<lambda>(k, r). k \<notin> snd ` set (take (n - length ?u) heap) \<and>
      (?u \<noteq> [] \<longrightarrow> k \<notin> set ?u \<and> \<not> is_marked r)) (dc_map c)"
    using evict_eq by blast
  consider "is_marked r" | "k \<in> set ?u" | "k \<in> snd ` set (take (n - length ?u) heap)" using gone h(2) by auto
  then show ?thesis
  proof cases
    case 2
    then obtain r2 where "(k, r2) \<in> set (window g n c)" "abandoned g now r2" by (auto simp: urgent_of_def)
    then show ?thesis using in_window_unique [OF d _ gone(1)] by blast
  next
    case 3
    then obtain v where v: "(v, k) \<in> set (take (n - length ?u) heap)" by auto
    then have vr: "v = score_of g now r"
      using scored_victims(2) [OF d h(1) in_set_takeD] in_window_unique [OF d _ gone(1)] by blast
    have k': "k' \<notin> snd ` set (take (n - length ?u) heap)" "k' \<notin> set ?u"
      using kept(2) h(2) by auto
    have "abandoned g now r' \<Longrightarrow> k' \<in> set ?u" using kept(1) by (force simp: urgent_of_def)
    then have "\<not> abandoned g now r'" using k'(2) by blast
    then have "(score_of g now r', k') \<in> set (scored g now n c)" using kept(1) by (force simp: scored_def)
    then have "(score_of g now r', k') \<in># mset heap \<or> (\<forall>y \<in> set heap. fst y \<le> score_of g now r')"
      using h(1) unfolding lowest_def by (metis fst_conv set_mset_mset union_iff)
    then show ?thesis
    proof
      assume "(score_of g now r', k') \<in># mset heap"
      then have "(score_of g now r', k') \<in> set (drop (n - length ?u) heap)"
        using k'(1) by (metis append_take_drop_id image_eqI set_append set_mset_mset snd_conv UnE)
      moreover have "sorted (map fst (take (n - length ?u) heap @ drop (n - length ?u) heap))" using h(1) by (simp add: lowest_def)
      ultimately show ?thesis using v unfolding vr map_append sorted_append by (metis fst_conv image_eqI list.set_map)
    next
      assume "\<forall>y \<in> set heap. fst y \<le> score_of g now r'"
      then show ?thesis using v vr in_set_takeD by fastforce
    qed
  qed blast
qed

section \<open>Writing records\<close>

lemma listed_claim: "listed (claim_permanent d rt c) d' rt' \<longleftrightarrow> listed c d' rt' \<or> d' = d \<and> rt' = rt"
  by (auto simp: listed_def claim_permanent_def map_of_map_default split: option.splits if_splits)

lemma ok_fields:
  assumes "cache_ok env now c" "dc_map c' = dc_map c" "permanent_records c' = permanent_records c" "bloom_ok (dc_bloom c')"
    "\<And>k. gate_open env c k \<Longrightarrow> gate_open env c' k"
  shows "cache_ok env now c'"
proof -
  have l: "listed c' = listed c" by (intro ext) (simp add: listed_def assms(3))
  have "record_ok env now c' k r" if "record_ok env now c k r" for k r
    using that assms(5) by (auto simp: record_ok_def l)
  then show ?thesis using assms(1,4) unfolding cache_ok_def l assms(2,3) by blast
qed

lemma ok_gate: "cache_ok env now c \<Longrightarrow> \<exists>b. bloom_set (key_hash env) (dc_bloom c) k = Got b"
  using bloom.add_total [OF cache_okD(3), where fx = "key_hash env" and k = k] by metis

lemma ok_bloom_set:
  assumes "cache_ok env now c" "bloom_set (key_hash env) (dc_bloom c) k = Got b"
  shows "cache_ok env now (c\<lparr>dc_bloom := b\<rparr>)" "gate_open env (c\<lparr>dc_bloom := b\<rparr>) k"
proof -
  note ok = cache_okD(3) [OF assms(1)]
  show "cache_ok env now (c\<lparr>dc_bloom := b\<rparr>)"
  proof (rule ok_fields [OF assms(1)])
    show "bloom_ok (dc_bloom (c\<lparr>dc_bloom := b\<rparr>))" using bloom.add_total [OF ok] assms(2) by (metis dns_cache.select_convs(3) dns_cache.surjective dns_cache.update_convs(3) res.inject)
    show "gate_open env (c\<lparr>dc_bloom := b\<rparr>) j" if "gate_open env c j" for j
      using that bloom.check_keeps [OF ok assms(2)] by (simp add: gate_open_def)
  qed simp_all
  show "gate_open env (c\<lparr>dc_bloom := b\<rparr>) k" using bloom.check_add [OF ok assms(2)] by (simp add: gate_open_def)
qed

lemma ok_put:
  assumes ok: "cache_ok env now c" and r: "gate_open env c k" "\<not> rec_permanent r" "lifetime_ok r"
    and old: "\<And>old. map_of (dc_map c) k = Some old \<Longrightarrow> \<not> rec_permanent old"
  shows "cache_ok env now (put_record k r c)"
proof -
  have l: "listed (put_record k r c) = listed c" "gate_open env (put_record k r c) = gate_open env c"
    by (intro ext; simp add: listed_def gate_open_def)+
  have same: "record_ok env now (put_record k r c) = record_ok env now c" by (intro ext) (simp add: record_ok_def l)
  have "record_ok env now c k r" using r by (simp add: record_ok_def)
  then have "\<forall>j s. map_of (dc_map (put_record k r c)) j = Some s \<longrightarrow> record_ok env now c j s"
    using cache_okD(4) [OF ok] by auto
  moreover have "\<forall>d rt. listed c d rt \<longrightarrow> (\<exists>s. map_of (dc_map (put_record k r c)) (from_lowercase d rt) = Some s \<and> rec_permanent s)"
    using cache_okD(5) [OF ok] old by (metis fun_upd_apply map_of_put)
  ultimately show ?thesis
    using cache_okD(1-3) [OF ok] unfolding cache_ok_def l same by (simp add: put_record_def distinct_update)
qed

lemma ok_put_permanent:
  assumes ok: "cache_ok env now c" and r: "gate_open env c k" "rec_permanent r" "\<not> is_marked r" "ck_view k = 0"
  shows "cache_ok env now (put_record k r (claim_permanent (ck_domain k) (ck_type k) c))"
proof -
  let ?c = "put_record k r (claim_permanent (ck_domain k) (ck_type k) c)"
  have k: "from_lowercase (ck_domain k) (ck_type k) = k" using r(4) by (cases k) (simp add: from_lowercase_def)
  have l: "listed ?c d rt \<longleftrightarrow> listed c d rt \<or> d = ck_domain k \<and> rt = ck_type k" for d rt
    using listed_claim [of "ck_domain k" "ck_type k" c d rt] by (simp add: listed_def)
  have gate: "gate_open env ?c = gate_open env c" by (intro ext) (simp add: gate_open_def claim_permanent_def)
  have mp: "map_of (dc_map ?c) = (map_of (dc_map c))(k \<mapsto> r)" by (simp add: claim_permanent_def)
  have "record_ok env now ?c j s" if "map_of (dc_map ?c) j = Some s" for j s
    using that cache_okD(4) [OF ok, of j s] r unfolding mp record_ok_def gate l by (auto split: if_splits)
  moreover have "\<exists>s. map_of (dc_map ?c) (from_lowercase d rt) = Some s \<and> rec_permanent s" if "listed ?c d rt" for d rt
    using that cache_okD(5) [OF ok, of d rt] r(2) k unfolding l mp by (metis fun_upd_apply)
  moreover have "distinct (map fst (dc_map ?c))" "distinct (map fst (permanent_records ?c))" "bloom_ok (dc_bloom ?c)"
    using cache_okD(1-3) [OF ok] by (simp_all add: put_record_def claim_permanent_def distinct_update distinct_map_default)
  ultimately show ?thesis unfolding cache_ok_def by blast
qed

lemma same_life_timer: "same_life r (snd (first_timer_at g r))"
  by (simp add: first_timer_at_def Let_def set_refresh_timer_def lapse_refresh_timer_def)

lemma lifetime_new: "unat now < 2 ^ 63 \<Longrightarrow> lifetime_ok (new_record d ttl rt s now)"
  by (simp add: lifetime_ok_def new_record_def)

lemma lifetime_local [simp]: "lifetime_ok (with_local_dns r) = lifetime_ok r"
  by (simp add: lifetime_ok_def with_local_dns_def)

lemma renewed_ok:
  "unat now < 2 ^ 63 \<Longrightarrow> lifetime_ok (renewed ttl now s d r)" "rec_permanent (renewed ttl now s d r) = rec_permanent r"
  "is_marked (renewed ttl now s d r) = is_marked r"
  by (simp_all add: renewed_def lifetime_ok_def clear_refreshing_def note_refreshed_def flag_bits bit_and_iff bit_not_iff bit_flags)

lemma ok_keep_l1: "cache_ok env now c \<Longrightarrow> cache_ok env now (snd (keep_l1 env' t0 t k a s l x c))"
  by (erule shrinks_ok [rotated], rule shrinks_eq) (simp_all add: keep_l1_fields)

lemma ok_arm: "cache_ok env now c \<Longrightarrow> cache_ok env now (arm_timer k d kd c)"
  by (rule shrinks_ok [OF shrinks_arm])

lemma ok_metrics: "cache_ok env now c \<Longrightarrow> cache_ok env now (c\<lparr>dc_metrics := m\<rparr>)"
  by (rule shrinks_ok [OF shrinks_upd(1)])

lemma ok_store_positive:
  assumes "cache_ok env now c" "unat (clk 1) < 2 ^ 63"
  shows "\<exists>c'. store_positive env clk t k d ttl s loc c = Got c' \<and> cache_ok env now c'"
proof -
  obtain b where b: "bloom_set (key_hash env) (dc_bloom c) k = Got b" using ok_gate [OF assms(1)] by blast
  define r where "r = (if loc then with_local_dns (new_record d ttl (ck_type k) s (clk 1)) else new_record d ttl (ck_type k) s (clk 1))"
  obtain first r1 where f: "first_timer_at (cfg env) r = (first, r1)" by fastforce
  have life: "same_life r r1" using same_life_timer [of r "cfg env"] by (simp add: f)
  have "\<not> rec_permanent r" "lifetime_ok r" using assms(2) by (auto simp: r_def lifetime_new simp del: One_nat_def)
  then have r1: "\<not> rec_permanent r1" "lifetime_ok r1" using same_life_flags [OF life] by auto
  note c1 = ok_bloom_set [OF assms(1) b]
  have put: "cache_ok env now (put_record k r1 (c\<lparr>dc_bloom := b\<rparr>))"
    if "\<And>old. map_of (dc_map c) k = Some old \<Longrightarrow> \<not> rec_permanent old"
    by (rule ok_put [OF c1 r1]) (use that in simp)
  have done1: "cache_ok env now (snd (keep_l1 env (clk 2) t k a s0 loc x (arm_timer k first Due (put_record k r1 (c\<lparr>dc_bloom := b\<rparr>)))))"
    "cache_ok env now (snd (keep_l1 env (clk 2) t k a s0 loc x (arm_timer k first Due (put_record k r1 (c\<lparr>dc_bloom := b\<rparr>)\<lparr>dc_metrics := m\<rparr>))))"
    if "\<And>old. map_of (dc_map c) k = Some old \<Longrightarrow> \<not> rec_permanent old" for a s0 x m
    by (rule ok_keep_l1, rule ok_arm, rule put, rule that, assumption)
      (rule ok_keep_l1, rule ok_arm, rule ok_metrics, rule put, rule that, assumption)
  show ?thesis
    unfolding store_positive_def Let_def r_def [symmetric] f
    using done1 c1(1) by (auto simp: b split: option.splits)
qed

definition limits_ok :: "'l cache_env \<Rightarrow> bool" where
  "limits_ok env \<longleftrightarrow> cfg_min_ttl (cfg env) \<le> cfg_max_ttl (cfg env)"

lemma clamp_ttl_Got: "limits_ok env \<Longrightarrow> \<exists>ttl1. clamp_ttl (cfg env) ttl = Got ttl1"
  by (auto simp: limits_ok_def clamp_ttl_def not_less)

lemma into_stored_safe: "lo \<le> hi \<Longrightarrow> into_stored d ttl lo hi \<noteq> Panic"
  using safe_cache_form [of lo hi] by (cases d) (auto simp: into_stored_def safe_def res_simps)

lemma ok_store:
  assumes "cache_ok env now c" "limits_ok env" "unat (clk 1) < 2 ^ 63"
  shows "\<exists>c'. store env clk t k d ttl s loc c = Got c' \<and> cache_ok env now c'"
proof (cases "is_negative d")
  case True
  obtain e c1 where n: "negative_insert (cfg env) (clk 0) k ttl loc c = (e, c1)" by fastforce
  then have "cache_ok env now c1" using shrinks_ok [OF shrinks_negative_insert assms(1), of "cfg env" "clk 0" k ttl loc] by simp
  then show ?thesis using True ok_arm by (auto simp: store_def n)
next
  case False
  obtain ttl1 where "clamp_ttl (cfg env) ttl = Got ttl1" using clamp_ttl_Got [OF assms(2)] by blast
  then show ?thesis
    using False assms(1) ok_store_positive [where clk = clk, OF assms(1,3)] into_stored_safe [of "cfg_min_ttl (cfg env)" "cfg_max_ttl (cfg env)" d ttl1] assms(2)
    by (auto simp: store_def limits_ok_def split: res.splits)
qed

lemma ok_renew_entry:
  assumes ok: "cache_ok env now c" and clk: "unat (clk 0) < 2 ^ 63"
    and r: "map_of (dc_map c) k = Some r" "\<not> rec_permanent r"
  shows "\<exists>c'. renew_entry env clk t k ttl stored s r c = Got (True, c') \<and> cache_ok env now c'"
proof -
  define r1 where "r1 = renewed ttl (clk 0) s stored r"
  obtain n c1 where l1: "keep_l1 env (clk 1) t k (if ck_view k = 0 then as_cached_addresses stored else None)
      (cr_dnssec r1) (is_local_dns r1) (expires_at_secs r1) c = (n, c1)" by fastforce
  define r2 where "r2 = (if 0 < n then record_hits (ucast n) (clk 2) r1 else r1)"
  obtain first r3 where f: "first_timer_at (cfg env) r2 = (first, r3)" by fastforce
  have c1: "cache_ok env now c1" "map_of (dc_map c1) k = Some r"
    using ok_keep_l1 [OF ok] keep_l1_fields(1) l1 r(1) by (metis snd_conv)+
  obtain b where b: "bloom_set (key_hash env) (dc_bloom c1) k = Got b" using ok_gate [OF c1(1)] by blast
  have "same_life r1 r2" by (simp add: r2_def)
  then have life: "same_life r1 r3" using same_life_timer [of r2 "cfg env"] same_life_trans [of r1 r2 r3] by (simp add: f)
  have "\<not> rec_permanent r3" "lifetime_ok r3"
    using same_life_flags [OF life] renewed_ok(1) [OF clk] renewed_ok(2) r(2) by (auto simp: r1_def)
  then have "cache_ok env now (put_record k r3 (c1\<lparr>dc_bloom := b\<rparr>))"
    using ok_put [OF ok_bloom_set [OF c1(1) b]] c1(2) r(2) by simp
  then have "cache_ok env now (arm_timer k first Due (put_record k r3 (c1\<lparr>dc_bloom := b\<rparr>)))" by (rule ok_arm)
  then show ?thesis
    unfolding renew_entry_def Let_def r1_def [symmetric] l1 prod.case r2_def [symmetric] f b and_then.simps by blast
qed

lemma ok_refresh_record:
  assumes ok: "cache_ok env now c" and lim: "limits_ok env" and clk: "unat (clk 0) < 2 ^ 63"
  shows "\<exists>done c'. refresh_record_of env clk t k nt nd s c = Got (done, c') \<and> cache_ok env now c'"
proof (cases "case nt of Some ttl \<Rightarrow> Some ttl | None \<Rightarrow> map_option cr_ttl (map_of (dc_map c) k)")
  case None
  then show ?thesis using ok unfolding refresh_record_of_def by auto
next
  case (Some ttl0)
  obtain ttl where ttl: "clamp_ttl (cfg env) ttl0 = Got ttl" using clamp_ttl_Got [OF lim] by blast
  have "into_stored nd ttl (cfg_min_ttl (cfg env)) (cfg_max_ttl (cfg env)) \<noteq> Panic"
    using lim by (simp add: into_stored_safe limits_ok_def)
  then show ?thesis
    unfolding refresh_record_of_def Some ttl option.case and_then.simps
    using ok ok_renew_entry [where clk = clk, OF ok clk]
    by (cases "into_stored nd ttl (cfg_min_ttl (cfg env)) (cfg_max_ttl (cfg env))"; cases "map_of (dc_map c) k"; auto; blast)
qed

lemma ok_evict_entries: "cache_ok env now c \<Longrightarrow> cache_ok env now (evict_entries g now0 c)"
  using shrinks_ok shrinks_evict_entries by blast

lemma ok_insert_permanent:
  assumes ok: "cache_ok env now c"
  shows "\<exists>c'. insert_permanent env clk t d rt x ttl c = Got c' \<and> cache_ok env now c'"
proof -
  let ?k = "from_lowercase (normalize_domain d) rt"
  obtain b where b: "bloom_set (key_hash env) (dc_bloom c) ?k = Got b" using ok_gate [OF ok] by blast
  define c1 where "c1 = c\<lparr>dc_bloom := b\<rparr>"
  define c2 where "c2 = (if max_entries (cfg env) \<le> length (dc_map c1) then evict_entries (cfg env) (clk 0) c1 else c1)"
  note ok1 = ok_bloom_set [OF ok b, folded c1_def]
  have "shrinks c1 c2" using shrinks_evict_entries [OF ok1(1)] by (simp add: c2_def)
  then have ok2: "cache_ok env now c2" "gate_open env c2 ?k"
    using shrinks_ok ok1 by (blast, auto simp: gate_open_def shrinks_def)
  have k: "ck_view ?k = 0" "ck_type ?k = rt" by (simp_all add: from_lowercase_def)
  have "cache_ok env now (put_record ?k (permanent_record y ttl rt (clk 1)) (claim_permanent (ck_domain ?k) rt c2))" for y
    using ok_put_permanent [OF ok2, of "permanent_record y ttl rt (clk 1)"] k by simp
  then have fin: "cache_ok env now (snd (keep_l1 env (clk 2) t ?k (as_cached_addresses y) Cached_unknown False
      (clk 3 + ucast ttl) (put_record ?k (permanent_record y ttl rt (clk 1)) (claim_permanent (ck_domain ?k) rt c2))))" for y
    using ok_keep_l1 by blast
  have "into_stored x ttl 0 (- 1) \<noteq> Panic" by (rule into_stored_safe) simp
  then show ?thesis
    unfolding insert_permanent_def Let_def b and_then.simps c1_def [symmetric] c2_def [symmetric]
    using ok fin by (cases "into_stored x ttl 0 (- 1)") auto
qed

lemma listed_forget: "listed (forget_permanent d rt c) d' rt' \<longleftrightarrow> listed c d' rt' \<and> \<not> (d' = d \<and> rt' = rt)"
proof (cases "map_of (permanent_records c) d")
  case (Some types)
  have e: "filter (\<lambda>k. k \<noteq> rt) types = [] \<longleftrightarrow> (\<forall>k \<in> set types. k = rt)" by (simp add: filter_empty_conv)
  show ?thesis using Some by (auto simp: listed_def forget_permanent_def Let_def update_conv' delete_conv' e filter_empty_conv split: option.splits)
qed (auto simp: listed_def forget_permanent_def split: option.splits)

lemma forget_fields [simp]:
  "dc_map (forget_permanent d rt c) = dc_map c" "dc_bloom (forget_permanent d rt c) = dc_bloom c"
  "l1_generation (forget_permanent d rt c) = l1_generation c" "l1_threads (forget_permanent d rt c) = l1_threads c"
  by (simp_all add: forget_permanent_def Let_def split: option.splits)

lemma drop_fields [simp]:
  "map_of (dc_map (drop_record k c)) = (map_of (dc_map c))(k := None)" "dc_bloom (drop_record k c) = dc_bloom c"
  "permanent_records (drop_record k c) = permanent_records c"
  "l1_generation (drop_record k c) = l1_generation c" "l1_threads (drop_record k c) = l1_threads c"
  by (simp_all add: drop_record_def delete_conv')

lemma l1_clear_fields [simp]:
  "dc_map (dns_l1_clear env t c) = dc_map c" "dc_bloom (dns_l1_clear env t c) = dc_bloom c"
  "permanent_records (dns_l1_clear env t c) = permanent_records c"
  by (simp_all add: dns_l1_clear_def Let_def)

lemma count_eviction_fields [simp]:
  "dc_map (count_eviction c) = dc_map c" "dc_bloom (count_eviction c) = dc_bloom c"
  "permanent_records (count_eviction c) = permanent_records c"
  by (simp_all add: count_eviction_def)

lemma ok_forget_drop:
  assumes ok: "cache_ok env now c" and k: "ck_view k = 0"
  shows "cache_ok env now (forget_permanent (ck_domain k) (ck_type k) (drop_record k c))" (is "cache_ok _ _ ?c")
proof -
  have l: "listed ?c d rt \<longleftrightarrow> listed c d rt \<and> \<not> (d = ck_domain k \<and> rt = ck_type k)" for d rt
    using listed_forget [of "ck_domain k" "ck_type k" "drop_record k c"] by (simp add: listed_def)
  have gate: "gate_open env ?c = gate_open env c" by (intro ext) (simp add: gate_open_def)
  have eq: "j = k" if "ck_domain j = ck_domain k" "ck_type j = ck_type k" "ck_view j = 0" for j using that k by (cases j, cases k) simp
  have "record_ok env now ?c j s" if "map_of (dc_map ?c) j = Some s" for j s
    using that cache_okD(4) [OF ok, of j s] eq [of j] unfolding record_ok_def gate l by (auto split: if_splits)
  moreover have "\<exists>s. map_of (dc_map ?c) (from_lowercase d rt) = Some s \<and> rec_permanent s" if "listed ?c d rt" for d rt
  proof -
    have "from_lowercase d rt \<noteq> k" using that unfolding l by (auto simp: from_lowercase_def)
    then show ?thesis using that cache_okD(5) [OF ok, of d rt] unfolding l by simp
  qed
  moreover have "distinct (map fst (permanent_records ?c))"
    using cache_okD(2) [OF ok] by (auto simp: forget_permanent_def Let_def distinct_update distinct_delete split: option.splits)
  ultimately show ?thesis
    using cache_okD(1,3) [OF ok] unfolding cache_ok_def by (auto simp: drop_record_def distinct_delete)
qed

lemma ok_remove:
  assumes ok: "cache_ok env now c"
  shows "cache_ok env now (snd (cache_remove env' t d rt c))"
proof -
  let ?k = "from_lowercase (normalize_domain d) rt"
  have "cache_ok env now (forget_permanent (ck_domain ?k) rt (drop_record ?k c))"
    using ok_forget_drop [OF ok, of ?k] by (simp add: from_lowercase_def)
  then have "cache_ok env now (dns_l1_clear env' t (count_eviction (forget_permanent (ck_domain ?k) rt (drop_record ?k c))))"
    by (rule shrinks_ok [rotated]) (rule shrinks_eq; simp)
  then show ?thesis using ok by (simp add: cache_remove_def Let_def)
qed

lemma ok_remove_in: "cache_ok env now c \<Longrightarrow> cache_ok env now (snd (remove_in env' t d rt view c))"
  using ok_remove [of env now c env' t d rt] shrinks_ok [OF shrinks_remove_in_view] by (cases "view = 0") (auto simp: remove_in_def)

text \<open>Clearing the cache restores exactly the permanent entries.\<close>

lemma listed_iff:
  "distinct (map fst (permanent_records c)) \<Longrightarrow>
    listed c d rt \<longleftrightarrow> (\<exists>types. (d, types) \<in> set (permanent_records c) \<and> rt \<in> set types)"
  unfolding listed_def using map_of_is_SomeI map_of_SomeD by (fastforce split: option.splits)

lemma preserved_iff:
  assumes ok: "cache_ok env now c"
  shows "(k, d, ttl) \<in> set (preserved c) \<longleftrightarrow> (\<exists>r. map_of (dc_map c) k = Some r \<and> rec_permanent r \<and> d = cr_data r \<and> ttl = cr_ttl r)"
proof -
  have "(k, d, ttl) \<in> set (preserved c) \<longleftrightarrow> (\<exists>nm rt r. listed c nm rt \<and> k = from_lowercase nm rt \<and>
      map_of (dc_map c) k = Some r \<and> d = cr_data r \<and> ttl = cr_ttl r)"
    unfolding preserved_def listed_iff [OF cache_okD(2) [OF ok]] set_concat set_map
    by (simp add: set_map_filter case_prod_beta del: map_of_eq_Some_iff) (metis prod.collapse fst_conv snd_conv)
  also have "\<dots> \<longleftrightarrow> (\<exists>r. map_of (dc_map c) k = Some r \<and> rec_permanent r \<and> d = cr_data r \<and> ttl = cr_ttl r)"
  proof -
    have "listed c (ck_domain k) (ck_type k)" "from_lowercase (ck_domain k) (ck_type k) = k"
      if "map_of (dc_map c) k = Some r" "rec_permanent r" for r
      using cache_okD(4) [OF ok that(1)] that(2) by (cases k; simp add: record_ok_def from_lowercase_def)+
    then show ?thesis using cache_okD(5) [OF ok] by (metis option.inject)
  qed
  finally show ?thesis .
qed

lemma restore_one_ok:
  assumes "cache_ok env now c" "ck_view k = 0"
  shows "\<exists>c'. restore_one env clk c (k, d, ttl) = Got c' \<and> cache_ok env now c' \<and>
    map_of (dc_map c') = (map_of (dc_map c))(k \<mapsto> permanent_record d ttl (ck_type k) clk)"
proof -
  obtain b where b: "bloom_set (key_hash env) (dc_bloom c) k = Got b" using ok_gate [OF assms(1)] by blast
  then show ?thesis
    using ok_put_permanent [OF ok_bloom_set [OF assms(1) b], of "permanent_record d ttl (ck_type k) clk"] assms(2)
    by (simp add: restore_one_def claim_permanent_def)
qed

lemma restore_ok:
  assumes "cache_ok env now c" "\<forall>x \<in> set xs. ck_view (fst x) = 0"
  shows "\<exists>c'. fold_res (restore_one env clk) xs c = Got c' \<and> cache_ok env now c' \<and>
    map_of (dc_map c') = map_of (dc_map c) ++ map_of (rev (map (\<lambda>(k, d, ttl). (k, permanent_record d ttl (ck_type k) clk)) xs))"
  using assms
proof (induction xs arbitrary: c)
  case (Cons x xs)
  obtain k d ttl where x: "x = (k, d, ttl)" using prod_cases3 by blast
  obtain c1 where c1: "restore_one env clk c x = Got c1" "cache_ok env now c1"
    "map_of (dc_map c1) = (map_of (dc_map c))(k \<mapsto> permanent_record d ttl (ck_type k) clk)"
    using restore_one_ok [OF Cons.prems(1), of k clk d ttl] Cons.prems(2) x by auto
  obtain c' where c': "fold_res (restore_one env clk) xs c1 = Got c'" "cache_ok env now c'"
    "map_of (dc_map c') = map_of (dc_map c1) ++ map_of (rev (map (\<lambda>(k, d, ttl). (k, permanent_record d ttl (ck_type k) clk)) xs))"
    using Cons.IH [OF c1(2)] Cons.prems(2) by auto
  then show ?case using c1(1) unfolding c1(3) by (simp add: x map_add_assoc)
qed simp

lemma bloom_ok_clear: "bloom_ok b \<Longrightarrow> bloom_ok (bloom_clear b)"
  by (simp add: bloom_ok_def bloom_clear_def list.pred_map comp_def)

definition reborn :: "u64 \<Rightarrow> cache_key \<Rightarrow> cached_record \<Rightarrow> cached_record" where
  "reborn now k r = permanent_record (cr_data r) (cr_ttl r) (ck_type k) now"

lemma clear_restores:
  assumes ok: "cache_ok env now c"
  shows "\<exists>c'. cache_clear env clk t c = Got c' \<and> cache_ok env now c' \<and>
    (\<forall>k r'. map_of (dc_map c') k = Some r' \<longleftrightarrow> (\<exists>r. map_of (dc_map c) k = Some r \<and> rec_permanent r \<and> r' = reborn clk k r))"
proof -
  define c1 where "c1 = dns_l1_clear env t (c\<lparr>dc_map := [], dc_bloom := bloom_clear (dc_bloom c), dc_negative := [], permanent_records := []\<rparr>)"
  define c2 where "c2 = c1\<lparr>dc_metrics := (dc_metrics c1)\<lparr>m_hits := 0, m_misses := 0, m_evictions := 0\<rparr>\<rparr>"
  have e: "dc_map c2 = []" "permanent_records c2 = []" "bloom_ok (dc_bloom c2)"
    using bloom_ok_clear [OF cache_okD(3) [OF ok]] by (simp_all add: c2_def c1_def)
  have ok2: "cache_ok env now c2" unfolding cache_ok_def listed_def e by simp (rule e)
  have view: "ck_view k = 0" if "map_of (dc_map c) k = Some r" "rec_permanent r" for k r
    using cache_okD(4) [OF ok that(1)] that(2) by (simp add: record_ok_def)
  have v0: "\<forall>x \<in> set (preserved c). ck_view (fst x) = 0" using view preserved_iff [OF ok] by (metis prod.collapse)
  let ?L = "map (\<lambda>(k, d, ttl). (k, permanent_record d ttl (ck_type k) clk)) (preserved c)"
  obtain c' where c': "fold_res (restore_one env clk) (preserved c) c2 = Got c'" "cache_ok env now c'"
      "map_of (dc_map c') = map_of (rev ?L)"
    using restore_ok [OF ok2 v0, of clk] by (auto simp: e)
  have L: "(k, r') \<in> set (rev ?L) \<longleftrightarrow> (\<exists>r. map_of (dc_map c) k = Some r \<and> rec_permanent r \<and> r' = reborn clk k r)" for k r'
  proof -
    have "(k, r') \<in> set (rev ?L) \<longleftrightarrow> (\<exists>d ttl. (k, d, ttl) \<in> set (preserved c) \<and> r' = permanent_record d ttl (ck_type k) clk)"
      by force
    then show ?thesis unfolding preserved_iff [OF ok] reborn_def by blast
  qed
  have "map_of (rev ?L) k = Some r' \<longleftrightarrow> (k, r') \<in> set (rev ?L)" for k r'
  proof
    assume in_L: "(k, r') \<in> set (rev ?L)"
    obtain r2 where r2: "map_of (rev ?L) k = Some r2" using weak_map_of_SomeI [OF in_L] ..
    then have "(k, r2) \<in> set (rev ?L)" by (rule map_of_SomeD)
    then show "map_of (rev ?L) k = Some r'" using in_L r2 unfolding L by auto
  qed (rule map_of_SomeD)
  then have "\<forall>k r'. map_of (dc_map c') k = Some r' \<longleftrightarrow>
      (\<exists>r. map_of (dc_map c) k = Some r \<and> rec_permanent r \<and> r' = reborn clk k r)"
    unfolding c'(3) L by blast
  moreover have "cache_clear env clk t c = Got c'"
    unfolding cache_clear_def Let_def c1_def [symmetric] c2_def [symmetric] by (rule c'(1))
  ultimately show ?thesis using c'(2) by blast
qed

section \<open>Time and rotation\<close>

lemma dead_mono:
  assumes "record_ok env now c k r" "now \<le> later" "is_dead_at now r"
  shows "is_dead_at later r"
proof (cases "rec_permanent r")
  case False
  then show ?thesis using assms dead_iff_deadline [of r] by (auto simp: record_ok_def)
qed (use assms permanent_never_dead in blast)

lemma ok_later: "cache_ok env now c \<Longrightarrow> now \<le> later \<Longrightarrow> cache_ok env later c"
proof -
  assume ok: "cache_ok env now c" "now \<le> later"
  have "record_ok env later c k r" if "map_of (dc_map c) k = Some r" for k r
    using cache_okD(4) [OF ok(1) that] dead_mono [OF cache_okD(4) [OF ok(1) that] ok(2)] by (auto simp: record_ok_def)
  then show ?thesis using ok(1) unfolding cache_ok_def by blast
qed

lemma ok_rotate:
  assumes ok: "cache_ok env now c"
  shows "\<exists>n c'. rotate_bloom env now c = Got (n, c') \<and> cache_ok env now c'"
proof -
  define live where "live = map fst (filter (\<lambda>(_, r). \<not> is_marked r \<and> \<not> (is_expired_at now r \<and> \<not> is_stale_usable_at now r)) (dc_map c))"
  define locals where "locals = concat (map (\<lambda>(d, types). map (from_lowercase d) types) (permanent_records c))"
  obtain b where b: "bloom_rotate (dc_bloom c) = Got b" "bloom_ok b"
    using bloom_rotate_Got [OF cache_okD(3) [OF ok]] by (auto simp: rotated_def)
  obtain b1 where b1: "fold_res (bloom_set (key_hash env)) (live @ locals) b = Got b1" "bloom_ok b1"
    using bloom.adds_total [OF b(2), where fx = "key_hash env"] by blast
  have gate: "gate_open env (c\<lparr>dc_bloom := b1\<rparr>) k" if "k \<in> set live" for k
    using bloom.no_false_negative [OF b(2) b1(1)] that by (simp add: gate_open_def)
  have "record_ok env now (c\<lparr>dc_bloom := b1\<rparr>) k r" if "map_of (dc_map c) k = Some r" for k r
  proof -
    have "k \<in> set live" if "\<not> is_marked r" "\<not> is_dead_at now r"
      using map_of_SomeD [OF \<open>map_of (dc_map c) k = Some r\<close>] that by (force simp: live_def is_dead_at_def)
    then show ?thesis using cache_okD(4) [OF ok that] gate by (auto simp: record_ok_def listed_def)
  qed
  then have "cache_ok env now (c\<lparr>dc_bloom := b1\<rparr>)"
    using ok b1(2) unfolding cache_ok_def by (simp add: listed_def del: map_of_eq_Some_iff)
  then show ?thesis
    using b(1) b1(1) unfolding rotate_bloom_def Let_def live_def [symmetric] locals_def [symmetric] by simp
qed

end
