(* ===== verification/Cache_Reach.thy ===== *)
theory Cache_Reach
  imports Cache_Safety
begin

unbundle bit_operations_syntax

text \<open>
  The DNS cache as a state machine. A step is one operation, labelled with what it asks of the
  local records; the clock only moves forward and every reading during an operation is at most the
  current second. The properties hold in every reachable state, whatever the hash, the LRU map,
  the eviction scores and the order of operations.
\<close>

section \<open>Steps\<close>

datatype cache_op = Read | Write | Add_local cache_key | Remove_key cache_key | Clear_all | Maintain

definition readings :: "u64 \<Rightarrow> (nat \<Rightarrow> u64) \<Rightarrow> bool" where
  "readings now clk \<longleftrightarrow> (\<forall>i. clk i \<le> now) \<and> unat now < 2 ^ 63"

inductive cache_step :: "'l cache_env \<Rightarrow> u64 \<Rightarrow> cache_op \<Rightarrow> 'l dns_cache \<Rightarrow> 'l dns_cache \<Rightarrow> bool"
  for env now where
  lookup: "readings now clk \<Longrightarrow> get_in env clk t sends d rt view c = Got (hit, c') \<Longrightarrow> cache_step env now Read c c'"
| connects: "cache_step env now Read c (set_stale_repairs c)"
| receives: "stale_repairs c = Some (x # q) \<Longrightarrow> cache_step env now Read c (c\<lparr>stale_repairs := Some q\<rparr>)"
| stores: "readings now clk \<Longrightarrow> store env clk t k d ttl s loc c = Got c' \<Longrightarrow> cache_step env now Write c c'"
| renews: "readings now clk \<Longrightarrow> refresh_record_of env clk t k nt nd s c = Got (ok, c') \<Longrightarrow> cache_step env now Write c c'"
| adds: "readings now clk \<Longrightarrow> insert_permanent env clk t d rt x ttl c = Got c' \<Longrightarrow>
    cache_step env now (Add_local (from_lowercase (normalize_domain d) rt)) c c'"
| removes: "remove_in env t d rt view c = (ok, c') \<Longrightarrow>
    cache_step env now (Remove_key (in_view view (from_lowercase (normalize_domain d) rt))) c c'"
| clears: "cache_clear env now t c = Got c' \<Longrightarrow> cache_step env now Clear_all c c'"
| rotates: "rotate_bloom env now c = Got (n, c') \<Longrightarrow> cache_step env now Maintain c c'"
| evicts: "cache_step env now Maintain c (evict_entries (cfg env) now c)"
| drops: "remove_dead now k c = (ok, c') \<Longrightarrow> cache_step env now Maintain c c'"
| forgets: "expire_negative now k c = (ok, c') \<Longrightarrow> cache_step env now Maintain c c'"
| claims: "claim_due_refresh (cfg env) th now timer c = (due, c') \<Longrightarrow> cache_step env now Maintain c c'"
| gives_up: "cache_step env now Maintain c (give_up_dead_claim now k c)"
| starts: "start_claimed_refresh (cfg env) now coarse k c = (ok, c') \<Longrightarrow> cache_step env now Maintain c c'"
| resets: "cache_step env now Maintain c (reset_refreshing_of k c)"
| retries: "cache_step env now Maintain c (schedule_retry coarse k s c)"
| rearms: "cache_step env now Maintain c (rearm_lapsed (cfg env) coarse k c)"

inductive reachable_cache :: "'l cache_env \<Rightarrow> u64 \<Rightarrow> 'l dns_cache \<Rightarrow> bool" for env where
  starts: "next_power_of_two bits < 2 ^ 64 \<Longrightarrow> reachable_cache env now (new_cache env bits hashes)"
| steps: "reachable_cache env now c \<Longrightarrow> cache_step env now op c c' \<Longrightarrow> reachable_cache env now c'"
| waits: "reachable_cache env now c \<Longrightarrow> now \<le> later \<Longrightarrow> reachable_cache env later c"

lemma ok_new: "next_power_of_two bits < 2 ^ 64 \<Longrightarrow> cache_ok env now (new_cache env bits hashes)"
  by (simp add: cache_ok_def new_cache_def listed_def bloom_ok_new)

lemma readings_lt: "readings now clk \<Longrightarrow> unat (clk i) < 2 ^ 63"
  unfolding readings_def word_le_nat_alt using le_less_trans by blast

text \<open>Every step but the ones that write or remove entries drops or marks at most.\<close>

lemma step_shrinks:
  assumes "cache_step env now op c c'" "cache_ok env now c"
  shows "shrinks c c' \<or> op = Write \<or> (\<exists>k. op = Add_local k) \<or> (\<exists>k. op = Remove_key k) \<or> op = Clear_all \<or>
    (\<exists>n. rotate_bloom env now c = Got (n, c'))"
  using assms
proof (induction rule: cache_step.induct)
  case (lookup clk t sends d rt view c hit c')
  then show ?case using shrinks_get_in by blast
next
  case (connects c)
  then show ?case by (simp add: set_stale_repairs_def)
next
  case (evicts c)
  then show ?case using shrinks_evict_entries by blast
next
  case (drops k c ok c')
  then show ?case using shrinks_remove_dead [of c now k] by simp
next
  case (forgets k c ok c')
  then show ?case using shrinks_expire_negative [of c now k] by simp
next
  case (claims th timer c due c')
  then show ?case using shrinks_claim [of c "cfg env" th now timer] by simp
next
  case (starts coarse k c ok c')
  then show ?case using shrinks_start [of c "cfg env" now coarse k] by simp
qed (auto intro: shrinks_give_up shrinks_reset shrinks_schedule_retry shrinks_rearm_lapsed)

lemma step_ok:
  assumes step: "cache_step env now op c c'" and ok: "cache_ok env now c" and lim: "limits_ok env"
  shows "cache_ok env now c'"
proof -
  have shr: "cache_ok env now c'" if "shrinks c c' \<or> (\<exists>n. rotate_bloom env now c = Got (n, c'))"
    using that shrinks_ok [OF _ ok] ok_rotate [OF ok] by (metis res.inject prod.inject)
  show ?thesis
    using step
  proof cases
    case (stores clk t k d ttl s loc)
    then show ?thesis using ok_store [where clk = clk, OF ok lim readings_lt [where clk = clk]] by (metis res.inject)
  next
    case (renews clk t k nt nd s ok')
    then show ?thesis
      using ok_refresh_record [where clk = clk, OF ok lim readings_lt [where clk = clk]] by (metis res.inject prod.inject)
  next
    case (adds clk t d rt x ttl)
    then show ?thesis using ok_insert_permanent [OF ok] by (metis res.inject)
  next
    case (removes t d rt view ok')
    then show ?thesis using ok_remove_in [OF ok, of env t d rt view] by simp
  next
    case (clears t)
    then show ?thesis using clear_restores [OF ok] by (metis res.inject)
  qed (use step_shrinks [OF step ok] shr in blast)+
qed

lemma reachable_ok: "reachable_cache env now c \<Longrightarrow> limits_ok env \<Longrightarrow> cache_ok env now c"
  by (induction rule: reachable_cache.induct) (auto intro: ok_new step_ok ok_later)

section \<open>Lookups\<close>

text \<open>What the shared map answers for an entry that is not dead.\<close>

definition hit_of :: "u64 \<Rightarrow> cached_record \<Rightarrow> cache_hit" where
  "hit_of now r = (cr_data r, Some (cr_dnssec r),
    Some (if is_stale_usable_at now r then STALE_SERVE_TTL else remaining_ttl_at now r), is_local_dns r)"

lemma shared_hit:
  assumes "gate_open env c k" "map_of (dc_map c) k = Some r" "\<not> is_dead_at (clk 2) r"
  shows "\<exists>c'. get_shared env clk t sends k c = Got (Some (hit_of (clk 2) r), c')"
  using assms by (auto simp: get_shared_def gate_open_def is_dead_at_def hit_of_def get_stale_def get_live_def Let_def)

lemma open_gate:
  assumes "cache_ok env now c" "map_of (dc_map c) k = Some r" "\<not> is_marked r" "\<not> is_dead_at now r" "readings now clk"
  shows "gate_open env c k" "\<not> is_dead_at (clk i) r"
  using cache_okD(4) [OF assms(1,2)] assms(3-5) dead_mono [of env "clk i" c k r now]
  by (auto simp: record_ok_def readings_def)

text \<open>
  C20. Whatever was stored, evicted, rotated or cleared before, a lookup of an entry that is neither
  marked nor dead answers from that entry: the filter in front of the map never hides it.
\<close>

theorem live_entry_served:
  assumes "reachable_cache env now c" "limits_ok env" "readings now clk"
    and "map_of (dc_map c) k = Some r" "\<not> is_marked r" "\<not> is_dead_at now r"
  shows "\<exists>c'. get_shared env clk t sends k c = Got (Some (hit_of (clk 2) r), c')"
  using shared_hit open_gate [OF reachable_ok [OF assms(1,2)] assms(4-6,3)] assms(4) by blast

section \<open>Storing and reading back\<close>

definition stored_record :: "u64 \<Rightarrow> record_type \<Rightarrow> cached_data \<Rightarrow> u32 \<Rightarrow> cached_dnssec option \<Rightarrow> bool \<Rightarrow> cached_record" where
  "stored_record now rt x ttl s loc =
    (if loc then with_local_dns (new_record x ttl rt s now) else new_record x ttl rt s now)"

lemma stored_record_fields:
  "expires_at_secs (stored_record now rt x ttl s loc) = now + ucast ttl" "cr_data (stored_record now rt x ttl s loc) = x"
  "cr_dnssec (stored_record now rt x ttl s loc) = (case s of Some y \<Rightarrow> y | None \<Rightarrow> Cached_unknown)"
  "is_local_dns (stored_record now rt x ttl s loc) = loc" "\<not> rec_permanent (stored_record now rt x ttl s loc)"
  "\<not> is_marked (stored_record now rt x ttl s loc)"
  by (auto simp: stored_record_def new_record_def with_local_dns_def)
    (simp_all add: flag_bits new_record_def bit_or_iff bit_flags)

text \<open>The shared entry and the thread's own copy right after a store.\<close>

lemma store_positive_result:
  assumes ok: "cache_ok env now c" and clk: "unat (clk 1) < 2 ^ 63"
    and old: "\<And>old. map_of (dc_map c) k = Some old \<Longrightarrow> \<not> rec_permanent old"
  obtains c1 r where
    "store_positive env clk t k x ttl s loc c = Got (snd (keep_l1 env (clk 2) t k (if ck_view k = 0 then as_cached_addresses x else None)
      (case s of Some y \<Rightarrow> y | None \<Rightarrow> Cached_unknown) loc (clk 1 + ucast ttl) c1))"
    "dc_map c1 = AList.update k r (dc_map c)" "same_life (stored_record (clk 1) (ck_type k) x ttl s loc) r" "gate_open env c1 k"
    "l1_threads c1 = l1_threads c" "l1_generation c1 = l1_generation c"
proof -
  obtain b where b: "bloom_set (key_hash env) (dc_bloom c) k = Got b" using ok_gate [OF ok] by blast
  let ?r = "stored_record (clk 1) (ck_type k) x ttl s loc"
  obtain first r1 where f: "first_timer_at (cfg env) ?r = (first, r1)" by fastforce
  have life: "same_life ?r r1" using same_life_timer [of ?r "cfg env"] unfolding f snd_conv .
  have gate: "gate_open env (c\<lparr>dc_bloom := b\<rparr>) k" by (rule ok_bloom_set(2) [OF ok b])
  let ?c = "c\<lparr>dc_bloom := b\<rparr>"
  define c1 where "c1 = arm_timer k first Due (if map_of (dc_map c) k = None
    then (put_record k r1 ?c)\<lparr>dc_metrics := (dc_metrics ?c)\<lparr>m_insertions := m_insertions (dc_metrics ?c) + 1\<rparr>\<rparr> else put_record k r1 ?c)"
  have "store_positive env clk t k x ttl s loc c = Got (snd (keep_l1 env (clk 2) t k (if ck_view k = 0 then as_cached_addresses x else None)
      (case s of Some y \<Rightarrow> y | None \<Rightarrow> Cached_unknown) loc (expires_at_secs ?r) c1))"
    unfolding store_positive_def Let_def stored_record_def [symmetric] f prod.case b and_then.simps c1_def
    using old by (auto split: option.splits)
  moreover have "dc_map c1 = AList.update k r1 (dc_map c)" "l1_threads c1 = l1_threads c" "l1_generation c1 = l1_generation c"
    "gate_open env c1 k"
    using gate by (auto simp: c1_def gate_open_def) (auto simp: put_record_def arm_timer_def)
  ultimately show thesis using that life unfolding stored_record_fields(1) by blast
qed

lemma lookup_l1_fields:
  "dc_map (snd (lookup_l1 env now t key c)) = dc_map c" "dc_bloom (snd (lookup_l1 env now t key c)) = dc_bloom c"
  by (auto simp: lookup_l1_def Let_def split: prod.splits option.splits)

text \<open>What a thread would answer from its own level.\<close>

definition held :: "('l \<Rightarrow> string \<Rightarrow> dns_l1_entry option) \<Rightarrow> 'l dns_cache \<Rightarrow> nat \<Rightarrow> string \<Rightarrow> dns_l1_entry option" where
  "held seen c t key = (if snd (l1_threads c t) = l1_generation c then seen (fst (l1_threads c t)) key else None)"

text \<open>The level in front of the shared map, over any LRU map that keeps its laws.\<close>

locale thread_level = lru_laws "lru env" seen
  for env :: "'l cache_env" and seen :: "'l \<Rightarrow> string \<Rightarrow> dns_l1_entry option"
begin

lemma lookup_none:
  assumes "held seen c t key = None \<or> (\<exists>e. held seen c t key = Some e \<and> \<not> now < le_expires e)"
  shows "fst (lookup_l1 env now t key c) = None"
  using assms get_view [of "fst (l1_threads c t)" key]
  by (auto simp: lookup_l1_def held_def Let_def split: prod.splits option.splits if_splits)

lemma lookup_some:
  assumes "held seen c t key = Some e" "now < le_expires e"
  shows "\<exists>n. fst (lookup_l1 env now t key c) =
    Some (le_answer e, le_dnssec e, le_local e, ucast (min (le_expires e - now) 0xFFFFFFFF), n)"
  using assms get_view [of "fst (l1_threads c t)" key]
  by (auto simp: lookup_l1_def held_def Let_def split: prod.splits option.splits if_splits)

lemma held_insert:
  assumes "l1_insert env now t d rt a s loc x c = (n, c')"
  shows "held seen c' t (l1_key rt d) = (if snd (l1_threads c t) = l1_generation c
    then Some \<lparr>le_answer = a, le_dnssec = s, le_local = loc, pending_hits = 0, le_expires = x, flushed_at = ucast now\<rparr> else None)"
  using assms put_same by (auto simp: l1_insert_def held_def Let_def split: prod.splits)

lemma get_in_l1:
  assumes "held seen c t (l1_key rt (normalize_domain nm)) = Some e" "clk 0 < le_expires e" "rt = A \<or> rt = AAAA"
  shows "\<exists>c'. get_in env clk t sends nm rt 0 c =
    Got (Some (IpAddresses (le_answer e), Some (le_dnssec e), Some (ucast (min (le_expires e - clk 0) 0xFFFFFFFF)), le_local e), c')"
  using lookup_some [where now = "clk 0", OF assms(1,2)] assms(3) by (auto simp: get_in_def Let_def split: prod.splits)

end

lemma get_in_shared:
  assumes "view \<noteq> 0 \<or> rt \<noteq> A \<and> rt \<noteq> AAAA \<or> fst (lookup_l1 env (clk 0) t (l1_key rt (normalize_domain nm)) c) = None"
    and "gate_open env c k" "k = in_view view (from_lowercase (normalize_domain nm) rt)"
    and "map_of (dc_map c) k = Some r" "\<not> is_dead_at (clk 2) r"
  shows "\<exists>c'. get_in env clk t sends nm rt view c = Got (Some (hit_of (clk 2) r), c')"
proof -
  let ?c = "if view = 0 \<and> (rt = A \<or> rt = AAAA) then snd (lookup_l1 env (clk 0) t (l1_key rt (normalize_domain nm)) c) else c"
  have "gate_open env ?c k" "map_of (dc_map ?c) k = Some r"
    using assms(2,4) by (simp_all add: gate_open_def lookup_l1_fields)
  from shared_hit [where clk = clk, OF this assms(5)] show ?thesis
    using assms(1) by (auto simp: get_in_def Let_def assms(3) split: prod.splits)
qed

text \<open>How long an answer has left.\<close>

lemma stored_live:
  assumes "same_life (stored_record start rt x ttl s loc) r" "now < start + ucast ttl"
  shows "\<not> is_dead_at now r" "hit_of now r = (x, Some (case s of Some y \<Rightarrow> y | None \<Rightarrow> Cached_unknown), Some (ucast (start + ucast ttl - now)), loc)"
proof -
  note f = assms(1) [unfolded same_life_def stored_record_fields]
  show "\<not> is_dead_at now r" using f assms(2) stored_record_fields(5) by (auto simp: is_dead_at_def is_expired_at_def)
  have "\<not> rec_permanent r" using f stored_record_fields(5) by simp
  then show "hit_of now r = (x, Some (case s of Some y \<Rightarrow> y | None \<Rightarrow> Cached_unknown), Some (ucast (start + ucast ttl - now)), loc)"
    using f assms(2) by (auto simp: hit_of_def is_stale_usable_at_def remaining_ttl_at_def sat_sub_def)
qed

lemma cap_ttl:
  assumes "start \<le> now" "now < start + ucast (ttl :: u32)" "unat start < 2 ^ 63"
  shows "min (start + ucast ttl - now) 0xFFFFFFFF = (start + ucast ttl - now :: u64)"
proof -
  have "unat start + unat (ucast ttl :: u64) < 2 ^ LENGTH(64)"
    using assms(3) unat_u32_lt [of ttl] by (simp add: unat_ttl del: unat_u32_lt)
  from unat_add_no_wrap [OF this] have "unat (start + ucast ttl - now) \<le> unat ttl"
    using assms(1,2) by (simp add: unat_sub word_le_nat_alt word_less_nat_alt unat_ttl)
  also have "unat ttl \<le> 0xFFFFFFFF" using unat_u32_lt [of ttl] by (simp del: unat_u32_lt)
  finally show ?thesis by (simp add: min_def word_le_nat_alt)
qed

lemma stored_read:
  assumes lru: "lru_laws (lru env) seen" and reach: "reachable_cache env now c" "limits_ok env" and clk: "readings now clk"
    and k: "k = in_view view (from_lowercase (normalize_domain nm) rt)"
    and data: "\<not> is_negative d" "clamp_ttl (cfg env) ttl0 = Got ttl"
      "into_stored d ttl (cfg_min_ttl (cfg env)) (cfg_max_ttl (cfg env)) = Got x"
      "view = 0 \<and> (rt = A \<or> rt = AAAA) \<longrightarrow> (\<exists>a. x = IpAddresses a)"
    and old: "\<forall>old. map_of (dc_map c) k = Some old \<longrightarrow> \<not> rec_permanent old"
    and later: "\<forall>i. clk 1 \<le> clk' i \<and> clk' i < clk 1 + ucast ttl"
  shows "\<exists>c' c'' i. store env clk t k d ttl0 s loc c = Got c' \<and>
    get_in env clk' t sends nm rt view c' =
      Got (Some (x, Some (case s of Some y \<Rightarrow> y | None \<Rightarrow> Cached_unknown), Some (ucast (clk 1 + ucast ttl - clk' i)), loc), c'')"
proof -
  note tl = thread_level.intro [OF lru]
  note lt = readings_lt [OF clk, of 1]
  obtain c1 r where c1: "store_positive env clk t k x ttl s loc c = Got (snd (keep_l1 env (clk 2) t k
      (if ck_view k = 0 then as_cached_addresses x else None) (case s of Some y \<Rightarrow> y | None \<Rightarrow> Cached_unknown) loc (clk 1 + ucast ttl) c1))"
    "dc_map c1 = AList.update k r (dc_map c)" "same_life (stored_record (clk 1) (ck_type k) x ttl s loc) r" "gate_open env c1 k"
    using store_positive_result [where clk = clk, OF reachable_ok [OF reach] lt] old by metis
  define c' where "c' = snd (keep_l1 env (clk 2) t k (if ck_view k = 0 then as_cached_addresses x else None)
    (case s of Some y \<Rightarrow> y | None \<Rightarrow> Cached_unknown) loc (clk 1 + ucast ttl) c1)"
  have st: "store env clk t k d ttl0 s loc c = Got c'" using c1(1) by (simp add: store_def data c'_def)
  have live: "gate_open env c' k" "map_of (dc_map c') k = Some r" "\<not> is_dead_at (clk' 2) r"
    using c1(2,4) stored_live(1) [OF c1(3)] later by (auto simp: c'_def gate_open_def keep_l1_fields update_conv')
  note shared = get_in_shared [where clk = clk' and t = t and sends = sends, OF _ live(1) k live(2,3)]
  have hit: "hit_of (clk' 2) r = (x, Some (case s of Some y \<Rightarrow> y | None \<Rightarrow> Cached_unknown), Some (ucast (clk 1 + ucast ttl - clk' 2)), loc)"
    using stored_live(2) [OF c1(3)] later by blast
  let ?key = "l1_key rt (normalize_domain nm)"
  show ?thesis
  proof (cases "view = 0 \<and> (rt = A \<or> rt = AAAA) \<and> held seen c' t ?key \<noteq> None")
    case False
    then have "view \<noteq> 0 \<or> rt \<noteq> A \<and> rt \<noteq> AAAA \<or> fst (lookup_l1 env (clk' 0) t ?key c') = None"
      using thread_level.lookup_none [OF tl, of c' t ?key "clk' 0"] by metis
    from shared [OF this] show ?thesis unfolding hit using st by blast
  next
    case True
    then obtain a where a: "x = IpAddresses a" using data(4) by blast
    have kk: "ck_view k = 0" "ck_type k = rt" "ck_domain k = normalize_domain nm"
      using True by (simp_all add: k in_view_def from_lowercase_def)
    obtain n where ins: "l1_insert env (clk 2) t (normalize_domain nm) rt a (case s of Some y \<Rightarrow> y | None \<Rightarrow> Cached_unknown) loc
        (clk 1 + ucast ttl) c1 = (n, c')" using kk by (cases "l1_insert env (clk 2) t (normalize_domain nm) rt a
        (case s of Some y \<Rightarrow> y | None \<Rightarrow> Cached_unknown) loc (clk 1 + ucast ttl) c1") (simp add: c'_def a keep_l1_def)
    obtain e where e: "held seen c' t ?key = Some e" "le_answer e = a" "le_dnssec e = (case s of Some y \<Rightarrow> y | None \<Rightarrow> Cached_unknown)"
        "le_local e = loc" "le_expires e = clk 1 + ucast ttl"
      using True thread_level.held_insert [OF tl ins] by (auto split: if_splits)
    have "clk' 0 < le_expires e" using later by (simp add: e)
    from thread_level.get_in_l1 [where clk = clk', OF tl e(1) this, of sends] True
    show ?thesis unfolding e using cap_ttl [of "clk 1" "clk' 0" ttl] lt later st a by metis
  qed
qed


section \<open>Operations return\<close>

lemma get_shared_total:
  assumes "bloom_ok (dc_bloom c)"
  shows "\<exists>hit c'. get_shared env clk t sends k c = Got (hit, c')"
proof -
  obtain b where "bloom_check (key_hash env) (dc_bloom c) k = Got b"
    using bloom.check_total [OF assms, where fx = "key_hash env" and k = k] by blast
  then have "\<exists>p. get_shared env clk t sends k c = Got p" by (simp add: get_shared_def)
  then show ?thesis by (metis prod.collapse)
qed

lemma get_in_total:
  assumes "bloom_ok (dc_bloom c)"
  shows "\<exists>hit c'. get_in env clk t sends nm rt view c = Got (hit, c')"
proof -
  obtain hit c1 where l: "lookup_l1 env (clk 0) t (l1_key rt (normalize_domain nm)) c = (hit, c1)" by fastforce
  then have "bloom_ok (dc_bloom c1)" using assms lookup_l1_fields(2) by (metis snd_conv)
  then show ?thesis using get_shared_total assms by (auto simp: get_in_def Let_def l split: option.splits)
qed

text \<open>
  C21. No operation of the cache panics or gets stuck in any reachable state, whatever bytes an
  upstream answer has: each returns. The one requirement is that the configured TTL limits are in
  order.
\<close>

theorem cache_never_panics:
  assumes "reachable_cache env now c" "limits_ok env" "readings now clk"
  shows "(\<exists>hit c'. get_in env clk t sends nm rt view c = Got (hit, c')) \<and>
    (\<exists>c'. store env clk t k d ttl s loc c = Got c') \<and>
    (\<exists>ok c'. refresh_record_of env clk t k nt d s c = Got (ok, c')) \<and>
    (\<exists>c'. insert_permanent env clk t nm rt d ttl c = Got c') \<and>
    (\<exists>c'. cache_clear env now t c = Got c') \<and> (\<exists>n c'. rotate_bloom env now c = Got (n, c'))"
proof -
  note ok = reachable_ok [OF assms(1,2)]
  have r1: "unat (clk 1) < 2 ^ 63" and r0: "unat (clk 0) < 2 ^ 63" using readings_lt [OF assms(3)] by blast+
  show ?thesis
  proof (intro conjI)
    show "\<exists>hit c'. get_in env clk t sends nm rt view c = Got (hit, c')" by (rule get_in_total [OF cache_okD(3) [OF ok]])
    show "\<exists>c'. store env clk t k d ttl s loc c = Got c'" using ok_store [where clk = clk, OF ok assms(2) r1] by meson
    show "\<exists>ok c'. refresh_record_of env clk t k nt d s c = Got (ok, c')"
      using ok_refresh_record [where clk = clk, OF ok assms(2) r0] by meson
    show "\<exists>c'. insert_permanent env clk t nm rt d ttl c = Got c'" using ok_insert_permanent [OF ok] by meson
    show "\<exists>c'. cache_clear env now t c = Got c'" using clear_restores [OF ok] by meson
    show "\<exists>n c'. rotate_bloom env now c = Got (n, c')" using ok_rotate [OF ok] by meson
  qed
qed

section \<open>Local records\<close>

definition local_kept :: "cached_record \<Rightarrow> cache_key \<Rightarrow> 'l dns_cache \<Rightarrow> bool" where
  "local_kept r k c' \<longleftrightarrow> (\<exists>r'. map_of (dc_map c') k = Some r' \<and> rec_permanent r' \<and> cr_data r' = cr_data r \<and> cr_ttl r' = cr_ttl r)"

lemma shrinks_kept: "shrinks c c' \<Longrightarrow> map_of (dc_map c) k = Some r \<Longrightarrow> rec_permanent r \<Longrightarrow> local_kept r k c'"
  using shrinksD(5) [of c c' k r] by (auto simp: local_kept_def same_life_def)

lemma keep_l1_map: "keep_l1 env now t k a s l x c = (n, c1) \<Longrightarrow> dc_map c1 = dc_map c"
  using keep_l1_fields(1) by (metis snd_conv)

lemma store_positive_kept:
  assumes "store_positive env clk t k' x ttl s loc c = Got c'" "map_of (dc_map c) k = Some r" "rec_permanent r"
  shows "map_of (dc_map c') k = Some r"
proof -
  obtain first r1 where f: "first_timer_at (cfg env) (stored_record (clk 1) (ck_type k') x ttl s loc) = (first, r1)" by fastforce
  note st = assms(1) [unfolded store_positive_def Let_def stored_record_def [symmetric] f prod.case and_then_Got]
  show ?thesis
  proof (cases "map_of (dc_map c) k'")
    case None
    then have "k \<noteq> k'" using assms(2) by auto
    then show ?thesis using st None assms(2) by (auto simp: keep_l1_fields simp del: map_of_eq_Some_iff)
  next
    case (Some old)
    then show ?thesis using st assms(2,3) by (cases "k = k'") (auto simp: keep_l1_fields simp del: map_of_eq_Some_iff split: if_splits)
  qed
qed

lemma store_kept:
  assumes "store env clk t k' d ttl s loc c = Got c'" "map_of (dc_map c) k = Some r" "rec_permanent r"
  shows "local_kept r k c'"
proof (cases "is_negative d")
  case True
  then have "dc_map c' = dc_map c" using assms(1) by (auto simp: store_def negative_insert_def Let_def)
  then show ?thesis using assms by (simp add: local_kept_def)
next
  case False
  then obtain ttl1 where st: "(case into_stored d ttl1 (cfg_min_ttl (cfg env)) (cfg_max_ttl (cfg env)) of
      Got stored \<Rightarrow> store_positive env clk t k' stored ttl1 s loc c | Nothing \<Rightarrow> Got c | Panic \<Rightarrow> Panic) = Got c'"
    using assms(1) by (auto simp: store_def res_simps)
  show ?thesis
  proof (cases "into_stored d ttl1 (cfg_min_ttl (cfg env)) (cfg_max_ttl (cfg env))")
    case (Got x)
    then show ?thesis using st store_positive_kept [where clk = clk, OF _ assms(2,3)] assms(3) by (simp add: local_kept_def)
  qed (use st assms in \<open>simp_all add: local_kept_def\<close>)
qed

lemma renew_entry_other:
  assumes "renew_entry env clk t k' ttl x s r' c = Got (ok, c')" "k \<noteq> k'"
  shows "map_of (dc_map c') k = map_of (dc_map c) k"
  using assms by (auto simp: renew_entry_def Let_def res_simps keep_l1_map split: prod.splits)

lemma renew_kept:
  assumes "refresh_record_of env clk t k' nt nd s c = Got (ok, c')" "map_of (dc_map c) k = Some r" "rec_permanent r"
  shows "local_kept r k c'"
proof -
  have "map_of (dc_map c') k = map_of (dc_map c) k"
  proof (cases "c' = c")
    case False
    then obtain r' ttl x where r': "map_of (dc_map c) k' = Some r'" "\<not> rec_permanent r'" "renew_entry env clk t k' ttl x s r' c = Got (ok, c')"
      using assms(1) by (auto simp: refresh_record_of_def res_simps simp del: map_of_eq_Some_iff split: option.splits res.splits if_splits)
    then have "k \<noteq> k'" using assms(2,3) by auto
    then show ?thesis by (rule renew_entry_other [OF r'(3)])
  qed simp
  then show ?thesis using assms by (auto simp: local_kept_def)
qed

lemma add_kept:
  assumes ok: "cache_ok env now c" and add: "insert_permanent env clk t d rt x ttl c = Got c'"
    and r: "map_of (dc_map c) k = Some r" "rec_permanent r" "k \<noteq> from_lowercase (normalize_domain d) rt"
  shows "local_kept r k c'"
proof -
  let ?k = "from_lowercase (normalize_domain d) rt"
  obtain b where b: "bloom_set (key_hash env) (dc_bloom c) ?k = Got b" using ok_gate [OF ok] by blast
  define c1 where "c1 = c\<lparr>dc_bloom := b\<rparr>"
  define c2 where "c2 = (if max_entries (cfg env) \<le> length (dc_map c1) then evict_entries (cfg env) (clk 0) c1 else c1)"
  have "shrinks c1 c2" using shrinks_evict_entries [OF ok_bloom_set(1) [OF ok b]] by (simp add: c2_def c1_def)
  then have k2: "local_kept r k c2" using shrinks_kept [of c1 c2 k r] r by (simp add: c1_def)
  have "c' = c \<or> (\<exists>y. map_of (dc_map c') k = map_of (dc_map (put_record ?k y (claim_permanent (ck_domain ?k) rt c2))) k)"
    using add unfolding insert_permanent_def Let_def b and_then.simps c1_def [symmetric] c2_def [symmetric]
    by (cases "into_stored x ttl 0 (- 1)") (auto simp: keep_l1_fields)
  then show ?thesis
  proof
    assume "c' = c"
    then show ?thesis using r by (simp add: local_kept_def)
  qed (use k2 r(3) in \<open>auto simp: local_kept_def claim_permanent_def\<close>)
qed

lemma remove_kept:
  assumes "remove_in env t d rt view c = (ok, c')" "map_of (dc_map c) k = Some r" "rec_permanent r"
    "k \<noteq> in_view view (from_lowercase (normalize_domain d) rt)"
  shows "local_kept r k c'"
proof -
  have "map_of (dc_map c') k = map_of (dc_map c) k"
    using assms(1,4) by (auto simp: remove_in_def cache_remove_def Let_def new_key_normal in_view_def from_lowercase_def split: if_splits)
  then show ?thesis using assms(2,3) by (simp add: local_kept_def del: map_of_eq_Some_iff)
qed

lemma rotate_map: "rotate_bloom env now c = Got (n, c') \<Longrightarrow> dc_map c' = dc_map c"
  by (auto simp: rotate_bloom_def Let_def res_simps)

lemma is_permanent_listed: "is_permanent nm rt c \<longleftrightarrow> listed c (normalize_domain nm) rt"
  by (simp add: is_permanent_def listed_def)

lemma step_kept:
  assumes "cache_step env now op c c'" "cache_ok env now c" "map_of (dc_map c) k = Some r" "rec_permanent r"
    "op \<noteq> Remove_key k" "op \<noteq> Add_local k"
  shows "local_kept r k c'"
  using assms(1)
proof cases
  case (stores clk t k d ttl s loc)
  then show ?thesis using store_kept assms(3,4) by blast
next
  case (renews clk t k nt nd s ok)
  then show ?thesis using renew_kept assms(3,4) by blast
next
  case (adds clk t d rt x ttl)
  then show ?thesis using add_kept [where clk = clk, OF assms(2) _ assms(3,4)] assms(6) by blast
next
  case (removes t d rt view ok)
  then show ?thesis using remove_kept assms(3-5) by blast
next
  case (clears t)
  obtain c2 where "cache_clear env now t c = Got c2" "map_of (dc_map c2) k = Some (reborn now k r)"
    using clear_restores [OF assms(2), of now t] assms(3,4) by blast
  then show ?thesis using clears by (simp add: local_kept_def reborn_def) (simp add: permanent_record_def)
next
  case (rotates n)
  then show ?thesis using rotate_map [OF rotates(2)] assms(3,4) by (simp add: local_kept_def)
qed (use step_shrinks [OF assms(1,2)] shrinks_kept [OF _ assms(3,4)] rotate_map assms(3,4) in \<open>fastforce simp: local_kept_def\<close>)+


section \<open>Room\<close>

text \<open>
  A pass of eviction over a full cache frees the headroom asked for, or every entry it may
  drop when there are fewer: local records stay, and an unmarked entry still in use goes only when
  its score is no higher than that of every entry of the sample that stays.
\<close>

lemma eviction_makes_room:
  assumes reach: "reachable_cache env now c" "limits_ok env" and full: "max_entries g \<le> length (dc_map c)" "dc_map c \<noteq> []"
    and sample: "0 < eviction_sample_size g" and n: "n = length (dc_map c) - max_entries g + max (eviction_headroom g) 1"
  shows "length (dc_map (evict_entries g now c)) + min n (length (filter eligible (dc_map c))) \<le> length (dc_map c) \<and>
    (\<forall>k r. map_of (dc_map c) k = Some r \<and> rec_permanent r \<longrightarrow> local_kept r k (evict_entries g now c)) \<and>
    (\<forall>k r k' r'. (k, r) \<in> set (dc_map c) - set (dc_map (evict_entries g now c)) \<and>
      (k', r') \<in> set (window g n c) \<inter> set (dc_map (evict_entries g now c)) \<longrightarrow>
      is_marked r \<or> abandoned g now r \<or> score_of g now r \<le> score_of g now r')"
proof -
  note ok = reachable_ok [OF reach]
  have e: "evict_entries g now c = evict_by_strategy g now n c" using full(1) by (simp add: evict_entries_def Let_def n)
  show ?thesis
    using evicted_count [OF cache_okD(1) [OF ok] full(2) sample, of now n] shrinks_kept [OF shrinks_evict_entries [OF ok, of g now]]
      evicted_lowest [OF cache_okD(1) [OF ok], where g = g and now = now and n = n] unfolding e by blast
qed

section \<open>Removal and the thread-local level\<close>

lemma evict_l1:
  "l1_threads (evict_entries g now c) = l1_threads c" "l1_generation (evict_entries g now c) = l1_generation c"
  by (simp_all add: evict_entries_def evict_by_strategy_def Let_def split: prod.splits)

lemma keep_l1_other:
  "u \<noteq> t \<Longrightarrow> l1_threads (snd (keep_l1 env now t k a s l x c)) u = l1_threads c u"
  "l1_generation (snd (keep_l1 env now t k a s l x c)) = l1_generation c"
  by (auto simp: keep_l1_def l1_insert_def Let_def split: option.splits prod.splits)

lemma put_claim_l1 [simp]:
  "l1_threads (put_record k r c) = l1_threads c" "l1_generation (put_record k r c) = l1_generation c"
  "l1_threads (claim_permanent d rt c) = l1_threads c" "l1_generation (claim_permanent d rt c) = l1_generation c"
  by (simp_all add: put_record_def claim_permanent_def)

lemma insert_permanent_other:
  assumes "insert_permanent env clk t d rt x ttl c = Got c'" "u \<noteq> t"
  shows "l1_threads c' u = l1_threads c u \<and> l1_generation c' = l1_generation c"
proof -
  obtain r where r: "into_stored x ttl 0 (- 1) = r" by blast
  show ?thesis
    using assms unfolding insert_permanent_def Let_def r
    by (cases r) (auto simp: keep_l1_other evict_l1 and_then_Got)
qed

text \<open>
  C33. Removing a name whose shared entry is gone leaves the copies of other threads: a thread that
  still holds the old address answers with it after the name was removed and published again as a
  local record, until that copy expires.
\<close>

theorem removed_answer_lingers:
  assumes lru: "lru_laws (lru env) seen" and type: "rt = A \<or> rt = AAAA"
    and gone: "map_of (dc_map c) (from_lowercase (normalize_domain nm) rt) = None"
    and copy: "held seen c u (l1_key rt (normalize_domain nm)) = Some e" "clk' 0 < le_expires e"
    and other: "t \<noteq> u"
    and add: "insert_permanent env clk t nm rt x ttl (snd (cache_remove env t nm rt c)) = Got c'"
  shows "\<exists>c'' left. get_in env clk' u sends nm rt 0 c' = Got (Some (IpAddresses (le_answer e), Some (le_dnssec e), Some left, le_local e), c'')"
proof -
  have "snd (cache_remove env t nm rt c) = c" using gone by (simp add: cache_remove_def Let_def)
  then have "held seen c' u key = held seen c u key" for key
    using insert_permanent_other [OF add, of u] other by (simp add: held_def)
  then show ?thesis
    using thread_level.get_in_l1 [where clk = clk', OF thread_level.intro [OF lru] _ copy(2) type, of c' u nm sends] copy(1) by auto
qed

section \<open>A small cache\<close>

definition demo_cfg :: cache_config where
  "demo_cfg = \<lparr>max_entries = 1, access_window = 100, eviction_sample_size = 2, cfg_min_ttl = 0, cfg_max_ttl = 3600,
    renew_ahead = False, retry_lapsed_after = 60, proportional = ucast, eviction_headroom = 1,
    eviction_score = (\<lambda>hits _ _ _. uint hits)\<rparr>"

definition demo_env :: "(string, dns_l1_entry) recency cache_env" where
  "demo_env = \<lparr>cfg = demo_cfg, key_hash = (\<lambda>_. 5), lru = recency_ops\<rparr>"

definition demo_addresses :: cached_addresses where
  "demo_addresses = \<lparr>ca_addresses = [V4 7], ca_chain = None\<rparr>"

abbreviation demo_key :: cache_key where
  "demo_key \<equiv> from_lowercase ''a.test'' A"

definition demo_record :: cached_record where
  "demo_record = stored_record 100 A (IpAddresses demo_addresses) 300 None False"

lemma demo_limits: "limits_ok demo_env"
  by (simp add: limits_ok_def demo_env_def demo_cfg_def)

lemma demo_start: "reachable_cache demo_env now (new_cache demo_env 64 1)"
  by (rule reachable_cache.starts) (simp add: next_power_of_two.simps)

lemma demo_readings: "readings 100 (\<lambda>_. 100)"
  by (simp add: readings_def)

interpretation demo_level: thread_level demo_env "\<lambda>s. map_of (snd s)"
  unfolding thread_level_def demo_env_def by (simp add: recency.lru_laws_axioms)

text \<open>The cache after thread 1 stored an address, and after that entry was evicted.\<close>

lemma demo_store:
  assumes ok: "cache_ok demo_env 100 n" and n: "dc_map n = []" "l1_threads n = l1_threads (new_cache demo_env 64 1)"
    "l1_generation n = l1_generation (new_cache demo_env 64 1)"
  obtains c r where "store demo_env (\<lambda>_. 100) 1 demo_key (IpAddresses demo_addresses) 300 None False n = Got c"
    "dc_map c = [(demo_key, r)]" "same_life demo_record r"
    "\<exists>e. held (\<lambda>s. map_of (snd s)) c 1 (l1_key A ''a.test'') = Some e \<and> le_answer e = demo_addresses \<and> le_expires e = 400"
proof -
  have old: "\<not> rec_permanent old" if "map_of (dc_map n) demo_key = Some old" for old using that n(1) by simp
  obtain c1 r where c1: "store_positive demo_env (\<lambda>_. 100) 1 demo_key (IpAddresses demo_addresses) 300 None False n =
      Got (snd (keep_l1 demo_env 100 1 demo_key (if ck_view demo_key = 0 then as_cached_addresses (IpAddresses demo_addresses) else None)
        (case None of Some y \<Rightarrow> y | None \<Rightarrow> Cached_unknown) False (100 + ucast (300 :: u32)) c1))"
    "dc_map c1 = AList.update demo_key r (dc_map n)" "same_life (stored_record 100 (ck_type demo_key) (IpAddresses demo_addresses) 300 None False) r"
    "l1_threads c1 = l1_threads n" "l1_generation c1 = l1_generation n"
    by (rule store_positive_result [where clk = "\<lambda>_. 100" and t = 1 and x = "IpAddresses demo_addresses" and ttl = 300 and s = None and loc = False,
        OF ok _ old]) (simp, assumption)
  obtain m c where l: "l1_insert demo_env 100 1 ''a.test'' A demo_addresses Cached_unknown False (100 + ucast (300 :: u32)) c1 = (m, c)" by fastforce
  have st: "store demo_env (\<lambda>_. 100) 1 demo_key (IpAddresses demo_addresses) 300 None False n = Got c"
    using c1(1) l by (simp add: store_def clamp_ttl_def demo_env_def demo_cfg_def into_stored_def keep_l1_def from_lowercase_def)
  have "dc_map c = dc_map c1" using l1_insert_fields(1) [of demo_env 100 1] l by (metis snd_conv)
  then have "dc_map c = [(demo_key, r)]" using c1(2) n(1) by simp
  moreover have "\<exists>e. held (\<lambda>s. map_of (snd s)) c 1 (l1_key A ''a.test'') = Some e \<and> le_answer e = demo_addresses \<and> le_expires e = 400"
    using demo_level.held_insert [OF l] c1(4,5) n(2,3) by (simp add: new_cache_def)
  moreover have "same_life demo_record r" using c1(3) by (simp add: demo_record_def from_lowercase_def)
  ultimately show thesis using that st by blast
qed

lemma demo_stored:
  obtains c r where "reachable_cache demo_env 100 c" "dc_map c = [(demo_key, r)]" "same_life demo_record r"
    "\<exists>e. held (\<lambda>s. map_of (snd s)) c 1 (l1_key A ''a.test'') = Some e \<and> le_answer e = demo_addresses \<and> le_expires e = 400"
proof -
  have "dc_map (new_cache demo_env 64 1) = []" by (simp add: new_cache_def)
  from demo_store [OF reachable_ok [OF demo_start demo_limits, of 100] this refl refl]
  obtain c r where c: "store demo_env (\<lambda>_. 100) 1 demo_key (IpAddresses demo_addresses) 300 None False (new_cache demo_env 64 1) = Got c"
    "dc_map c = [(demo_key, r)]" "same_life demo_record r"
    "\<exists>e. held (\<lambda>s. map_of (snd s)) c 1 (l1_key A ''a.test'') = Some e \<and> le_answer e = demo_addresses \<and> le_expires e = 400" .
  show thesis
    by (rule that [OF reachable_cache.steps [OF demo_start cache_step.stores [where clk = "\<lambda>_. 100", OF demo_readings c(1)]] c(2-4)])
qed

theorem live_entry_served_witness:
  "\<exists>c r c'. reachable_cache demo_env 100 c \<and> map_of (dc_map c) demo_key = Some r \<and>
    get_shared demo_env (\<lambda>_. 100) 0 True demo_key c = Got (Some (hit_of 100 r), c')"
proof -
  obtain c r where c: "reachable_cache demo_env 100 c" "dc_map c = [(demo_key, r)]" "same_life demo_record r" using demo_stored by blast
  have r: "map_of (dc_map c) demo_key = Some r" "\<not> is_marked r" "\<not> is_dead_at 100 r"
    using c(2) same_life_flags(2) [OF c(3)] stored_live(1) [OF c(3) [unfolded demo_record_def], of 100]
    by (simp_all add: demo_record_def stored_record_fields)
  from live_entry_served [OF c(1) demo_limits demo_readings r, of 0 True] show ?thesis using c(1) r(1) by blast
qed


theorem cache_never_panics_witness:
  "(\<exists>c'. store demo_env (\<lambda>_. 100) 0 demo_key (WireData \<lparr>cw_bytes = [0xC0, 0x0C], cw_chain = None\<rparr>) 300 None False (new_cache demo_env 64 1) = Got c') \<and>
   (\<exists>hit c'. get_in demo_env (\<lambda>_. 100) 0 True ''a.test'' A 0 (new_cache demo_env 64 1) = Got (hit, c'))"
  using cache_never_panics [OF demo_start demo_limits demo_readings] by blast

lemma eviction_makes_room_witness:
  "\<exists>c r. reachable_cache demo_env 100 c \<and> dc_map c = [(demo_key, r)] \<and> dc_map (evict_entries demo_cfg 100 c) = []"
proof -
  obtain c r where c: "reachable_cache demo_env 100 c" "dc_map c = [(demo_key, r)]" "same_life demo_record r" using demo_stored by blast
  have "eligible (demo_key, r)"
    using same_life_flags(1,2) [OF c(3)] by (simp add: eligible_def demo_record_def stored_record_fields)
  then show ?thesis
    using eviction_makes_room [OF c(1) demo_limits, of demo_cfg 1] c(1,2) by (auto simp: demo_cfg_def)
qed

theorem removed_answer_lingers_witness:
  "\<exists>c c' c'' left. reachable_cache demo_env 100 c \<and>
    insert_permanent demo_env (\<lambda>_. 100) 0 ''a.test'' A (IpAddresses \<lparr>ca_addresses = [V4 9], ca_chain = None\<rparr>) 60
      (snd (cache_remove demo_env 0 ''a.test'' A c)) = Got c' \<and>
    get_in demo_env (\<lambda>_. 160) 1 True ''a.test'' A 0 c' = Got (Some (IpAddresses demo_addresses, left), c'')"
proof -
  obtain c r where c: "reachable_cache demo_env 100 c" "dc_map c = [(demo_key, r)]" "same_life demo_record r"
    "\<exists>e. held (\<lambda>s. map_of (snd s)) c 1 (l1_key A ''a.test'') = Some e \<and> le_answer e = demo_addresses \<and> le_expires e = 400"
    by (rule demo_stored)
  define c1 where "c1 = evict_entries demo_cfg 100 c"
  have r1: "reachable_cache demo_env 100 c1"
    using reachable_cache.steps [OF c(1) cache_step.evicts [of demo_env 100 c]] by (simp add: c1_def demo_env_def)
  have "eligible (demo_key, r)"
    using same_life_flags(1,2) [OF c(3)] by (simp add: eligible_def demo_record_def stored_record_fields)
  then have gone: "map_of (dc_map c1) (from_lowercase (normalize_domain ''a.test'') A) = None"
    using evicted_count [of c demo_cfg 100 1] c(2) by (simp add: c1_def evict_entries_def demo_cfg_def)
  have same: "held seen c1 = held seen c" for seen by (intro ext) (simp only: held_def c1_def evict_l1)
  have nm: "normalize_domain ''a.test'' = ''a.test''" by (simp add: normalize_domain_def no_upper_def ascii_upper_def)
  obtain e where e: "held (\<lambda>s. map_of (snd s)) c1 1 (l1_key A (normalize_domain ''a.test'')) = Some e" "le_answer e = demo_addresses" "160 < le_expires e"
    using c(4) by (auto simp: same nm)
  have rem: "snd (cache_remove demo_env 0 ''a.test'' A c1) = c1" using gone by (simp add: cache_remove_def Let_def)
  obtain c' where c': "insert_permanent demo_env (\<lambda>_. 100) 0 ''a.test'' A (IpAddresses \<lparr>ca_addresses = [V4 9], ca_chain = None\<rparr>) 60
      (snd (cache_remove demo_env 0 ''a.test'' A c1)) = Got c'"
    using ok_insert_permanent [OF reachable_ok [OF r1 demo_limits]] unfolding rem by blast
  from removed_answer_lingers [where clk' = "\<lambda>_. 160", OF demo_level.lru_laws_axioms _ gone e(1) _ _ c', of True] e(2,3)
  show ?thesis using r1 c' by auto
qed

lemma insert_permanent_result:
  assumes "insert_permanent env clk t d rt x ttl c = Got c'" "into_stored x ttl 0 (- 1) = Got y"
  shows "map_of (dc_map c') (from_lowercase (normalize_domain d) rt) = Some (permanent_record y ttl rt (clk 1))"
  using assms by (auto simp: insert_permanent_def Let_def res_simps keep_l1_fields)


end
