(* ===== verification/Cache_Worker.thy ===== *)
theory Cache_Worker
  imports Refresh_Schedule Cache_Reach
begin

text \<open>
  The worker that renews and removes cache entries (\<open>infrastructure/src/dns/cache_maintenance.rs\<close>):
  what it does each second, the renewals it starts, and what follows them. A renewal that runs is a
  pair of its key and origin; the resolver's answer is an argument of the step that ends it. The
  heap of claims is the list of its elements, from which any of the most urgent is popped. The
  passes of eviction and rotation that run on their own threads are steps of their own. The query
  log is left out, and the inbox is one list of timers.
\<close>

section \<open>Renewals\<close>

datatype refresh_origin = Stale | Due_refresh | Retry_refresh

datatype refresh_outcome = Renewed | Declined | Removed | Kept

definition MAX_CONCURRENT_REFRESHES :: nat where "MAX_CONCURRENT_REFRESHES = 16"
definition SWEEP_FACTOR :: nat where "SWEEP_FACTOR = 2"
definition SWEEP_BUDGET :: nat where "SWEEP_BUDGET = 16384"
definition MIN_BLOOM_ROTATION_MINUTES :: u64 where "MIN_BLOOM_ROTATION_MINUTES = 3"

definition retry_in :: "refresh_origin \<Rightarrow> domain_error + refresh_outcome \<Rightarrow> u64 \<Rightarrow> u64 option" where
  "retry_in origin outcome remaining =
    (if origin = Due_refresh \<and> outcome = Inr Declined \<and> 2 \<le> remaining then Some (remaining - 1)
     else if (origin = Due_refresh \<or> origin = Retry_refresh) \<and> outcome = Inr Declined then Some remaining
     else if origin = Due_refresh \<and> outcome = Inl AllUpstreamsServfail \<and> 2 \<le> remaining then Some (remaining div 2)
     else None)"

record upstream_answer = resolution +
  ua_dnssec :: "dnssec_status option"
  ua_min_ttl :: "u32 option"
  ua_soa_ttl :: "u32 option"

text \<open>Whether a renewal on a timer turns down an answer that would not extend the entry.\<close>

definition declines :: "'l cache_env \<Rightarrow> u64 \<Rightarrow> cache_key \<Rightarrow> refresh_origin \<Rightarrow> u32 option \<Rightarrow> 'l dns_cache \<Rightarrow> bool res" where
  "declines env now key origin min_ttl c =
    (case min_ttl of
       None \<Rightarrow> Got False
     | Some ttl \<Rightarrow>
         if origin = Stale then Got False
         else
           let remaining = (case remaining_ttl_of now key c of Some r \<Rightarrow> r | None \<Rightarrow> 0) in
           if remaining = 0 then Got False
           else and_then (clamp_ttl (cfg env) ttl) (\<lambda>t. Got (t \<le> remaining)))"

definition refresh_entry ::
  "'l cache_env \<Rightarrow> (nat \<Rightarrow> u64) \<Rightarrow> nat \<Rightarrow> cache_key \<Rightarrow> refresh_origin \<Rightarrow> domain_error + upstream_answer \<Rightarrow>
   'l dns_cache \<Rightarrow> ((domain_error + refresh_outcome) \<times> 'l dns_cache) res" where
  "refresh_entry env clk t key origin answer c =
    (case answer of
       Inl e \<Rightarrow> Got (Inl e, c)
     | Inr a \<Rightarrow>
         if ua_dnssec a = Some Bogus
         then Got (Inr Removed, snd (remove_in env t (ck_domain key) (ck_type key) (ck_view key) c))
         else if ua_dnssec a = Some Indeterminate then Got (Inr Kept, c)
         else case from_resolution (resolution.truncate a) of
           None \<Rightarrow> Got (Inr Kept, c)
         | Some new_data \<Rightarrow>
             let ttl = (case ua_min_ttl a of Some ttl \<Rightarrow> ttl | None \<Rightarrow> negative_ttl (ua_soa_ttl a)) in
             and_then (declines env (clk 3) key origin (ua_min_ttl a) c) (\<lambda>declined.
             if declined then Got (Inr Declined, c)
             else and_then (refresh_record_of env clk t key (Some ttl) new_data (map_option dnssec_from (ua_dnssec a)) c)
               (\<lambda>(stored, c1). Got (Inr (if stored then Renewed else Kept), c1))))"

definition follow_up ::
  "cache_config \<Rightarrow> u64 \<Rightarrow> cache_key \<Rightarrow> refresh_origin \<Rightarrow> domain_error + refresh_outcome \<Rightarrow> 'l dns_cache \<Rightarrow> 'l dns_cache" where
  "follow_up g now key origin outcome c =
    (if outcome = Inr Renewed
     then if origin \<noteq> Stale
       then c\<lparr>dc_metrics := (dc_metrics c)\<lparr>m_optimistic_refreshes := m_optimistic_refreshes (dc_metrics c) + 1\<rparr>\<rparr> else c
     else
       let remaining = (case remaining_ttl_of now key c of Some r \<Rightarrow> ucast r | None \<Rightarrow> 0);
           c1 = (case retry_in origin outcome remaining of
              Some in_secs \<Rightarrow> schedule_retry now key in_secs c
            | None \<Rightarrow> rearm_lapsed g now key c)
       in reset_refreshing_of key c1)"

section \<open>The worker\<close>

record 'l worker =
  wk_cache :: "'l dns_cache"
  wk_schedule :: refresh_schedule
  wk_stale :: "(string \<times> record_type \<times> u32) list"
  wk_due :: "due_refresh list"
  wk_running :: "(cache_key \<times> refresh_origin) list"
  base_sweep_at :: nat
  sweep_at :: nat
  wk_sweep_from :: "sweep_from option"
  bloom_rotation_secs :: u64
  next_rotation_at :: u64
  evicting :: bool
  rotating :: bool

definition start_refresh_worker :: "'l cache_env \<Rightarrow> u64 \<Rightarrow> 'l dns_cache \<Rightarrow> 'l worker" where
  "start_refresh_worker env now c =
    (let base = max_entries (cfg env) * SWEEP_FACTOR;
         secs = max (ucast (cfg_min_ttl (cfg env)) div 60) MIN_BLOOM_ROTATION_MINUTES * 60
     in \<lparr>wk_cache = c, wk_schedule = empty_schedule, wk_stale = [], wk_due = [], wk_running = [],
         base_sweep_at = base, sweep_at = base, wk_sweep_from = None, bloom_rotation_secs = secs,
         next_rotation_at = now + secs, evicting = False, rotating = False\<rparr>)"

definition collect_timers :: "'l worker \<Rightarrow> 'l worker" where
  "collect_timers w =
    w\<lparr>wk_schedule := fold register (dc_timers (wk_cache w)) (wk_schedule w), wk_cache := (wk_cache w)\<lparr>dc_timers := []\<rparr>\<rparr>"

definition fire_timer ::
  "cache_config \<Rightarrow> cold_thresholds \<Rightarrow> u64 \<Rightarrow> scheduled_refresh \<Rightarrow> 'l dns_cache \<times> due_refresh list \<Rightarrow> 'l dns_cache \<times> due_refresh list" where
  "fire_timer g th now timer x =
    (case x of (c, due) \<Rightarrow>
      if sr_kind timer = NegativeExpiry then (snd (expire_negative now (sr_key timer) c), due)
      else case claim_due_refresh g th now timer c of
        (Some d, c1) \<Rightarrow> (c1, d # due)
      | (None, c1) \<Rightarrow> (c1, due))"

definition fire_due :: "cache_config \<Rightarrow> cold_thresholds \<Rightarrow> u64 \<Rightarrow> 'l worker \<Rightarrow> 'l worker" where
  "fire_due g th now w =
    (let (taken, sched) = take_due now (wk_schedule w);
         (c, due) = fold (fire_timer g th now) taken (wk_cache w, wk_due w)
     in w\<lparr>wk_schedule := sched, wk_cache := c, wk_due := due\<rparr>)"

definition give_up_dead_claims :: "u64 \<Rightarrow> 'l worker \<Rightarrow> 'l worker" where
  "give_up_dead_claims now w =
    w\<lparr>wk_cache := fold (\<lambda>d. give_up_dead_claim now (dr_key d)) (filter (has_died_by now) (wk_due w)) (wk_cache w),
      wk_due := filter (\<lambda>d. \<not> has_died_by now d) (wk_due w)\<rparr>"

definition sweep_step :: "'l worker \<Rightarrow> 'l worker" where
  "sweep_step w =
    (case (case wk_sweep_from w of
        Some from \<Rightarrow> Some from
      | None \<Rightarrow> if sweep_at w < sched_len (wk_schedule w) then Some sweep_start else None) of
       None \<Rightarrow> w
     | Some from \<Rightarrow>
         let c = wk_cache w;
             (resume, sched) = sweep from SWEEP_BUDGET
               (\<lambda>key kind. if kind = NegativeExpiry then holds_negative key c else holds key c) (wk_schedule w)
         in w\<lparr>wk_schedule := sched, wk_sweep_from := resume,
              sweep_at := (if resume = None then max (base_sweep_at w) (sched_len sched * SWEEP_FACTOR) else sweep_at w)\<rparr>)"

definition maintain :: "cache_config \<Rightarrow> u64 \<Rightarrow> 'l worker \<Rightarrow> 'l worker" where
  "maintain g now w =
    (let w1 = (if is_over_capacity g (wk_cache w) then w\<lparr>evicting := True\<rparr> else w) in
     if next_rotation_at w1 \<le> now then w1\<lparr>next_rotation_at := now + bloom_rotation_secs w1, rotating := True\<rparr> else w1)"

definition on_tick :: "cache_config \<Rightarrow> cold_thresholds \<Rightarrow> u64 \<Rightarrow> 'l worker \<Rightarrow> 'l worker" where
  "on_tick g th now w = maintain g now (sweep_step (give_up_dead_claims now (fire_due g th now (collect_timers w))))"

text \<open>Hot before cold, then the earliest deadline.\<close>

definition more_urgent :: "due_refresh \<Rightarrow> due_refresh \<Rightarrow> bool" where
  "more_urgent a b \<longleftrightarrow> \<not> dr_cold a \<and> dr_cold b \<or> dr_cold a = dr_cold b \<and> dr_deadline a < dr_deadline b"

definition start_stale :: "string \<times> record_type \<times> u32 \<Rightarrow> 'l worker \<Rightarrow> 'l worker" where
  "start_stale x w =
    (case x of (d, rt, view) \<Rightarrow>
      w\<lparr>wk_stale := tl (wk_stale w), wk_running := (in_view view (new_key d rt), Stale) # wk_running w\<rparr>)"

definition start_due :: "cache_config \<Rightarrow> u64 \<Rightarrow> due_refresh \<Rightarrow> 'l worker \<Rightarrow> 'l worker" where
  "start_due g now d w =
    (let w1 = w\<lparr>wk_due := remove1 d (wk_due w)\<rparr> in
     case start_claimed_refresh g now now (dr_key d) (wk_cache w) of
       (False, c) \<Rightarrow> w1\<lparr>wk_cache := c\<rparr>
     | (True, c) \<Rightarrow>
         w1\<lparr>wk_cache := c, wk_running := (dr_key d, if dr_retry d then Retry_refresh else Due_refresh) # wk_running w\<rparr>)"

definition end_renewal ::
  "cache_config \<Rightarrow> u64 \<Rightarrow> cache_key \<times> refresh_origin \<Rightarrow> domain_error + refresh_outcome \<Rightarrow> 'l dns_cache \<Rightarrow> 'l worker \<Rightarrow> 'l worker" where
  "end_renewal g now x outcome c w =
    w\<lparr>wk_cache := follow_up g now (fst x) (snd x) outcome c, wk_running := remove1 x (wk_running w)\<rparr>"

text \<open>One turn of the loop, or one operation of the cache beside it.\<close>

inductive worker_step :: "'l cache_env \<Rightarrow> cold_thresholds \<Rightarrow> u64 \<Rightarrow> 'l worker \<Rightarrow> 'l worker \<Rightarrow> bool"
  for env th now where
  serves: "cache_step env now op (wk_cache w) c' \<Longrightarrow> op \<noteq> Maintain \<Longrightarrow> worker_step env th now w (w\<lparr>wk_cache := c'\<rparr>)"
| receives: "stale_repairs (wk_cache w) = Some (x # q) \<Longrightarrow>
    worker_step env th now w (w\<lparr>wk_cache := (wk_cache w)\<lparr>stale_repairs := Some q\<rparr>, wk_stale := wk_stale w @ [x]\<rparr>)"
| ticks: "worker_step env th now w (on_tick (cfg env) th now w)"
| starts_stale: "wk_stale w = x # rest \<Longrightarrow> length (wk_running w) < MAX_CONCURRENT_REFRESHES \<Longrightarrow>
    worker_step env th now w (start_stale x w)"
| starts_due: "wk_stale w = [] \<Longrightarrow> d \<in> set (wk_due w) \<Longrightarrow> \<forall>e \<in> set (wk_due w). \<not> more_urgent e d \<Longrightarrow>
    length (wk_running w) < MAX_CONCURRENT_REFRESHES \<Longrightarrow> worker_step env th now w (start_due (cfg env) now d w)"
| ends: "readings now clk \<Longrightarrow> (k, origin) \<in> set (wk_running w) \<Longrightarrow>
    refresh_entry env clk t k origin answer (wk_cache w) = Got (outcome, c) \<Longrightarrow>
    worker_step env th now w (end_renewal (cfg env) now (k, origin) outcome c w)"
| evicts: "evicting w \<Longrightarrow> worker_step env th now w (w\<lparr>wk_cache := evict_entries (cfg env) now (wk_cache w), evicting := False\<rparr>)"
| rotates: "rotating w \<Longrightarrow> rotate_bloom env now (wk_cache w) = Got (n, c) \<Longrightarrow>
    worker_step env th now w (w\<lparr>wk_cache := c, rotating := False\<rparr>)"

inductive reachable_worker :: "'l cache_env \<Rightarrow> cold_thresholds \<Rightarrow> u64 \<Rightarrow> 'l worker \<Rightarrow> bool" for env th where
  starts: "next_power_of_two bits < 2 ^ 64 \<Longrightarrow>
    reachable_worker env th now (start_refresh_worker env now (set_stale_repairs (new_cache env bits hashes)))"
| steps: "reachable_worker env th now w \<Longrightarrow> worker_step env th now w w' \<Longrightarrow> reachable_worker env th now w'"
| waits: "reachable_worker env th now w \<Longrightarrow> now \<le> later \<Longrightarrow> reachable_worker env th later w"

end
