(* ===== verification/Worker_Live.thy ===== *)
theory Worker_Live
  imports Cache_Worker
begin

text \<open>
  Why every entry leaves the cache once it is dead: it has a timer pending no later than its
  deadline, or is claimed and its claim carries its deadline, or a renewal of it is running. The
  invariant is kept by every operation of the cache and of the worker, so that after each tick a
  dead entry is one whose renewal still runs.
\<close>

section \<open>Timers of an entry\<close>

definition timer_for :: "scheduled_refresh set \<Rightarrow> cache_key \<Rightarrow> u64 \<Rightarrow> bool" where
  "timer_for T k s \<longleftrightarrow> (\<exists>t \<in> T. sr_key t = k \<and> sr_kind t \<noteq> NegativeExpiry \<and> due_at t = s)"

definition timed :: "cache_config \<Rightarrow> u64 \<Rightarrow> scheduled_refresh set \<Rightarrow> cache_key \<Rightarrow> cached_record \<Rightarrow> bool" where
  "timed g now T k r \<longleftrightarrow> timer_for T k (refresh_deadline r) \<or>
    timer_for T k (refresh_timer r) \<and> renews_ahead g (cr_ttl r) \<and> (refresh_timer r \<le> refresh_deadline r \<or> refresh_timer r \<le> now)"

definition same_timer :: "cached_record \<Rightarrow> cached_record \<Rightarrow> bool" where
  "same_timer r r' \<longleftrightarrow> refresh_timer r' = refresh_timer r \<and> refresh_deadline r' = refresh_deadline r \<and>
    cr_ttl r' = cr_ttl r \<and> rec_permanent r' = rec_permanent r"

lemma same_timer_refl [simp]: "same_timer r r"
  by (simp add: same_timer_def)

lemma same_timer_trans: "same_timer a b \<Longrightarrow> same_timer b d \<Longrightarrow> same_timer a d"
  by (simp add: same_timer_def)

lemma same_timer_ops [simp]:
  "same_timer r (record_hits n now r)" "same_timer r (record_hit now r)" "same_timer r (clear_refreshing r)"
  "same_timer r (mark_for_deletion r)" "same_timer r (snd (try_set_refreshing r))"
  by (auto simp: same_timer_def record_hit_def record_hits_def Let_def clear_refreshing_def mark_for_deletion_def try_set_refreshing_def
      try_set_flag_def refresh_deadline_def flag_bits bit_or_iff bit_and_iff bit_not_iff bit_flags)

lemma timer_for_mono: "timer_for T k s \<Longrightarrow> T \<subseteq> T' \<Longrightarrow> timer_for T' k s"
  by (auto simp: timer_for_def)

lemma timed_mono: "timed g now T k r \<Longrightarrow> T \<subseteq> T' \<Longrightarrow> now \<le> later \<Longrightarrow> timed g later T' k r"
  unfolding timed_def using timer_for_mono order_trans by blast

lemma timed_same: "same_timer r r' \<Longrightarrow> timed g now T k r' = timed g now T k r"
  by (simp add: timed_def same_timer_def)

text \<open>
  An operation is timely when it takes no timer away and every entry it leaves either has the timer
  state it had, or has a timer pending.
\<close>

definition timely :: "cache_config \<Rightarrow> u64 \<Rightarrow> 'l dns_cache \<Rightarrow> 'l dns_cache \<Rightarrow> bool" where
  "timely g now c c' \<longleftrightarrow> set (dc_timers c) \<subseteq> set (dc_timers c') \<and>
    (\<forall>k r'. map_of (dc_map c') k = Some r' \<and> \<not> rec_permanent r' \<longrightarrow>
      (\<exists>r. map_of (dc_map c) k = Some r \<and> same_timer r r') \<or> timed g now (set (dc_timers c')) k r')"

lemma timelyD:
  assumes "timely g now c c'"
  shows "set (dc_timers c) \<subseteq> set (dc_timers c')"
    "map_of (dc_map c') k = Some r' \<Longrightarrow> \<not> rec_permanent r' \<Longrightarrow>
      (\<exists>r. map_of (dc_map c) k = Some r \<and> same_timer r r') \<or> timed g now (set (dc_timers c')) k r'"
  using assms unfolding timely_def by blast+

lemma timely_refl [simp]: "timely g now c c"
  by (auto simp: timely_def)

lemma timely_trans:
  assumes "timely g now a b" "timely g now b d"
  shows "timely g now a d"
  unfolding timely_def
proof (intro conjI allI impI)
  fix k r'
  assume k: "map_of (dc_map d) k = Some r' \<and> \<not> rec_permanent r'"
  consider r where "map_of (dc_map b) k = Some r" "same_timer r r'" | "timed g now (set (dc_timers d)) k r'"
    using timelyD(2) [OF assms(2)] k by blast
  then show "(\<exists>r. map_of (dc_map a) k = Some r \<and> same_timer r r') \<or> timed g now (set (dc_timers d)) k r'"
  proof cases
    case (1 r)
    then have "\<not> rec_permanent r" using k by (simp add: same_timer_def)
    then show ?thesis
      using timelyD(2) [OF assms(1) 1(1)] same_timer_trans [OF _ 1(2)] timed_mono [OF _ timelyD(1) [OF assms(2)] order_refl]
        timed_same [OF 1(2)] by blast
  qed blast
qed (use timelyD(1) [OF assms(1)] timelyD(1) [OF assms(2)] in blast)

lemma timely_eq: "dc_map c' = dc_map c \<Longrightarrow> dc_timers c' = dc_timers c \<Longrightarrow> timely g now c c'"
  by (auto simp: timely_def)

lemma timely_sub:
  assumes "dc_timers c' = dc_timers c" "\<And>k r. map_of (dc_map c') k = Some r \<Longrightarrow> map_of (dc_map c) k = Some r"
  shows "timely g now c c'"
  unfolding timely_def assms(1) using assms(2) same_timer_refl by blast

lemma timely_put: "map_of (dc_map c) k = Some r \<Longrightarrow> same_timer r r' \<Longrightarrow> timely g now c (put_record k r' c)"
  unfolding timely_def by (auto simp: same_timer_def simp del: map_of_eq_Some_iff)

lemma timely_put_armed:
  assumes "timed g now (set (dc_timers (arm_timer k s kind c))) k r'"
  shows "timely g now c (arm_timer k s kind (put_record k r' c))"
proof -
  have "dc_timers (arm_timer k s kind (put_record k r' c)) = dc_timers (arm_timer k s kind c)" by (simp add: arm_timer_def)
  moreover have "set (dc_timers c) \<subseteq> set (dc_timers (arm_timer k s kind c))" by (auto simp: arm_timer_def)
  ultimately show ?thesis using assms unfolding timely_def
    by (auto simp: same_timer_def simp del: map_of_eq_Some_iff)
qed

lemma timer_for_arm: "kind \<noteq> NegativeExpiry \<Longrightarrow> timer_for (set (dc_timers (arm_timer k s kind c))) k s"
  by (auto simp: timer_for_def arm_timer_def)

lemma timely_upd [simp]:
  "timely g now c (c\<lparr>dc_metrics := m\<rparr>)" "timely g now c (c\<lparr>l1_threads := th\<rparr>)" "timely g now c (c\<lparr>dc_negative := ng\<rparr>)"
  "timely g now c (c\<lparr>stale_repairs := q\<rparr>)" "timely g now c (c\<lparr>dc_bloom := b\<rparr>)" "timely g now c (c\<lparr>permanent_records := p\<rparr>)"
  by (simp_all add: timely_eq)

lemma timely_arm: "timely g now c (arm_timer k s kind c)"
  by (auto simp: timely_def arm_timer_def)

section \<open>When renewals fall due\<close>

definition prop_ok :: "cache_config \<Rightarrow> bool" where
  "prop_ok g \<longleftrightarrow> (\<forall>ttl. proportional g ttl \<le> ucast ttl)"

lemma due_before_deadline:
  assumes "prop_ok g" "lifetime_ok r" "renews_ahead g (cr_ttl r)"
  shows "refresh_due_secs (proportional g) r \<le> refresh_deadline r"
proof -
  have p: "proportional g (cr_ttl r) \<le> ucast (cr_ttl r)" "unat (inserted_at_secs r) < 2 ^ 63" "cr_ttl r \<noteq> 0"
    using assms by (auto simp: prop_ok_def lifetime_ok_def renews_ahead_def)
  have "unat (refresh_due_secs (proportional g) r) \<le> unat (inserted_at_secs r) + unat (cr_ttl r)"
    unfolding refresh_due_secs_def by (rule due_in_lifetime(2) [of "proportional g", OF p])
  then show ?thesis using lifetimeD(2) [OF assms(2)] by (simp add: word_le_nat_alt)
qed

lemma first_timer_timed:
  assumes "prop_ok g" "lifetime_ok r" "first_timer_at g r = (s, r')"
  shows "timed g now (set (dc_timers (arm_timer k s Due c))) k r'"
proof (cases "renews_ahead g (cr_ttl r)")
  case True
  then have e: "s = refresh_due_secs (proportional g) r" "r' = set_refresh_timer s r"
    using assms(3) by (auto simp: first_timer_at_def Let_def)
  have "refresh_deadline r' = refresh_deadline r" "refresh_timer r' = s" "cr_ttl r' = cr_ttl r"
    by (simp_all add: e set_refresh_timer_def refresh_deadline_def)
  then show ?thesis
    using timer_for_arm [of Due k s c] True due_before_deadline [OF assms(1,2) True] by (simp add: timed_def e(1))
next
  case False
  then have e: "s = refresh_deadline r" "r' = lapse_refresh_timer r" using assms(3) by (auto simp: first_timer_at_def)
  have "refresh_deadline r' = s" by (simp add: e lapse_refresh_timer_def refresh_deadline_def)
  then show ?thesis using timer_for_arm [of Due k s c] by (simp add: timed_def)
qed

lemma swap_timer:
  "swap_refresh_timer a b r = (True, r') \<longleftrightarrow> refresh_timer r = a \<and> r' = r\<lparr>refresh_timer := b\<rparr>"
  "fst (swap_refresh_timer a b r) \<longleftrightarrow> refresh_timer r = a" "refresh_timer r \<noteq> a \<Longrightarrow> swap_refresh_timer a b r = (False, r)"
  by (auto simp: swap_refresh_timer_def)

lemma timer_upd [simp]:
  "refresh_deadline (r\<lparr>refresh_timer := x\<rparr>) = refresh_deadline r" "lifetime_ok (r\<lparr>refresh_timer := x\<rparr>) = lifetime_ok r"
  "rec_permanent (r\<lparr>refresh_timer := x\<rparr>) = rec_permanent r"
  by (simp_all add: refresh_deadline_def lifetime_ok_def rec_permanent_def)

section \<open>Operations of the cache\<close>

lemma timely_rearm_refresh:
  assumes g: "prop_ok g" and r: "map_of (dc_map c) k = Some r" "\<not> rec_permanent r \<longrightarrow> lifetime_ok r"
  shows "timely g now c (rearm_refresh g k r c)"
proof (cases "renews_ahead g (cr_ttl r) \<and> refresh_timer r = TIMER_PARKED")
  case True
  define s where "s = refresh_due_secs (proportional g) r"
  have e: "rearm_refresh g k r c = arm_timer k s Due (put_record k (r\<lparr>refresh_timer := s\<rparr>) c)"
    using True by (simp add: rearm_refresh_def try_unpark_refresh_def swap_refresh_timer_def s_def Let_def)
  show ?thesis
  proof (cases "rec_permanent r")
    case True
    then show ?thesis unfolding e timely_def using r
      by (auto simp: arm_timer_def same_timer_def simp del: map_of_eq_Some_iff)
  next
    case False
    then have "timed g now (set (dc_timers (arm_timer k s Due c))) k (r\<lparr>refresh_timer := s\<rparr>)"
      using timer_for_arm [of Due k s c] True due_before_deadline [OF g] r(2) by (simp add: timed_def s_def)
    then show ?thesis unfolding e by (rule timely_put_armed)
  qed
qed (auto simp: rearm_refresh_def try_unpark_refresh_def swap_refresh_timer_def Let_def)

lemma timely_record_hits:
  assumes g: "prop_ok g" and ok: "cache_ok env now0 c"
  shows "timely g now c (record_l1_hits g t k n c)"
proof (cases "map_of (dc_map c) k")
  case (Some r)
  let ?r = "record_hits (ucast n) t r"
  have life: "\<not> rec_permanent ?r \<longrightarrow> lifetime_ok ?r"
    using cache_okD(4) [OF ok Some] same_life_flags [OF same_life_ops(1)] by (auto simp: record_ok_def)
  have put: "timely g now c (put_record k ?r c)" by (rule timely_put [OF Some]) simp
  have "timely g now (put_record k ?r c) (rearm_refresh g k ?r (put_record k ?r c))"
    by (rule timely_rearm_refresh [OF g _ life]) simp
  from timely_trans [OF put this] put Some show ?thesis by (simp add: record_l1_hits_def Let_def)
qed (simp add: record_l1_hits_def)

lemma timely_l1:
  "timely g now c (snd (lookup_l1 env t0 t key c))" "timely g now c (snd (keep_l1 env t0 t k a s l x c))"
  "timely g now c (snd (l1_insert env t0 t d rt a' s l x c))"
  by (rule timely_eq; auto simp: lookup_l1_def keep_l1_def l1_insert_def Let_def split: prod.splits option.splits if_splits)+

lemma timely_promote:
  assumes "map_of (dc_map c) k = Some r"
  shows "timely g now c (promote_to_l1 env clk t0 t k r c)"
proof (cases "\<exists>a. cr_data r = IpAddresses a \<and> \<not> expires_at_secs r \<le> t0")
  case True
  then obtain a where a: "cr_data r = IpAddresses a" "\<not> expires_at_secs r \<le> t0" by blast
  define x where "x = (if rec_permanent r then t0 + ucast (cr_ttl r) else expires_at_secs r)"
  obtain n c1 where c1: "l1_insert env (clk 4) t (ck_domain k) (ck_type k) a (cr_dnssec r) (is_local_dns r) x c = (n, c1)"
    by fastforce
  have s1: "timely g now c c1" "map_of (dc_map c1) k = Some r"
    using timely_l1(3) [of g now c env "clk 4" t "ck_domain k" "ck_type k" a "cr_dnssec r" "is_local_dns r" x] assms
      l1_insert_fields(1) [of env "clk 4" t "ck_domain k" "ck_type k" a "cr_dnssec r" "is_local_dns r" x c] by (simp_all add: c1)
  have "timely g now c1 (put_record k (record_hits (ucast n) (clk 5) r) c1)" using s1(2) by (rule timely_put) simp
  then show ?thesis using timely_trans [OF s1(1)] s1(1) a by (simp add: promote_to_l1_def x_def [symmetric] c1)
next
  case False
  then show ?thesis by (auto simp: promote_to_l1_def split: cached_data.splits)
qed

lemma timely_negative: "timely g now c (snd (get_negative t k c))" "timely g now c (snd (expire_negative t k c))"
  by (rule timely_eq; auto simp: get_negative_def negative_get_def expire_negative_def negative_remove_expired_def
      split: prod.splits option.splits if_splits)+

lemma timely_repair:
  assumes "map_of (dc_map c) k = Some r0" "same_timer r0 r"
  shows "timely g now c (request_repair sends k r c)"
proof -
  obtain ok r1 where ok: "try_set_refreshing r = (ok, r1)" by fastforce
  have "same_timer r r1" using same_timer_ops(5) [of r] by (simp add: ok)
  then have "same_timer r0 r1" "same_timer r0 (clear_refreshing r1)" using assms(2) same_timer_trans same_timer_ops(3) by blast+
  then have "timely g now c (put_record k r1 c)" "timely g now c (put_record k (clear_refreshing r1) c)" "timely g now c (put_record k r c)"
    using timely_put [OF assms(1)] assms(2) by blast+
  then show ?thesis
    by (auto simp: request_repair_def ok intro: timely_trans [OF _ timely_upd(1)] timely_trans [OF _ timely_upd(4)]
        split: option.splits bool.splits)
qed

lemma timely_get_stale: "map_of (dc_map c) k = Some r \<Longrightarrow> timely g now c (snd (get_stale clk sends k r c))"
  using timely_trans [OF timely_upd(1) timely_repair [of "c\<lparr>dc_metrics := m\<rparr>" k r "record_hit (clk 3) r" for m]]
  by (simp add: get_stale_def Let_def)

lemma timely_get_live:
  assumes g: "prop_ok (cfg env)" and ok: "cache_ok env now0 c" and r: "map_of (dc_map c) k = Some r"
  shows "timely (cfg env) now c (snd (get_live env clk t k r c))"
proof -
  define r1 where "r1 = record_hit (clk 3) r"
  define c1 where "c1 = put_record k r1 (c\<lparr>dc_metrics := count_hit (dc_metrics c)\<rparr>)"
  define c2 where "c2 = (if is_refresh_parked r1 then rearm_refresh (cfg env) k r1 c1 else c1)"
  have s1: "timely (cfg env) now c c1" unfolding c1_def
    by (rule timely_trans [OF timely_upd(1) timely_put [of _ _ r]]) (use r in \<open>simp_all add: r1_def\<close>)
  have m1: "map_of (dc_map c1) k = Some r1" by (simp add: c1_def)
  have life: "\<not> rec_permanent r1 \<longrightarrow> lifetime_ok r1"
    using cache_okD(4) [OF ok r] same_life_flags [OF same_life_ops(2)] by (auto simp: record_ok_def r1_def)
  have s2: "timely (cfg env) now c1 c2" using timely_rearm_refresh [OF g m1 life] by (simp add: c2_def)
  obtain r2 where m2: "map_of (dc_map c2) k = Some r2"
    using rearm_refresh_map [OF m1] m1 unfolding c2_def by (metis (full_types))
  have "timely (cfg env) now c2 (promote_to_l1 env clk (clk 2) t k r2 c2)" by (rule timely_promote [OF m2])
  moreover have "snd (get_live env clk t k r c) = (if ck_view k = 0 then promote_to_l1 env clk (clk 2) t k r2 c2 else c2)"
    unfolding get_live_def Let_def r1_def [symmetric] c1_def [symmetric] c2_def [symmetric] m2 by simp
  ultimately show ?thesis using timely_trans [OF s1 s2] timely_trans by (cases "ck_view k = 0") auto
qed

lemma timely_get_shared:
  assumes g: "prop_ok (cfg env)" and ok: "cache_ok env now0 c" and got: "get_shared env clk t sends k c = Got (hit, c')"
  shows "timely (cfg env) now c c'"
proof -
  let ?g = "cfg env"
  obtain b where b: "bloom_check (key_hash env) (dc_bloom c) k = Got b"
    using got by (cases "bloom_check (key_hash env) (dc_bloom c) k") (auto simp: get_shared_def)
  have gn: "timely ?g now c d \<Longrightarrow> timely ?g now c (snd (get_negative t0 k d))" for d t0
    using timely_negative(1) timely_trans by blast
  note e = got [unfolded get_shared_def b]
  show ?thesis
  proof (cases "b \<and> map_of (dc_map c) k \<noteq> None")
    case False
    then show ?thesis using e gn [OF timely_refl, of "clk 6"] by (auto split: if_splits option.splits)
  next
    case True
    then obtain r where r: "map_of (dc_map c) k = Some r" by blast
    have "timely ?g now c (put_record k (mark_for_deletion r) c)" by (rule timely_put [OF r]) simp
    note mark = gn [OF timely_trans [OF this timely_upd(1)], of "clk 6"]
    show ?thesis
      using e r True mark timely_get_stale [OF r, of ?g now clk sends] timely_get_live [OF g ok r, of now clk t]
      by (simp split: if_splits) (metis snd_conv)+
  qed
qed

lemma timely_get_in:
  assumes g: "prop_ok (cfg env)" and ok: "cache_ok env now0 c" and got: "get_in env clk t sends d rt view c = Got (hit, c')"
  shows "timely (cfg env) now c c'"
proof (cases "view = 0 \<and> (rt = A \<or> rt = AAAA)")
  case False
  then show ?thesis using got timely_get_shared [OF g ok] by (auto simp: get_in_def Let_def)
next
  case True
  obtain found c1 where l1: "lookup_l1 env (clk 0) t (l1_key rt (normalize_domain d)) c = (found, c1)" by fastforce
  then have s1: "timely (cfg env) now c c1" "cache_ok env now0 c1"
    using timely_l1(1) [of "cfg env" now c env "clk 0" t "l1_key rt (normalize_domain d)"]
      shrinks_ok [OF shrinks_lookup_l1 ok, of env "clk 0" t "l1_key rt (normalize_domain d)"] by simp_all
  show ?thesis
  proof (cases found)
    case None
    then show ?thesis using got True timely_trans [OF s1(1) timely_get_shared [OF g s1(2)]] by (auto simp: get_in_def Let_def l1)
  next
    case (Some x)
    have "timely (cfg env) now c (c1\<lparr>dc_metrics := m\<rparr>)"
      "timely (cfg env) now c (record_l1_hits (cfg env) t0 k n (c1\<lparr>dc_metrics := m\<rparr>))" for m t0 k n
      using timely_trans [OF s1(1) timely_upd(1)] timely_trans [OF timely_trans [OF s1(1) timely_upd(1)] timely_record_hits [OF g ok_metrics [OF s1(2)]]]
      by blast+
    then show ?thesis using got True by (cases x) (auto simp: get_in_def Let_def l1 Some split: if_splits)
  qed
qed

lemma timely_store_positive:
  assumes g: "prop_ok (cfg env)" and clk: "unat (clk 1) < 2 ^ 63" and st: "store_positive env clk t k x ttl s loc c = Got c'"
  shows "timely (cfg env) now c c'"
proof -
  let ?r = "stored_record (clk 1) (ck_type k) x ttl s loc"
  obtain first r1 where f: "first_timer_at (cfg env) ?r = (first, r1)" by fastforce
  have "lifetime_ok ?r" using lifetime_new [OF clk] by (simp only: stored_record_def lifetime_local if_split) simp
  note armed = timely_put_armed [OF first_timer_timed [OF g this f]]
  obtain b where b: "bloom_set (key_hash env) (dc_bloom c) k = Got b" using st
    by (cases "bloom_set (key_hash env) (dc_bloom c) k") (simp_all add: store_positive_def Let_def split: prod.splits)
  note st' = st [unfolded store_positive_def Let_def stored_record_def [symmetric] f prod.case b and_then.simps]
  have t1: "timely (cfg env) now c (arm_timer k first Due (put_record k r1 (c\<lparr>dc_bloom := b\<rparr>)))"
    by (rule timely_trans [OF timely_upd(5) armed])
  have t2: "timely (cfg env) now c (arm_timer k first Due (put_record k r1 (c\<lparr>dc_bloom := b\<rparr>)\<lparr>dc_metrics := m\<rparr>))" for m
    by (rule timely_trans [OF t1], rule timely_eq) (simp_all add: arm_timer_def)
  show ?thesis
  proof (cases "map_of (dc_map c) k")
    case None
    then show ?thesis using st' timely_trans [OF t2 timely_l1(2)] by auto
  next
    case (Some old)
    then show ?thesis using st' timely_trans [OF t1 timely_l1(2)] by (auto split: if_splits)
  qed
qed

lemma timely_store:
  assumes g: "prop_ok (cfg env)" and clk: "unat (clk 1) < 2 ^ 63" and st: "store env clk t k d ttl s loc c = Got c'"
  shows "timely (cfg env) now c c'"
proof (cases "is_negative d")
  case True
  have "timely (cfg env) now c (arm_timer k x NegativeExpiry (c\<lparr>dc_negative := ng\<rparr>))" for x ng
    by (rule timely_trans [OF timely_upd(3) timely_arm])
  then show ?thesis using True st by (auto simp: store_def negative_insert_def Let_def)
next
  case False
  then obtain ttl1 where st1: "(case into_stored d ttl1 (cfg_min_ttl (cfg env)) (cfg_max_ttl (cfg env)) of
      Got stored \<Rightarrow> store_positive env clk t k stored ttl1 s loc c | Nothing \<Rightarrow> Got c | Panic \<Rightarrow> Panic) = Got c'"
    using st by (auto simp: store_def res_simps)
  show ?thesis
  proof (cases "into_stored d ttl1 (cfg_min_ttl (cfg env)) (cfg_max_ttl (cfg env))")
    case (Got x)
    then show ?thesis using st1 timely_store_positive [where clk = clk, OF g clk] by simp
  qed (use st1 in simp_all)
qed

lemma timely_renew_entry:
  assumes g: "prop_ok (cfg env)" and clk: "unat (clk 0) < 2 ^ 63" and st: "renew_entry env clk t k ttl x s r c = Got (ok, c')"
  shows "timely (cfg env) now c c'"
proof -
  define r1 where "r1 = renewed ttl (clk 0) s x r"
  obtain n c1 where l1: "keep_l1 env (clk 1) t k (if ck_view k = 0 then as_cached_addresses x else None)
      (cr_dnssec r1) (is_local_dns r1) (expires_at_secs r1) c = (n, c1)" by fastforce
  define r2 where "r2 = (if 0 < n then record_hits (ucast n) (clk 2) r1 else r1)"
  obtain first r3 where f: "first_timer_at (cfg env) r2 = (first, r3)" by fastforce
  obtain b where b: "bloom_set (key_hash env) (dc_bloom c1) k = Got b" and c': "c' = arm_timer k first Due (put_record k r3 (c1\<lparr>dc_bloom := b\<rparr>))"
    using st unfolding renew_entry_def Let_def r1_def [symmetric] l1 prod.case r2_def [symmetric] f by (auto simp: res_simps)
  have "same_life r1 r2" by (simp add: r2_def)
  then have life: "lifetime_ok r2" using same_life_flags(3) renewed_ok(1) [OF clk] unfolding r1_def by blast
  have "timely (cfg env) now c c1" using timely_l1(2) [of "cfg env" now c] l1 by (metis snd_conv)
  from timely_trans [OF timely_trans [OF this timely_upd(5)] timely_put_armed [OF first_timer_timed [OF g life f]]]
  show ?thesis unfolding c' .
qed

lemma timely_refresh_record:
  assumes g: "prop_ok (cfg env)" and clk: "unat (clk 0) < 2 ^ 63" and st: "refresh_record_of env clk t k nt nd s c = Got (ok, c')"
  shows "timely (cfg env) now c c'"
proof (cases "c' = c")
  case False
  then obtain r ttl x where "renew_entry env clk t k ttl x s r c = Got (ok, c')"
    using st by (auto simp: refresh_record_of_def res_simps simp del: map_of_eq_Some_iff split: option.splits res.splits if_splits)
  then show ?thesis by (rule timely_renew_entry [where clk = clk, OF g clk])
qed simp

lemma evict_timers: "dc_timers (evict_entries g now c) = dc_timers c"
  by (simp add: evict_entries_def evict_by_strategy_def Let_def split: prod.splits)

lemma timely_evict:
  assumes ok: "cache_ok env now0 c"
  shows "timely g now c (evict_entries g' t c)"
proof (rule timely_sub)
  note d = cache_okD(1) [OF ok]
  show "map_of (dc_map c) k = Some r" if "map_of (dc_map (evict_entries g' t c)) k = Some r" for k r
  proof (cases "dc_map c = []")
    case False
    have "set (dc_map (evict_by_strategy g' t n c)) \<subseteq> set (dc_map c)" for n
      by (rule evict_eq [OF False, of n g' t]) simp
    then have "set (dc_map (evict_entries g' t c)) \<subseteq> set (dc_map c)" by (simp add: evict_entries_def Let_def)
    then show ?thesis using map_of_SomeD [OF that] d by (auto intro: map_of_is_SomeI)
  qed (use that in \<open>simp add: evict_entries_def evict_by_strategy_def Let_def split: if_splits\<close>)
qed (rule evict_timers)

lemma timely_insert_permanent:
  assumes ok: "cache_ok env now0 c" and add: "insert_permanent env clk t d rt x ttl c = Got c'"
  shows "timely g now c c'"
proof -
  let ?k = "from_lowercase (normalize_domain d) rt"
  obtain b where b: "bloom_set (key_hash env) (dc_bloom c) ?k = Got b" using ok_gate [OF ok] by blast
  define c1 where "c1 = c\<lparr>dc_bloom := b\<rparr>"
  define c2 where "c2 = (if max_entries (cfg env) \<le> length (dc_map c1) then evict_entries (cfg env) (clk 0) c1 else c1)"
  have t2: "timely g now c c2"
    using timely_trans [OF timely_upd(5) timely_evict [OF ok_bloom_set(1) [OF ok b]]] by (simp add: c2_def c1_def)
  have put: "timely g now c2 (put_record ?k (permanent_record y ttl rt t1) (claim_permanent n rt c2))" for y t1 n
    unfolding timely_def by (auto simp: claim_permanent_def simp del: map_of_eq_Some_iff intro: same_timer_refl)
  have "c' = c \<or> (\<exists>y a. c' = snd (keep_l1 env (clk 2) t ?k a Cached_unknown False (clk 3 + ucast ttl)
      (put_record ?k (permanent_record y ttl rt (clk 1)) (claim_permanent (ck_domain ?k) rt c2))))"
    using add unfolding insert_permanent_def Let_def b and_then.simps c1_def [symmetric] c2_def [symmetric]
    by (cases "into_stored x ttl 0 (- 1)") auto
  then show ?thesis using timely_trans [OF timely_trans [OF t2 put] timely_l1(2)] by auto
qed

lemma timely_remove: "timely g now c (snd (remove_in env t d rt view c))"
proof -
  have rest: "dc_timers (forget_permanent n rt c) = dc_timers c" "dc_timers (count_eviction c) = dc_timers c"
    "dc_timers (dns_l1_clear env t c) = dc_timers c" "dc_timers (drop_record k c) = dc_timers c" for n c k and env :: "'b cache_env"
    by (simp_all add: forget_permanent_def count_eviction_def dns_l1_clear_def drop_record_def Let_def split: option.splits)
  show ?thesis
    by (rule timely_sub) (auto simp: remove_in_def cache_remove_def Let_def rest simp del: map_of_eq_Some_iff split: if_splits)
qed

lemma restore_timers: "fold_res (restore_one env clk) xs c = Got c' \<Longrightarrow> dc_timers c' = dc_timers c"
proof (induction xs arbitrary: c)
  case (Cons x xs)
  obtain c1 where c1: "restore_one env clk c x = Got c1" "fold_res (restore_one env clk) xs c1 = Got c'"
    using Cons.prems by (auto simp: res_simps)
  have "dc_timers c1 = dc_timers c" using c1(1) by (auto simp: restore_one_def claim_permanent_def res_simps split: prod.splits)
  then show ?case using Cons.IH [OF c1(2)] by simp
qed simp

lemma timely_clear:
  assumes "cache_ok env now0 c" "cache_clear env clk t c = Got c'"
  shows "timely g now c c'"
proof -
  have "dc_timers c' = dc_timers c"
    using assms(2) restore_timers unfolding cache_clear_def Let_def by (fastforce simp: dns_l1_clear_def Let_def)
  moreover have "rec_permanent r'" if "map_of (dc_map c') k = Some r'" for k r'
    using clear_restores [OF assms(1), of clk t] assms(2) that unfolding reborn_def by (metis new_flags(5) res.inject)
  ultimately show ?thesis unfolding timely_def by auto
qed

lemma timely_rotate: "rotate_bloom env t c = Got (n, c') \<Longrightarrow> timely g now c c'"
  by (rule timely_eq) (auto simp: rotate_bloom_def Let_def res_simps)

lemma timely_step:
  assumes "cache_step env now op c c'" "op \<noteq> Maintain" "cache_ok env now c" "prop_ok (cfg env)"
  shows "timely (cfg env) now c c'"
  using assms(1)
proof cases
  case (lookup clk t sends d rt view hit)
  then show ?thesis using timely_get_in [OF assms(4,3)] by blast
next
  case (stores clk t k d ttl s loc)
  then show ?thesis using timely_store [where clk = clk, OF assms(4) readings_lt [where clk = clk]] by blast
next
  case (renews clk t k nt nd s ok)
  then show ?thesis using timely_refresh_record [where clk = clk, OF assms(4) readings_lt [where clk = clk]] by blast
next
  case (adds clk t d rt x ttl)
  then show ?thesis using timely_insert_permanent [OF assms(3)] by blast
next
  case (removes t d rt view ok)
  then show ?thesis using timely_remove [of "cfg env" now c env t d rt view] by simp
next
  case (clears t)
  then show ?thesis using timely_clear [OF assms(3)] by blast
qed (use assms(2) in \<open>auto simp: set_stale_repairs_def\<close>)

section \<open>Entries under watch\<close>

definition watched :: "cache_config \<Rightarrow> u64 \<Rightarrow> scheduled_refresh set \<Rightarrow> due_refresh set \<Rightarrow> cache_key set \<Rightarrow> cache_key \<Rightarrow> cached_record \<Rightarrow> bool" where
  "watched g now T D R k r \<longleftrightarrow> timed g now T k r \<or>
    renews_ahead g (cr_ttl r) \<and> refresh_timer r = TIMER_CLAIMED \<and> (\<exists>d \<in> D. dr_key d = k \<and> dr_deadline d = refresh_deadline r) \<or>
    renews_ahead g (cr_ttl r) \<and> refresh_timer r = TIMER_LAPSED \<and> k \<in> R"

definition all_watched ::
  "cache_config \<Rightarrow> u64 \<Rightarrow> scheduled_refresh set \<Rightarrow> due_refresh set \<Rightarrow> cache_key set \<Rightarrow> 'l dns_cache \<Rightarrow> bool" where
  "all_watched g now T D R c \<longleftrightarrow> (\<forall>k r. map_of (dc_map c) k = Some r \<and> \<not> rec_permanent r \<longrightarrow> watched g now T D R k r)"

lemma all_watchedD: "all_watched g now T D R c \<Longrightarrow> map_of (dc_map c) k = Some r \<Longrightarrow> \<not> rec_permanent r \<Longrightarrow> watched g now T D R k r"
  by (simp add: all_watched_def del: map_of_eq_Some_iff)

lemma watched_mono:
  "watched g now T D R k r \<Longrightarrow> T \<subseteq> T' \<Longrightarrow> D \<subseteq> D' \<Longrightarrow> R \<subseteq> R' \<Longrightarrow> now \<le> later \<Longrightarrow> watched g later T' D' R' k r"
  unfolding watched_def using timed_mono by blast

lemma watched_same: "same_timer r r' \<Longrightarrow> watched g now T D R k r' = watched g now T D R k r"
  unfolding watched_def using timed_same [of r r'] by (simp add: same_timer_def)

lemma watched_timed: "timed g now T k r \<Longrightarrow> watched g now T D R k r"
  by (simp add: watched_def)

lemma watched_timely:
  assumes "timely g now c c'" "all_watched g now (Q \<union> set (dc_timers c)) D R c"
  shows "all_watched g now (Q \<union> set (dc_timers c')) D R c'"
  unfolding all_watched_def
proof (intro allI impI)
  fix k r'
  assume k: "map_of (dc_map c') k = Some r' \<and> \<not> rec_permanent r'"
  have mono: "Q \<union> set (dc_timers c) \<subseteq> Q \<union> set (dc_timers c')" using timelyD(1) [OF assms(1)] by blast
  consider r where "map_of (dc_map c) k = Some r" "same_timer r r'" | "timed g now (set (dc_timers c')) k r'"
    using timelyD(2) [OF assms(1)] k by blast
  then show "watched g now (Q \<union> set (dc_timers c')) D R k r'"
  proof cases
    case (1 r)
    then have "\<not> rec_permanent r" using k by (simp add: same_timer_def)
    then have "watched g now (Q \<union> set (dc_timers c)) D R k r" using all_watchedD [OF assms(2) 1(1)] by blast
    then show ?thesis
      using watched_mono [OF _ mono subset_refl subset_refl order_refl] watched_same [OF 1(2)] by blast
  next
    case 2
    then show ?thesis using timed_mono [OF _ _ order_refl] by (blast intro: watched_timed)
  qed
qed

text \<open>What the re-arming operations do, as equations.\<close>

lemma schedule_retry_eq: "schedule_retry now k s c =
    (case map_of (dc_map c) k of
       Some r \<Rightarrow> if refresh_timer r = TIMER_LAPSED then arm_timer k (now + s) Retry (put_record k (r\<lparr>refresh_timer := now + s\<rparr>) c) else c
     | None \<Rightarrow> c)"
  by (simp add: schedule_retry_def try_rearm_lapsed_def swap_refresh_timer_def Let_def split: option.splits)

lemma rearm_lapsed_eq: "rearm_lapsed g now k c =
    (case map_of (dc_map c) k of
       Some r \<Rightarrow>
         if renews_ahead g (cr_ttl r) \<and> refresh_timer r = TIMER_LAPSED
         then arm_timer k (min (sat_add now (retry_lapsed_after g)) (refresh_deadline r)) Due
           (put_record k (r\<lparr>refresh_timer := min (sat_add now (retry_lapsed_after g)) (refresh_deadline r)\<rparr>) c) else c
     | None \<Rightarrow> c)"
  by (simp add: rearm_lapsed_def try_rearm_lapsed_def swap_refresh_timer_def Let_def split: option.splits)

lemma timely_rearm_lapsed: "timely g now c (rearm_lapsed g t k c)"
proof (cases "map_of (dc_map c) k")
  case (Some r)
  let ?s = "min (sat_add t (retry_lapsed_after g)) (refresh_deadline r)"
  have "timed g now (set (dc_timers (arm_timer k ?s Due c))) k (r\<lparr>refresh_timer := ?s\<rparr>)" if "renews_ahead g (cr_ttl r)"
    using timer_for_arm [of Due k ?s c] that by (simp add: timed_def)
  from timely_put_armed [OF this] show ?thesis using Some by (simp add: rearm_lapsed_eq Let_def)
qed (simp add: rearm_lapsed_eq)

lemma timer_for_insert:
  "timer_for (insert t X) k s \<longleftrightarrow> timer_for X k s \<or> sr_key t = k \<and> sr_kind t \<noteq> NegativeExpiry \<and> due_at t = s"
  by (auto simp: timer_for_def)

text \<open>A timer that fires may go: its entry is removed, claimed, parked, or did not need it.\<close>

lemma other_watched:
  assumes "watched g now (insert t X) D R k r" "sr_key t \<noteq> k \<or> sr_kind t = NegativeExpiry" "X \<subseteq> Y" "D \<subseteq> E"
  shows "watched g now Y E R k r"
proof -
  have "timer_for (insert t X) k s = timer_for X k s" for s using assms(2) by (auto simp: timer_for_insert)
  then have "watched g now X D R k r" using assms(1) by (simp add: watched_def timed_def)
  then show ?thesis using watched_mono [OF _ assms(3,4) subset_refl order_refl] by blast
qed

lemma fired_watched:
  assumes "watched g now (insert t X) D R k r" "due_at t \<le> now" "now < refresh_deadline r"
  shows "refresh_timer r \<noteq> due_at t \<Longrightarrow> watched g now X D R k r"
    "timer_for X k (refresh_deadline r) \<or> renews_ahead g (cr_ttl r)"
  using assms by (auto simp: watched_def timed_def timer_for_insert)

lemma worth_timer [simp]: "is_worth_renewing g now (r\<lparr>refresh_timer := x\<rparr>) = is_worth_renewing g now r"
  by (simp add: is_worth_renewing_def)

lemma claim_eq:
  assumes "map_of (dc_map c) (sr_key t) = Some r" "\<not> rec_permanent r"
  shows "claim_due_refresh g th now t c =
    (if is_marked r \<or> is_dead_at now r then (None, snd (remove_dead now (sr_key t) c))
     else if refresh_timer r \<noteq> due_at t then (None, c)
     else if is_worth_renewing g now r
     then (Some (claimed_refresh th now t (r\<lparr>refresh_timer := TIMER_CLAIMED\<rparr>)), put_record (sr_key t) (r\<lparr>refresh_timer := TIMER_CLAIMED\<rparr>) c)
     else (None, arm_timer (sr_key t) (refresh_deadline r) Due (put_record (sr_key t) (r\<lparr>refresh_timer := TIMER_PARKED\<rparr>) c)))"
  using assms by (simp add: claim_due_refresh_def try_claim_refresh_timer_def swap_refresh_timer_def park_claimed_refresh_def Let_def)

lemma remove_dead_map:
  "map_of (dc_map (snd (remove_dead now k c))) j = Some r \<Longrightarrow> map_of (dc_map c) j = Some r"
  "map_of (dc_map c) k = Some r0 \<Longrightarrow> \<not> rec_permanent r0 \<Longrightarrow> is_marked r0 \<or> is_dead_at now r0 \<Longrightarrow>
    map_of (dc_map (snd (remove_dead now k c))) k = None"
  "dc_timers (snd (remove_dead now k c)) = dc_timers c"
  by (auto simp: remove_dead_def simp del: map_of_eq_Some_iff split: option.splits if_splits)
    (simp_all add: drop_record_def)

lemma alive_deadline:
  assumes "cache_ok env now0 c" "map_of (dc_map c) k = Some r" "\<not> rec_permanent r"
  shows "is_dead_at now r \<longleftrightarrow> refresh_deadline r \<le> now"
  using cache_okD(4) [OF assms(1,2)] assms(3) by (intro dead_iff_deadline) (auto simp: record_ok_def)

lemma claim_none: "map_of (dc_map c) (sr_key t) = None \<or> (\<exists>r. map_of (dc_map c) (sr_key t) = Some r \<and> rec_permanent r) \<Longrightarrow>
    claim_due_refresh g th now t c = (None, c)"
  by (auto simp: claim_due_refresh_def simp del: map_of_eq_Some_iff)

definition fires_well :: "cache_config \<Rightarrow> u64 \<Rightarrow> scheduled_refresh set \<Rightarrow> due_refresh set \<Rightarrow> cache_key set \<Rightarrow> 'l dns_cache \<Rightarrow> 'l dns_cache \<Rightarrow> bool" where
  "fires_well g now Q D R c c' \<longleftrightarrow> all_watched g now (Q \<union> set (dc_timers c')) D R c' \<and>
    (\<forall>x \<in> set (dc_timers c') - set (dc_timers c). now < due_at x)"

lemma watched_put:
  assumes "\<And>j s. map_of (dc_map c) j = Some s \<Longrightarrow> \<not> rec_permanent s \<Longrightarrow> j \<noteq> k \<Longrightarrow> watched g now T D R j s" "watched g now T D R k r"
  shows "all_watched g now T D R (put_record k r c)"
  using assms by (auto simp: all_watched_def simp del: map_of_eq_Some_iff split: if_splits)

lemma all_watched_arm [simp]: "all_watched g now T D R (arm_timer k s kind c) = all_watched g now T D R c"
  by (simp add: all_watched_def)

lemma claim_watched:
  assumes ok: "cache_ok env now0 c" and t: "due_at t \<le> now" "sr_kind t \<noteq> NegativeExpiry"
    and w: "all_watched g now (insert t (Q \<union> set (dc_timers c))) D R c"
    and claim: "claim_due_refresh g th now t c = (due, c')"
  shows "fires_well g now Q (D \<union> set_option due) R c c'"
proof -
  let ?k = "sr_key t" and ?X = "Q \<union> set (dc_timers c)"
  have others: "watched g now Y E R k r" if "map_of (dc_map c) k = Some r" "\<not> rec_permanent r" "k \<noteq> ?k" "?X \<subseteq> Y" "D \<subseteq> E" for k r Y E
    using other_watched [OF all_watchedD [OF w that(1,2)] _ that(4,5)] that(3) by blast
  consider (none) "map_of (dc_map c) ?k = None \<or> (\<exists>r. map_of (dc_map c) ?k = Some r \<and> rec_permanent r)"
    | (some) r where "map_of (dc_map c) ?k = Some r" "\<not> rec_permanent r" by (metis option.exhaust)
  then show ?thesis
  proof cases
    case none
    then have "c' = c" "due = None" using claim claim_none [OF none] by auto
    moreover have "k \<noteq> ?k" if "map_of (dc_map c) k = Some r" "\<not> rec_permanent r" for k r using none that by auto
    ultimately show ?thesis using others unfolding fires_well_def all_watched_def by simp
  next
    case some
    note eq = claim [unfolded claim_eq [OF some]]
    have wr: "watched g now (insert t ?X) D R ?k r" by (rule all_watchedD [OF w some])
    consider (dead) "is_marked r \<or> is_dead_at now r" | (other) "\<not> is_marked r" "\<not> is_dead_at now r" "refresh_timer r \<noteq> due_at t"
      | (worth) "\<not> is_marked r" "\<not> is_dead_at now r" "refresh_timer r = due_at t" "is_worth_renewing g now r"
      | (park) "\<not> is_marked r" "\<not> is_dead_at now r" "refresh_timer r = due_at t" "\<not> is_worth_renewing g now r" by blast
    then show ?thesis
    proof cases
      case dead
      then have c': "c' = snd (remove_dead now ?k c)" "due = None" using eq by auto
      have "k \<noteq> ?k \<and> map_of (dc_map c) k = Some r'" if "map_of (dc_map c') k = Some r'" for k r'
        using that remove_dead_map(1) [of now ?k c k r'] remove_dead_map(2) [OF some dead] by (auto simp: c')
      then show ?thesis using others unfolding fires_well_def all_watched_def c' by (simp add: remove_dead_map(3))
    next
      case other
      then have c': "c' = c" "due = None" using eq by auto
      have "now < refresh_deadline r" using other(2) alive_deadline [OF ok some] by simp
      then have "watched g now ?X D R ?k r" using fired_watched(1) [OF wr t(1)] other(3) by blast
      then have "watched g now ?X D R k r'" if "map_of (dc_map c) k = Some r'" "\<not> rec_permanent r'" for k r'
        using others [OF that _ subset_refl subset_refl] some that by (cases "k = ?k") auto
      then show ?thesis unfolding fires_well_def all_watched_def c' by simp
    next
      case worth
      let ?r = "r\<lparr>refresh_timer := TIMER_CLAIMED\<rparr>"
      have c': "c' = put_record ?k ?r c" "due = Some (claimed_refresh th now t ?r)" using eq worth by auto
      have "now < refresh_deadline r" using worth(2) alive_deadline [OF ok some] by simp
      then have "watched g now ?X (D \<union> set_option due) R ?k ?r"
        using fired_watched(2) [OF wr t(1)] by (auto simp: watched_def timed_def c' claimed_refresh_def)
      from watched_put [OF others this] show ?thesis unfolding fires_well_def c'(1) by auto
    next
      case park
      let ?r = "r\<lparr>refresh_timer := TIMER_PARKED\<rparr>"
      have c': "c' = arm_timer ?k (refresh_deadline r) Due (put_record ?k ?r c)" "due = None" using eq park by auto
      have "now < refresh_deadline r" using park(2) alive_deadline [OF ok some] by simp
      moreover have "watched g now (Q \<union> set (dc_timers c')) D R ?k ?r"
        by (rule watched_timed) (auto simp: timed_def timer_for_def c' arm_timer_def)
      moreover have "?X \<subseteq> Q \<union> set (dc_timers c')" by (auto simp: c' arm_timer_def)
      ultimately have "all_watched g now (Q \<union> set (dc_timers c')) D R c'"
        using watched_put [of c ?k g now "Q \<union> set (dc_timers c')" D R ?r] others by (simp add: c'(1))
      then show ?thesis using \<open>now < refresh_deadline r\<close> unfolding fires_well_def by (auto simp: c' arm_timer_def)
    qed
  qed
qed

lemma fire_watched:
  assumes ok: "cache_ok env now c" and t: "due_at t \<le> now" and w: "all_watched g now (insert t (Q \<union> set (dc_timers c))) (set due) R c"
    and f: "fire_timer g th now t (c, due) = (c', due')"
  shows "cache_ok env now c' \<and> fires_well g now Q (set due') R c c'"
proof (cases "sr_kind t = NegativeExpiry")
  case True
  then have c': "c' = snd (expire_negative now (sr_key t) c)" "due' = due" using f by (auto simp: fire_timer_def)
  have same: "dc_map c' = dc_map c" "dc_timers c' = dc_timers c"
    by (auto simp: c' expire_negative_def negative_remove_expired_def split: option.splits)
  have "watched g now (Q \<union> set (dc_timers c)) (set due) R k r" if "map_of (dc_map c) k = Some r" "\<not> rec_permanent r" for k r
    using other_watched [OF all_watchedD [OF w that]] True by blast
  then show ?thesis
    using shrinks_ok [OF shrinks_expire_negative ok] unfolding fires_well_def all_watched_def same c'(2) by (simp add: c'(1))
next
  case False
  obtain d c1 where cl: "claim_due_refresh g th now t c = (d, c1)" by fastforce
  have c': "c' = c1" "set due' = set due \<union> set_option d" using f False cl by (auto simp: fire_timer_def split: option.splits)
  have "cache_ok env now c1" using shrinks_ok [OF shrinks_claim ok, of g th now t] by (simp add: cl)
  then show ?thesis using claim_watched [OF ok t False w cl] by (simp add: c')
qed

lemma fires_watched:
  "cache_ok env now c \<Longrightarrow> \<forall>t \<in> set ts. due_at t \<le> now \<Longrightarrow> all_watched g now (set ts \<union> Q \<union> set (dc_timers c)) (set due) R c \<Longrightarrow>
   fold (fire_timer g th now) ts (c, due) = (c', due') \<Longrightarrow> \<forall>x \<in> set (dc_timers c). now < due_at x \<Longrightarrow>
   cache_ok env now c' \<and> all_watched g now (Q \<union> set (dc_timers c')) (set due') R c' \<and> (\<forall>x \<in> set (dc_timers c'). now < due_at x)"
proof (induction ts arbitrary: c due)
  case (Cons t ts)
  obtain c1 due1 where f: "fire_timer g th now t (c, due) = (c1, due1)" by fastforce
  have "all_watched g now (insert t ((set ts \<union> Q) \<union> set (dc_timers c))) (set due) R c"
    using Cons.prems(3) by (simp add: Un_assoc)
  note one = fire_watched [OF Cons.prems(1) _ this f] 
  have ok1: "cache_ok env now c1" and w1: "fires_well g now (set ts \<union> Q) (set due1) R c c1" using one Cons.prems(2) by auto
  have "\<forall>x \<in> set (dc_timers c1). now < due_at x" using w1 Cons.prems(5) by (auto simp: fires_well_def)
  then show ?case using Cons.IH [OF ok1, of due1] w1 Cons.prems(2,4) by (simp add: f fires_well_def)
qed simp

lemma give_up_watched:
  "cache_ok env now c \<Longrightarrow> \<forall>d \<in> set ds. has_died_by now d \<Longrightarrow> all_watched g now T (set ds \<union> D) R c \<Longrightarrow>
   all_watched g now T D R (fold (\<lambda>d. give_up_dead_claim now (dr_key d)) ds c) \<and>
   dc_timers (fold (\<lambda>d. give_up_dead_claim now (dr_key d)) ds c) = dc_timers c \<and>
   cache_ok env now (fold (\<lambda>d. give_up_dead_claim now (dr_key d)) ds c)"
proof (induction ds arbitrary: c)
  case (Cons d ds)
  let ?c = "give_up_dead_claim now (dr_key d) c"
  let ?m = "c\<lparr>dc_metrics := (dc_metrics c)\<lparr>m_refresh_shed := m_refresh_shed (dc_metrics c) + 1\<rparr>\<rparr>"
  have ok: "cache_ok env now ?c" by (rule shrinks_ok [OF shrinks_give_up Cons.prems(1)])
  have "all_watched g now T (set ds \<union> D) R ?c"
    unfolding all_watched_def
  proof (intro allI impI)
    fix k r
    assume k: "map_of (dc_map ?c) k = Some r \<and> \<not> rec_permanent r"
    have old: "map_of (dc_map c) k = Some r" using k remove_dead_map(1) [of now "dr_key d" ?m k r] by (simp add: give_up_dead_claim_def)
    then have w: "watched g now T (insert d (set ds \<union> D)) R k r" using all_watchedD [OF Cons.prems(3)] k by simp
    have "\<not> (dr_key d = k \<and> dr_deadline d = refresh_deadline r)"
    proof
      assume d: "dr_key d = k \<and> dr_deadline d = refresh_deadline r"
      then have "is_dead_at now r" using Cons.prems(2) alive_deadline [OF Cons.prems(1) old] k by (simp add: has_died_by_def)
      then show False using remove_dead_map(2) [of ?m k r now] old k d by (simp add: give_up_dead_claim_def)
    qed
    then show "watched g now T (set ds \<union> D) R k r" using w by (auto simp: watched_def)
  qed
  moreover have "dc_timers ?c = dc_timers c" by (simp add: give_up_dead_claim_def remove_dead_map(3))
  ultimately show ?case using Cons.IH [OF ok] Cons.prems(2) by simp
qed simp

section \<open>Starting and ending renewals\<close>

lemma start_eq:
  assumes "map_of (dc_map c) k = Some r" "refresh_timer r = TIMER_CLAIMED"
  shows "start_claimed_refresh g now coarse k c =
    (let r1 = r\<lparr>refresh_timer := TIMER_LAPSED\<rparr> in
     if is_marked r1 \<or> is_dead_at now r1 then (False, give_up_dead_claim now k (put_record k r1 c))
     else if fst (try_set_refreshing r1) then (True, put_record k (snd (try_set_refreshing r1)) c)
     else (False, rearm_lapsed g coarse k (put_record k r1 c)))"
  using assms by (auto simp: start_claimed_refresh_def try_start_claimed_def swap_refresh_timer_def Let_def split: prod.splits bool.splits)

lemma start_none:
  "map_of (dc_map c) k = None \<or> (\<exists>r. map_of (dc_map c) k = Some r \<and> refresh_timer r \<noteq> TIMER_CLAIMED) \<Longrightarrow>
    start_claimed_refresh g now coarse k c = (False, c)"
  by (auto simp: start_claimed_refresh_def try_start_claimed_def swap_refresh_timer_def simp del: map_of_eq_Some_iff)

text \<open>An entry that only a running renewal watches over gets a timer when it is re-armed.\<close>

lemma rearmed_watched:
  assumes w: "all_watched g now (Q \<union> set (dc_timers c)) D (insert k R) c" and kind: "kind \<noteq> NegativeExpiry"
    and due: "\<And>r. map_of (dc_map c) k = Some r \<Longrightarrow> \<not> rec_permanent r \<Longrightarrow> renews_ahead g (cr_ttl r) \<Longrightarrow>
      refresh_timer r = TIMER_LAPSED \<Longrightarrow> P r \<and> (due r \<le> refresh_deadline r \<or> due r \<le> now)"
    and c': "c' = (case map_of (dc_map c) k of
        Some r \<Rightarrow> if P r \<and> refresh_timer r = TIMER_LAPSED then arm_timer k (due r) kind (put_record k (r\<lparr>refresh_timer := due r\<rparr>) c) else c
      | None \<Rightarrow> c)"
  shows "all_watched g now (Q \<union> set (dc_timers c')) D R c'"
  unfolding all_watched_def
proof (intro allI impI)
  fix j s
  assume j: "map_of (dc_map c') j = Some s \<and> \<not> rec_permanent s"
  have sub: "Q \<union> set (dc_timers c) \<subseteq> Q \<union> set (dc_timers c')" by (auto simp: c' arm_timer_def split: option.splits)
  have grow: "watched g now (Q \<union> set (dc_timers c)) D R j s \<Longrightarrow> watched g now (Q \<union> set (dc_timers c')) D R j s"
    using watched_mono [OF _ sub subset_refl subset_refl order_refl] .
  show "watched g now (Q \<union> set (dc_timers c')) D R j s"
  proof (cases "\<exists>r. j = k \<and> map_of (dc_map c) k = Some r \<and> P r \<and> refresh_timer r = TIMER_LAPSED")
    case True
    then obtain r where r: "j = k" "map_of (dc_map c) k = Some r" "P r" "refresh_timer r = TIMER_LAPSED" by blast
    then have e: "c' = arm_timer k (due r) kind (put_record k (r\<lparr>refresh_timer := due r\<rparr>) c)" "s = r\<lparr>refresh_timer := due r\<rparr>"
      using j by (simp_all add: c')
    have "timer_for (Q \<union> set (dc_timers c)) k (refresh_deadline r) \<or> renews_ahead g (cr_ttl r)"
      using all_watchedD [OF w r(2)] j e(2) by (auto simp: watched_def timed_def)
    moreover have "timer_for (Q \<union> set (dc_timers c')) k (due r)" using kind by (auto simp: timer_for_def e(1) arm_timer_def)
    moreover have "timer_for (Q \<union> set (dc_timers c)) k x \<Longrightarrow> timer_for (Q \<union> set (dc_timers c')) k x" for x
      using timer_for_mono [OF _ sub] .
    ultimately show ?thesis using due [OF r(2)] r(1,4) j e(2) by (auto simp: watched_def timed_def)
  next
    case False
    then have old: "map_of (dc_map c) j = Some s"
      using j by (auto simp: c' simp del: map_of_eq_Some_iff split: option.splits if_splits)
    have "watched g now (Q \<union> set (dc_timers c)) D R j s"
      using all_watchedD [OF w old] False old due [of s] j by (auto simp: watched_def)
    then show ?thesis by (rule grow)
  qed
qed

lemma rearm_watched:
  "all_watched g now (Q \<union> set (dc_timers c)) D (insert k R) c \<Longrightarrow>
    all_watched g now (Q \<union> set (dc_timers (rearm_lapsed g t k c))) D R (rearm_lapsed g t k c)"
  by (rule rearmed_watched [where kind = Due and P = "\<lambda>r. renews_ahead g (cr_ttl r)"
        and due = "\<lambda>r. min (sat_add t (retry_lapsed_after g)) (refresh_deadline r)"])
    (simp_all add: rearm_lapsed_eq)

lemma retry_watched:
  assumes "all_watched g now (Q \<union> set (dc_timers c)) D (insert k R) c"
    "\<And>r. map_of (dc_map c) k = Some r \<Longrightarrow> \<not> rec_permanent r \<Longrightarrow> now + s \<le> refresh_deadline r \<or> now + s \<le> now"
  shows "all_watched g now (Q \<union> set (dc_timers (schedule_retry now k s c))) D R (schedule_retry now k s c)"
  by (rule rearmed_watched [where kind = Retry and P = "\<lambda>_. True" and due = "\<lambda>_. now + s", OF assms(1)])
    (use assms(2) in \<open>simp_all add: schedule_retry_eq split: option.splits\<close>)

text \<open>A claim that is taken from the heap leaves its entry running, re-armed or gone.\<close>

lemma lapse_watched:
  assumes w: "all_watched g now X (insert d D) R c" and r: "map_of (dc_map c) (dr_key d) = Some r" "refresh_timer r = TIMER_CLAIMED"
  shows "all_watched g now X D (insert (dr_key d) R) (put_record (dr_key d) (r\<lparr>refresh_timer := TIMER_LAPSED\<rparr>) c)"
  unfolding all_watched_def
proof (intro allI impI)
  let ?r = "r\<lparr>refresh_timer := TIMER_LAPSED\<rparr>"
  fix j s
  assume j: "map_of (dc_map (put_record (dr_key d) ?r c)) j = Some s \<and> \<not> rec_permanent s"
  show "watched g now X D (insert (dr_key d) R) j s"
  proof (cases "j = dr_key d")
    case True
    then show ?thesis using all_watchedD [OF w r(1)] j r(2) by (auto simp: watched_def timed_def)
  next
    case False
    then show ?thesis using all_watchedD [OF w, of j s] j by (auto simp: watched_def)
  qed
qed

lemma gone_watched:
  assumes "all_watched g now X D (insert k R) c" "\<And>s. map_of (dc_map c') k = Some s \<Longrightarrow> rec_permanent s"
    "\<And>j s. map_of (dc_map c') j = Some s \<Longrightarrow> map_of (dc_map c) j = Some s"
  shows "all_watched g now X D R c'"
  unfolding all_watched_def
proof (intro allI impI)
  fix j s
  assume j: "map_of (dc_map c') j = Some s \<and> \<not> rec_permanent s"
  then have "j \<noteq> k" using assms(2) by auto
  then show "watched g now X D R j s" using all_watchedD [OF assms(1) assms(3)] j by (auto simp: watched_def)
qed

lemma unclaimed_watched:
  assumes "all_watched g now X (insert d D) R c" "\<And>r. map_of (dc_map c) (dr_key d) = Some r \<Longrightarrow> refresh_timer r \<noteq> TIMER_CLAIMED"
  shows "all_watched g now X D R c"
  using assms unfolding all_watched_def watched_def by blast

lemma start_watched:
  assumes w: "all_watched g now (Q \<union> set (dc_timers c)) (insert d D) R c"
    and st: "start_claimed_refresh g now coarse (dr_key d) c = (ok, c')"
  shows "all_watched g now (Q \<union> set (dc_timers c')) D (if ok then insert (dr_key d) R else R) c'"
proof (cases "map_of (dc_map c) (dr_key d) = None \<or> (\<exists>r. map_of (dc_map c) (dr_key d) = Some r \<and> refresh_timer r \<noteq> TIMER_CLAIMED)")
  case True
  then have "c' = c" "\<not> ok" using st start_none [OF True, of g now coarse] by auto
  then show ?thesis using unclaimed_watched [OF w] True by (metis option.distinct(1) option.inject)
next
  case False
  then obtain r where r: "map_of (dc_map c) (dr_key d) = Some r" "refresh_timer r = TIMER_CLAIMED" by (metis option.exhaust)
  define r1 where "r1 = r\<lparr>refresh_timer := TIMER_LAPSED\<rparr>"
  define c1 where "c1 = put_record (dr_key d) r1 c"
  note eq = st [unfolded start_eq [OF r] Let_def r1_def [symmetric], folded c1_def]
  have w1: "all_watched g now (Q \<union> set (dc_timers c1)) D (insert (dr_key d) R) c1"
    using lapse_watched [OF w r] by (simp add: c1_def r1_def)
  have m1: "map_of (dc_map c1) (dr_key d) = Some r1" by (simp add: c1_def)
  consider (dead) "is_marked r1 \<or> is_dead_at now r1" | (go) "\<not> (is_marked r1 \<or> is_dead_at now r1)" "fst (try_set_refreshing r1)"
    | (busy) "\<not> (is_marked r1 \<or> is_dead_at now r1)" "\<not> fst (try_set_refreshing r1)" by blast
  then show ?thesis
  proof cases
    case dead
    let ?m = "c1\<lparr>dc_metrics := (dc_metrics c1)\<lparr>m_refresh_shed := m_refresh_shed (dc_metrics c1) + 1\<rparr>\<rparr>"
    have c': "c' = snd (remove_dead now (dr_key d) ?m)" "\<not> ok" using eq dead by (auto simp: give_up_dead_claim_def)
    have "map_of (dc_map c1) j = Some s" if "map_of (dc_map c') j = Some s" for j s
      using remove_dead_map(1) [of now "dr_key d" ?m j s] that by (simp add: c' del: map_of_eq_Some_iff)
    moreover have "rec_permanent s" if "map_of (dc_map c') (dr_key d) = Some s" for s
      using remove_dead_map(2) [of ?m "dr_key d" r1 now] calculation [OF that] that m1 dead by (auto simp: c' simp del: map_of_eq_Some_iff)
    ultimately have "all_watched g now (Q \<union> set (dc_timers c1)) D R c'" using gone_watched [OF w1] by blast
    then show ?thesis using c' by (simp add: remove_dead_map(3))
  next
    case go
    then have c': "c' = put_record (dr_key d) (snd (try_set_refreshing r1)) c" "ok" using eq by auto
    have "timely g now c1 (put_record (dr_key d) (snd (try_set_refreshing r1)) c1)" by (rule timely_put [OF m1]) simp
    moreover have "put_record (dr_key d) (snd (try_set_refreshing r1)) c1 = c'"
      by (simp add: c' c1_def put_record_def) 
    ultimately show ?thesis using watched_timely [OF _ w1] c'(2) by simp
  next
    case busy
    then show ?thesis using eq rearm_watched [OF w1] by auto
  qed
qed

lemma renew_entry_timed:
  assumes g: "prop_ok (cfg env)" and clk: "unat (clk 0) < 2 ^ 63" and st: "renew_entry env clk t k ttl x s r c = Got (ok, c')"
    and r': "map_of (dc_map c') k = Some r'"
  shows "timed (cfg env) now (set (dc_timers c')) k r'"
proof -
  define r1 where "r1 = renewed ttl (clk 0) s x r"
  obtain n c1 where l1: "keep_l1 env (clk 1) t k (if ck_view k = 0 then as_cached_addresses x else None)
      (cr_dnssec r1) (is_local_dns r1) (expires_at_secs r1) c = (n, c1)" by fastforce
  define r2 where "r2 = (if 0 < n then record_hits (ucast n) (clk 2) r1 else r1)"
  obtain first r3 where f: "first_timer_at (cfg env) r2 = (first, r3)" by fastforce
  obtain b where c': "c' = arm_timer k first Due (put_record k r3 (c1\<lparr>dc_bloom := b\<rparr>))"
    using st unfolding renew_entry_def Let_def r1_def [symmetric] l1 prod.case r2_def [symmetric] f by (auto simp: res_simps)
  have "same_life r1 r2" by (simp add: r2_def)
  then have life: "lifetime_ok r2" using same_life_flags(3) renewed_ok(1) [OF clk] unfolding r1_def by blast
  have "r' = r3" using r' by (simp add: c')
  then show ?thesis using first_timer_timed [OF g life f, of now k "put_record k r3 (c1\<lparr>dc_bloom := b\<rparr>)"] by (simp add: c')
qed

lemma refresh_entry_cases:
  assumes "refresh_entry env clk t k origin answer c = Got (outcome, c')"
  shows "c' = c \<and> outcome \<noteq> Inr Renewed \<or>
    outcome = Inr Removed \<and> c' = snd (remove_in env t (ck_domain k) (ck_type k) (ck_view k) c) \<or>
    (\<exists>nt nd s. refresh_record_of env clk t k nt nd s c = Got (True, c') \<and> outcome = Inr Renewed) \<or>
    (\<exists>nt nd s. refresh_record_of env clk t k nt nd s c = Got (False, c') \<and> outcome = Inr Kept)"
  using assms by (auto simp: refresh_entry_def Let_def res_simps split: sum.splits option.splits if_splits prod.splits)

lemma refresh_record_renews:
  assumes "refresh_record_of env clk t k nt nd s c = Got (True, c')"
  obtains r ttl x where "renew_entry env clk t k ttl x s r c = Got (True, c')"
  using assms by (auto simp: refresh_record_of_def res_simps simp del: map_of_eq_Some_iff split: option.splits res.splits if_splits)

lemma refresh_entry_timely:
  assumes g: "prop_ok (cfg env)" and ok: "cache_ok env now c" "limits_ok env" and clk: "readings now clk"
    and e: "refresh_entry env clk t k origin answer c = Got (outcome, c')"
  shows "timely (cfg env) now c c'" "cache_ok env now c'"
    "outcome = Inr Renewed \<Longrightarrow> map_of (dc_map c') k = Some r' \<Longrightarrow> timed (cfg env) now (set (dc_timers c')) k r'"
proof -
  have lt: "unat (clk 0) < 2 ^ 63" by (rule readings_lt [OF clk])
  note cases = refresh_entry_cases [OF e]
  show "timely (cfg env) now c c'"
    using cases timely_remove [of "cfg env" now c env t "ck_domain k" "ck_type k" "ck_view k"]
      timely_refresh_record [where clk = clk, OF g lt] by auto
  show "cache_ok env now c'"
    using cases ok(1) ok_remove_in [OF ok(1), of env t "ck_domain k" "ck_type k" "ck_view k"]
      ok_refresh_record [where clk = clk, OF ok lt] by (metis Pair_inject res.inject)
  show "timed (cfg env) now (set (dc_timers c')) k r'" if ren: "outcome = Inr Renewed" "map_of (dc_map c') k = Some r'"
  proof -
    obtain nt nd s where "refresh_record_of env clk t k nt nd s c = Got (True, c')" using cases ren(1) by auto
    then show ?thesis using renew_entry_timed [where clk = clk, OF g lt _ ren(2)] refresh_record_renews by metis
  qed
qed

text \<open>A retry falls within what is left of the entry.\<close>

lemma retry_in_le: "retry_in origin outcome rem = Some s \<Longrightarrow> unat s \<le> unat rem"
proof -
  have "unat (rem - 1) \<le> unat rem" if "2 \<le> rem" using that by (simp add: unat_sub word_le_nat_alt)
  moreover have "unat (rem div 2) \<le> unat rem" by (simp add: unat_div)
  ultimately show "retry_in origin outcome rem = Some s \<Longrightarrow> unat s \<le> unat rem"
    by (auto simp: retry_in_def split: if_splits)
qed

lemma retry_in_time:
  assumes "lifetime_ok r" "\<not> rec_permanent r" "unat s \<le> unat (ucast (remaining_ttl_at now r) :: u64)"
  shows "now + s \<le> refresh_deadline r \<or> now + s \<le> now"
proof (cases "unat s = 0")
  case True
  then show ?thesis by (simp add: unat_eq_0)
next
  case False
  have "unat (ucast (sat_sub (expires_at_secs r) now) :: u32) \<le> unat (sat_sub (expires_at_secs r) now)"
    by (simp add: unsigned_ucast_eq)
  then have le: "unat s \<le> unat (expires_at_secs r) - unat now" using assms(2,3) by (simp add: remaining_ttl_at_def unat_ttl)
  then have "unat now + unat s \<le> unat (expires_at_secs r)" using False by linarith
  then have "unat (now + s) \<le> unat (expires_at_secs r)"
    using unat_add_no_wrap [of now s] unat_u64_lt [of "expires_at_secs r"] by (simp del: unat_u64_lt)
  also have "\<dots> \<le> unat (refresh_deadline r)" using lifetimeD [OF assms(1)] by simp
  finally show ?thesis by (simp add: word_le_nat_alt)
qed

lemma timely_reset: "timely g now c (reset_refreshing_of k c)"
  using timely_put [of c k] by (auto simp: reset_refreshing_of_def simp del: map_of_eq_Some_iff split: option.splits)

lemma follow_up_watched:
  assumes ok: "cache_ok env now c" and w: "all_watched (cfg env) now (Q \<union> set (dc_timers c)) D (insert k R) c"
    and fresh: "outcome = Inr Renewed \<Longrightarrow> (\<And>r. map_of (dc_map c) k = Some r \<Longrightarrow> timed (cfg env) now (set (dc_timers c)) k r)"
  shows "all_watched (cfg env) now (Q \<union> set (dc_timers (follow_up (cfg env) now k origin outcome c))) D R (follow_up (cfg env) now k origin outcome c)"
proof (cases "outcome = Inr Renewed")
  case True
  have "watched (cfg env) now (Q \<union> set (dc_timers c)) D R j s" if j: "map_of (dc_map c) j = Some s" "\<not> rec_permanent s" for j s
  proof (cases "j = k")
    case True
    then show ?thesis using fresh [OF \<open>outcome = Inr Renewed\<close>] j(1) timed_mono [OF _ _ order_refl] by (blast intro: watched_timed)
  next
    case False
    then show ?thesis using all_watchedD [OF w j] by (auto simp: watched_def)
  qed
  then have "all_watched (cfg env) now (Q \<union> set (dc_timers c)) D R c" by (simp add: all_watched_def del: map_of_eq_Some_iff)
  then show ?thesis using True by (simp add: follow_up_def all_watched_def)
next
  case False
  define rem where "rem = (case remaining_ttl_of now k c of Some r \<Rightarrow> ucast r | None \<Rightarrow> (0 :: u64))"
  define c1 where "c1 = (case retry_in origin outcome rem of Some s \<Rightarrow> schedule_retry now k s c | None \<Rightarrow> rearm_lapsed (cfg env) now k c)"
  have "all_watched (cfg env) now (Q \<union> set (dc_timers c1)) D R c1"
  proof (cases "retry_in origin outcome rem")
    case None
    then show ?thesis using rearm_watched [OF w] by (simp add: c1_def)
  next
    case (Some s)
    have "now + s \<le> refresh_deadline r \<or> now + s \<le> now" if r: "map_of (dc_map c) k = Some r" "\<not> rec_permanent r" for r
    proof (rule retry_in_time [OF _ r(2)])
      show "lifetime_ok r" using cache_okD(4) [OF ok r(1)] r(2) by (simp add: record_ok_def)
      show "unat s \<le> unat (ucast (remaining_ttl_at now r) :: u64)"
        using retry_in_le [OF Some] r(1) by (simp add: rem_def remaining_ttl_of_def)
    qed
    from retry_watched [OF w this] show ?thesis using Some by (simp add: c1_def)
  qed
  from watched_timely [OF timely_reset this] show ?thesis
    using False by (simp add: follow_up_def rem_def [symmetric] c1_def [symmetric] Let_def)
qed

section \<open>The invariant of the worker\<close>

definition worker_ok :: "'l cache_env \<Rightarrow> u64 \<Rightarrow> 'l worker \<Rightarrow> bool" where
  "worker_ok env now w \<longleftrightarrow> cache_ok env now (wk_cache w) \<and> schedule_ok (wk_schedule w) \<and>
    all_watched (cfg env) now (set_mset (pending (wk_schedule w)) \<union> set (dc_timers (wk_cache w))) (set (wk_due w))
      (fst ` set (wk_running w)) (wk_cache w) \<and>
    pred_option point_ok (wk_sweep_from w) \<and> length (wk_running w) \<le> MAX_CONCURRENT_REFRESHES"

lemma all_watched_mono:
  "all_watched g now T D R c \<Longrightarrow> T \<subseteq> T' \<Longrightarrow> D \<subseteq> D' \<Longrightarrow> R \<subseteq> R' \<Longrightarrow> now \<le> later \<Longrightarrow> all_watched g later T' D' R' c"
  unfolding all_watched_def using watched_mono by blast

lemma all_watched_fields: "dc_map c' = dc_map c \<Longrightarrow> all_watched g now T D R c' = all_watched g now T D R c"
  by (simp add: all_watched_def)

text \<open>After the timers of a second have fired and dead claims were given up, only a running renewal keeps a dead entry.\<close>

lemma tick_fires:
  assumes ok: "worker_ok env now w" and w2: "w2 = give_up_dead_claims now (fire_due (cfg env) th now (collect_timers w))"
  shows "worker_ok env now w2 \<and> wk_running w2 = wk_running w \<and>
    (\<forall>x \<in> set_mset (pending (wk_schedule w2)) \<union> set (dc_timers (wk_cache w2)). now < due_at x) \<and>
    (\<forall>d \<in> set (wk_due w2). \<not> has_died_by now d)"
proof -
  let ?g = "cfg env" and ?R = "fst ` set (wk_running w)"
  define sched where "sched = fold register (dc_timers (wk_cache w)) (wk_schedule w)"
  define c0 where "c0 = (wk_cache w)\<lparr>dc_timers := []\<rparr>"
  obtain taken s1 where take: "take_due now sched = (taken, s1)" by fastforce
  obtain c1 due1 where fire: "fold (fire_timer ?g th now) taken (c0, wk_due w) = (c1, due1)" by fastforce
  have so: "schedule_ok sched" "pending sched = pending (wk_schedule w) + mset (dc_timers (wk_cache w))"
    using schedule.collect ok unfolding worker_ok_def sched_def by blast+
  note td = take_due_spec [OF so(1) take]
  have c0: "cache_ok env now c0" using ok shrinks_ok [OF shrinks_eq [of c0 "wk_cache w"]] by (simp add: worker_ok_def c0_def)
  have "set taken \<union> set_mset (pending s1) \<union> set (dc_timers c0) = set_mset (pending (wk_schedule w)) \<union> set (dc_timers (wk_cache w))"
    using so(2) td(2) by (simp add: c0_def) (metis set_mset_mset set_mset_union)
  then have "all_watched ?g now (set taken \<union> set_mset (pending s1) \<union> set (dc_timers c0)) (set (wk_due w)) ?R c0"
    using ok all_watched_fields [of c0 "wk_cache w"] by (simp add: worker_ok_def c0_def)
  from fires_watched [OF c0 td(4) this fire]
  have f: "cache_ok env now c1" "all_watched ?g now (set_mset (pending s1) \<union> set (dc_timers c1)) (set due1) ?R c1"
    "\<forall>x \<in> set (dc_timers c1). now < due_at x" by (simp_all add: c0_def)
  define c2 where "c2 = fold (\<lambda>d. give_up_dead_claim now (dr_key d)) (filter (has_died_by now) due1) c1"
  let ?due = "filter (\<lambda>d. \<not> has_died_by now d) due1"
  have split: "set (filter (has_died_by now) due1) \<union> set ?due = set due1" by auto
  have gu: "all_watched ?g now (set_mset (pending s1) \<union> set (dc_timers c1)) (set ?due) ?R c2" "dc_timers c2 = dc_timers c1" "cache_ok env now c2"
    using give_up_watched [OF f(1), of "filter (has_died_by now) due1" ?g "set_mset (pending s1) \<union> set (dc_timers c1)" "set ?due" ?R] f(2)
    unfolding split c2_def by auto
  have "w2 = w\<lparr>wk_schedule := s1, wk_cache := c2, wk_due := ?due\<rparr>"
    by (simp add: w2 give_up_dead_claims_def fire_due_def collect_timers_def sched_def [symmetric] c0_def [symmetric] take fire c2_def)
  then show ?thesis using gu td f(3) ok by (auto simp: worker_ok_def)
qed

lemma sweep_step_ok:
  assumes ok: "worker_ok env now w"
  shows "worker_ok env now (sweep_step w)" "wk_cache (sweep_step w) = wk_cache w" "wk_running (sweep_step w) = wk_running w"
    "wk_due (sweep_step w) = wk_due w" "set_mset (pending (wk_schedule (sweep_step w))) \<subseteq> set_mset (pending (wk_schedule w))"
proof -
  let ?alive = "\<lambda>key kind. if kind = NegativeExpiry then holds_negative key (wk_cache w) else holds key (wk_cache w)"
  define start where "start = (case wk_sweep_from w of Some from \<Rightarrow> Some from
    | None \<Rightarrow> if sweep_at w < sched_len (wk_schedule w) then Some sweep_start else None)"
  have "worker_ok env now (sweep_step w) \<and> wk_cache (sweep_step w) = wk_cache w \<and> wk_running (sweep_step w) = wk_running w \<and>
    wk_due (sweep_step w) = wk_due w \<and> set_mset (pending (wk_schedule (sweep_step w))) \<subseteq> set_mset (pending (wk_schedule w))"
  proof (cases start)
    case None
    then show ?thesis using ok by (simp add: sweep_step_def start_def)
  next
    case (Some f)
    obtain res sched where sw: "sweep f SWEEP_BUDGET ?alive (wk_schedule w) = (res, sched)" by fastforce
    have pt: "point_ok f" using ok Some by (auto simp: worker_ok_def start_def sweep_start_def split: option.splits if_splits)
    have "schedule_ok (wk_schedule w)" using ok by (simp add: worker_ok_def)
    note adv = sweep_advances [OF this pt _ sw, unfolded advances_def]
    have e: "wk_cache (sweep_step w) = wk_cache w" "wk_running (sweep_step w) = wk_running w" "wk_due (sweep_step w) = wk_due w"
      "wk_schedule (sweep_step w) = sched" "wk_sweep_from (sweep_step w) = res"
      using Some by (simp_all add: sweep_step_def start_def sw Let_def)
    have b: "0 < SWEEP_BUDGET" by (simp add: SWEEP_BUDGET_def)
    have keeps: "t \<in># pending sched" if "t \<in># pending (wk_schedule w)" "sr_kind t \<noteq> NegativeExpiry" "holds (sr_key t) (wk_cache w)" for t
      using adv b that by simp
    have "watched (cfg env) now (set_mset (pending sched) \<union> set (dc_timers (wk_cache w))) (set (wk_due w)) (fst ` set (wk_running w)) k r"
      if "map_of (dc_map (wk_cache w)) k = Some r" "\<not> rec_permanent r" for k r
    proof -
      have "timer_for (set_mset (pending (wk_schedule w)) \<union> set (dc_timers (wk_cache w))) k s \<Longrightarrow>
          timer_for (set_mset (pending sched) \<union> set (dc_timers (wk_cache w))) k s" for s
        using keeps that(1) unfolding timer_for_def holds_def by blast
      moreover have "watched (cfg env) now (set_mset (pending (wk_schedule w)) \<union> set (dc_timers (wk_cache w))) (set (wk_due w)) (fst ` set (wk_running w)) k r"
        using ok that by (simp add: worker_ok_def all_watched_def del: map_of_eq_Some_iff)
      ultimately show ?thesis unfolding watched_def timed_def by blast
    qed
    then have "all_watched (cfg env) now (set_mset (pending sched) \<union> set (dc_timers (wk_cache w))) (set (wk_due w)) (fst ` set (wk_running w)) (wk_cache w)"
      by (simp add: all_watched_def del: map_of_eq_Some_iff)
    moreover have "pred_option point_ok res" using adv b by (cases res) simp_all
    moreover have "set_mset (pending sched) \<subseteq> set_mset (pending (wk_schedule w))" "schedule_ok sched" using adv b by auto
    ultimately show ?thesis using ok unfolding worker_ok_def e by blast
  qed
  then show "worker_ok env now (sweep_step w)" "wk_cache (sweep_step w) = wk_cache w" "wk_running (sweep_step w) = wk_running w"
    "wk_due (sweep_step w) = wk_due w" "set_mset (pending (wk_schedule (sweep_step w))) \<subseteq> set_mset (pending (wk_schedule w))" by blast+
qed

lemma maintain_fields:
  "wk_cache (maintain g now w) = wk_cache w" "wk_schedule (maintain g now w) = wk_schedule w" "wk_due (maintain g now w) = wk_due w"
  "wk_running (maintain g now w) = wk_running w" "wk_sweep_from (maintain g now w) = wk_sweep_from w"
  by (simp_all add: maintain_def Let_def)

lemma tick_ok:
  assumes "worker_ok env now w"
  shows "worker_ok env now (on_tick (cfg env) th now w) \<and> wk_running (on_tick (cfg env) th now w) = wk_running w \<and>
    (\<forall>x \<in> set_mset (pending (wk_schedule (on_tick (cfg env) th now w))) \<union> set (dc_timers (wk_cache (on_tick (cfg env) th now w))). now < due_at x) \<and>
    (\<forall>d \<in> set (wk_due (on_tick (cfg env) th now w)). \<not> has_died_by now d)"
proof -
  define w2 where "w2 = give_up_dead_claims now (fire_due (cfg env) th now (collect_timers w))"
  note f = tick_fires [OF assms w2_def]
  note s = sweep_step_ok [OF conjunct1 [OF f]]
  have "on_tick (cfg env) th now w = maintain (cfg env) now (sweep_step w2)" by (simp add: on_tick_def w2_def)
  then show ?thesis using f s unfolding worker_ok_def by (simp only: maintain_fields) blast
qed

lemma shrinks_follow_up: "shrinks c (follow_up g now k origin outcome c)"
proof -
  have "shrinks c (reset_refreshing_of k (case x of Some s \<Rightarrow> schedule_retry now k s c | None \<Rightarrow> rearm_lapsed g now k c))" for x
    using shrinks_trans [OF shrinks_schedule_retry shrinks_reset] shrinks_trans [OF shrinks_rearm_lapsed shrinks_reset]
    by (cases x) simp_all
  then show ?thesis by (simp add: follow_up_def Let_def)
qed

lemma worker_ok_cache:
  assumes ok: "worker_ok env now w" and c: "timely (cfg env) now (wk_cache w) c'" "cache_ok env now c'"
    and same: "wk_schedule w' = wk_schedule w" "wk_due w' = wk_due w" "wk_running w' = wk_running w"
      "wk_sweep_from w' = wk_sweep_from w" "wk_cache w' = c'"
  shows "worker_ok env now w'"
  using ok watched_timely [OF c(1), of "set_mset (pending (wk_schedule w))"] c(2) unfolding worker_ok_def same by blast

lemma insert_remove1: "x \<in> set xs \<Longrightarrow> insert x (set (remove1 x xs)) = set xs"
  by (induction xs) auto

lemma start_due_ok:
  assumes ok: "worker_ok env now w" and d: "d \<in> set (wk_due w)" and room: "length (wk_running w) < MAX_CONCURRENT_REFRESHES"
  shows "worker_ok env now (start_due (cfg env) now d w)"
proof -
  obtain started c' where st: "start_claimed_refresh (cfg env) now now (dr_key d) (wk_cache w) = (started, c')" by fastforce
  have set: "insert d (set (remove1 d (wk_due w))) = set (wk_due w)" using d by (rule insert_remove1)
  have w: "all_watched (cfg env) now (set_mset (pending (wk_schedule w)) \<union> set (dc_timers (wk_cache w))) (insert d (set (remove1 d (wk_due w))))
      (fst ` set (wk_running w)) (wk_cache w)" using ok unfolding set worker_ok_def by blast
  have "cache_ok env now c'" using ok shrinks_ok [OF shrinks_start, of env now "wk_cache w" "cfg env" now now "dr_key d"] st by (simp add: worker_ok_def)
  then show ?thesis using start_watched [OF w st] ok room by (cases started) (auto simp: worker_ok_def start_due_def st Let_def)
qed

lemma end_renewal_ok:
  assumes ok: "worker_ok env now w" "limits_ok env" "prop_ok (cfg env)" and clk: "readings now clk" and run: "(k, origin) \<in> set (wk_running w)"
    and e: "refresh_entry env clk t k origin answer (wk_cache w) = Got (outcome, c)"
  shows "worker_ok env now (end_renewal (cfg env) now (k, origin) outcome c w)"
proof -
  let ?R = "fst ` set (remove1 (k, origin) (wk_running w))" and ?Q = "set_mset (pending (wk_schedule w))"
  have c0: "cache_ok env now (wk_cache w)" using ok(1) by (simp add: worker_ok_def)
  note r = refresh_entry_timely [OF ok(3) c0 ok(2) clk e]
  have sub: "fst ` set (wk_running w) \<subseteq> insert k ?R"
  proof
    fix j assume "j \<in> fst ` set (wk_running w)"
    then obtain x where "x \<in> set (wk_running w)" "fst x = j" by blast
    then show "j \<in> insert k ?R" by (cases "x = (k, origin)") (auto simp: in_set_remove1 intro: rev_image_eqI)
  qed
  have "all_watched (cfg env) now (?Q \<union> set (dc_timers c)) (set (wk_due w)) (fst ` set (wk_running w)) c"
    using watched_timely [OF r(1)] ok(1) by (simp add: worker_ok_def)
  then have "all_watched (cfg env) now (?Q \<union> set (dc_timers c)) (set (wk_due w)) (insert k ?R) c"
    by (rule all_watched_mono [OF _ subset_refl subset_refl sub order_refl])
  from follow_up_watched [OF r(2) this r(3)]
  have "all_watched (cfg env) now (?Q \<union> set (dc_timers (follow_up (cfg env) now k origin outcome c))) (set (wk_due w)) ?R
      (follow_up (cfg env) now k origin outcome c)" .
  moreover have "cache_ok env now (follow_up (cfg env) now k origin outcome c)" by (rule shrinks_ok [OF shrinks_follow_up r(2)])
  moreover have "length (remove1 (k, origin) (wk_running w)) \<le> length (wk_running w)" by (simp add: length_remove1)
  ultimately show ?thesis using ok(1) unfolding worker_ok_def end_renewal_def by simp
qed

lemma worker_step_ok:
  assumes step: "worker_step env th now w w'" and ok: "worker_ok env now w" "limits_ok env" "prop_ok (cfg env)"
  shows "worker_ok env now w'"
  using step
proof cases
  case (serves op c')
  have c0: "cache_ok env now (wk_cache w)" using ok(1) by (simp add: worker_ok_def)
  show ?thesis
    by (rule worker_ok_cache [OF ok(1) timely_step [OF serves(2,3) c0 ok(3)] step_ok [OF serves(2) c0 ok(2)]]) (simp_all add: serves(1))
next
  case (receives x q)
  have "cache_ok env now ((wk_cache w)\<lparr>stale_repairs := Some q\<rparr>)"
    by (rule shrinks_ok [OF shrinks_upd(4)]) (use ok(1) in \<open>simp add: worker_ok_def\<close>)
  then show ?thesis by (intro worker_ok_cache [OF ok(1) timely_upd(4)]) (simp_all add: receives(1))
next
  case ticks
  then show ?thesis using tick_ok [OF ok(1)] by simp
next
  case (starts_stale x rest)
  have "all_watched (cfg env) now (set_mset (pending (wk_schedule w)) \<union> set (dc_timers (wk_cache w))) (set (wk_due w))
      (fst ` set (wk_running w)) (wk_cache w)" using ok(1) by (simp add: worker_ok_def)
  then have "all_watched (cfg env) now (set_mset (pending (wk_schedule w)) \<union> set (dc_timers (wk_cache w))) (set (wk_due w))
      (insert key (fst ` set (wk_running w))) (wk_cache w)" for key by (rule all_watched_mono [OF _ subset_refl subset_refl subset_insertI order_refl])
  then show ?thesis using ok(1) starts_stale by (cases x) (simp add: worker_ok_def start_stale_def)
next
  case (starts_due d)
  then show ?thesis using start_due_ok [OF ok(1)] by simp
next
  case (ends clk k origin t answer outcome c)
  then show ?thesis using end_renewal_ok [OF ok] by simp
next
  case evicts
  have c0: "cache_ok env now (wk_cache w)" using ok(1) by (simp add: worker_ok_def)
  show ?thesis
    by (rule worker_ok_cache [OF ok(1) timely_evict [OF c0] shrinks_ok [OF shrinks_evict_entries [OF c0] c0]]) (simp_all add: evicts(1))
next
  case (rotates n c)
  have "cache_ok env now (wk_cache w)" using ok(1) by (simp add: worker_ok_def)
  then have "cache_ok env now c" using ok_rotate [of env now "wk_cache w"] rotates(3) by auto
  then show ?thesis by (intro worker_ok_cache [OF ok(1) timely_rotate [OF rotates(3)]]) (simp_all add: rotates(1))
qed

lemma worker_reachable_ok: "reachable_worker env th now w \<Longrightarrow> limits_ok env \<Longrightarrow> prop_ok (cfg env) \<Longrightarrow> worker_ok env now w"
proof (induction rule: reachable_worker.induct)
  case (starts bits now hashes)
  then have "cache_ok env now (new_cache env bits hashes)" by (intro ok_new)
  then have "cache_ok env now (set_stale_repairs (new_cache env bits hashes))"
    by (auto simp: set_stale_repairs_def intro: shrinks_ok [OF shrinks_upd(4)])
  then show ?case by (simp add: worker_ok_def start_refresh_worker_def Let_def empty_schedule_ok all_watched_def)
    (simp add: set_stale_repairs_def new_cache_def)
next
  case (steps now w w')
  then show ?case using worker_step_ok by blast
next
  case (waits now w later)
  then have w: "worker_ok env now w" by simp
  have "cache_ok env later (wk_cache w)" using w waits by (auto simp: worker_ok_def intro: ok_later)
  moreover have "all_watched (cfg env) later (set_mset (pending (wk_schedule w)) \<union> set (dc_timers (wk_cache w))) (set (wk_due w))
      (fst ` set (wk_running w)) (wk_cache w)"
    using w by (intro all_watched_mono [OF _ subset_refl subset_refl subset_refl waits(2)]) (simp add: worker_ok_def)
  ultimately show ?case using w by (simp add: worker_ok_def)
qed

section \<open>Properties\<close>

text \<open>
  C19. Every entry leaves the cache once it is dead: after the tick of a second, an entry that is
  past its deadline and not a local record is still held only while one of the at most sixteen
  renewals under way is for it. This holds in every reachable state, whatever clients, upstreams
  and evictions did before.
\<close>

theorem dead_entries_leave:
  assumes reach: "reachable_worker env th now w" "limits_ok env" "prop_ok (cfg env)"
    and held: "map_of (dc_map (wk_cache (on_tick (cfg env) th now w))) k = Some r" "\<not> rec_permanent r" "is_dead_at now r"
  shows "k \<in> fst ` set (wk_running w) \<and> length (wk_running w) \<le> MAX_CONCURRENT_REFRESHES"
proof -
  let ?w = "on_tick (cfg env) th now w"
  note ok = worker_reachable_ok [OF reach]
  note t = tick_ok [OF ok, of th]
  have c: "cache_ok env now (wk_cache ?w)" using t by (simp add: worker_ok_def)
  have dl: "refresh_deadline r \<le> now" using held(3) alive_deadline [OF c held(1,2)] by simp
  have "watched (cfg env) now (set_mset (pending (wk_schedule ?w)) \<union> set (dc_timers (wk_cache ?w))) (set (wk_due ?w)) (fst ` set (wk_running w)) k r"
    using t all_watchedD [OF _ held(1,2)] unfolding worker_ok_def by auto
  moreover have "\<not> timer_for (set_mset (pending (wk_schedule ?w)) \<union> set (dc_timers (wk_cache ?w))) k s" if "s \<le> now" for s
    using t that unfolding timer_for_def by (metis leD)
  ultimately have "k \<in> fst ` set (wk_running w)"
    using t dl unfolding watched_def timed_def has_died_by_def by (auto dest: order_trans [OF _ dl])
  then show ?thesis using ok by (simp add: worker_ok_def)
qed

text \<open>
  The entry stored at second 100 for 300 seconds is dead at second 700, and the tick of that second
  drops it.
\<close>

lemma demo_worker:
  obtains w r where "reachable_worker demo_env th 700 w" "dc_map (wk_cache w) = [(demo_key, r)]" "same_life demo_record r" "wk_running w = []"
proof -
  define n where "n = set_stale_repairs (new_cache demo_env 64 1)"
  define w0 where "w0 = start_refresh_worker demo_env 100 n"
  have bits: "next_power_of_two 64 < 2 ^ 64" by (simp add: next_power_of_two.simps)
  have pr: "prop_ok (cfg demo_env)" by (simp add: prop_ok_def demo_env_def demo_cfg_def)
  have r0: "reachable_worker demo_env th 100 w0" unfolding w0_def n_def by (rule reachable_worker.starts [OF bits])
  have f: "wk_cache w0 = n" "wk_running w0 = []" by (simp_all add: w0_def start_refresh_worker_def Let_def)
  have "cache_ok demo_env 100 n" using worker_reachable_ok [OF r0 demo_limits pr] f(1) by (simp add: worker_ok_def)
  moreover have "dc_map n = []" "l1_threads n = l1_threads (new_cache demo_env 64 1)" "l1_generation n = l1_generation (new_cache demo_env 64 1)"
    by (simp_all add: n_def set_stale_repairs_def new_cache_def)
  ultimately obtain c r where c: "store demo_env (\<lambda>_. 100) 1 demo_key (IpAddresses demo_addresses) 300 None False n = Got c"
    "dc_map c = [(demo_key, r)]" "same_life demo_record r" by (rule demo_store)
  have "worker_step demo_env th 100 w0 (w0\<lparr>wk_cache := c\<rparr>)"
    by (rule worker_step.serves [OF cache_step.stores [where clk = "\<lambda>_. 100", OF demo_readings c(1) [folded f(1)]]]) simp
  then have "reachable_worker demo_env th 700 (w0\<lparr>wk_cache := c\<rparr>)"
    by (rule reachable_worker.waits [OF reachable_worker.steps [OF r0]]) simp
  moreover have "dc_map (wk_cache (w0\<lparr>wk_cache := c\<rparr>)) = [(demo_key, r)]" "wk_running (w0\<lparr>wk_cache := c\<rparr>) = []"
    by (simp_all add: c(2) f(2))
  ultimately show thesis using that c(3) by blast
qed

theorem dead_entries_leave_witness:
  "\<forall>th. \<exists>w r. reachable_worker demo_env th 700 w \<and> map_of (dc_map (wk_cache w)) demo_key = Some r \<and> is_dead_at 700 r \<and>
    (\<forall>r'. map_of (dc_map (wk_cache (on_tick demo_cfg th 700 w))) demo_key = Some r' \<longrightarrow> rec_permanent r' \<or> \<not> is_dead_at 700 r')"
proof
  fix th
  obtain w r where w: "reachable_worker demo_env th 700 w" "dc_map (wk_cache w) = [(demo_key, r)]" "same_life demo_record r" "wk_running w = []"
    by (rule demo_worker)
  have pr: "prop_ok (cfg demo_env)" by (simp add: prop_ok_def demo_env_def demo_cfg_def)
  have "is_dead_at 700 demo_record" by (simp add: demo_record_def is_dead_at_def is_expired_at_def is_stale_usable_at_def stored_record_def new_record_def
        rec_permanent_def sat_sub_def STALE_GRACE_PERIOD_MULTIPLIER_def)
  then have "is_dead_at 700 r" using same_life_dead [OF w(3)] by simp
  moreover have "map_of (dc_map (wk_cache w)) demo_key = Some r" by (simp add: w(2))
  moreover have "rec_permanent r' \<or> \<not> is_dead_at 700 r'" if "map_of (dc_map (wk_cache (on_tick demo_cfg th 700 w))) demo_key = Some r'" for r'
    using dead_entries_leave [OF w(1) demo_limits pr, of demo_key r'] that w(4) by (auto simp: demo_env_def)
  ultimately show "\<exists>w r. reachable_worker demo_env th 700 w \<and> map_of (dc_map (wk_cache w)) demo_key = Some r \<and> is_dead_at 700 r \<and>
      (\<forall>r'. map_of (dc_map (wk_cache (on_tick demo_cfg th 700 w))) demo_key = Some r' \<longrightarrow> rec_permanent r' \<or> \<not> is_dead_at 700 r')"
    using w(1) by blast
qed

end
