(* ===== verification/Query_Guards.thy ===== *)
theory Query_Guards
  imports Cache_Record
begin

text \<open>
  What the query pipeline checks a query and its answer with (\<open>application/src/use_cases/dns\<close>):
  the resolution a resolver returns (\<open>ports/dns_resolver.rs\<close>), private addresses
  (\<open>domain/.../PrivateIpFilter\<close>), the guards on answers (\<open>rebinding_guard.rs\<close>,
  \<open>nxdomain_hijack_guard.rs\<close>, \<open>response_ip_filter_guard.rs\<close>), the tunneling check on names
  (\<open>tunneling_guard.rs\<close>) and DNS Cookies (\<open>cookie_guard.rs\<close>). The keyed hash of the cookies is an
  argument; the stores of flagged addresses are functions.
\<close>

section \<open>Resolutions\<close>

datatype coalesced_role = Role_Leader | Role_Follower

record dns_resolution =
  re_addresses :: "ip_addr list"
  re_cache_hit :: bool
  re_local_dns :: bool
  re_local_nxdomain :: bool
  re_upstream_nxdomain :: bool
  re_coalesced :: "coalesced_role option"
  re_dnssec :: "dnssec_status option"
  re_chain :: "string list"
  re_server :: "string option"
  re_pool :: "string option"
  re_min_ttl :: "u32 option"
  re_soa_ttl :: "u32 option"
  re_wire :: "bytes option"

definition new_resolution :: "ip_addr list \<Rightarrow> bool \<Rightarrow> dns_resolution" where
  "new_resolution addresses cache_hit =
    \<lparr>re_addresses = addresses, re_cache_hit = cache_hit, re_local_dns = False, re_local_nxdomain = False,
     re_upstream_nxdomain = False, re_coalesced = None, re_dnssec = None, re_chain = [], re_server = None,
     re_pool = None, re_min_ttl = None, re_soa_ttl = None, re_wire = None\<rparr>"

definition has_response_data :: "dns_resolution \<Rightarrow> bool" where
  "has_response_data r \<longleftrightarrow> re_local_dns r \<or> re_addresses r \<noteq> [] \<or> re_wire r \<noteq> None \<or> re_chain r \<noteq> []"

definition rcode_name :: "dns_resolution \<Rightarrow> string" where
  "rcode_name r = (if re_upstream_nxdomain r then ''NXDOMAIN'' else ''NOERROR'')"

definition is_unvalidated :: "dnssec_status \<Rightarrow> bool" where
  "is_unvalidated s \<longleftrightarrow> s = Bogus \<or> s = Indeterminate"

section \<open>Private addresses\<close>

definition is_private_ipv4 :: "u32 \<Rightarrow> bool" where
  "is_private_ipv4 a \<longleftrightarrow>
    (drop_bit 24 a = 10 \<or> drop_bit 20 a = 0xAC1 \<or> drop_bit 16 a = 0xC0A8) \<or>
    drop_bit 24 a = 127 \<or> drop_bit 16 a = 0xA9FE"

definition is_private_ipv6 :: "u128 \<Rightarrow> bool" where
  "is_private_ipv6 a \<longleftrightarrow>
    (case to_ipv4_mapped a of
       Some v4 \<Rightarrow> is_private_ipv4 v4
     | None \<Rightarrow> a = 1 \<or> drop_bit 121 a = 0x7E \<or> drop_bit 118 a = 0x3FA)"

fun is_private_ip :: "ip_addr \<Rightarrow> bool" where
  "is_private_ip (V4 a) = is_private_ipv4 a"
| "is_private_ip (V6 a) = is_private_ipv6 a"

definition nat64_contains :: "u128 \<Rightarrow> u128 \<Rightarrow> bool" where
  "nat64_contains prefix addr \<longleftrightarrow> take 12 (octets_v6 prefix) = take 12 (octets_v6 addr)"

section \<open>Guards on answers\<close>

record rebinding_guard =
  local_domain_suffix :: "string option"

definition new_rebinding_guard :: "string option \<Rightarrow> rebinding_guard" where
  "new_rebinding_guard local_domain = \<lparr>local_domain_suffix = map_option (\<lambda>d. CHR ''.'' # to_lowercase d) local_domain\<rparr>"

definition under_local_domain :: "string \<Rightarrow> string \<Rightarrow> bool" where
  "under_local_domain suffix d \<longleftrightarrow>
    str_eq_ignore_ascii_case d (dropWhile (\<lambda>c. c = CHR ''.'') suffix) \<or>
    str_eq_ignore_ascii_case (drop (length d - length suffix) d) suffix"

definition is_rebinding :: "rebinding_guard \<Rightarrow> string \<Rightarrow> dns_resolution \<Rightarrow> bool" where
  "is_rebinding guard d r \<longleftrightarrow>
    (if re_local_dns r then False
     else if (case local_domain_suffix guard of Some suffix \<Rightarrow> under_local_domain suffix d | None \<Rightarrow> False) then False
     else list_ex is_private_ip (re_addresses r))"

datatype guard_action = Action_Block | Action_Alert

record answer_guard =
  ag_action :: guard_action
  ag_store :: "(ip_addr \<Rightarrow> bool) option"

definition new_answer_guard :: "guard_action \<Rightarrow> (ip_addr \<Rightarrow> bool) \<Rightarrow> answer_guard" where
  "new_answer_guard action store = \<lparr>ag_action = action, ag_store = Some store\<rparr>"

definition disabled_answer_guard :: answer_guard where
  "disabled_answer_guard = \<lparr>ag_action = Action_Block, ag_store = None\<rparr>"

definition is_hijacked_response :: "answer_guard \<Rightarrow> dns_resolution \<Rightarrow> bool" where
  "is_hijacked_response guard r =
    (case ag_store guard of None \<Rightarrow> False | Some store \<Rightarrow> list_ex store (re_addresses r))"

definition has_blocked_ip :: "answer_guard \<Rightarrow> dns_resolution \<Rightarrow> bool" where
  "has_blocked_ip guard r =
    (case ag_store guard of None \<Rightarrow> False | Some store \<Rightarrow> list_ex store (re_addresses r))"

section \<open>Tunneling\<close>

record tunneling_guard =
  tg_enabled :: bool
  tg_action :: guard_action
  max_fqdn_length :: nat
  max_label_length :: nat
  block_null_queries :: bool

definition disabled_tunneling :: tunneling_guard where
  "disabled_tunneling = \<lparr>tg_enabled = False, tg_action = Action_Block, max_fqdn_length = 120, max_label_length = 50,
    block_null_queries = True\<rparr>"

text \<open>The signal that fired, if any; the measured values only go to the debug log.\<close>

definition tunneling_check :: "tunneling_guard \<Rightarrow> string \<Rightarrow> record_type \<Rightarrow> string option" where
  "tunneling_check g d rt =
    (if \<not> tg_enabled g then None
     else if max_fqdn_length g < length d then Some ''fqdn_length''
     else if list_ex (\<lambda>label. max_label_length g < length label) (split_char CHR ''.'' d) then Some ''label_length''
     else if block_null_queries g \<and> rt = NULL then Some ''null_record_type''
     else None)"

section \<open>DNS Cookies\<close>

datatype cookie_status = Cookie_ClientOnly | Cookie_Valid | Cookie_Invalid

definition CLIENT_COOKIE_LEN :: nat where "CLIENT_COOKIE_LEN = 8"
definition SERVER_COOKIE_LEN :: nat where "SERVER_COOKIE_LEN = 8"
definition WINDOW_KEY_LABEL :: bytes where "WINDOW_KEY_LABEL = bytes_of_str ''ferrous-dns cookie window''"

text \<open>The keyed hash: key, then message. A key is the bytes it was made from.\<close>

type_synonym hmac = "bytes \<Rightarrow> bytes \<Rightarrow> bytes"

record window_keys =
  wk_window :: u64
  wk_current :: bytes
  wk_previous :: "bytes option"

record cookie_guard =
  cg_strict :: bool
  cg_secret :: bytes
  rotation_secs :: u64
  cg_keys :: window_keys

definition be64_bytes :: "u64 \<Rightarrow> bytes" where
  "be64_bytes w = be32_bytes (ucast (drop_bit 32 w)) @ be32_bytes (ucast w)"

definition window_at :: "u64 \<Rightarrow> u64 \<Rightarrow> u64" where
  "window_at unix_secs rotation = (if rotation = 0 then 0 else unix_secs div rotation)"

definition window_key :: "hmac \<Rightarrow> bytes \<Rightarrow> u64 \<Rightarrow> bytes" where
  "window_key hm secret window = hm secret (WINDOW_KEY_LABEL @ be64_bytes window)"

definition window_keys_of :: "hmac \<Rightarrow> bytes \<Rightarrow> u64 \<Rightarrow> u64 \<Rightarrow> window_keys" where
  "window_keys_of hm secret rotation window =
    (if rotation = 0 then \<lparr>wk_window = window, wk_current = secret, wk_previous = None\<rparr>
     else \<lparr>wk_window = window, wk_current = window_key hm secret window,
           wk_previous = (if window = 0 then None else Some (window_key hm secret (window - 1)))\<rparr>)"

definition cookie_guard_from :: "hmac \<Rightarrow> bool \<Rightarrow> bool \<Rightarrow> u64 \<Rightarrow> u64 \<Rightarrow> bytes \<Rightarrow> cookie_guard" where
  "cookie_guard_from hm enabled require_valid rotation now secret =
    \<lparr>cg_strict = (enabled \<and> require_valid), cg_secret = secret, rotation_secs = rotation,
     cg_keys = window_keys_of hm secret rotation (window_at now rotation)\<rparr>"

definition guard_keys :: "hmac \<Rightarrow> u64 \<Rightarrow> cookie_guard \<Rightarrow> window_keys \<times> cookie_guard" where
  "guard_keys hm now g =
    (if rotation_secs g = 0 then (cg_keys g, g)
     else let window = window_at now (rotation_secs g) in
       if wk_window (cg_keys g) = window then (cg_keys g, g)
       else let fresh = window_keys_of hm (cg_secret g) (rotation_secs g) window in (fresh, g\<lparr>cg_keys := fresh\<rparr>))"

definition requires_cookie :: "cookie_guard \<Rightarrow> client_protocol option \<Rightarrow> bool" where
  "requires_cookie g protocol \<longleftrightarrow> cg_strict g \<and> \<not> (case protocol of Some p \<Rightarrow> is_stream p | None \<Rightarrow> False)"

fun ip_octets :: "ip_addr \<Rightarrow> bytes" where
  "ip_octets (V4 a) = octets_v4 a"
| "ip_octets (V6 a) = octets_v6 a"

definition compute_server_cookie :: "hmac \<Rightarrow> bytes \<Rightarrow> ip_addr \<Rightarrow> bytes \<Rightarrow> bytes" where
  "compute_server_cookie hm key ip client_cookie = take SERVER_COOKIE_LEN (hm key (ip_octets ip @ client_cookie))"

definition is_signed :: "hmac \<Rightarrow> window_keys \<Rightarrow> ip_addr \<Rightarrow> bytes \<Rightarrow> bytes \<Rightarrow> bool" where
  "is_signed hm keys ip client_cookie received \<longleftrightarrow>
    compute_server_cookie hm (wk_current keys) ip client_cookie = received \<or>
    (case wk_previous keys of
       Some key \<Rightarrow> compute_server_cookie hm key ip client_cookie = received | None \<Rightarrow> False)"

definition has_valid_cookie :: "hmac \<Rightarrow> u64 \<Rightarrow> cookie_guard \<Rightarrow> ip_addr \<Rightarrow> bytes \<Rightarrow> bool" where
  "has_valid_cookie hm now g ip opt_data =
    (case (slice_get opt_data 0 CLIENT_COOKIE_LEN, slice_get opt_data CLIENT_COOKIE_LEN (CLIENT_COOKIE_LEN + SERVER_COOKIE_LEN)) of
       (Some client_cookie, Some received) \<Rightarrow> is_signed hm (fst (guard_keys hm now g)) ip client_cookie received
     | _ \<Rightarrow> False)"

definition guard_cookie_status :: "hmac \<Rightarrow> u64 \<Rightarrow> cookie_guard \<Rightarrow> ip_addr \<Rightarrow> bytes \<Rightarrow> cookie_status" where
  "guard_cookie_status hm now g ip opt_data =
    (if length opt_data \<le> CLIENT_COOKIE_LEN then Cookie_ClientOnly
     else if has_valid_cookie hm now g ip opt_data then Cookie_Valid else Cookie_Invalid)"

definition guard_answer :: "hmac \<Rightarrow> u64 \<Rightarrow> cookie_guard \<Rightarrow> ip_addr \<Rightarrow> bytes \<Rightarrow> bytes \<Rightarrow> bytes \<times> cookie_status" where
  "guard_answer hm now g ip client_cookie opt_data =
    (let keys = fst (guard_keys hm now g);
         server_cookie = compute_server_cookie hm (wk_current keys) ip client_cookie
     in case slice_get opt_data CLIENT_COOKIE_LEN (CLIENT_COOKIE_LEN + SERVER_COOKIE_LEN) of
          None \<Rightarrow> (server_cookie, Cookie_ClientOnly)
        | Some received \<Rightarrow>
            (server_cookie, if is_signed hm keys ip client_cookie received then Cookie_Valid else Cookie_Invalid))"

definition generate_server_cookie :: "hmac \<Rightarrow> u64 \<Rightarrow> cookie_guard \<Rightarrow> ip_addr \<Rightarrow> bytes \<Rightarrow> bytes" where
  "generate_server_cookie hm now g ip client_cookie =
    compute_server_cookie hm (wk_current (fst (guard_keys hm now g))) ip client_cookie"

definition status_without_guard :: "bytes \<Rightarrow> cookie_status" where
  "status_without_guard opt_data = (if CLIENT_COOKIE_LEN < length opt_data then Cookie_Invalid else Cookie_ClientOnly)"

text \<open>The option of a reply, as its bytes.\<close>

definition edns_cookie_from_bytes :: "bytes \<Rightarrow> bytes option" where
  "edns_cookie_from_bytes data = (if is_valid_len (length data) then Some data else None)"

section \<open>Cookies across windows\<close>

text \<open>The keys kept are those of the window they name: they only save computing them again.\<close>

definition guard_ok :: "hmac \<Rightarrow> cookie_guard \<Rightarrow> bool" where
  "guard_ok hm g \<longleftrightarrow> cg_keys g = window_keys_of hm (cg_secret g) (rotation_secs g) (wk_window (cg_keys g)) \<and>
    (rotation_secs g = 0 \<longrightarrow> wk_window (cg_keys g) = 0)"

lemma window_keys_fields [simp]: "wk_window (window_keys_of hm secret rotation window) = window"
  by (simp add: window_keys_of_def)

lemma guard_keys_now:
  assumes "guard_ok hm g"
  shows "fst (guard_keys hm now g) = window_keys_of hm (cg_secret g) (rotation_secs g) (window_at now (rotation_secs g))"
    and "guard_ok hm (snd (guard_keys hm now g))"
    and "cg_secret (snd (guard_keys hm now g)) = cg_secret g" "rotation_secs (snd (guard_keys hm now g)) = rotation_secs g"
  using assms by (auto simp: guard_ok_def guard_keys_def Let_def window_at_def)

lemma guard_from_ok: "guard_ok hm (cookie_guard_from hm enabled require_valid rotation now secret)"
  by (simp add: guard_ok_def cookie_guard_from_def window_at_def)

text \<open>The key a window signs with.\<close>

definition signing_key :: "hmac \<Rightarrow> cookie_guard \<Rightarrow> u64 \<Rightarrow> bytes" where
  "signing_key hm g window = (if rotation_secs g = 0 then cg_secret g else window_key hm (cg_secret g) window)"

lemma generate_eq:
  "guard_ok hm g \<Longrightarrow> generate_server_cookie hm now g ip cc =
    compute_server_cookie hm (signing_key hm g (window_at now (rotation_secs g))) ip cc"
  by (simp add: generate_server_cookie_def guard_keys_now(1) window_keys_of_def signing_key_def)

lemma signed_iff:
  "is_signed hm (window_keys_of hm (cg_secret g) (rotation_secs g) window) ip cc received \<longleftrightarrow>
    received = compute_server_cookie hm (signing_key hm g window) ip cc \<or>
    rotation_secs g \<noteq> 0 \<and> window \<noteq> 0 \<and> received = compute_server_cookie hm (signing_key hm g (window - 1)) ip cc"
  by (auto simp: is_signed_def window_keys_of_def signing_key_def)

lemma cookie_status_eq:
  assumes "guard_ok hm g" "16 \<le> length opt"
  shows "guard_cookie_status hm now g ip opt =
    (if is_signed hm (window_keys_of hm (cg_secret g) (rotation_secs g) (window_at now (rotation_secs g))) ip (take 8 opt) (take 8 (drop 8 opt))
     then Cookie_Valid else Cookie_Invalid)"
  using assms by (simp add: guard_cookie_status_def has_valid_cookie_def slice_get_def CLIENT_COOKIE_LEN_def
      SERVER_COOKIE_LEN_def guard_keys_now(1))

lemma word_le_1: "(x :: u64) \<le> 1 \<Longrightarrow> x = 0 \<or> x = 1"
proof -
  assume "x \<le> 1"
  then have "unat x = 0 \<or> unat x = 1" by (auto simp: word_le_nat_alt)
  then show ?thesis by (metis unat_eq_zero word_unat_eq_iff unsigned_1)
qed

lemma length_server_cookie: "(\<And>key m. 8 \<le> length (hm key m)) \<Longrightarrow> length (compute_server_cookie hm key ip cc) = 8"
  by (simp add: compute_server_cookie_def SERVER_COOKIE_LEN_def min_absorb2)

section \<open>Properties\<close>

text \<open>
  C30. A server cookie is accepted from the client it was issued to for the rest of its window and the
  whole next one, also by another server that shares the secret, and answered with the cookie of the
  moment; and whatever is accepted carries the signature of the current or the previous window over
  the client's address and client cookie. The keys a guard keeps never change the outcome.
\<close>

theorem cookie_windows:
  assumes ok: "guard_ok hm g" "guard_ok hm g'" and same: "cg_secret g' = cg_secret g" "rotation_secs g' = rotation_secs g"
    and hm: "\<And>key m. 8 \<le> length (hm key m)" and cc: "length cc = 8" and time: "now \<le> later"
  shows "(window_at later (rotation_secs g) - window_at now (rotation_secs g) \<le> 1 \<longrightarrow>
      guard_cookie_status hm later g' ip (cc @ generate_server_cookie hm now g ip cc) = Cookie_Valid \<and>
      guard_answer hm later g' ip cc (cc @ generate_server_cookie hm now g ip cc) =
        (generate_server_cookie hm later g' ip cc, Cookie_Valid)) \<and>
    (guard_cookie_status hm later g' ip opt = Cookie_Valid \<longrightarrow>
      (\<exists>w. (w = window_at later (rotation_secs g) \<or> w + 1 = window_at later (rotation_secs g)) \<and>
        take 8 (drop 8 opt) = compute_server_cookie hm (signing_key hm g w) ip (take 8 opt)))"
proof (intro conjI impI)
  let ?w = "window_at now (rotation_secs g)" and ?l = "window_at later (rotation_secs g)"
  let ?sent = "cc @ generate_server_cookie hm now g ip cc"
  have len: "length (generate_server_cookie hm now g ip cc) = 8" using length_server_cookie [OF hm] by (simp add: generate_eq [OF ok(1)])
  assume close: "?l - ?w \<le> 1"
  have "?l = ?w \<or> ?l = ?w + 1 \<and> ?l \<noteq> 0 \<and> rotation_secs g \<noteq> 0"
  proof (cases "rotation_secs g = 0")
    case False
    have "?w \<le> ?l" using time False by (simp add: window_at_def word_le_nat_alt unat_div div_le_mono)
    moreover have "?l - ?w = 0 \<or> ?l - ?w = 1" using word_le_1 [OF close] .
    then have "?l = ?w \<or> ?l = ?w + 1" by (auto simp: eq_diff_eq diff_eq_eq)
    ultimately show ?thesis using False by (cases "?l = ?w") auto
  qed (simp add: window_at_def)
  then have signed: "is_signed hm (window_keys_of hm (cg_secret g') (rotation_secs g') (window_at later (rotation_secs g'))) ip cc
      (generate_server_cookie hm now g ip cc)"
    unfolding same signed_iff generate_eq [OF ok(1)] by auto
  show "guard_cookie_status hm later g' ip ?sent = Cookie_Valid"
    using signed cc len by (simp add: cookie_status_eq [OF ok(2)])
  show "guard_answer hm later g' ip cc ?sent = (generate_server_cookie hm later g' ip cc, Cookie_Valid)"
    using signed cc len by (simp add: guard_answer_def Let_def slice_get_def CLIENT_COOKIE_LEN_def SERVER_COOKIE_LEN_def
        guard_keys_now(1) [OF ok(2)] generate_server_cookie_def)
next
  assume v: "guard_cookie_status hm later g' ip opt = Cookie_Valid"
  have "16 \<le> length opt"
    using v by (auto simp: guard_cookie_status_def has_valid_cookie_def slice_get_def CLIENT_COOKIE_LEN_def SERVER_COOKIE_LEN_def
        split: if_splits option.splits)
  then have "is_signed hm (window_keys_of hm (cg_secret g') (rotation_secs g') (window_at later (rotation_secs g'))) ip
      (take 8 opt) (take 8 (drop 8 opt))"
    using v by (simp add: cookie_status_eq [OF ok(2)] split: if_splits)
  then show "\<exists>w. (w = window_at later (rotation_secs g) \<or> w + 1 = window_at later (rotation_secs g)) \<and>
      take 8 (drop 8 opt) = compute_server_cookie hm (signing_key hm g w) ip (take 8 opt)"
    unfolding same signed_iff by (metis diff_add_cancel)
qed

text \<open>A hash that adds up its bytes, and a guard that rotates every hundred seconds.\<close>

definition demo_hash :: hmac where
  "demo_hash key m = replicate 8 (sum_list key + sum_list m)"

theorem cookie_windows_witness:
  "guard_cookie_status demo_hash 250 (cookie_guard_from demo_hash True True 100 250 [3]) (V4 7)
    (replicate 8 9 @ generate_server_cookie demo_hash 150 (cookie_guard_from demo_hash True True 100 0 [3]) (V4 7) (replicate 8 9)) =
    Cookie_Valid"
  using cookie_windows [where cc = "replicate 8 9" and now = 150 and later = 250 and ip = "V4 7" and opt = "[]",
      OF guard_from_ok [of demo_hash True True 100 0 "[3]"] guard_from_ok [of demo_hash True True 100 250 "[3]"]]
  by (simp add: cookie_guard_from_def window_at_def demo_hash_def)

end
