(* ===== verification/Query_Pipeline.thy ===== *)
theory Query_Pipeline
  imports Query_Guards Filter_Engine Rate_Limiter
begin

text \<open>
  The use case every client query passes (\<open>application/src/use_cases/dns/handle_dns_query.rs\<close>): the
  order of its guards, what each refuses, and the two probes that answer from the cache before it.
  The traits the use case is built over are records of operations on a state of their own: the
  filter, the resolver's cache probe, the safe-search lookup and the flag stores. A query that goes
  upstream waits in between, so the use case is two functions: \<open>execute_start\<close> up to the wait and
  \<open>execute_end\<close> after it, on whatever state the pipeline has by then. The log and the analysis
  channels are the lists of what was handed to them; response times are left out.
\<close>

section \<open>Requests, logs and ports\<close>

record dns_request =
  rq_domain :: string
  rq_type :: record_type
  rq_client :: ip_addr
  rq_cookie :: "bytes option"
  rq_cd :: bool
  rq_protocol :: "client_protocol option"

record dns_query =
  q_domain :: string
  q_type :: record_type
  q_group :: "i64 option"

record query_log =
  ql_domain :: string
  ql_type :: record_type
  ql_client :: ip_addr
  ql_blocked :: bool
  ql_cache_hit :: bool
  ql_dnssec :: "dnssec_status option"
  ql_dns64 :: bool
  ql_answers :: "ip_addr list option"
  ql_server :: "string option"
  ql_pool :: "string option"
  ql_status :: string
  ql_protocol :: "client_protocol option"
  ql_group :: i64
  ql_source :: "block_source option"
  ql_coalesced :: "coalesced_role option"
  ql_cookie :: "cookie_status option"

record 'e filter_port =
  port_group :: "ip_addr \<Rightarrow> 'e \<Rightarrow> i64 \<times> 'e"
  port_check :: "string \<Rightarrow> i64 \<Rightarrow> 'e \<Rightarrow> (filter_decision \<times> 'e) res"
  port_cname :: "string \<Rightarrow> i64 \<Rightarrow> u64 \<Rightarrow> 'e \<Rightarrow> 'e"

type_synonym 'r cache_probe = "dns_query \<Rightarrow> 'r \<Rightarrow> (dns_resolution option \<times> 'r) res"

record ('e, 'r, 'u) use_case =
  uc_filter :: "'e filter_port"
  uc_probe :: "'r cache_probe"
  uc_safe_search :: "string \<Rightarrow> i64 \<Rightarrow> string option"
  uc_tracks :: bool
  uc_interval_ns :: u64
  uc_seen_peek :: "'u \<Rightarrow> ip_addr \<Rightarrow> u64 option"
  uc_seen_put :: "'u \<Rightarrow> ip_addr \<Rightarrow> u64 \<Rightarrow> 'u"
  uc_rebinding :: "rebinding_guard option"
  uc_tunneling :: tunneling_guard
  uc_tunneling_events :: bool
  uc_tunneling_flags :: "(string \<Rightarrow> bool) option"
  uc_hijack :: answer_guard
  uc_ip_filter :: answer_guard
  uc_dga :: "string \<Rightarrow> string option"
  uc_dga_action :: guard_action
  uc_dga_events :: bool
  uc_dga_flags :: "(string \<Rightarrow> bool) option"
  uc_exempt :: "(i64 \<Rightarrow> bool) option"
  uc_cookies :: "cookie_guard option"
  uc_hmac :: hmac
  uc_limited :: bool
  uc_enforce :: bool
  uc_dns64 :: "u128 option"
  uc_log :: bool

record ('e, 'r, 'u) pipeline =
  pl_filter :: 'e
  pl_resolver :: 'r
  pl_limiter :: dns_rate_limiter
  pl_log :: "query_log list"
  pl_seen :: 'u
  pl_tracked :: "ip_addr list"
  pl_tunneling_events :: "(string \<times> record_type \<times> ip_addr \<times> bool) list"
  pl_dga_events :: "(string \<times> ip_addr) list"
  pl_slots :: nat
  pl_shed :: u64

text \<open>The clocks as one stretch without a wait reads them.\<close>

record moment =
  at_ns :: u64
  at_unix :: u64

section \<open>Logging and tracking\<close>

definition write_log :: "('e, 'r, 'u) use_case \<Rightarrow> query_log \<Rightarrow> ('e, 'r, 'u) pipeline \<Rightarrow> ('e, 'r, 'u) pipeline" where
  "write_log uc line st = (if uc_log uc then st\<lparr>pl_log := pl_log st @ [line]\<rparr> else st)"

definition request_cookie_status :: "('e, 'r, 'u) use_case \<Rightarrow> moment \<Rightarrow> dns_request \<Rightarrow> cookie_status option" where
  "request_cookie_status uc m rq =
    (case rq_cookie rq of
       None \<Rightarrow> None
     | Some opt_data \<Rightarrow>
         Some (case uc_cookies uc of
                 Some guard \<Rightarrow> guard_cookie_status (uc_hmac uc) (at_unix m) guard (rq_client rq) opt_data
               | None \<Rightarrow> status_without_guard opt_data))"

definition base_query_log :: "('e, 'r, 'u) use_case \<Rightarrow> moment \<Rightarrow> dns_request \<Rightarrow> i64 \<Rightarrow> query_log" where
  "base_query_log uc m rq g =
    \<lparr>ql_domain = rq_domain rq, ql_type = rq_type rq, ql_client = rq_client rq, ql_blocked = False, ql_cache_hit = False,
     ql_dnssec = None, ql_dns64 = False, ql_answers = None, ql_server = None, ql_pool = None, ql_status = ''NOERROR'',
     ql_protocol = rq_protocol rq, ql_group = g, ql_source = None, ql_coalesced = None,
     ql_cookie = request_cookie_status uc m rq\<rparr>"

definition blocked_log :: "('e, 'r, 'u) use_case \<Rightarrow> moment \<Rightarrow> dns_request \<Rightarrow> i64 \<Rightarrow> string \<Rightarrow> block_source \<Rightarrow> query_log" where
  "blocked_log uc m rq g status source =
    (base_query_log uc m rq g)\<lparr>ql_blocked := True, ql_status := status, ql_source := Some source\<rparr>"

definition is_dns64_synthesized :: "('e, 'r, 'u) use_case \<Rightarrow> record_type \<Rightarrow> ip_addr list \<Rightarrow> bool" where
  "is_dns64_synthesized uc rt addresses \<longleftrightarrow> rt = AAAA \<and>
    (case uc_dns64 uc of
       None \<Rightarrow> False
     | Some prefix \<Rightarrow> addresses \<noteq> [] \<and>
         list_all (\<lambda>a. case a of V6 v6 \<Rightarrow> nat64_contains prefix v6 | V4 _ \<Rightarrow> False) addresses)"

definition maybe_track_client ::
  "('e, 'r, 'u) use_case \<Rightarrow> moment \<Rightarrow> ip_addr \<Rightarrow> ('e, 'r, 'u) pipeline \<Rightarrow> ('e, 'r, 'u) pipeline" where
  "maybe_track_client uc m ip st =
    (if \<not> uc_tracks uc then st
     else case uc_seen_peek uc (pl_seen st) ip of
       Some last_ns \<Rightarrow>
         if sat_sub (at_ns m) last_ns < uc_interval_ns uc then st
         else st\<lparr>pl_seen := uc_seen_put uc (pl_seen st) ip (at_ns m), pl_tracked := pl_tracked st @ [ip]\<rparr>
     | None \<Rightarrow> st\<lparr>pl_seen := uc_seen_put uc (pl_seen st) ip (at_ns m), pl_tracked := pl_tracked st @ [ip]\<rparr>)"

section \<open>Guards in the pipeline\<close>

record screening =
  sc_group :: i64
  sc_cloaking :: bool
  sc_detectors :: bool

definition screen_query :: "('e, 'r, 'u) use_case \<Rightarrow> i64 \<Rightarrow> filter_decision \<Rightarrow> screening" where
  "screen_query uc g decision =
    (let explicitly_allowed = (decision = Filter_ExplicitAllow) in
     \<lparr>sc_group = g, sc_cloaking = (\<not> explicitly_allowed),
      sc_detectors = (\<not> explicitly_allowed \<and> \<not> (case uc_exempt uc of Some exempt \<Rightarrow> exempt g | None \<Rightarrow> False))\<rparr>)"

datatype name_hit = Hit_Tunneling string | Hit_Dga string

text \<open>Every hit of the detectors on a name, in their order.\<close>

definition screen_name :: "('e, 'r, 'u) use_case \<Rightarrow> string \<Rightarrow> record_type \<Rightarrow> name_hit list" where
  "screen_name uc d rt =
    (case tunneling_check (uc_tunneling uc) d rt of Some signal \<Rightarrow> [Hit_Tunneling signal] | None \<Rightarrow> []) @
    (case uc_tunneling_flags uc of Some flagged \<Rightarrow> if flagged d then [Hit_Tunneling ''flagged_domain''] else [] | None \<Rightarrow> []) @
    (case uc_dga uc d of Some signal \<Rightarrow> [Hit_Dga signal] | None \<Rightarrow> []) @
    (case uc_dga_flags uc of Some flagged \<Rightarrow> if flagged d then [Hit_Dga ''flagged_domain''] else [] | None \<Rightarrow> [])"

definition apply_tunneling_action ::
  "('e, 'r, 'u) use_case \<Rightarrow> moment \<Rightarrow> dns_request \<Rightarrow> i64 \<Rightarrow> ('e, 'r, 'u) pipeline \<Rightarrow> (domain_error + unit) \<times> ('e, 'r, 'u) pipeline" where
  "apply_tunneling_action uc m rq g st =
    (case tg_action (uc_tunneling uc) of
       Action_Block \<Rightarrow> (Inl DnsTunnelingDetected, write_log uc (blocked_log uc m rq g ''TUNNELING_BLOCKED'' DnsTunneling) st)
     | Action_Alert \<Rightarrow> (Inr (), st))"

definition apply_dga_action ::
  "('e, 'r, 'u) use_case \<Rightarrow> moment \<Rightarrow> dns_request \<Rightarrow> i64 \<Rightarrow> ('e, 'r, 'u) pipeline \<Rightarrow> (domain_error + unit) \<times> ('e, 'r, 'u) pipeline" where
  "apply_dga_action uc m rq g st =
    (case uc_dga_action uc of
       Action_Block \<Rightarrow> (Inl DgaDomainDetected, write_log uc (blocked_log uc m rq g ''DGA_BLOCKED'' DgaDetection) st)
     | Action_Alert \<Rightarrow> (Inr (), st))"

fun apply_hits ::
  "('e, 'r, 'u) use_case \<Rightarrow> moment \<Rightarrow> dns_request \<Rightarrow> i64 \<Rightarrow> name_hit list \<Rightarrow> ('e, 'r, 'u) pipeline \<Rightarrow>
   (domain_error + unit) \<times> ('e, 'r, 'u) pipeline" where
  "apply_hits uc m rq g [] st = (Inr (), st)"
| "apply_hits uc m rq g (hit # hits) st =
    (case (case hit of Hit_Tunneling _ \<Rightarrow> apply_tunneling_action uc m rq g st | Hit_Dga _ \<Rightarrow> apply_dga_action uc m rq g st) of
       (Inl e, st1) \<Rightarrow> (Inl e, st1)
     | (Inr _, st1) \<Rightarrow> apply_hits uc m rq g hits st1)"

definition emit_tunneling_event ::
  "('e, 'r, 'u) use_case \<Rightarrow> dns_request \<Rightarrow> bool \<Rightarrow> ('e, 'r, 'u) pipeline \<Rightarrow> ('e, 'r, 'u) pipeline" where
  "emit_tunneling_event uc rq was_nxdomain st =
    (if uc_tunneling_events uc
     then st\<lparr>pl_tunneling_events := pl_tunneling_events st @ [(rq_domain rq, rq_type rq, rq_client rq, was_nxdomain)]\<rparr> else st)"

definition emit_dga_event :: "('e, 'r, 'u) use_case \<Rightarrow> dns_request \<Rightarrow> ('e, 'r, 'u) pipeline \<Rightarrow> ('e, 'r, 'u) pipeline" where
  "emit_dga_event uc rq st =
    (if uc_dga_events uc then st\<lparr>pl_dga_events := pl_dga_events st @ [(rq_domain rq, rq_client rq)]\<rparr> else st)"

fun is_cname_cloaked :: "'e filter_port \<Rightarrow> string list \<Rightarrow> i64 \<Rightarrow> 'e \<Rightarrow> (bool \<times> 'e) res" where
  "is_cname_cloaked fp [] g e = Got (False, e)"
| "is_cname_cloaked fp (d # ds) g e =
    and_then (port_check fp d g e) (\<lambda>(decision, e1).
      case decision of Filter_Block _ \<Rightarrow> Got (True, e1) | _ \<Rightarrow> is_cname_cloaked fp ds g e1)"

text \<open>The check of a chain that screening asks for, on the pipeline's state.\<close>

definition cloaked ::
  "('e, 'r, 'u) use_case \<Rightarrow> screening \<Rightarrow> string list \<Rightarrow> ('e, 'r, 'u) pipeline \<Rightarrow> (bool \<times> ('e, 'r, 'u) pipeline) res" where
  "cloaked uc sc chain st =
    (if sc_cloaking sc
     then and_then (is_cname_cloaked (uc_filter uc) chain (sc_group sc) (pl_filter st)) (\<lambda>(found, e). Got (found, st\<lparr>pl_filter := e\<rparr>))
     else Got (False, st))"

definition is_rebinding_attempt :: "('e, 'r, 'u) use_case \<Rightarrow> string \<Rightarrow> dns_resolution \<Rightarrow> bool" where
  "is_rebinding_attempt uc d r = (case uc_rebinding uc of Some guard \<Rightarrow> is_rebinding guard d r | None \<Rightarrow> False)"

definition is_suspicious_cached_answer :: "('e, 'r, 'u) use_case \<Rightarrow> string \<Rightarrow> dns_resolution \<Rightarrow> bool" where
  "is_suspicious_cached_answer uc d r \<longleftrightarrow>
    is_hijacked_response (uc_hijack uc) r \<or> has_blocked_ip (uc_ip_filter uc) r \<or> is_rebinding_attempt uc d r"

definition block_cname_cloaking ::
  "('e, 'r, 'u) use_case \<Rightarrow> moment \<Rightarrow> dns_request \<Rightarrow> dns_resolution \<Rightarrow> i64 \<Rightarrow> ('e, 'r, 'u) pipeline \<Rightarrow> domain_error \<times> ('e, 'r, 'u) pipeline" where
  "block_cname_cloaking uc m rq r g st =
    (let ttl = max (case re_min_ttl r of Some t \<Rightarrow> ucast t | None \<Rightarrow> 60) 5 :: u64;
         st1 = st\<lparr>pl_filter := port_cname (uc_filter uc) (rq_domain rq) g ttl (pl_filter st)\<rparr>
     in (Blocked, write_log uc (blocked_log uc m rq g ''BLOCKED'' CnameCloaking) st1))"

definition apply_rate_limit ::
  "('e, 'r, 'u) use_case \<Rightarrow> moment \<Rightarrow> rate_limit_decision \<Rightarrow> dns_request \<Rightarrow> i64 \<Rightarrow> ('e, 'r, 'u) pipeline \<Rightarrow>
   (domain_error + unit) \<times> ('e, 'r, 'u) pipeline" where
  "apply_rate_limit uc m decision rq g st =
    (case decision of
       Allow \<Rightarrow> (Inr (), st)
     | DryRunWouldRefuse \<Rightarrow> (Inr (), st)
     | Refuse \<Rightarrow> (Inl DnsRateLimited, write_log uc (blocked_log uc m rq g ''RATE_LIMITED'' RateLimit) st)
     | Slip \<Rightarrow> (Inl DnsRateLimitedSlip, write_log uc (blocked_log uc m rq g ''RATE_LIMITED_TC'' RateLimit) st))"

definition charge_nxdomain_answer ::
  "('e, 'r, 'u) use_case \<Rightarrow> moment \<Rightarrow> dns_request \<Rightarrow> i64 \<Rightarrow> ('e, 'r, 'u) pipeline \<Rightarrow> (domain_error + unit) \<times> ('e, 'r, 'u) pipeline" where
  "charge_nxdomain_answer uc m rq g st =
    (let (decision, l) = charge_nxdomain (pl_limiter st) (rq_client rq) (rq_protocol rq) (at_ns m)
     in apply_rate_limit uc m decision rq g (st\<lparr>pl_limiter := l\<rparr>))"

definition spends_nxdomain_budget :: "dns_resolution \<Rightarrow> bool" where
  "spends_nxdomain_budget r \<longleftrightarrow> re_upstream_nxdomain r \<and> \<not> re_local_dns r"

definition admit_upstream :: "('e, 'r, 'u) use_case \<Rightarrow> ('e, 'r, 'u) pipeline \<Rightarrow> (domain_error + unit) \<times> ('e, 'r, 'u) pipeline" where
  "admit_upstream uc st =
    (if \<not> uc_limited uc then (Inr (), st)
     else if 0 < pl_slots st then (Inr (), st\<lparr>pl_slots := pl_slots st - 1\<rparr>)
     else (Inl UpstreamCapacityExhausted, st\<lparr>pl_shed := pl_shed st + 1\<rparr>))"

definition release_slot :: "('e, 'r, 'u) use_case \<Rightarrow> ('e, 'r, 'u) pipeline \<Rightarrow> ('e, 'r, 'u) pipeline" where
  "release_slot uc st = (if uc_limited uc then st\<lparr>pl_slots := pl_slots st + 1\<rparr> else st)"

definition probe ::
  "('e, 'r, 'u) use_case \<Rightarrow> dns_query \<Rightarrow> ('e, 'r, 'u) pipeline \<Rightarrow> (dns_resolution option \<times> ('e, 'r, 'u) pipeline) res" where
  "probe uc q st = and_then (uc_probe uc q (pl_resolver st)) (\<lambda>(found, r). Got (found, st\<lparr>pl_resolver := r\<rparr>))"

section \<open>Answering from the cache\<close>

definition cache_gate ::
  "('e, 'r, 'u) use_case \<Rightarrow> string \<Rightarrow> record_type \<Rightarrow> ip_addr \<Rightarrow> ('e, 'r, 'u) pipeline \<Rightarrow>
   (screening option \<times> ('e, 'r, 'u) pipeline) res" where
  "cache_gate uc d rt ip st =
    (if (case uc_cookies uc of Some guard \<Rightarrow> cg_strict guard | None \<Rightarrow> False) then Got (None, st)
     else let (g, e) = port_group (uc_filter uc) ip (pl_filter st) in
       and_then (port_check (uc_filter uc) d g e) (\<lambda>(decision, e1).
         let st1 = st\<lparr>pl_filter := e1\<rparr> in
         case decision of
           Filter_Block _ \<Rightarrow> Got (None, st1)
         | _ \<Rightarrow>
             if \<not> is_allowed (pl_limiter st1) ip then Got (None, st1)
             else let sc = screen_query uc g decision in
               if sc_detectors sc \<and> screen_name uc d rt \<noteq> [] then Got (None, st1)
               else Got (Some sc, st1)))"

definition answer_cookie :: "('e, 'r, 'u) use_case \<Rightarrow> moment \<Rightarrow> ip_addr \<Rightarrow> bytes \<Rightarrow> bytes option \<times> cookie_status option" where
  "answer_cookie uc m ip opt_data =
    (case uc_cookies uc of
       None \<Rightarrow> (None, Some (status_without_guard opt_data))
     | Some guard \<Rightarrow>
         if length opt_data < 8 then (None, None)
         else let client_cookie = take 8 opt_data;
                  (server_cookie, status) = guard_answer (uc_hmac uc) (at_unix m) guard ip client_cookie opt_data
              in (edns_cookie_from_bytes (client_cookie @ server_cookie), Some status))"

definition cache_hit_log ::
  "string \<Rightarrow> record_type \<Rightarrow> ip_addr \<Rightarrow> client_protocol \<Rightarrow> i64 \<Rightarrow> dnssec_status option \<Rightarrow> query_log" where
  "cache_hit_log d rt ip protocol g dnssec =
    \<lparr>ql_domain = d, ql_type = rt, ql_client = ip, ql_blocked = False, ql_cache_hit = True, ql_dnssec = dnssec,
     ql_dns64 = False, ql_answers = None, ql_server = None, ql_pool = None, ql_status = ''NOERROR'',
     ql_protocol = Some protocol, ql_group = g, ql_source = None, ql_coalesced = None, ql_cookie = None\<rparr>"

text \<open>A probe without an answer: the query goes the slow way.\<close>

definition try_cache_wire_direct ::
  "('e, 'r, 'u) use_case \<Rightarrow> moment \<Rightarrow> string \<Rightarrow> record_type \<Rightarrow> ip_addr \<Rightarrow> client_protocol \<Rightarrow> bytes option \<Rightarrow>
   (bytes \<Rightarrow> u32 \<Rightarrow> bytes option \<Rightarrow> 'a option) \<Rightarrow> ('e, 'r, 'u) pipeline \<Rightarrow> ('a option \<times> ('e, 'r, 'u) pipeline) res" where
  "try_cache_wire_direct uc m d rt ip protocol cookie respond st =
    and_then (cache_gate uc d rt ip st) (\<lambda>(gate, st1).
      case gate of
        None \<Rightarrow> Got (None, st1)
      | Some sc \<Rightarrow>
          and_then (probe uc \<lparr>q_domain = d, q_type = rt, q_group = Some (sc_group sc)\<rparr> st1) (\<lambda>(found, st2).
            case found of
              None \<Rightarrow> Got (None, st2)
            | Some r \<Rightarrow>
                if spends_nxdomain_budget r \<and> limits_nxdomain (pl_limiter st2) then Got (None, st2)
                else and_then (cloaked uc sc (re_chain r) st2) (\<lambda>(bad, st3).
                  if bad then Got (None, st3)
                  else case (re_wire r, re_min_ttl r) of
                    (Some wire, Some remaining) \<Rightarrow>
                      (let (reply_cookie, status) =
                             (case cookie of Some opt_data \<Rightarrow> answer_cookie uc m ip opt_data | None \<Rightarrow> (None, None))
                       in case respond wire remaining reply_cookie of
                            None \<Rightarrow> Got (None, st3)
                          | Some reply \<Rightarrow>
                              Got (Some reply, write_log uc ((cache_hit_log d rt ip protocol (sc_group sc) (re_dnssec r))
                                \<lparr>ql_status := rcode_name r, ql_cookie := status\<rparr>) st3))
                  | _ \<Rightarrow> Got (None, st3))))"

text \<open>What \<open>try_cache_direct\<close> does with a hit.\<close>

definition serve_direct ::
  "('e, 'r, 'u) use_case \<Rightarrow> moment \<Rightarrow> string \<Rightarrow> record_type \<Rightarrow> ip_addr \<Rightarrow> client_protocol \<Rightarrow> bytes option \<Rightarrow>
   (ip_addr list \<Rightarrow> u32 \<Rightarrow> bytes option \<Rightarrow> 'a option) \<Rightarrow> screening \<Rightarrow> dns_resolution \<Rightarrow> ('e, 'r, 'u) pipeline \<Rightarrow>
   ('a option \<times> ('e, 'r, 'u) pipeline) res" where
  "serve_direct uc m d rt ip protocol cookie respond sc r st =
    (if re_addresses r = [] then Got (None, st)
     else and_then (cloaked uc sc (re_chain r) st) (\<lambda>(bad, st1).
       if bad \<or> sc_detectors sc \<and> is_suspicious_cached_answer uc d r then Got (None, st1)
       else
         let (reply_cookie, status) =
               (case cookie of Some opt_data \<Rightarrow> answer_cookie uc m ip opt_data | None \<Rightarrow> (None, None))
         in case respond (re_addresses r) (case re_min_ttl r of Some ttl \<Rightarrow> ttl | None \<Rightarrow> 60) reply_cookie of
              None \<Rightarrow> Got (None, st1)
            | Some reply \<Rightarrow>
                Got (Some reply, write_log uc ((cache_hit_log d rt ip protocol (sc_group sc) (re_dnssec r))
                  \<lparr>ql_dns64 := is_dns64_synthesized uc rt (re_addresses r), ql_answers := Some (re_addresses r),
                   ql_cookie := status\<rparr>) st1)))"

definition try_cache_direct ::
  "('e, 'r, 'u) use_case \<Rightarrow> moment \<Rightarrow> string \<Rightarrow> record_type \<Rightarrow> ip_addr \<Rightarrow> client_protocol \<Rightarrow> bytes option \<Rightarrow>
   (ip_addr list \<Rightarrow> u32 \<Rightarrow> bytes option \<Rightarrow> 'a option) \<Rightarrow> ('e, 'r, 'u) pipeline \<Rightarrow> ('a option \<times> ('e, 'r, 'u) pipeline) res" where
  "try_cache_direct uc m d rt ip protocol cookie respond st =
    and_then (cache_gate uc d rt ip st) (\<lambda>(gate, st1).
      case gate of
        None \<Rightarrow> Got (None, st1)
      | Some sc \<Rightarrow>
          and_then (probe uc \<lparr>q_domain = d, q_type = rt, q_group = Some (sc_group sc)\<rparr> st1) (\<lambda>(found, st2).
            case found of
              None \<Rightarrow> Got (None, st2)
            | Some r \<Rightarrow> serve_direct uc m d rt ip protocol cookie respond sc r st2))"

section \<open>The use case up to the upstream\<close>

datatype exec_step = Answered "domain_error + dns_resolution" | Wait_safe i64 dns_query | Wait screening dns_query

definition or_stop ::
  "(domain_error + unit) \<times> 's \<Rightarrow> ('s \<Rightarrow> (exec_step \<times> 's) res) \<Rightarrow> (exec_step \<times> 's) res" where
  "or_stop x f = (case x of (Inl e, st) \<Rightarrow> Got (Answered (Inl e), st) | (Inr _, st) \<Rightarrow> f st)"

definition check_cookie ::
  "('e, 'r, 'u) use_case \<Rightarrow> moment \<Rightarrow> dns_request \<Rightarrow> i64 \<Rightarrow> ('e, 'r, 'u) pipeline \<Rightarrow> (domain_error + unit) \<times> ('e, 'r, 'u) pipeline" where
  "check_cookie uc m rq g st =
    (if (case uc_cookies uc of Some guard \<Rightarrow> requires_cookie guard (rq_protocol rq) | None \<Rightarrow> False) \<and>
        ql_cookie (base_query_log uc m rq g) \<noteq> Some Cookie_Valid
     then (Inl DnsCookieInvalid,
       write_log uc (blocked_log uc m rq g (if rq_cookie rq \<noteq> None then ''BADCOOKIE'' else ''REFUSED'') DnsCookie) st)
     else (Inr (), st))"

definition safe_search_log :: "('e, 'r, 'u) use_case \<Rightarrow> moment \<Rightarrow> dns_request \<Rightarrow> i64 \<Rightarrow> dns_resolution \<Rightarrow> query_log" where
  "safe_search_log uc m rq g r =
    (base_query_log uc m rq g)\<lparr>ql_cache_hit := re_cache_hit r, ql_server := re_server r, ql_pool := re_pool r,
      ql_coalesced := re_coalesced r, ql_status := ''SAFE_SEARCH''\<rparr>"

definition start_safe_search ::
  "('e, 'r, 'u) use_case \<Rightarrow> moment \<Rightarrow> dns_request \<Rightarrow> i64 \<Rightarrow> string \<Rightarrow> ('e, 'r, 'u) pipeline \<Rightarrow> (exec_step \<times> ('e, 'r, 'u) pipeline) res" where
  "start_safe_search uc m rq g target st =
    (let q = \<lparr>q_domain = target, q_type = rq_type rq, q_group = Some g\<rparr> in
     and_then (probe uc q st) (\<lambda>(found, st1).
       let wait = or_stop (admit_upstream uc st1) (\<lambda>st2. Got (Wait_safe g q, st2)) in
       case found of
         None \<Rightarrow> wait
       | Some cached \<Rightarrow>
           if has_response_data cached
           then Got (Answered (Inr cached), write_log uc (safe_search_log uc m rq g cached) st1)
           else wait))"

definition serve_cached ::
  "('e, 'r, 'u) use_case \<Rightarrow> moment \<Rightarrow> dns_request \<Rightarrow> i64 \<Rightarrow> dns_resolution \<Rightarrow> ('e, 'r, 'u) pipeline \<Rightarrow> (exec_step \<times> ('e, 'r, 'u) pipeline) res" where
  "serve_cached uc m rq g r st =
    or_stop (if spends_nxdomain_budget r then charge_nxdomain_answer uc m rq g st else (Inr (), st)) (\<lambda>st1.
      Got (Answered (Inr r), write_log uc ((base_query_log uc m rq g)\<lparr>ql_cache_hit := True, ql_dnssec := re_dnssec r,
        ql_answers := Some (re_addresses r), ql_status := rcode_name r\<rparr>) st1))"

definition serve_cached_negative ::
  "('e, 'r, 'u) use_case \<Rightarrow> moment \<Rightarrow> dns_request \<Rightarrow> i64 \<Rightarrow> dns_resolution \<Rightarrow> ('e, 'r, 'u) pipeline \<Rightarrow> (exec_step \<times> ('e, 'r, 'u) pipeline) res" where
  "serve_cached_negative uc m rq g r st =
    or_stop (if re_local_nxdomain r then (Inr (), st) else charge_nxdomain_answer uc m rq g st) (\<lambda>st1.
      Got (Answered (Inl NxDomain), write_log uc ((base_query_log uc m rq g)\<lparr>ql_cache_hit := True, ql_status := ''NXDOMAIN''\<rparr>) st1))"

definition go_upstream ::
  "('e, 'r, 'u) use_case \<Rightarrow> dns_query \<Rightarrow> screening \<Rightarrow> ('e, 'r, 'u) pipeline \<Rightarrow> (exec_step \<times> ('e, 'r, 'u) pipeline) res" where
  "go_upstream uc q sc st = or_stop (admit_upstream uc st) (\<lambda>st1. Got (Wait sc q, st1))"

definition take_cached ::
  "('e, 'r, 'u) use_case \<Rightarrow> moment \<Rightarrow> dns_request \<Rightarrow> screening \<Rightarrow> dns_query \<Rightarrow> dns_resolution \<Rightarrow> ('e, 'r, 'u) pipeline \<Rightarrow>
   (exec_step \<times> ('e, 'r, 'u) pipeline) res" where
  "take_cached uc m rq sc q cached st =
    (if has_response_data cached then
       and_then (cloaked uc sc (re_chain cached) st) (\<lambda>(bad, st1).
         if bad then (case block_cname_cloaking uc m rq cached (sc_group sc) st1 of (e, st2) \<Rightarrow> Got (Answered (Inl e), st2))
         else if sc_detectors sc \<and> is_suspicious_cached_answer uc (rq_domain rq) cached then go_upstream uc q sc st1
         else serve_cached uc m rq (sc_group sc) cached st1)
     else if re_cache_hit cached then serve_cached_negative uc m rq (sc_group sc) cached st
     else go_upstream uc q sc st)"

definition start_lookup ::
  "('e, 'r, 'u) use_case \<Rightarrow> moment \<Rightarrow> dns_request \<Rightarrow> screening \<Rightarrow> ('e, 'r, 'u) pipeline \<Rightarrow> (exec_step \<times> ('e, 'r, 'u) pipeline) res" where
  "start_lookup uc m rq sc st =
    (let q = \<lparr>q_domain = rq_domain rq, q_type = rq_type rq, q_group = Some (sc_group sc)\<rparr> in
     and_then (probe uc q st) (\<lambda>(found, st1).
       case found of
         None \<Rightarrow> go_upstream uc q sc st1
       | Some cached \<Rightarrow> take_cached uc m rq sc q cached st1))"

text \<open>After the filter let the name through.\<close>

definition start_screened ::
  "('e, 'r, 'u) use_case \<Rightarrow> moment \<Rightarrow> dns_request \<Rightarrow> screening \<Rightarrow> ('e, 'r, 'u) pipeline \<Rightarrow> (exec_step \<times> ('e, 'r, 'u) pipeline) res" where
  "start_screened uc m rq sc st =
    or_stop (if sc_detectors sc then apply_hits uc m rq (sc_group sc) (screen_name uc (rq_domain rq) (rq_type rq)) st else (Inr (), st))
      (\<lambda>st1. case uc_safe_search uc (rq_domain rq) (sc_group sc) of
         Some target \<Rightarrow> start_safe_search uc m rq (sc_group sc) target st1
       | None \<Rightarrow> start_lookup uc m rq sc st1)"

definition start_filtered ::
  "('e, 'r, 'u) use_case \<Rightarrow> moment \<Rightarrow> dns_request \<Rightarrow> i64 \<Rightarrow> ('e, 'r, 'u) pipeline \<Rightarrow> (exec_step \<times> ('e, 'r, 'u) pipeline) res" where
  "start_filtered uc m rq g st =
    and_then (port_check (uc_filter uc) (rq_domain rq) g (pl_filter st)) (\<lambda>(decision, e).
      let st1 = st\<lparr>pl_filter := e\<rparr> in
      case decision of
        Filter_Block source \<Rightarrow> Got (Answered (Inl Blocked), write_log uc (blocked_log uc m rq g ''BLOCKED'' source) st1)
      | _ \<Rightarrow> start_screened uc m rq (screen_query uc g decision) st1)"

definition execute_start ::
  "('e, 'r, 'u) use_case \<Rightarrow> moment \<Rightarrow> dns_request \<Rightarrow> ('e, 'r, 'u) pipeline \<Rightarrow> (exec_step \<times> ('e, 'r, 'u) pipeline) res" where
  "execute_start uc m rq st =
    (let st1 = maybe_track_client uc m (rq_client rq) st;
         (g, e) = port_group (uc_filter uc) (rq_client rq) (pl_filter st1);
         (decision, l) = check (pl_limiter st1) (rq_client rq) (rq_protocol rq) (at_ns m);
         st2 = st1\<lparr>pl_filter := e, pl_limiter := l\<rparr>
     in or_stop (apply_rate_limit uc m decision rq g st2) (\<lambda>st3.
        or_stop (check_cookie uc m rq g st3) (start_filtered uc m rq g)))"

section \<open>The use case after the upstream\<close>

definition or_fail ::
  "(domain_error + unit) \<times> 's \<Rightarrow> ('s \<Rightarrow> (domain_error + 'a) \<times> 's) \<Rightarrow> (domain_error + 'a) \<times> 's" where
  "or_fail x f = (case x of (Inl e, st) \<Rightarrow> (Inl e, st) | (Inr _, st) \<Rightarrow> f st)"

definition guard_hijack ::
  "('e, 'r, 'u) use_case \<Rightarrow> moment \<Rightarrow> dns_request \<Rightarrow> screening \<Rightarrow> dns_resolution \<Rightarrow> ('e, 'r, 'u) pipeline \<Rightarrow>
   (domain_error + unit) \<times> ('e, 'r, 'u) pipeline" where
  "guard_hijack uc m rq sc r st =
    (if sc_detectors sc \<and> is_hijacked_response (uc_hijack uc) r then
       case ag_action (uc_hijack uc) of
         Action_Block \<Rightarrow> or_fail (charge_nxdomain_answer uc m rq (sc_group sc) st)
           (\<lambda>st1. (Inl NxDomain, write_log uc (blocked_log uc m rq (sc_group sc) ''NXDOMAIN_HIJACK'' NxdomainHijack) st1))
       | Action_Alert \<Rightarrow> (Inr (), st)
     else (Inr (), st))"

definition guard_ip_filter ::
  "('e, 'r, 'u) use_case \<Rightarrow> moment \<Rightarrow> dns_request \<Rightarrow> screening \<Rightarrow> dns_resolution \<Rightarrow> ('e, 'r, 'u) pipeline \<Rightarrow>
   (domain_error + unit) \<times> ('e, 'r, 'u) pipeline" where
  "guard_ip_filter uc m rq sc r st =
    (if sc_detectors sc \<and> has_blocked_ip (uc_ip_filter uc) r then
       case ag_action (uc_ip_filter uc) of
         Action_Block \<Rightarrow> (Inl Blocked, write_log uc (blocked_log uc m rq (sc_group sc) ''RESPONSE_IP_BLOCKED'' ResponseIpFilter) st)
       | Action_Alert \<Rightarrow> (Inr (), st)
     else (Inr (), st))"

definition refusal :: "('e, 'r, 'u) use_case \<Rightarrow> dns_request \<Rightarrow> dns_resolution \<Rightarrow> (string \<times> domain_error) option" where
  "refusal uc rq r =
    (if \<not> uc_enforce uc \<or> rq_cd rq then None
     else case re_dnssec r of
       Some Bogus \<Rightarrow> Some (''SERVFAIL_BOGUS'', DnssecBogus)
     | Some Indeterminate \<Rightarrow> Some (''SERVFAIL_INDETERMINATE'', DnssecIndeterminate)
     | _ \<Rightarrow> None)"

definition serve_resolved ::
  "('e, 'r, 'u) use_case \<Rightarrow> moment \<Rightarrow> dns_request \<Rightarrow> screening \<Rightarrow> dns_resolution \<Rightarrow> ('e, 'r, 'u) pipeline \<Rightarrow>
   (domain_error + dns_resolution) \<times> ('e, 'r, 'u) pipeline" where
  "serve_resolved uc m rq sc r st =
    (let g = sc_group sc; nx = spends_nxdomain_budget r;
         st1 = (if sc_detectors sc then emit_dga_event uc rq (emit_tunneling_event uc rq nx st) else st)
     in or_fail (if nx then charge_nxdomain_answer uc m rq g st1 else (Inr (), st1)) (\<lambda>st2.
       (Inr r, write_log uc ((base_query_log uc m rq g)\<lparr>ql_cache_hit := re_cache_hit r, ql_dnssec := re_dnssec r,
          ql_dns64 := is_dns64_synthesized uc (rq_type rq) (re_addresses r), ql_answers := Some (re_addresses r),
          ql_server := re_server r, ql_pool := re_pool r, ql_coalesced := re_coalesced r,
          ql_status := (if re_local_dns r then ''LOCAL_DNS'' else rcode_name r)\<rparr>) st2)))"

definition guard_answer_chain ::
  "('e, 'r, 'u) use_case \<Rightarrow> moment \<Rightarrow> dns_request \<Rightarrow> screening \<Rightarrow> dns_resolution \<Rightarrow> ('e, 'r, 'u) pipeline \<Rightarrow>
   (domain_error + dns_resolution) \<times> ('e, 'r, 'u) pipeline" where
  "guard_answer_chain uc m rq sc r st =
    (if sc_detectors sc \<and> is_rebinding_attempt uc (rq_domain rq) r
     then (Inl Blocked, write_log uc (blocked_log uc m rq (sc_group sc) ''BLOCKED'' DnsRebinding) st)
     else or_fail (guard_hijack uc m rq sc r st) (\<lambda>st1.
       or_fail (guard_ip_filter uc m rq sc r st1) (\<lambda>st2.
         case refusal uc rq r of
           Some (status, error) \<Rightarrow>
             (Inl error, write_log uc ((base_query_log uc m rq (sc_group sc))\<lparr>ql_dnssec := re_dnssec r, ql_status := status\<rparr>) st2)
         | None \<Rightarrow> serve_resolved uc m rq sc r st2)))"

definition finish_resolved ::
  "('e, 'r, 'u) use_case \<Rightarrow> moment \<Rightarrow> dns_request \<Rightarrow> screening \<Rightarrow> dns_resolution \<Rightarrow> ('e, 'r, 'u) pipeline \<Rightarrow>
   ((domain_error + dns_resolution) \<times> ('e, 'r, 'u) pipeline) res" where
  "finish_resolved uc m rq sc r st =
    and_then (cloaked uc sc (re_chain r) st) (\<lambda>(bad, st1).
      if bad then (case block_cname_cloaking uc m rq r (sc_group sc) st1 of (e, st2) \<Rightarrow> Got (Inl e, st2))
      else Got (guard_answer_chain uc m rq sc r st1))"

definition finish_failed ::
  "('e, 'r, 'u) use_case \<Rightarrow> moment \<Rightarrow> dns_request \<Rightarrow> screening \<Rightarrow> domain_error \<Rightarrow> ('e, 'r, 'u) pipeline \<Rightarrow>
   (domain_error + dns_resolution) \<times> ('e, 'r, 'u) pipeline" where
  "finish_failed uc m rq sc e st =
    (let g = sc_group sc; base = base_query_log uc m rq g in
     case e of
       LocalNxDomain \<Rightarrow> (Inl NxDomain, write_log uc (base\<lparr>ql_status := ''LOCAL_DNS''\<rparr>) st)
     | FilteredQuery source \<Rightarrow> (Inl (FilteredQuery source), write_log uc (blocked_log uc m rq g ''BLOCKED'' source) st)
     | NxDomain \<Rightarrow>
         (let st1 = (if sc_detectors sc then emit_dga_event uc rq (emit_tunneling_event uc rq True st) else st)
          in or_fail (charge_nxdomain_answer uc m rq g st1) (\<lambda>st2. (Inl NxDomain, write_log uc (base\<lparr>ql_status := ''NXDOMAIN''\<rparr>) st2)))
     | QueryTimeout \<Rightarrow> (Inl QueryTimeout, write_log uc (base\<lparr>ql_status := ''TIMEOUT''\<rparr>) st)
     | _ \<Rightarrow> (Inl e, write_log uc (base\<lparr>ql_status := ''SERVFAIL''\<rparr>) st))"

text \<open>The upstream's answer arrived; the slot is released however the query ends.\<close>

definition execute_end ::
  "('e, 'r, 'u) use_case \<Rightarrow> moment \<Rightarrow> dns_request \<Rightarrow> exec_step \<Rightarrow> domain_error + dns_resolution \<Rightarrow> ('e, 'r, 'u) pipeline \<Rightarrow>
   ((domain_error + dns_resolution) \<times> ('e, 'r, 'u) pipeline) res" where
  "execute_end uc m rq pending_step answer st =
    (case pending_step of
       Answered result \<Rightarrow> Got (result, st)
     | Wait_safe g q \<Rightarrow>
         (case answer of
            Inl e \<Rightarrow> Got (Inl e, release_slot uc st)
          | Inr r \<Rightarrow> Got (Inr r, release_slot uc (write_log uc (safe_search_log uc m rq g r) st)))
     | Wait sc q \<Rightarrow>
         (case answer of
            Inl e \<Rightarrow> (case finish_failed uc m rq sc e st of (result, st1) \<Rightarrow> Got (result, release_slot uc st1))
          | Inr r \<Rightarrow> and_then (finish_resolved uc m rq sc r st) (\<lambda>(result, st1). Got (result, release_slot uc st1))))"

end
