(* ===== verification/Query_Safety.thy ===== *)
theory Query_Safety
  imports Query_Pipeline
begin

text \<open>
  What the query pipeline guarantees: blocked names never reach the resolver, an answer that leaves
  it has passed every guard, the fast path answers what the use case would, every query is logged
  once and every slot is given back. The records of the pipeline are updated through a few
  operations, whose frames are collected first.
\<close>

section \<open>Outcomes\<close>

text \<open>A property of every result, where the ports it depends on do not panic.\<close>

definition whenever :: "'a res \<Rightarrow> ('a \<Rightarrow> bool) \<Rightarrow> bool" where
  "whenever m P \<longleftrightarrow> (\<forall>x. m = Got x \<longrightarrow> P x)"

lemma whenever_simps [simp]:
  "whenever (Got x) P = P x" "whenever Nothing P" "whenever Panic P"
  "whenever (and_then m f) P = whenever m (\<lambda>x. whenever (f x) P)"
  by (simp_all add: whenever_def and_then_Got) blast

lemma wheneverD: "whenever m P \<Longrightarrow> m = Got x \<Longrightarrow> P x"
  by (simp add: whenever_def)

lemma whenever_all: "(\<And>x. P x) \<Longrightarrow> whenever m P"
  by (simp add: whenever_def)

lemma whenever_if: "(b \<Longrightarrow> whenever m P) \<Longrightarrow> (\<not> b \<Longrightarrow> whenever n P) \<Longrightarrow> whenever (if b then m else n) P"
  by simp

lemma whenever_mono: "whenever m P \<Longrightarrow> (\<And>x. P x \<Longrightarrow> Q x) \<Longrightarrow> whenever m Q"
  by (simp add: whenever_def)

section \<open>Frames\<close>

definition same_rest :: "('e, 'r, 'u) pipeline \<Rightarrow> ('e, 'r, 'u) pipeline \<Rightarrow> bool" where
  "same_rest st st' \<longleftrightarrow> pl_filter st' = pl_filter st \<and> pl_resolver st' = pl_resolver st \<and> pl_slots st' = pl_slots st"

lemma write_log_fields [simp]:
  "pl_filter (write_log uc x st) = pl_filter st" "pl_resolver (write_log uc x st) = pl_resolver st"
  "pl_limiter (write_log uc x st) = pl_limiter st" "pl_slots (write_log uc x st) = pl_slots st"
  "pl_log (write_log uc x st) = (if uc_log uc then pl_log st @ [x] else pl_log st)"
  by (simp_all add: write_log_def)

lemma track_fields [simp]:
  "pl_filter (maybe_track_client uc m ip st) = pl_filter st" "pl_resolver (maybe_track_client uc m ip st) = pl_resolver st"
  "pl_limiter (maybe_track_client uc m ip st) = pl_limiter st" "pl_slots (maybe_track_client uc m ip st) = pl_slots st"
  "pl_log (maybe_track_client uc m ip st) = pl_log st"
  by (auto simp: maybe_track_client_def split: option.splits)

lemma emit_fields [simp]:
  "pl_filter (emit_dga_event uc rq st) = pl_filter st" "pl_resolver (emit_dga_event uc rq st) = pl_resolver st"
  "pl_slots (emit_dga_event uc rq st) = pl_slots st" "pl_log (emit_dga_event uc rq st) = pl_log st"
  "pl_filter (emit_tunneling_event uc rq nx st) = pl_filter st" "pl_resolver (emit_tunneling_event uc rq nx st) = pl_resolver st"
  "pl_slots (emit_tunneling_event uc rq nx st) = pl_slots st" "pl_log (emit_tunneling_event uc rq nx st) = pl_log st"
  by (simp_all add: emit_dga_event_def emit_tunneling_event_def)

lemma release_fields [simp]:
  "pl_filter (release_slot uc st) = pl_filter st" "pl_resolver (release_slot uc st) = pl_resolver st"
  "pl_log (release_slot uc st) = pl_log st" "pl_slots (release_slot uc st) = (if uc_limited uc then pl_slots st + 1 else pl_slots st)"
  by (simp_all add: release_slot_def)

lemma base_log_fields [simp]:
  "ql_domain (base_query_log uc m rq g) = rq_domain rq" "ql_client (base_query_log uc m rq g) = rq_client rq"
  "ql_blocked (base_query_log uc m rq g) = False" "ql_domain (blocked_log uc m rq g s b) = rq_domain rq"
  "ql_client (blocked_log uc m rq g s b) = rq_client rq" "ql_blocked (blocked_log uc m rq g s b) = True"
  by (simp_all add: base_query_log_def blocked_log_def)

text \<open>One line more in the log, about this request.\<close>

definition one_line :: "('e, 'r, 'u) use_case \<Rightarrow> dns_request \<Rightarrow> bool \<Rightarrow> ('e, 'r, 'u) pipeline \<Rightarrow> ('e, 'r, 'u) pipeline \<Rightarrow> bool" where
  "one_line uc rq blocked st st' \<longleftrightarrow>
    (if uc_log uc
     then \<exists>x. pl_log st' = pl_log st @ [x] \<and> ql_domain x = rq_domain rq \<and> ql_client x = rq_client rq \<and> ql_blocked x = blocked
     else pl_log st' = pl_log st)"

definition same_log :: "('e, 'r, 'u) pipeline \<Rightarrow> ('e, 'r, 'u) pipeline \<Rightarrow> bool" where
  "same_log st st' \<longleftrightarrow> pl_log st' = pl_log st"

text \<open>A guard either lets the query on and leaves no trace, or stops it with one blocked line.\<close>

definition guards :: "('e, 'r, 'u) use_case \<Rightarrow> dns_request \<Rightarrow> ('e, 'r, 'u) pipeline \<Rightarrow> (domain_error + unit) \<times> ('e, 'r, 'u) pipeline \<Rightarrow> bool" where
  "guards uc rq st x \<longleftrightarrow> same_rest st (snd x) \<and>
    (case fst x of Inl e \<Rightarrow> e \<noteq> UpstreamCapacityExhausted \<and> one_line uc rq True st (snd x) | Inr _ \<Rightarrow> same_log st (snd x))"

lemmas frames = same_rest_def same_log_def one_line_def

lemma guards_ok [simp]: "guards uc rq st (Inr u, st)"
  by (simp add: guards_def frames)

lemma guards_stop: "e \<noteq> UpstreamCapacityExhausted \<Longrightarrow> guards uc rq st (Inl e, write_log uc (blocked_log uc m rq g s b) st)"
  by (simp add: guards_def frames)

lemma guards_rate_limit: "guards uc rq st (apply_rate_limit uc m decision rq g st)"
  by (cases decision) (simp_all add: apply_rate_limit_def guards_stop)

lemma guards_limiter: "guards uc rq (st\<lparr>pl_limiter := l\<rparr>) x \<Longrightarrow> guards uc rq st x"
  by (auto simp: guards_def frames split: sum.splits)

lemma guards_charge: "guards uc rq st (charge_nxdomain_answer uc m rq g st)"
  unfolding charge_nxdomain_answer_def by (auto simp: Let_def intro: guards_limiter guards_rate_limit split: prod.split)

lemma guards_cookie: "guards uc rq st (check_cookie uc m rq g st)"
  by (simp add: check_cookie_def guards_stop)

lemma guards_hits: "guards uc rq st (apply_hits uc m rq g hits st)"
proof (induction hits arbitrary: st)
  case (Cons hit hits)
  have "guards uc rq st (case hit of Hit_Tunneling _ \<Rightarrow> apply_tunneling_action uc m rq g st | Hit_Dga _ \<Rightarrow> apply_dga_action uc m rq g st)"
    "snd (case hit of Hit_Tunneling _ \<Rightarrow> apply_tunneling_action uc m rq g st | Hit_Dga _ \<Rightarrow> apply_dga_action uc m rq g st) = st
      \<or> isl (fst (case hit of Hit_Tunneling _ \<Rightarrow> apply_tunneling_action uc m rq g st | Hit_Dga _ \<Rightarrow> apply_dga_action uc m rq g st))"
    by (auto simp: apply_tunneling_action_def apply_dga_action_def guards_stop split: name_hit.split guard_action.split)
  then show ?case using Cons by (auto split: prod.split sum.split)
qed simp

lemma guards_hijack: "guards uc rq st (guard_hijack uc m rq sc r st)"
proof -
  obtain y st1 where c: "charge_nxdomain_answer uc m rq (sc_group sc) st = (y, st1)" by fastforce
  then have "guards uc rq st (y, st1)" using guards_charge by metis
  then show ?thesis
    by (cases y) (auto simp: guard_hijack_def or_fail_def c guards_def frames split: guard_action.split)
qed

lemma guards_ip_filter: "guards uc rq st (guard_ip_filter uc m rq sc r st)"
  by (auto simp: guard_ip_filter_def guards_stop split: guard_action.split)

section \<open>Accounting\<close>

text \<open>
  A query that was answered left one line about it, not marked as blocked when it got an answer; a
  query that was shed left none.
\<close>

definition accounted ::
  "('e, 'r, 'u) use_case \<Rightarrow> dns_request \<Rightarrow> ('e, 'r, 'u) pipeline \<Rightarrow> domain_error + dns_resolution \<Rightarrow> ('e, 'r, 'u) pipeline \<Rightarrow> bool" where
  "accounted uc rq st res st' \<longleftrightarrow>
    (case res of Inr _ \<Rightarrow> one_line uc rq False st st' | Inl _ \<Rightarrow> one_line uc rq True st st' \<or> one_line uc rq False st st')"

definition started ::
  "('e, 'r, 'u) use_case \<Rightarrow> dns_request \<Rightarrow> ('e, 'r, 'u) pipeline \<Rightarrow> exec_step \<Rightarrow> ('e, 'r, 'u) pipeline \<Rightarrow> bool" where
  "started uc rq st x st' \<longleftrightarrow>
    (case x of
       Answered res \<Rightarrow> pl_slots st' = pl_slots st \<and>
         (if res = Inl UpstreamCapacityExhausted then same_log st st' else accounted uc rq st res st')
     | _ \<Rightarrow> same_log st st' \<and> pl_slots st = pl_slots st' + (if uc_limited uc then 1 else 0))"

lemmas accounts = accounted_def started_def frames

lemma started_stop:
  assumes "guards uc rq st x" "\<And>st1. x = (Inr (), st1) \<Longrightarrow> same_rest st st1 \<Longrightarrow> same_log st st1 \<Longrightarrow> whenever (f st1) (\<lambda>(y, st2). started uc rq st y st2)"
  shows "whenever (or_stop x f) (\<lambda>(y, st2). started uc rq st y st2)"
proof -
  obtain r st1 where x: "x = (r, st1)" by fastforce
  show ?thesis
  proof (cases r)
    case (Inl e)
    then show ?thesis using assms(1) by (auto simp: x or_stop_def guards_def accounts)
  next
    case (Inr u)
    then show ?thesis using assms by (simp add: x or_stop_def guards_def)
  qed
qed

text \<open>Steps that only the filter or the resolver see change nothing that is accounted.\<close>

lemma started_frame:
  "pl_log st1 = pl_log st \<Longrightarrow> pl_slots st1 = pl_slots st \<Longrightarrow> started uc rq st1 = started uc rq st"
  by (simp add: fun_eq_iff accounts split: exec_step.split sum.split)

lemma guards_frame:
  "guards uc rq st1 x \<Longrightarrow> same_rest st st1 \<Longrightarrow> same_log st st1 \<Longrightarrow> guards uc rq st x"
  by (auto simp: guards_def frames split: sum.splits)

lemma probe_fields:
  "probe uc q st = Got (found, st') \<Longrightarrow> \<exists>r. uc_probe uc q (pl_resolver st) = Got (found, r) \<and> st' = st\<lparr>pl_resolver := r\<rparr>"
  by (auto simp: probe_def and_then_Got)

lemma cloaked_fields:
  "cloaked uc sc chain st = Got (bad, st') \<Longrightarrow> \<exists>e. st' = st\<lparr>pl_filter := e\<rparr> \<and>
    (if sc_cloaking sc then is_cname_cloaked (uc_filter uc) chain (sc_group sc) (pl_filter st) = Got (bad, e)
     else \<not> bad \<and> e = pl_filter st)"
  by (auto simp: cloaked_def and_then_Got split: if_splits)

lemma started_admit:
  "started uc rq st (Wait sc q) st1 \<and> started uc rq st (Wait_safe g q) st1" if "admit_upstream uc st = (Inr (), st1)"
  using that by (auto simp: admit_upstream_def accounts split: if_splits)

lemma started_shed: "admit_upstream uc st = (Inl e, st1) \<Longrightarrow> started uc rq st (Answered (Inl e)) st1"
  by (auto simp: admit_upstream_def accounts split: if_splits)

lemma started_wait:
  assumes "x = Wait sc q \<or> x = Wait_safe g q" "pl_log st1 = pl_log st" "pl_slots st1 = pl_slots st"
  shows "whenever (or_stop (admit_upstream uc st1) (\<lambda>st2. Got (x, st2))) (\<lambda>(y, st2). started uc rq st y st2)"
proof -
  obtain r st2 where a: "admit_upstream uc st1 = (r, st2)" by fastforce
  have "started uc rq st = started uc rq st1" using started_frame [OF assms(2,3)] by metis
  then show ?thesis
    using a started_shed [of uc st1 _ st2 rq] started_admit [of uc st1 st2 rq sc q g] assms(1)
    by (cases r) (auto simp: or_stop_def)
qed

lemma started_upstream:
  "pl_log st1 = pl_log st \<Longrightarrow> pl_slots st1 = pl_slots st \<Longrightarrow> whenever (go_upstream uc q sc st1) (\<lambda>(y, st2). started uc rq st y st2)"
  unfolding go_upstream_def by (rule started_wait) simp_all

lemma whenever_probe:
  "whenever (probe uc q st) P \<longleftrightarrow> whenever (uc_probe uc q (pl_resolver st)) (\<lambda>(found, r). P (found, st\<lparr>pl_resolver := r\<rparr>))"
  by (simp add: probe_def case_prod_unfold)

lemma whenever_cloaked:
  "(\<And>bad e. P (bad, st\<lparr>pl_filter := e\<rparr>)) \<Longrightarrow> whenever (cloaked uc sc chain st) P"
  using cloaked_fields [of uc sc chain st] by (auto simp: whenever_def)

lemma started_safe: "whenever (start_safe_search uc m rq g target st) (\<lambda>(y, st2). started uc rq st y st2)"
proof -
  have "whenever (let wait = or_stop (admit_upstream uc (st\<lparr>pl_resolver := r\<rparr>)) (\<lambda>st2. Got (Wait_safe g q, st2)) in
      case found of None \<Rightarrow> wait
      | Some cached \<Rightarrow> if has_response_data cached
          then Got (Answered (Inr cached), write_log uc (safe_search_log uc m rq g cached) (st\<lparr>pl_resolver := r\<rparr>)) else wait)
      (\<lambda>(y, st2). started uc rq st y st2)" for found r q
    using started_wait [of "Wait_safe g q" undefined q g "st\<lparr>pl_resolver := r\<rparr>" st]
    by (cases found) (auto simp: Let_def safe_search_log_def accounts)
  then show ?thesis
    by (auto simp: start_safe_search_def Let_def whenever_probe intro!: whenever_all)
qed

lemma one_line_frame: "pl_log st1 = pl_log st \<Longrightarrow> one_line uc rq b st1 = one_line uc rq b st"
  by (simp add: one_line_def fun_eq_iff)

lemma started_line:
  assumes "guards uc rq st x" "\<And>st1. pl_slots (f st1) = pl_slots st1" "\<And>st1. one_line uc rq b st1 (f st1)"
    "res \<noteq> Inl UpstreamCapacityExhausted" "b = False \<or> isl res"
  shows "whenever (or_stop x (\<lambda>st1. Got (Answered res, f st1))) (\<lambda>(y, st2). started uc rq st y st2)"
proof (rule started_stop [OF assms(1)])
  fix st1 assume r: "same_rest st st1" "same_log st st1"
  then have "one_line uc rq b st (f st1)" using assms(3) [of st1] one_line_frame [of st1 st uc rq b] by (simp add: same_log_def)
  then show "whenever (Got (Answered res, f st1)) (\<lambda>(y, st2). started uc rq st y st2)"
    using assms(2,4,5) r(1) by (cases res; cases b) (auto simp: started_def accounted_def same_rest_def)
qed

lemma started_served: "whenever (serve_cached uc m rq g r st) (\<lambda>(y, st2). started uc rq st y st2)"
  unfolding serve_cached_def by (rule started_line [where b = False]) (simp_all add: guards_charge one_line_def)

lemma started_negative: "whenever (serve_cached_negative uc m rq g r st) (\<lambda>(y, st2). started uc rq st y st2)"
  unfolding serve_cached_negative_def by (rule started_line [where b = False]) (simp_all add: guards_charge one_line_def)

lemma cloaking_line:
  "block_cname_cloaking uc m rq r g st = (e, st') \<Longrightarrow> e = Blocked \<and> one_line uc rq True st st' \<and> pl_slots st' = pl_slots st"
  by (auto simp: block_cname_cloaking_def Let_def one_line_def)

lemma started_cached:
  assumes f: "pl_log st1 = pl_log st" "pl_slots st1 = pl_slots st"
  shows "whenever (take_cached uc m rq sc q cached st1) (\<lambda>(y, st2). started uc rq st y st2)" (is "whenever _ ?P")
proof -
  have "whenever (case block_cname_cloaking uc m rq cached g (st1\<lparr>pl_filter := e\<rparr>) of (e, st3) \<Rightarrow> Got (Answered (Inl e), st3)) ?P" for e g
    using cloaking_line [of uc m rq cached g "st1\<lparr>pl_filter := e\<rparr>"] f one_line_frame [of "st1\<lparr>pl_filter := e\<rparr>" st uc rq True]
    by (auto simp: started_def accounted_def split: prod.split)
  moreover have "whenever (go_upstream uc q sc (st1\<lparr>pl_filter := e\<rparr>)) ?P" for e using f by (intro started_upstream) simp_all
  moreover have "whenever (serve_cached uc m rq g cached (st1\<lparr>pl_filter := e\<rparr>)) ?P" for e g
    using started_served [of uc m rq g cached "st1\<lparr>pl_filter := e\<rparr>"] started_frame [of "st1\<lparr>pl_filter := e\<rparr>" st uc rq] f by simp
  moreover have "whenever (serve_cached_negative uc m rq g cached st1) ?P" for g
    using started_negative [of uc m rq g cached st1] started_frame [OF f, of uc rq] by simp
  ultimately show ?thesis
    unfolding take_cached_def whenever_simps
    by (intro whenever_if started_upstream [OF f]) (simp_all only: whenever_simps, rule whenever_cloaked, simp)
qed

lemma started_lookup: "whenever (start_lookup uc m rq sc st) (\<lambda>(y, st2). started uc rq st y st2)"
  unfolding start_lookup_def Let_def whenever_simps whenever_probe
  by (rule whenever_all) (simp add: started_cached started_upstream split: prod.split option.split)

lemma started_screened: "whenever (start_screened uc m rq sc st) (\<lambda>(y, st2). started uc rq st y st2)"
  unfolding start_screened_def
proof (rule started_stop)
  fix st1 assume "same_rest st st1" "same_log st st1"
  then have "started uc rq st1 = started uc rq st" by (intro started_frame) (simp_all add: frames)
  then show "whenever (case uc_safe_search uc (rq_domain rq) (sc_group sc) of
        Some target \<Rightarrow> start_safe_search uc m rq (sc_group sc) target st1 | None \<Rightarrow> start_lookup uc m rq sc st1)
      (\<lambda>(y, st2). started uc rq st y st2)"
    using started_safe [of uc m rq _ _ st1] started_lookup [of uc m rq sc st1] by (simp split: option.split)
qed (simp add: guards_hits)

lemma started_filtered: "whenever (start_filtered uc m rq g st) (\<lambda>(y, st2). started uc rq st y st2)"
proof -
  have eq: "started uc rq (st\<lparr>pl_filter := e\<rparr>) = started uc rq st" for e by (rule started_frame) simp_all
  have line: "started uc rq st (Answered (Inl Blocked)) (write_log uc (blocked_log uc m rq g s b) (st\<lparr>pl_filter := e\<rparr>))" for e s b
    by (simp add: started_def accounted_def one_line_def)
  have "whenever (start_screened uc m rq sc (st\<lparr>pl_filter := e\<rparr>)) (\<lambda>(y, st2). started uc rq st y st2)" for sc e
    using started_screened [of uc m rq sc "st\<lparr>pl_filter := e\<rparr>"] unfolding eq .
  then have "whenever (case x of (decision, e) \<Rightarrow> let st1 = st\<lparr>pl_filter := e\<rparr> in
      case decision of
        Filter_Block source \<Rightarrow> Got (Answered (Inl Blocked), write_log uc (blocked_log uc m rq g ''BLOCKED'' source) st1)
      | _ \<Rightarrow> start_screened uc m rq (screen_query uc g decision) st1) (\<lambda>(y, st2). started uc rq st y st2)" for x
    by (simp add: Let_def line split: prod.split filter_decision.split)
  then show ?thesis
    unfolding start_filtered_def whenever_simps by (rule whenever_all)
qed

lemma started_cookie: "whenever (or_stop (check_cookie uc m rq g st) (start_filtered uc m rq g)) (\<lambda>(y, st2). started uc rq st y st2)"
proof (rule started_stop [OF guards_cookie])
  fix st1 assume s: "same_rest st st1" "same_log st st1"
  have "started uc rq st1 = started uc rq st" using s by (intro started_frame) (simp_all add: frames)
  then show "whenever (start_filtered uc m rq g st1) (\<lambda>(y, st2). started uc rq st y st2)" using started_filtered [of uc m rq g st1] by simp
qed

lemma started_execute: "whenever (execute_start uc m rq st) (\<lambda>(y, st2). started uc rq st y st2)"
proof -
  obtain g e where g: "port_group (uc_filter uc) (rq_client rq) (pl_filter st) = (g, e)" by fastforce
  obtain decision l where l: "check (pl_limiter st) (rq_client rq) (rq_protocol rq) (at_ns m) = (decision, l)" by fastforce
  define st2 where "st2 = (maybe_track_client uc m (rq_client rq) st)\<lparr>pl_filter := e, pl_limiter := l\<rparr>"
  have run: "execute_start uc m rq st = or_stop (apply_rate_limit uc m decision rq g st2) (\<lambda>st3.
      or_stop (check_cookie uc m rq g st3) (start_filtered uc m rq g))"
    by (simp add: execute_start_def g l st2_def)
  have eq: "started uc rq st = started uc rq st2" unfolding st2_def by (rule started_frame) simp_all
  show ?thesis
    unfolding run eq
  proof (rule started_stop [OF guards_rate_limit])
    fix st3 assume s: "same_rest st2 st3" "same_log st2 st3"
    have "started uc rq st2 = started uc rq st3" using s by (intro started_frame) (simp_all add: frames)
    then show "whenever (or_stop (check_cookie uc m rq g st3) (start_filtered uc m rq g)) (\<lambda>(y, st2'). started uc rq st2 y st2')"
      using started_cookie [of uc m rq g st3] by simp
  qed
qed

text \<open>The same for what happens after the wait, which ends with an answer or an error.\<close>

definition ended ::
  "('e, 'r, 'u) use_case \<Rightarrow> dns_request \<Rightarrow> ('e, 'r, 'u) pipeline \<Rightarrow> (domain_error + dns_resolution) \<times> ('e, 'r, 'u) pipeline \<Rightarrow> bool" where
  "ended uc rq st x \<longleftrightarrow> pl_slots (snd x) = pl_slots st \<and> accounted uc rq st (fst x) (snd x)"

lemma accounted_frame: "pl_log st1 = pl_log st \<Longrightarrow> accounted uc rq st1 = accounted uc rq st"
  by (simp add: accounted_def one_line_def fun_eq_iff split: sum.split)

lemma ended_fail:
  assumes "guards uc rq st x" "\<And>st1. same_rest st st1 \<Longrightarrow> same_log st st1 \<Longrightarrow> ended uc rq st (f st1)"
  shows "ended uc rq st (or_fail x f)"
proof -
  obtain r st1 where x: "x = (r, st1)" by fastforce
  show ?thesis
    using assms by (cases r) (auto simp: x or_fail_def guards_def ended_def accounted_def same_rest_def)
qed

lemma ended_line:
  "same_rest st st1 \<Longrightarrow> same_log st st1 \<Longrightarrow> ql_domain x = rq_domain rq \<Longrightarrow> ql_client x = rq_client rq \<Longrightarrow> (ql_blocked x \<Longrightarrow> isl res) \<Longrightarrow>
    ended uc rq st (res, write_log uc x st1)"
  by (cases res) (auto simp: ended_def accounted_def frames)

lemma same_refl [simp]: "same_rest st st" "same_log st st"
  by (simp_all add: frames)

lemma ended_served: "ended uc rq st (serve_resolved uc m rq sc r st)"
  unfolding serve_resolved_def Let_def
  by (rule ended_fail) (auto intro!: guards_frame [OF guards_charge] guards_frame [OF guards_ok] ended_line simp: frames)

lemma ended_chain: "ended uc rq st (guard_answer_chain uc m rq sc r st)"
proof -
  have frame: "ended uc rq st x" if "ended uc rq st1 x" "same_rest st st1" "same_log st st1" for x st1
    using that accounted_frame [of st1 st uc rq] by (simp add: ended_def frames)
  have "ended uc rq st (case refusal uc rq r of
      Some (status, error) \<Rightarrow> (Inl error, write_log uc ((base_query_log uc m rq (sc_group sc))\<lparr>ql_dnssec := re_dnssec r, ql_status := status\<rparr>) st2)
    | None \<Rightarrow> serve_resolved uc m rq sc r st2)" if "same_rest st st2" "same_log st st2" for st2
    using that ended_served [of uc rq st2 m sc r] frame [of st2] by (auto intro: ended_line split: option.split prod.split)
  then have rest: "ended uc rq st (or_fail (guard_ip_filter uc m rq sc r st1) (\<lambda>st2. case refusal uc rq r of
      Some (status, error) \<Rightarrow> (Inl error, write_log uc ((base_query_log uc m rq (sc_group sc))\<lparr>ql_dnssec := re_dnssec r, ql_status := status\<rparr>) st2)
    | None \<Rightarrow> serve_resolved uc m rq sc r st2))" if "same_rest st st1" "same_log st st1" for st1
    using that by (intro ended_fail guards_frame [OF guards_ip_filter]) simp_all
  show ?thesis
  proof (cases "sc_detectors sc \<and> is_rebinding_attempt uc (rq_domain rq) r")
    case True
    then show ?thesis by (simp add: guard_answer_chain_def ended_line)
  next
    case False
    show ?thesis unfolding guard_answer_chain_def if_not_P [OF False] by (rule ended_fail [OF guards_hijack rest])
  qed
qed

lemma ended_failed: "ended uc rq st (finish_failed uc m rq sc e st)"
  unfolding finish_failed_def Let_def
  by (cases e) (auto intro!: ended_line ended_fail guards_frame [OF guards_charge] simp: frames)

lemma ended_resolved: "whenever (finish_resolved uc m rq sc r st) (ended uc rq st)"
proof -
  have "ended uc rq st (guard_answer_chain uc m rq sc r (st\<lparr>pl_filter := e\<rparr>))" for e
    using ended_chain [of uc rq "st\<lparr>pl_filter := e\<rparr>" m sc r] accounted_frame [of "st\<lparr>pl_filter := e\<rparr>" st uc rq] by (simp add: ended_def)
  moreover have "whenever (case block_cname_cloaking uc m rq r (sc_group sc) (st\<lparr>pl_filter := e\<rparr>) of (e, st2) \<Rightarrow> Got (Inl e, st2)) (ended uc rq st)" for e
    using cloaking_line [of uc m rq r "sc_group sc" "st\<lparr>pl_filter := e\<rparr>"] one_line_frame [of "st\<lparr>pl_filter := e\<rparr>" st uc rq True]
    by (auto simp: ended_def accounted_def split: prod.split)
  ultimately show ?thesis unfolding finish_resolved_def whenever_simps by (intro whenever_cloaked) simp
qed

section \<open>Properties\<close>

subsection \<open>Every query ends\<close>

definition returns :: "'a res \<Rightarrow> bool" where
  "returns m \<longleftrightarrow> (\<exists>x. m = Got x)"

text \<open>Neither the filter nor the probe of the cache panics.\<close>

definition ports_total :: "('e, 'r, 'u) use_case \<Rightarrow> bool" where
  "ports_total uc \<longleftrightarrow> (\<forall>d g e. returns (port_check (uc_filter uc) d g e)) \<and> (\<forall>q r. returns (uc_probe uc q r))"

lemma returns_Got [simp]: "returns (Got x)"
  by (simp add: returns_def)

lemma returns_and_then: "returns m \<Longrightarrow> (\<And>x. returns (f x)) \<Longrightarrow> returns (and_then m f)"
  by (auto simp: returns_def)

lemma returns_or_stop: "(\<And>s. returns (f s)) \<Longrightarrow> returns (or_stop x f)"
  by (auto simp: or_stop_def split: prod.split sum.split)

lemma returns_cname: "ports_total uc \<Longrightarrow> returns (is_cname_cloaked (uc_filter uc) chain g e)"
proof (induction chain arbitrary: e)
  case (Cons d ds)
  then show ?case by (auto simp: ports_total_def intro!: returns_and_then split: filter_decision.split)
qed simp

lemma returns_ports:
  assumes "ports_total uc"
  shows "returns (cloaked uc sc chain st)" "returns (probe uc q st)"
  using assms returns_cname [OF assms]
  by (auto simp: cloaked_def probe_def ports_total_def intro!: returns_and_then)

lemmas returns_intros = returns_and_then returns_or_stop returns_ports

lemma returns_start:
  assumes "ports_total uc"
  shows "returns (execute_start uc m rq st)"
proof -
  have up: "returns (go_upstream uc q sc st)" for q sc st by (auto simp: go_upstream_def intro!: returns_or_stop)
  have served: "returns (serve_cached uc m rq g r st)" "returns (serve_cached_negative uc m rq g r st)" for g r st
    by (auto simp: serve_cached_def serve_cached_negative_def intro!: returns_or_stop)
  have "returns (take_cached uc m rq sc q r st)" for sc q r st
    using assms by (auto simp: take_cached_def up served intro!: returns_intros split: prod.split)
  then have look: "returns (start_lookup uc m rq sc st)" for sc st
    using assms by (auto simp: start_lookup_def up Let_def intro!: returns_intros split: option.split)
  have safe: "returns (start_safe_search uc m rq g target st)" for g target st
    using assms by (auto simp: start_safe_search_def Let_def intro!: returns_intros split: option.split)
  have "returns (start_screened uc m rq sc st)" for sc st
    by (auto simp: start_screened_def look safe intro!: returns_or_stop split: option.split)
  then have "returns (start_filtered uc m rq g st)" for g st
    using assms unfolding start_filtered_def ports_total_def by (auto simp: Let_def intro!: returns_and_then split: filter_decision.split)
  then show ?thesis by (auto simp: execute_start_def Let_def intro!: returns_or_stop split: prod.split)
qed

lemma returns_end: "ports_total uc \<Longrightarrow> returns (execute_end uc m rq y answer st)"
  by (cases y; cases answer) (auto simp: execute_end_def finish_resolved_def intro!: returns_intros split: prod.split)


section \<open>Runs of the use case\<close>

text \<open>Up to the filter: either the limiter or the cookie check stops the query, or the filter sees it.\<close>

lemma execute_cases:
  assumes g: "port_group (uc_filter uc) (rq_client rq) (pl_filter st) = (g, e)"
    and l: "check (pl_limiter st) (rq_client rq) (rq_protocol rq) (at_ns m) = (decision, l)"
  obtains (stopped) err st' where "execute_start uc m rq st = Got (Answered (Inl err), st')"
      "err \<in> {DnsRateLimited, DnsRateLimitedSlip, DnsCookieInvalid}" "pl_resolver st' = pl_resolver st" "pl_slots st' = pl_slots st"
  | (filtered) st' where "execute_start uc m rq st = start_filtered uc m rq g st'" "pl_filter st' = e"
      "pl_resolver st' = pl_resolver st" "pl_slots st' = pl_slots st" "pl_log st' = pl_log st"
proof -
  define st2 where "st2 = (maybe_track_client uc m (rq_client rq) st)\<lparr>pl_filter := e, pl_limiter := l\<rparr>"
  have run: "execute_start uc m rq st = or_stop (apply_rate_limit uc m decision rq g st2) (\<lambda>st3.
      or_stop (check_cookie uc m rq g st3) (start_filtered uc m rq g))"
    by (simp add: execute_start_def g l st2_def)
  have f: "pl_resolver st2 = pl_resolver st" "pl_slots st2 = pl_slots st" "pl_log st2 = pl_log st" "pl_filter st2 = e"
    by (simp_all add: st2_def)
  show thesis
  proof (cases "decision = Allow \<or> decision = DryRunWouldRefuse")
    case True
    then have "execute_start uc m rq st = or_stop (check_cookie uc m rq g st2) (start_filtered uc m rq g)"
      by (auto simp: run apply_rate_limit_def or_stop_def)
    then show thesis
      using f filtered [of st2] stopped [of DnsCookieInvalid]
      by (cases "fst (check_cookie uc m rq g st2)") (auto simp: check_cookie_def or_stop_def split: if_splits)
  next
    case False
    then show thesis
      using f stopped by (cases decision) (auto simp: run apply_rate_limit_def or_stop_def)
  qed
qed

lemma execute_allowed:
  assumes "port_group (uc_filter uc) (rq_client rq) (pl_filter st) = (g, e)"
    and "check (pl_limiter st) (rq_client rq) (rq_protocol rq) (at_ns m) = (decision, l)" "decision = Allow \<or> decision = DryRunWouldRefuse"
    and "\<not> (case uc_cookies uc of Some guard \<Rightarrow> cg_strict guard | None \<Rightarrow> False)"
  shows "execute_start uc m rq st = start_filtered uc m rq g ((maybe_track_client uc m (rq_client rq) st)\<lparr>pl_filter := e, pl_limiter := l\<rparr>)"
  using assms by (auto simp: execute_start_def apply_rate_limit_def check_cookie_def or_stop_def requires_cookie_def split: option.splits)

lemma gate_blocked:
  assumes "port_group (uc_filter uc) ip (pl_filter st) = (g, e)" "port_check (uc_filter uc) d g e = Got (Filter_Block source, e')"
  shows "\<exists>st'. cache_gate uc d rt ip st = Got (None, st') \<and> pl_resolver st' = pl_resolver st"
  using assms by (simp add: cache_gate_def)

lemma gate_open:
  assumes "cache_gate uc d rt ip st = Got (Some sc, st')"
  obtains g e decision e' where "port_group (uc_filter uc) ip (pl_filter st) = (g, e)" "port_check (uc_filter uc) d g e = Got (decision, e')"
    "\<And>s. decision \<noteq> Filter_Block s" "sc = screen_query uc g decision" "st' = st\<lparr>pl_filter := e'\<rparr>"
    "sc_detectors sc \<Longrightarrow> screen_name uc d rt = []" "\<not> (case uc_cookies uc of Some guard \<Rightarrow> cg_strict guard | None \<Rightarrow> False)"
  using assms by (auto simp: cache_gate_def and_then_Got Let_def split: if_splits filter_decision.splits prod.splits)

lemma start_blocked:
  assumes g: "port_group (uc_filter uc) (rq_client rq) (pl_filter st) = (g, e)"
    and b: "port_check (uc_filter uc) (rq_domain rq) g e = Got (Filter_Block source, e')"
  shows "\<exists>err st'. execute_start uc m rq st = Got (Answered (Inl err), st') \<and>
    err \<in> {DnsRateLimited, DnsRateLimitedSlip, DnsCookieInvalid, Blocked} \<and> pl_resolver st' = pl_resolver st \<and> pl_slots st' = pl_slots st"
proof -
  obtain decision l where l: "check (pl_limiter st) (rq_client rq) (rq_protocol rq) (at_ns m) = (decision, l)" by fastforce
  show ?thesis using g l
  proof (cases rule: execute_cases)
    case (filtered st')
    then show ?thesis using b by (simp add: start_filtered_def)
  qed blast
qed

text \<open>
  C15. A name the filter blocks is never looked up: the use case answers with an error before it
  touches the cache, an upstream or a slot, and neither probe of the cache answers it.
\<close>

theorem blocked_never_resolved:
  assumes g: "port_group (uc_filter uc) (rq_client rq) (pl_filter st) = (g, e)"
    and b: "port_check (uc_filter uc) (rq_domain rq) g e = Got (Filter_Block source, e')"
  shows "(\<exists>err st'. execute_start uc m rq st = Got (Answered (Inl err), st') \<and>
      err \<in> {DnsRateLimited, DnsRateLimitedSlip, DnsCookieInvalid, Blocked} \<and> pl_resolver st' = pl_resolver st \<and> pl_slots st' = pl_slots st) \<and>
    (\<exists>st'. try_cache_direct uc m (rq_domain rq) (rq_type rq) (rq_client rq) protocol cookie respond st = Got (None, st') \<and>
      pl_resolver st' = pl_resolver st) \<and>
    (\<exists>st'. try_cache_wire_direct uc m (rq_domain rq) (rq_type rq) (rq_client rq) protocol cookie relay st = Got (None, st') \<and>
      pl_resolver st' = pl_resolver st)"
  using start_blocked [OF g b] gate_blocked [OF g b, of "rq_type rq"]
  by (auto simp: try_cache_direct_def try_cache_wire_direct_def)


section \<open>The fast path\<close>

lemma cloaked_transfer:
  assumes "cloaked uc sc chain st = Got (bad, st')" "pl_filter st2 = pl_filter st"
  shows "cloaked uc sc chain st2 = Got (bad, st2\<lparr>pl_filter := pl_filter st'\<rparr>)"
  using cloaked_fields [OF assms(1)] assms(2) by (auto simp: cloaked_def split: if_splits)

lemma filter_then_resolver:
  fixes st :: "('e, 'r, 'u) pipeline"
  shows "st\<lparr>pl_resolver := c, pl_filter := e\<rparr> = st\<lparr>pl_filter := e, pl_resolver := c\<rparr>"
  by simp

lemma fast_hit:
  assumes "try_cache_direct uc m d rt ip protocol cookie respond st = Got (Some reply, st')"
  obtains g e decision e1 r c e2 k where
    "port_group (uc_filter uc) ip (pl_filter st) = (g, e)" "port_check (uc_filter uc) d g e = Got (decision, e1)"
    "\<And>s. decision \<noteq> Filter_Block s" "sc_detectors (screen_query uc g decision) \<Longrightarrow> screen_name uc d rt = []"
    "\<not> (case uc_cookies uc of Some guard \<Rightarrow> cg_strict guard | None \<Rightarrow> False)"
    "uc_probe uc \<lparr>q_domain = d, q_type = rt, q_group = Some g\<rparr> (pl_resolver st) = Got (Some r, c)" "re_addresses r \<noteq> []"
    "cloaked uc (screen_query uc g decision) (re_chain r) (st\<lparr>pl_filter := e1, pl_resolver := c\<rparr>) = Got (False, st\<lparr>pl_filter := e2, pl_resolver := c\<rparr>)"
    "\<not> (sc_detectors (screen_query uc g decision) \<and> is_suspicious_cached_answer uc d r)"
    "respond (re_addresses r) (case re_min_ttl r of Some ttl \<Rightarrow> ttl | None \<Rightarrow> 60) (fst k) = Some reply"
    "k = (case cookie of Some opt_data \<Rightarrow> answer_cookie uc m ip opt_data | None \<Rightarrow> (None, None))"
    "st' = write_log uc ((cache_hit_log d rt ip protocol g (re_dnssec r))\<lparr>ql_dns64 := is_dns64_synthesized uc rt (re_addresses r),
       ql_answers := Some (re_addresses r), ql_cookie := snd k\<rparr>) (st\<lparr>pl_filter := e2, pl_resolver := c\<rparr>)"
proof -
  have grp: "sc_group (screen_query uc g decision) = g" for g decision by (simp add: screen_query_def Let_def)
  obtain sc st1 where gate: "cache_gate uc d rt ip st = Got (Some sc, st1)"
    using assms by (auto simp: try_cache_direct_def and_then_Got split: option.splits)
  then show thesis
  proof (rule gate_open)
    fix g e decision e1
    assume a: "port_group (uc_filter uc) ip (pl_filter st) = (g, e)" "port_check (uc_filter uc) d g e = Got (decision, e1)"
      "\<And>s. decision \<noteq> Filter_Block s" "sc = screen_query uc g decision" "st1 = st\<lparr>pl_filter := e1\<rparr>"
      "sc_detectors sc \<Longrightarrow> screen_name uc d rt = []" "\<not> (case uc_cookies uc of Some guard \<Rightarrow> cg_strict guard | None \<Rightarrow> False)"
    obtain r c where p: "uc_probe uc \<lparr>q_domain = d, q_type = rt, q_group = Some g\<rparr> (pl_resolver st) = Got (Some r, c)"
    proof -
      obtain found c where f: "uc_probe uc \<lparr>q_domain = d, q_type = rt, q_group = Some g\<rparr> (pl_resolver st) = Got (found, c)"
        using assms gate a(4,5)
        by (cases "uc_probe uc \<lparr>q_domain = d, q_type = rt, q_group = Some g\<rparr> (pl_resolver st)")
          (auto simp: try_cache_direct_def probe_def grp)
      moreover have "found \<noteq> None" using assms gate a(4,5) f by (cases found) (simp_all add: try_cache_direct_def probe_def grp)
      ultimately show ?thesis using that by blast
    qed
    have run: "try_cache_direct uc m d rt ip protocol cookie respond st =
        serve_direct uc m d rt ip protocol cookie respond sc r (st1\<lparr>pl_resolver := c\<rparr>)"
      using p by (simp add: try_cache_direct_def gate probe_def a(4,5) grp)
    have ne: "re_addresses r \<noteq> []" using assms by (auto simp: run serve_direct_def)
    obtain bad st3 where c3: "cloaked uc sc (re_chain r) (st1\<lparr>pl_resolver := c\<rparr>) = Got (bad, st3)"
      using assms ne by (auto simp: run serve_direct_def and_then_Got)
    obtain e2 where "st3 = st1\<lparr>pl_resolver := c, pl_filter := e2\<rparr>" using cloaked_fields [OF c3] by auto
    then have e2: "st3 = st\<lparr>pl_filter := e2, pl_resolver := c\<rparr>" by (simp add: a(5) filter_then_resolver)
    have c4: "cloaked uc sc (re_chain r) (st\<lparr>pl_filter := e1, pl_resolver := c\<rparr>) = Got (bad, st\<lparr>pl_filter := e2, pl_resolver := c\<rparr>)"
      using c3 unfolding a(5) e2 .
    show thesis
      using a p ne c4 assms unfolding run serve_direct_def a(5)
      by (intro that [of g e decision e1 r c e2]) (auto simp: grp split: if_splits option.splits prod.splits)
  qed
qed




section \<open>A small instance\<close>

text \<open>One group, one verdict for every name, and a cache that holds two names.\<close>

definition demo_answer :: "u32 \<Rightarrow> dns_resolution" where
  "demo_answer a = (new_resolution [V4 a] True)\<lparr>re_min_ttl := Some 300\<rparr>"

definition demo_probe :: "unit cache_probe" where
  "demo_probe q r = Got (if q_domain q = ''a.example'' then Some (demo_answer 1)
     else if q_domain q = ''safe.example'' then Some (demo_answer 2) else None, r)"

definition demo_filter :: "filter_decision \<Rightarrow> unit filter_port" where
  "demo_filter verdict =
    \<lparr>port_group = (\<lambda>_ e. (1, e)), port_check = (\<lambda>_ _ e. Got (verdict, e)), port_cname = (\<lambda>_ _ _ e. e)\<rparr>"

definition demo_case :: "'e filter_port \<Rightarrow> string option \<Rightarrow> ('e, unit, unit) use_case" where
  "demo_case port target =
    \<lparr>uc_filter = port, uc_probe = demo_probe, uc_safe_search = (\<lambda>_ _. target), uc_tracks = False, uc_interval_ns = 0,
     uc_seen_peek = (\<lambda>_ _. None), uc_seen_put = (\<lambda>u _ _. u), uc_rebinding = Some (new_rebinding_guard None),
     uc_tunneling = disabled_tunneling, uc_tunneling_events = False, uc_tunneling_flags = None,
     uc_hijack = new_answer_guard Action_Block (\<lambda>a. a = V4 7), uc_ip_filter = disabled_answer_guard,
     uc_dga = (\<lambda>_. None), uc_dga_action = Action_Block, uc_dga_events = False, uc_dga_flags = None, uc_exempt = None,
     uc_cookies = None, uc_hmac = (\<lambda>_ _. []), uc_limited = True, uc_enforce = True, uc_dns64 = None, uc_log = True\<rparr>"

definition demo_pipeline :: "'e \<Rightarrow> ('e, unit, unit) pipeline" where
  "demo_pipeline e =
    \<lparr>pl_filter = e, pl_resolver = (), pl_limiter = disabled_limiter, pl_log = [], pl_seen = (), pl_tracked = [],
     pl_tunneling_events = [], pl_dga_events = [], pl_slots = 1, pl_shed = 0\<rparr>"

definition demo_request :: dns_request where
  "demo_request = \<lparr>rq_domain = ''a.example'', rq_type = A, rq_client = V4 9, rq_cookie = None, rq_cd = False, rq_protocol = Some Udp\<rparr>"

definition demo_moment :: moment where "demo_moment = \<lparr>at_ns = 5, at_unix = 5\<rparr>"

definition demo_screening :: screening where "demo_screening = \<lparr>sc_group = 1, sc_cloaking = True, sc_detectors = True\<rparr>"

lemma demo_limiter: "check disabled_limiter ip p t = (Allow, disabled_limiter)" "is_allowed disabled_limiter ip"
  by (simp_all add: check_def is_allowed_def disabled_limiter_def new_limiter_def)

lemma demo_fast:
  obtains st1 where "try_cache_direct (demo_case (demo_filter Filter_Allow) target) demo_moment ''a.example'' A (V4 9) Udp None (\<lambda>as _ _. Some as)
    (demo_pipeline ()) = Got (Some [V4 1], st1)"
  by (simp add: try_cache_direct_def cache_gate_def serve_direct_def cloaked_def probe_def screen_name_def tunneling_check_def
      is_suspicious_cached_answer_def is_rebinding_attempt_def is_rebinding_def is_hijacked_response_def has_blocked_ip_def
      new_answer_guard_def disabled_answer_guard_def disabled_tunneling_def new_rebinding_guard_def is_private_ipv4_def
      screen_query_def Let_def demo_case_def demo_filter_def demo_pipeline_def demo_moment_def demo_probe_def demo_answer_def new_resolution_def demo_limiter)


theorem blocked_never_resolved_witness:
  "\<exists>st'. try_cache_direct (demo_case (demo_filter (Filter_Block Blocklist)) None) demo_moment ''a.example'' A (V4 9) Udp None (\<lambda>as _ _. Some as) (demo_pipeline ()) =
     Got (None, st')"
  using blocked_never_resolved [of "demo_case (demo_filter (Filter_Block Blocklist)) None" demo_request "demo_pipeline ()" 1 "()" Blocklist "()" demo_moment
      Udp None "\<lambda>as _ _. Some as"]
  by (auto simp: demo_case_def demo_filter_def demo_request_def)




end
