(* ===== verification/Cache_Layer.thy ===== *)
theory Cache_Layer
  imports Cache_Reach Query_Pipeline
begin

text \<open>
  The caching layer of the resolver (\<open>infrastructure/src/dns/resolver/cache_layer.rs\<close>): what it makes
  of a cache entry, what it stores of an answer, and how identical queries share one upstream
  request. The first query for a ky leads and asks the layer below; the others follow it through a
  channel that the leader sends one word on. The protocol is a step relation: a task takes one step
  at a time, other tasks and the rest of the server step in between, and a task that waits may be
  dropped. The router is a pair of functions.
\<close>

section \<open>Cache entries as resolutions\<close>

definition resolution_of_hit :: "local_record_status \<Rightarrow> cache_hit \<Rightarrow> dns_resolution" where
  "resolution_of_hit status hit =
    (case hit of (data, dnssec, min_ttl, local_answer) \<Rightarrow>
     let chain_of = (\<lambda>c. case c of Some chain \<Rightarrow> chain | None \<Rightarrow> []);
         (addresses, chain, wire, local_nxdomain) =
           (case data of
              IpAddresses a \<Rightarrow> (ca_addresses a, chain_of (ca_chain a), None, False)
            | CanonicalName name \<Rightarrow> ([], [name], None, False)
            | WireData w \<Rightarrow> ([], chain_of (cw_chain w), Some (cw_bytes w), False)
            | NegativeResponse \<Rightarrow> ([], [], None, local_answer))
     in \<lparr>re_addresses = addresses, re_cache_hit = True,
         re_local_dns = ((local_answer \<and> \<not> local_nxdomain) \<or> status \<noteq> NotLocal),
         re_local_nxdomain = local_nxdomain,
         re_upstream_nxdomain = (case wire of Some w \<Rightarrow> is_nxdomain w | None \<Rightarrow> False),
         re_coalesced = None, re_dnssec = Option.bind dnssec dnssec_to_domain, re_chain = chain,
         re_server = None, re_pool = None, re_min_ttl = min_ttl, re_soa_ttl = None, re_wire = wire\<rparr>)"

definition check_cache_str ::
  "'l cache_env \<Rightarrow> (nat \<Rightarrow> u64) \<Rightarrow> nat \<Rightarrow> bool \<Rightarrow> string \<Rightarrow> record_type \<Rightarrow> u32 \<Rightarrow> 'l dns_cache \<Rightarrow>
   (dns_resolution option \<times> 'l dns_cache) res" where
  "check_cache_str env clk t sends d rt view c =
    (let status = local_record_status d rt c;
         read = (\<lambda>v. and_then (get_in env clk t sends d rt v c) (\<lambda>(hit, c1). Got (map_option (resolution_of_hit status) hit, c1)))
     in case status of
          MissingType \<Rightarrow> Got (Some (resolution_of_hit status (NegativeResponse, None, None, False)), c)
        | Present \<Rightarrow> read 0
        | NotLocal \<Rightarrow> read view)"

text \<open>The router: the view a route keys its answers with, and whether any route is scoped to a group.\<close>

record router =
  ro_route :: "string \<Rightarrow> i64 option \<Rightarrow> u32 option"
  ro_group_routes :: bool

definition layer_view :: "router option \<Rightarrow> string \<Rightarrow> i64 option \<Rightarrow> u32" where
  "layer_view router d gr =
    (case router of
       Some ro \<Rightarrow> if gr \<noteq> None \<and> ro_group_routes ro then (case ro_route ro d gr of Some v \<Rightarrow> v | None \<Rightarrow> 0) else 0
     | None \<Rightarrow> 0)"

definition layer_route :: "router option \<Rightarrow> dns_query \<Rightarrow> u32 option" where
  "layer_route router q = Option.bind router (\<lambda>ro. ro_route ro (q_domain q) (q_group q))"

definition check_cache ::
  "router option \<Rightarrow> 'l cache_env \<Rightarrow> (nat \<Rightarrow> u64) \<Rightarrow> nat \<Rightarrow> bool \<Rightarrow> dns_query \<Rightarrow> 'l dns_cache \<Rightarrow>
   (dns_resolution option \<times> 'l dns_cache) res" where
  "check_cache router env clk t sends q c =
    check_cache_str env clk t sends (q_domain q) (q_type q) (layer_view router (q_domain q) (q_group q)) c"

section \<open>Storing answers\<close>

definition insert_negative ::
  "'l cache_env \<Rightarrow> (nat \<Rightarrow> u64) \<Rightarrow> nat \<Rightarrow> cache_key \<Rightarrow> u32 \<Rightarrow> bool \<Rightarrow> 'l dns_cache \<Rightarrow> 'l dns_cache res" where
  "insert_negative env clk t ky ttl local_dns c = store env clk t ky NegativeResponse ttl (Some Cached_insecure) local_dns c"

definition stored_part :: "dns_resolution \<Rightarrow> resolution" where
  "stored_part r = \<lparr>res_addresses = re_addresses r, res_wire = re_wire r, res_chain = re_chain r\<rparr>"

definition store_in_cache ::
  "'l cache_env \<Rightarrow> u32 \<Rightarrow> (nat \<Rightarrow> u64) \<Rightarrow> nat \<Rightarrow> cache_key \<Rightarrow> dns_resolution \<Rightarrow> 'l dns_cache \<Rightarrow> 'l dns_cache res" where
  "store_in_cache env cache_ttl clk t ky r c =
    (if (case re_dnssec r of Some status \<Rightarrow> is_unvalidated status | None \<Rightarrow> False) then Got c
     else
       let dnssec = (case re_dnssec r of Some status \<Rightarrow> dnssec_from status | None \<Rightarrow> Cached_unknown) in
       case from_resolution (stored_part r) of
         None \<Rightarrow> insert_negative env clk t ky (case re_soa_ttl r of Some ttl \<Rightarrow> ttl | None \<Rightarrow> MIN_NEGATIVE_TTL) (re_local_dns r) c
       | Some data \<Rightarrow>
           let ttl = (if re_addresses r = []
                      then (case re_min_ttl r of None \<Rightarrow> negative_ttl (re_soa_ttl r) | Some ttl \<Rightarrow> max ttl 1)
                      else (case re_min_ttl r of Some ttl \<Rightarrow> ttl | None \<Rightarrow> cache_ttl))
           in store env clk t ky data ttl (Some dnssec) (re_local_dns r) c)"

definition cached_outcome :: "dns_resolution \<Rightarrow> domain_error + dns_resolution" where
  "cached_outcome cached =
    (if has_response_data cached then Inr cached
     else if re_local_nxdomain cached then Inl LocalNxDomain else Inl NxDomain)"

section \<open>Identical queries in flight\<close>

record inflight_result =
  if_addresses :: "ip_addr list"
  if_cache_hit :: bool
  if_local_dns :: bool
  if_upstream_nxdomain :: bool
  if_chain :: "string list"
  if_dnssec :: "dnssec_status option"
  if_server :: "string option"
  if_pool :: "string option"
  if_min_ttl :: "u32 option"
  if_wire :: "bytes option"

definition to_resolution :: "inflight_result \<Rightarrow> dns_resolution" where
  "to_resolution w =
    \<lparr>re_addresses = if_addresses w, re_cache_hit = if_cache_hit w, re_local_dns = if_local_dns w, re_local_nxdomain = False,
     re_upstream_nxdomain = if_upstream_nxdomain w, re_coalesced = Some Role_Follower, re_dnssec = if_dnssec w,
     re_chain = if_chain w, re_server = if_server w, re_pool = if_pool w, re_min_ttl = if_min_ttl w, re_soa_ttl = None,
     re_wire = if_wire w\<rparr>"

definition inflight_of :: "dns_resolution \<Rightarrow> inflight_result" where
  "inflight_of r =
    \<lparr>if_addresses = re_addresses r, if_cache_hit = re_cache_hit r, if_local_dns = re_local_dns r,
     if_upstream_nxdomain = re_upstream_nxdomain r, if_chain = re_chain r, if_dnssec = re_dnssec r,
     if_server = re_server r, if_pool = re_pool r, if_min_ttl = re_min_ttl r, if_wire = re_wire r\<rparr>"

text \<open>
  Where a task is: about to register, waiting for its leader's word, leading before and after its
  look at the cache, holding a channel it has taken out of the map and will send its word on (what
  it hands out, and what it returns if anything), rechecking the cache after an empty word, or done.
\<close>

datatype task =
    Entering dns_query
  | Follower dns_query nat
  | Elected dns_query cache_key nat
  | Asking dns_query cache_key nat
  | Sending nat "dns_resolution option" "(domain_error + dns_resolution) option"
  | Rechecking dns_query
  | Finished "domain_error + dns_resolution"

record 'l layer =
  ly_cache :: "'l dns_cache"
  ly_inflight :: "(cache_key \<times> nat) list"
  ly_sent :: "nat \<Rightarrow> inflight_result option option"
  ly_fresh :: nat
  ly_tasks :: "(nat \<times> task) list"

definition new_layer :: "'l dns_cache \<Rightarrow> 'l layer" where
  "new_layer c = \<lparr>ly_cache = c, ly_inflight = [], ly_sent = (\<lambda>_. None), ly_fresh = 0, ly_tasks = []\<rparr>"

definition set_task :: "nat \<Rightarrow> task \<Rightarrow> 'l layer \<Rightarrow> 'l layer" where
  "set_task i x s = s\<lparr>ly_tasks := AList.update i x (ly_tasks s)\<rparr>"

definition drop_task :: "nat \<Rightarrow> 'l layer \<Rightarrow> 'l layer" where
  "drop_task i s = s\<lparr>ly_tasks := AList.delete i (ly_tasks s)\<rparr>"

definition finish_task :: "nat \<Rightarrow> (domain_error + dns_resolution) option \<Rightarrow> 'l layer \<Rightarrow> 'l layer" where
  "finish_task i result s = (case result of Some r \<Rightarrow> set_task i (Finished r) s | None \<Rightarrow> drop_task i s)"

definition register_or_join_inflight :: "cache_key \<Rightarrow> 'l layer \<Rightarrow> bool \<times> nat \<times> 'l layer" where
  "register_or_join_inflight ky s =
    (case map_of (ly_inflight s) ky of
       Some ch \<Rightarrow> (False, ch, s)
     | None \<Rightarrow> (True, ly_fresh s, s\<lparr>ly_inflight := AList.update ky (ly_fresh s) (ly_inflight s), ly_fresh := ly_fresh s + 1\<rparr>))"

definition resolve_layer :: "router option \<Rightarrow> nat \<Rightarrow> dns_query \<Rightarrow> 'l layer \<Rightarrow> 'l layer" where
  "resolve_layer router i q s =
    (let view = (case layer_route router q of Some v \<Rightarrow> v | None \<Rightarrow> 0);
         ky = in_view view (new_key (q_domain q) (q_type q));
         (is_leader, ch, s1) = register_or_join_inflight ky s
     in set_task i (if is_leader then Elected q ky ch else Follower q ch) s1)"

text \<open>Taking the leader's entry out of the map: by publishing, or by the guard that drops.\<close>

definition take_slot :: "nat \<Rightarrow> cache_key \<Rightarrow> dns_resolution option \<Rightarrow> (domain_error + dns_resolution) option \<Rightarrow> 'l layer \<Rightarrow> 'l layer" where
  "take_slot i ky word result s =
    (case map_of (ly_inflight s) ky of
       None \<Rightarrow> finish_task i result s
     | Some ch \<Rightarrow> set_task i (Sending ch word result) (s\<lparr>ly_inflight := AList.delete ky (ly_inflight s)\<rparr>))"

definition lead_check ::
  "'l cache_env \<Rightarrow> (nat \<Rightarrow> u64) \<Rightarrow> nat \<Rightarrow> bool \<Rightarrow> nat \<Rightarrow> dns_query \<Rightarrow> cache_key \<Rightarrow> nat \<Rightarrow> 'l layer \<Rightarrow> 'l layer res" where
  "lead_check env clk t sends i q ky ch s =
    and_then (check_cache_str env clk t sends (q_domain q) (q_type q) (ck_view ky) (ly_cache s)) (\<lambda>(found, c).
      let s1 = s\<lparr>ly_cache := c\<rparr> in
      Got (case found of
             Some cached \<Rightarrow> take_slot i ky (Some cached) (Some (cached_outcome cached)) s1
           | None \<Rightarrow> set_task i (Asking q ky ch) s1))"

definition lead_answer ::
  "'l cache_env \<Rightarrow> u32 \<Rightarrow> (nat \<Rightarrow> u64) \<Rightarrow> nat \<Rightarrow> nat \<Rightarrow> cache_key \<Rightarrow> domain_error + dns_resolution \<Rightarrow> 'l layer \<Rightarrow> 'l layer res" where
  "lead_answer env cache_ttl clk t i ky result s =
    (case result of
       Inr r \<Rightarrow> and_then (store_in_cache env cache_ttl clk t ky r (ly_cache s)) (\<lambda>c.
         Got (take_slot i ky (Some r) (Some result) (s\<lparr>ly_cache := c\<rparr>)))
     | Inl NxDomain \<Rightarrow> and_then (insert_negative env clk t ky MIN_NEGATIVE_TTL False (ly_cache s)) (\<lambda>c.
         Got (take_slot i ky None (Some result) (s\<lparr>ly_cache := c\<rparr>)))
     | Inl LocalNxDomain \<Rightarrow> and_then (insert_negative env clk t ky MIN_NEGATIVE_TTL True (ly_cache s)) (\<lambda>c.
         Got (take_slot i ky None (Some result) (s\<lparr>ly_cache := c\<rparr>)))
     | Inl _ \<Rightarrow> Got (take_slot i ky None (Some result) (s\<lparr>ly_cache := record_transient_upstream_error (ly_cache s)\<rparr>)))"

definition follows :: "nat \<Rightarrow> nat \<times> task \<Rightarrow> bool" where
  "follows ch x \<longleftrightarrow> (case snd x of Follower _ c \<Rightarrow> c = ch | _ \<Rightarrow> False)"

definition send_word :: "nat \<Rightarrow> nat \<Rightarrow> dns_resolution option \<Rightarrow> (domain_error + dns_resolution) option \<Rightarrow> 'l layer \<Rightarrow> 'l layer" where
  "send_word i ch word result s =
    (let carried = (case word of Some r \<Rightarrow> if has_response_data r then Some r else None | None \<Rightarrow> None);
         result1 = (case carried of
                      Some r \<Rightarrow> if list_ex (follows ch) (ly_tasks s) then Some (Inr (r\<lparr>re_coalesced := Some Role_Leader\<rparr>)) else result
                    | None \<Rightarrow> result)
     in finish_task i result1 (s\<lparr>ly_sent := (ly_sent s)(ch := Some (map_option inflight_of carried))\<rparr>))"

definition follower_word :: "nat \<Rightarrow> dns_query \<Rightarrow> inflight_result option \<Rightarrow> 'l layer \<Rightarrow> 'l layer" where
  "follower_word i q word s =
    (case word of Some w \<Rightarrow> set_task i (Finished (Inr (to_resolution w))) s | None \<Rightarrow> set_task i (Rechecking q) s)"

definition recheck ::
  "router option \<Rightarrow> 'l cache_env \<Rightarrow> (nat \<Rightarrow> u64) \<Rightarrow> nat \<Rightarrow> bool \<Rightarrow> nat \<Rightarrow> dns_query \<Rightarrow> 'l layer \<Rightarrow> 'l layer res" where
  "recheck router env clk t sends i q s =
    and_then (check_cache router env clk t sends q (ly_cache s)) (\<lambda>(found, c).
      let s1 = s\<lparr>ly_cache := c\<rparr> in
      Got (case found of Some cached \<Rightarrow> set_task i (Finished (cached_outcome cached)) s1 | None \<Rightarrow> set_task i (Entering q) s1))"

section \<open>Steps\<close>

text \<open>
  One step of one task. A task may be dropped while it waits: a follower just leaves, a leader's
  guard takes its entry out of the map. \<open>outside\<close> is everything else that happens to the cache.
\<close>

inductive layer_step :: "router option \<Rightarrow> 'l cache_env \<Rightarrow> u32 \<Rightarrow> 'l layer \<Rightarrow> 'l layer \<Rightarrow> bool"
  for router env cache_ttl where
  arrives: "map_of (ly_tasks s) i = None \<Longrightarrow> layer_step router env cache_ttl s (set_task i (Entering q) s)"
| enters: "map_of (ly_tasks s) i = Some (Entering q) \<Longrightarrow> layer_step router env cache_ttl s (resolve_layer router i q s)"
| leads: "map_of (ly_tasks s) i = Some (Elected q ky ch) \<Longrightarrow> lead_check env clk t sends i q ky ch s = Got s' \<Longrightarrow>
    layer_step router env cache_ttl s s'"
| answered: "map_of (ly_tasks s) i = Some (Asking q ky ch) \<Longrightarrow> lead_answer env cache_ttl clk t i ky result s = Got s' \<Longrightarrow>
    layer_step router env cache_ttl s s'"
| abandoned: "map_of (ly_tasks s) i = Some (Asking q ky ch) \<Longrightarrow> layer_step router env cache_ttl s (take_slot i ky None None s)"
| sends: "map_of (ly_tasks s) i = Some (Sending ch word result) \<Longrightarrow> layer_step router env cache_ttl s (send_word i ch word result s)"
| wakes: "map_of (ly_tasks s) i = Some (Follower q ch) \<Longrightarrow> ly_sent s ch = Some word \<Longrightarrow>
    layer_step router env cache_ttl s (follower_word i q word s)"
| leaves: "map_of (ly_tasks s) i = Some (Follower q ch) \<Longrightarrow> layer_step router env cache_ttl s (drop_task i s)"
| rechecks: "map_of (ly_tasks s) i = Some (Rechecking q) \<Longrightarrow> recheck router env clk t sends i q s = Got s' \<Longrightarrow>
    layer_step router env cache_ttl s s'"
| reaped: "map_of (ly_tasks s) i = Some (Finished r) \<Longrightarrow> layer_step router env cache_ttl s (drop_task i s)"
| outside: "layer_step router env cache_ttl s (s\<lparr>ly_cache := c\<rparr>)"

inductive reachable_layer :: "router option \<Rightarrow> 'l cache_env \<Rightarrow> u32 \<Rightarrow> 'l layer \<Rightarrow> bool"
  for router env cache_ttl where
  start: "reachable_layer router env cache_ttl (new_layer c)"
| steps: "reachable_layer router env cache_ttl s \<Longrightarrow> layer_step router env cache_ttl s s' \<Longrightarrow> reachable_layer router env cache_ttl s'"

section \<open>One leader for each key\<close>

text \<open>What a task has to do with a channel: it owns it, it leads a key over it, or it waits on it.\<close>

fun owned :: "task option \<Rightarrow> nat option" where
  "owned (Some (Elected q ky ch)) = Some ch"
| "owned (Some (Asking q ky ch)) = Some ch"
| "owned (Some (Sending ch word result)) = Some ch"
| "owned _ = None"

fun led :: "task option \<Rightarrow> (cache_key \<times> nat) option" where
  "led (Some (Elected q ky ch)) = Some (ky, ch)"
| "led (Some (Asking q ky ch)) = Some (ky, ch)"
| "led _ = None"

fun awaited :: "task option \<Rightarrow> nat option" where
  "awaited (Some (Follower q ch)) = Some ch"
| "awaited _ = None"

definition channels_ok ::
  "(nat \<Rightarrow> nat option) \<Rightarrow> (nat \<Rightarrow> (cache_key \<times> nat) option) \<Rightarrow> (nat \<Rightarrow> nat option) \<Rightarrow>
   (cache_key \<Rightarrow> nat option) \<Rightarrow> (nat \<Rightarrow> inflight_result option option) \<Rightarrow> nat \<Rightarrow> bool" where
  "channels_ok Own Lead Wt Slot sent fresh \<longleftrightarrow>
    (\<forall>i ky ch. Lead i = Some (ky, ch) \<longrightarrow> Slot ky = Some ch \<and> Own i = Some ch) \<and>
    (\<forall>i j ch. Own i = Some ch \<and> Own j = Some ch \<longrightarrow> i = j) \<and>
    (\<forall>ky ch. Slot ky = Some ch \<longrightarrow> (\<exists>i. Lead i = Some (ky, ch))) \<and>
    (\<forall>i ch. Own i = Some ch \<longrightarrow> ch < fresh \<and> sent ch = None) \<and>
    (\<forall>i ch. Wt i = Some ch \<longrightarrow> sent ch \<noteq> None \<or> (\<exists>j. Own j = Some ch))"

lemma channelsD:
  assumes "channels_ok Own Lead Wt Slot sent fresh"
  shows "Lead i = Some (ky, ch) \<Longrightarrow> Slot ky = Some ch" "Lead i = Some (ky, ch) \<Longrightarrow> Own i = Some ch"
    "Own i = Some ch \<Longrightarrow> Own j = Some ch \<Longrightarrow> i = j" "Slot ky = Some ch \<Longrightarrow> \<exists>i. Lead i = Some (ky, ch)"
    "Own i = Some ch \<Longrightarrow> ch < fresh" "Own i = Some ch \<Longrightarrow> sent ch = None"
    "Wt i = Some ch \<Longrightarrow> sent ch \<noteq> None \<or> (\<exists>j. Own j = Some ch)"
  using assms unfolding channels_ok_def by blast+

lemma channels_wait:
  assumes "channels_ok Own Lead Wt Slot sent fresh" "\<And>ch. x = Some ch \<Longrightarrow> sent ch \<noteq> None \<or> (\<exists>j. Own j = Some ch)"
  shows "channels_ok Own Lead (Wt(i := x)) Slot sent fresh"
  using assms unfolding channels_ok_def by auto

lemma channelsI:
  assumes "\<And>i ky ch. Lead i = Some (ky, ch) \<Longrightarrow> Slot ky = Some ch \<and> Own i = Some ch"
    and "\<And>i j ch. Own i = Some ch \<Longrightarrow> Own j = Some ch \<Longrightarrow> i = j"
    and "\<And>ky ch. Slot ky = Some ch \<Longrightarrow> \<exists>i. Lead i = Some (ky, ch)"
    and "\<And>i ch. Own i = Some ch \<Longrightarrow> ch < fresh \<and> sent ch = None"
    and "\<And>i ch. Wt i = Some ch \<Longrightarrow> sent ch = None \<Longrightarrow> \<exists>j. Own j = Some ch"
  shows "channels_ok Own Lead Wt Slot sent fresh"
  unfolding channels_ok_def using assms by meson

lemma channels_elect:
  assumes ok: "channels_ok Own Lead Wt Slot sent fresh" and i: "Own i = None" "Lead i = None"
    and free: "Slot ky = None" "sent fresh = None"
  shows "channels_ok (Own(i \<mapsto> fresh)) (Lead(i \<mapsto> (ky, fresh))) Wt (Slot(ky \<mapsto> fresh)) sent (fresh + 1)"
proof (rule channelsI)
  note d = channelsD [OF ok]
  have new: "Own j \<noteq> Some fresh" for j using d(5) by blast
  show "(Slot(ky \<mapsto> fresh)) k = Some ch \<and> (Own(i \<mapsto> fresh)) j = Some ch" if "(Lead(i \<mapsto> (ky, fresh))) j = Some (k, ch)" for j k ch
    using that d(1) [of j k ch] d(2) [of j k ch] free(1) by (cases "j = i") auto
  show "j = k" if "(Own(i \<mapsto> fresh)) j = Some ch" "(Own(i \<mapsto> fresh)) k = Some ch" for j k ch
    using that new d(3) [of j ch k] by (cases "j = i"; cases "k = i") auto
  show "\<exists>j. (Lead(i \<mapsto> (ky, fresh))) j = Some (k, ch)" if k: "(Slot(ky \<mapsto> fresh)) k = Some ch" for k ch
  proof (cases "k = ky")
    case False
    then obtain j where "Lead j = Some (k, ch)" using d(4) [of k ch] k by auto
    moreover from this i(2) have "j \<noteq> i" by auto
    ultimately show ?thesis by (intro exI [of _ j]) simp
  qed (use k in \<open>auto intro: exI [of _ i]\<close>)
  show "ch < fresh + 1 \<and> sent ch = None" if "(Own(i \<mapsto> fresh)) j = Some ch" for j ch
    using that d(5,6) [of j ch] free(2) by (cases "j = i") auto
  show "\<exists>j. (Own(i \<mapsto> fresh)) j = Some ch" if w: "Wt k = Some ch" "sent ch = None" for k ch
  proof -
    obtain j where "Own j = Some ch" using d(7) [OF w(1)] w(2) by auto
    moreover from this i(1) have "j \<noteq> i" by auto
    ultimately show ?thesis by (intro exI [of _ j]) simp
  qed
qed

lemma channels_take:
  assumes ok: "channels_ok Own Lead Wt Slot sent fresh" and i: "Lead i = Some (ky, ch)"
  shows "channels_ok Own (Lead(i := None)) Wt (Slot(ky := None)) sent fresh"
proof (rule channelsI)
  note d = channelsD [OF ok]
  have only: "j = i" if "Lead j = Some (ky, c)" for j c
    using d(3) [OF d(2) [OF that]] d(1) [OF that] d(1) [OF i] d(2) [OF i] by auto
  show "(Slot(ky := None)) k = Some c \<and> Own j = Some c" if "(Lead(i := None)) j = Some (k, c)" for j k c
    using that only [of j c] d(1,2) [of j k c] by (auto split: if_splits)
  show "\<exists>j. (Lead(i := None)) j = Some (k, c)" if k: "(Slot(ky := None)) k = Some c" for k c
  proof -
    from k have "k \<noteq> ky" by (auto split: if_splits)
    with k obtain j where "Lead j = Some (k, c)" using d(4) [of k c] by auto
    moreover from this i \<open>k \<noteq> ky\<close> have "j \<noteq> i" by auto
    ultimately show ?thesis by (intro exI [of _ j]) simp
  qed
qed (use channelsD [OF ok] in blast)+

lemma channels_send:
  assumes ok: "channels_ok Own Lead Wt Slot sent fresh" and i: "Own i = Some ch" "Lead i = None"
  shows "channels_ok (Own(i := None)) Lead Wt Slot (sent(ch \<mapsto> w)) fresh"
proof (rule channelsI)
  note d = channelsD [OF ok]
  have only: "j = i" if "Own j = Some ch" for j using d(3) [OF that i(1)] .
  show "Slot k = Some c \<and> (Own(i := None)) j = Some c" if "Lead j = Some (k, c)" for j k c
    using that i(2) d(1,2) [of j k c] by (cases "j = i") auto
  show "j = k" if "(Own(i := None)) j = Some c" "(Own(i := None)) k = Some c" for j k c
    using that d(3) [of j c k] by (auto split: if_splits)
  show "\<exists>j. Lead j = Some (k, c)" if "Slot k = Some c" for k c using d(4) [OF that] .
  show "c < fresh \<and> (sent(ch \<mapsto> w)) c = None" if "(Own(i := None)) j = Some c" for j c
    using that only [of j] d(5,6) [of j c] by (auto split: if_splits)
  show "\<exists>j. (Own(i := None)) j = Some c" if c: "Wt k = Some c" "(sent(ch \<mapsto> w)) c = None" for k c
  proof -
    from c(2) have c2: "c \<noteq> ch" "sent c = None" by (auto split: if_splits)
    then obtain j where "Own j = Some c" using d(7) [OF c(1)] by auto
    moreover from this i(1) c2 have "j \<noteq> i" by auto
    ultimately show ?thesis by (intro exI [of _ j]) simp
  qed
qed

text \<open>The invariant, on a layer.\<close>

abbreviation task_of :: "'l layer \<Rightarrow> nat \<Rightarrow> task option" where
  "task_of s \<equiv> map_of (ly_tasks s)"

definition layer_ok :: "'l layer \<Rightarrow> bool" where
  "layer_ok s \<longleftrightarrow>
    channels_ok (owned \<circ> task_of s) (led \<circ> task_of s) (awaited \<circ> task_of s)
      (map_of (ly_inflight s)) (ly_sent s) (ly_fresh s) \<and>
    (\<forall>ch. ly_fresh s \<le> ch \<longrightarrow> ly_sent s ch = None)"

lemma task_updates [simp]:
  "task_of (set_task i x s) = (task_of s)(i \<mapsto> x)" "task_of (drop_task i s) = (task_of s)(i := None)"
  "ly_inflight (set_task i x s) = ly_inflight s" "ly_inflight (drop_task i s) = ly_inflight s"
  "ly_sent (set_task i x s) = ly_sent s" "ly_sent (drop_task i s) = ly_sent s"
  "ly_fresh (set_task i x s) = ly_fresh s" "ly_fresh (drop_task i s) = ly_fresh s"
  "ly_cache (set_task i x s) = ly_cache s" "ly_cache (drop_task i s) = ly_cache s"
  by (simp_all add: set_task_def drop_task_def update_conv' delete_conv')

lemma finish_updates [simp]:
  "task_of (finish_task i result s) = (task_of s)(i := map_option Finished result)"
  "ly_inflight (finish_task i result s) = ly_inflight s" "ly_sent (finish_task i result s) = ly_sent s"
  "ly_fresh (finish_task i result s) = ly_fresh s" "owned (map_option Finished result) = None" "led (map_option Finished result) = None"
  "awaited (map_option Finished result) = None"
  by (cases result; simp add: finish_task_def)+

lemma upd_same: "f x = f (T i) \<Longrightarrow> (f \<circ> T)(i := f x) = f \<circ> T"
  by auto

lemma layer_task:
  assumes ok: "layer_ok s" and T: "task_of s' = (task_of s)(i := x)"
    and same: "ly_inflight s' = ly_inflight s" "ly_sent s' = ly_sent s" "ly_fresh s' = ly_fresh s"
    and x: "owned x = owned (task_of s i)" "led x = led (task_of s i)"
      "\<And>ch. awaited x = Some ch \<Longrightarrow> ly_sent s ch \<noteq> None \<or> (\<exists>j. (owned \<circ> task_of s) j = Some ch)"
  shows "layer_ok s'"
  unfolding layer_ok_def T fun_upd_comp upd_same [of owned _ "task_of s" i, OF x(1)] upd_same [of led _ "task_of s" i, OF x(2)] same
  using ok [unfolded layer_ok_def] channels_wait [OF _ x(3)] by blast

lemma layer_set:
  assumes "layer_ok s" "owned (Some x) = owned (task_of s i)" "led (Some x) = led (task_of s i)" "awaited (Some x) = None"
  shows "layer_ok (set_task i x s)"
  by (rule layer_task [where i = i and x = "Some x", OF assms(1)]) (use assms in auto)

lemma layer_drop:
  assumes "layer_ok s" "owned (task_of s i) = None" "led (task_of s i) = None"
  shows "layer_ok (drop_task i s)"
  by (rule layer_task [where i = i and x = None, OF assms(1)]) (use assms in auto)

lemma layer_cache: "layer_ok (s\<lparr>ly_cache := c\<rparr>) = layer_ok s"
  by (simp add: layer_ok_def)

lemma layer_take:
  assumes ok: "layer_ok s" and i: "led (task_of s i) = Some (ky, ch)"
  shows "layer_ok (take_slot i ky word result s)"
    "take_slot i ky word result s = set_task i (Sending ch word result) (s\<lparr>ly_inflight := AList.delete ky (ly_inflight s)\<rparr>)"
proof -
  note c = ok [unfolded layer_ok_def, THEN conjunct1]
  have slot: "map_of (ly_inflight s) ky = Some ch" using channelsD(1) [OF c, of i] i by simp
  then show eq: "take_slot i ky word result s =
      set_task i (Sending ch word result) (s\<lparr>ly_inflight := AList.delete ky (ly_inflight s)\<rparr>)"
    by (simp add: take_slot_def)
  have own: "owned (task_of s i) = owned (Some (Sending ch word result))" using channelsD(2) [OF c, of i] i by simp
  have wt: "awaited (task_of s i) = awaited (Some (Sending ch word result))" using i by (cases "task_of s i" rule: led.cases) auto
  have "channels_ok (owned \<circ> task_of s) ((led \<circ> task_of s)(i := None)) (awaited \<circ> task_of s)
      ((map_of (ly_inflight s))(ky := None)) (ly_sent s) (ly_fresh s)"
    using channels_take [OF c, of i ky ch] i by simp
  then show "layer_ok (take_slot i ky word result s)"
    unfolding eq layer_ok_def task_updates fun_upd_comp
    using ok upd_same [of owned _ "task_of s" i, OF own [symmetric]] upd_same [of awaited _ "task_of s" i, OF wt [symmetric]]
    by (simp add: layer_ok_def delete_conv' del: fun_upd_apply)
qed

lemma layer_send:
  assumes ok: "layer_ok s" and i: "task_of s i = Some (Sending ch word result)"
  shows "layer_ok (send_word i ch word result s)" "\<exists>w. ly_sent (send_word i ch word result s) = (ly_sent s)(ch \<mapsto> w)"
proof -
  note c = ok [unfolded layer_ok_def, THEN conjunct1]
  obtain x w where x: "send_word i ch word result s = finish_task i x (s\<lparr>ly_sent := (ly_sent s)(ch \<mapsto> w)\<rparr>)"
    by (simp add: send_word_def Let_def)
  then show "\<exists>w. ly_sent (send_word i ch word result s) = (ly_sent s)(ch \<mapsto> w)" by auto
  have same: "(led \<circ> task_of s)(i := None) = led \<circ> task_of s" "(awaited \<circ> task_of s)(i := None) = awaited \<circ> task_of s"
    using i by (auto simp: fun_eq_iff)
  have "ch < ly_fresh s" using channelsD(5) [OF c, of i] i by simp
  moreover have "channels_ok ((owned \<circ> task_of s)(i := None)) (led \<circ> task_of s) (awaited \<circ> task_of s)
      (map_of (ly_inflight s)) ((ly_sent s)(ch \<mapsto> w)) (ly_fresh s)"
    using channels_send [OF c, of i ch] i by simp
  ultimately show "layer_ok (send_word i ch word result s)"
    using ok by (simp add: layer_ok_def x fun_upd_comp same del: fun_upd_apply) auto
qed

lemma layer_enter:
  assumes ok: "layer_ok s" and i: "task_of s i = Some (Entering q)"
  shows "layer_ok (resolve_layer router i q s)"
proof -
  note c = ok [unfolded layer_ok_def, THEN conjunct1]
  define ky where "ky = in_view (case layer_route router q of Some v \<Rightarrow> v | None \<Rightarrow> 0) (new_key (q_domain q) (q_type q))"
  show ?thesis
  proof (cases "map_of (ly_inflight s) ky")
    case (Some ch)
    have join: "resolve_layer router i q s = set_task i (Follower q ch) s"
      using Some by (simp add: resolve_layer_def register_or_join_inflight_def ky_def [symmetric])
    have "\<exists>j. (owned \<circ> task_of s) j = Some ch" using channelsD(2,4) [OF c] Some by meson
    then show ?thesis
      by (intro layer_task [where s' = "resolve_layer router i q s" and i = i and x = "Some (Follower q ch)", OF ok])
        (use i in \<open>auto simp: join\<close>)
  next
    case None
    have same: "(awaited \<circ> task_of s)(i := None) = awaited \<circ> task_of s" using i by (auto simp: fun_eq_iff)
    have "channels_ok ((owned \<circ> task_of s)(i \<mapsto> ly_fresh s)) ((led \<circ> task_of s)(i \<mapsto> (ky, ly_fresh s))) (awaited \<circ> task_of s)
        ((map_of (ly_inflight s))(ky \<mapsto> ly_fresh s)) (ly_sent s) (ly_fresh s + 1)"
      using channels_elect [OF c, of i ky] None i ok by (simp add: layer_ok_def)
    moreover have "resolve_layer router i q s = set_task i (Elected q ky (ly_fresh s))
        (s\<lparr>ly_inflight := AList.update ky (ly_fresh s) (ly_inflight s), ly_fresh := ly_fresh s + 1\<rparr>)"
      using None by (simp add: resolve_layer_def register_or_join_inflight_def ky_def [symmetric])
    ultimately show ?thesis
      using ok by (simp add: layer_ok_def fun_upd_comp same update_conv' del: fun_upd_apply)
  qed
qed

lemma layer_step_ok: "layer_step router env cache_ttl s s' \<Longrightarrow> layer_ok s \<Longrightarrow> layer_ok s'"
proof (induction rule: layer_step.induct)
  case (arrives s i q)
  then show ?case by (intro layer_set) simp_all
next
  case (enters s i q)
  then show ?case by (intro layer_enter)
next
  case (leads s i q ky ch clk t sends s')
  then obtain found c where s': "s' = (case found of
      Some cached \<Rightarrow> take_slot i ky (Some cached) (Some (cached_outcome cached)) (s\<lparr>ly_cache := c\<rparr>)
    | None \<Rightarrow> set_task i (Asking q ky ch) (s\<lparr>ly_cache := c\<rparr>))"
    by (auto simp: lead_check_def and_then_Got Let_def)
  then show ?case
    using leads layer_take(1) [of "s\<lparr>ly_cache := c\<rparr>" i ky ch] layer_set [of "s\<lparr>ly_cache := c\<rparr>" "Asking q ky ch" i]
    by (cases found) (simp_all add: layer_cache)
next
  case (answered s i q ky ch clk t result s')
  then obtain word c where s': "s' = take_slot i ky word (Some result) (s\<lparr>ly_cache := c\<rparr>)"
    by (auto simp: lead_answer_def and_then_Got split: sum.splits domain_error.splits)
  then show ?case using answered layer_take(1) [of "s\<lparr>ly_cache := c\<rparr>" i ky ch] by (simp add: layer_cache)
next
  case (abandoned s i q ky ch)
  then show ?case using layer_take(1) [of s i ky ch] by simp
next
  case (sends s i ch word result)
  then show ?case by (intro layer_send(1))
next
  case (wakes s i q ch word)
  then show ?case by (cases word) (auto simp: follower_word_def intro!: layer_set)
next
  case (leaves s i q ch)
  then show ?case by (intro layer_drop) simp_all
next
  case (rechecks s i q clk t sends s')
  then obtain found c where "s' = (case found of
      Some cached \<Rightarrow> set_task i (Finished (cached_outcome cached)) (s\<lparr>ly_cache := c\<rparr>)
    | None \<Rightarrow> set_task i (Entering q) (s\<lparr>ly_cache := c\<rparr>))"
    by (auto simp: recheck_def and_then_Got Let_def)
  then show ?case using rechecks by (cases found) (auto simp: layer_cache intro!: layer_set)
next
  case (reaped s i r)
  then show ?case by (intro layer_drop) simp_all
qed (simp add: layer_cache)

lemma reachable_layer_ok: "reachable_layer router env cache_ttl s \<Longrightarrow> layer_ok s"
proof (induction rule: reachable_layer.induct)
  case (start c)
  then show ?case by (simp add: layer_ok_def new_layer_def channels_ok_def)
qed (rule layer_step_ok)

section \<open>Properties of the protocol\<close>

lemma layer_word:
  "to_resolution (inflight_of r) = r\<lparr>re_coalesced := Some Role_Follower, re_local_nxdomain := False, re_soa_ttl := None\<rparr>"
  by (cases r) (simp add: to_resolution_def inflight_of_def)

text \<open>
  C8. Identical queries share one upstream request and none is left waiting. In every reachable
  state at most one task leads a key; a follower without its leader's word has a leader that still
  holds its channel, and however that leader goes on, with an answer from the cache, with any result
  of the layer below, or dropped while it waits, it keeps the channel until it sends the word.
\<close>

theorem no_follower_stranded:
  assumes reach: "reachable_layer router env cache_ttl s"
  shows "(\<forall>i j ky ch ch'. led (task_of s i) = Some (ky, ch) \<and> led (task_of s j) = Some (ky, ch') \<longrightarrow> i = j) \<and>
    (\<forall>i q ch. task_of s i = Some (Follower q ch) \<longrightarrow>
      ly_sent s ch \<noteq> None \<or> (\<exists>j. j \<noteq> i \<and> owned (task_of s j) = Some ch)) \<and>
    (\<forall>j q ky ch clk t sends s'. task_of s j = Some (Elected q ky ch) \<and> lead_check env clk t sends j q ky ch s = Got s' \<longrightarrow>
      owned (task_of s' j) = Some ch) \<and>
    (\<forall>j q ky ch clk t result s'. task_of s j = Some (Asking q ky ch) \<and> lead_answer env cache_ttl clk t j ky result s = Got s' \<longrightarrow>
      (\<exists>word. task_of s' j = Some (Sending ch word (Some result)))) \<and>
    (\<forall>j q ky ch. task_of s j = Some (Asking q ky ch) \<longrightarrow>
      task_of (take_slot j ky None None s) j = Some (Sending ch None None)) \<and>
    (\<forall>j ch word result. task_of s j = Some (Sending ch word result) \<longrightarrow> ly_sent (send_word j ch word result s) ch \<noteq> None)"
proof (intro conjI allI impI)
  note ok = reachable_layer_ok [OF reach]
  note c = ok [unfolded layer_ok_def, THEN conjunct1]
  have take: "task_of (take_slot j ky word result (s\<lparr>ly_cache := d\<rparr>)) j = Some (Sending ch word result)"
    if "led (task_of s j) = Some (ky, ch)" for j ky ch word result d
    using layer_take(2) [of "s\<lparr>ly_cache := d\<rparr>" j ky ch word result] that ok by (simp add: layer_cache)
  show "i = j" if "led (task_of s i) = Some (ky, ch) \<and> led (task_of s j) = Some (ky, ch')" for i j ky ch ch'
    using channelsD(1,2) [OF c, of i ky ch] channelsD(1,2) [OF c, of j ky ch'] channelsD(3) [OF c, of i ch j] that by auto
  show "ly_sent s ch \<noteq> None \<or> (\<exists>j. j \<noteq> i \<and> owned (task_of s j) = Some ch)" if "task_of s i = Some (Follower q ch)" for i q ch
  proof -
    from channelsD(7) [OF c, of i ch] that consider "ly_sent s ch \<noteq> None" | j where "owned (task_of s j) = Some ch" by auto
    then show ?thesis
    proof cases
      case (2 j)
      then have "j \<noteq> i" using that by auto
      then show ?thesis using 2 by blast
    qed simp
  qed
  show "owned (task_of s' j) = Some ch"
    if "task_of s j = Some (Elected q ky ch) \<and> lead_check env clk t sends j q ky ch s = Got s'" for j q ky ch clk t sends s'
    using that take [of j ky ch] by (auto simp: lead_check_def and_then_Got Let_def split: option.splits)
  show "\<exists>word. task_of s' j = Some (Sending ch word (Some result))"
    if "task_of s j = Some (Asking q ky ch) \<and> lead_answer env cache_ttl clk t j ky result s = Got s'" for j q ky ch clk t result s'
    using that take [of j ky ch] by (auto simp: lead_answer_def and_then_Got split: sum.splits domain_error.splits)
  show "task_of (take_slot j ky None None s) j = Some (Sending ch None None)" if "task_of s j = Some (Asking q ky ch)" for j q ky ch
    using take [of j ky ch None None "ly_cache s"] that by simp
  show "ly_sent (send_word j ch word result s) ch \<noteq> None" if "task_of s j = Some (Sending ch word result)" for j ch word result
    using layer_send(2) [OF ok that] by auto
qed

text \<open>
  C1. Followers get their leader's answer: when a leader with an answer sends it while a task follows,
  the follower returns the leader's resolution, marked as a follower's, and the leader returns it
  marked as the leader's.
\<close>

theorem followers_share_answer:
  assumes lead: "task_of s j = Some (Sending ch (Some r) (Some (Inr r)))" and data: "has_response_data r"
    and fol: "task_of s i = Some (Follower q ch)"
  shows "\<exists>w. ly_sent (send_word j ch (Some r) (Some (Inr r)) s) ch = Some (Some w) \<and>
    task_of (send_word j ch (Some r) (Some (Inr r)) s) j = Some (Finished (Inr (r\<lparr>re_coalesced := Some Role_Leader\<rparr>))) \<and>
    task_of (follower_word i q (Some w) (send_word j ch (Some r) (Some (Inr r)) s)) i =
      Some (Finished (Inr (r\<lparr>re_coalesced := Some Role_Follower, re_local_nxdomain := False, re_soa_ttl := None\<rparr>)))"
proof -
  have "list_ex (follows ch) (ly_tasks s)" using map_of_SomeD [OF fol] by (auto simp: list_ex_iff follows_def intro!: bexI [of _ "(i, Follower q ch)"])
  then show ?thesis using data by (auto simp: send_word_def follower_word_def layer_word)
qed

section \<open>What enters the cache\<close>

lemma store_positive_permanent:
  assumes "store_positive env clk t k x ttl s loc c = Got c'"
  shows "permanent_records c' = permanent_records c"
proof -
  obtain b where "bloom_set (key_hash env) (dc_bloom c) k = Got b"
    using assms by (auto simp: store_positive_def Let_def and_then_Got split: prod.splits)
  then show ?thesis
    using assms by (cases "map_of (dc_map c) k") (auto simp: store_positive_def Let_def keep_l1_fields split: prod.splits if_splits)
qed

lemma store_permanent:
  assumes "store env clk t k d ttl s loc c = Got c'"
  shows "permanent_records c' = permanent_records c"
proof (cases "is_negative d")
  case True
  then show ?thesis using assms by (auto simp: store_def negative_insert_def Let_def arm_timer_def)
next
  case False
  with assms obtain ttl1 where ttl1: "clamp_ttl (cfg env) ttl = Got ttl1" by (auto simp: store_def and_then_Got)
  show ?thesis
    using assms False store_positive_permanent
    by (cases "into_stored d ttl1 (cfg_min_ttl (cfg env)) (cfg_max_ttl (cfg env))") (auto simp: store_def ttl1)
qed

lemma status_eq: "permanent_records c' = permanent_records c \<Longrightarrow> local_record_status d rt c' = local_record_status d rt c"
  by (simp add: local_record_status_def)

lemma dnssec_round: "Option.bind (Some (case s of Some status \<Rightarrow> dnssec_from status | None \<Rightarrow> Cached_unknown)) dnssec_to_domain = s"
  by (cases s; cases "the s") auto


section \<open>A small instance\<close>

definition demo_query :: dns_query where
  "demo_query = \<lparr>q_domain = ''a.test'', q_type = A, q_group = None\<rparr>"

definition demo_layer :: "'l dns_cache \<Rightarrow> 'l layer" where
  "demo_layer c = \<lparr>ly_cache = c, ly_inflight = [(new_key ''a.test'' A, 0)], ly_sent = (\<lambda>_. None), ly_fresh = 1,
    ly_tasks = [(0, Elected demo_query (new_key ''a.test'' A) 0), (1, Follower demo_query 0)]\<rparr>"

lemma demo_layer_reachable: "reachable_layer None env cache_ttl (demo_layer c)"
proof -
  let ?s1 = "set_task 0 (Entering demo_query) (new_layer c)" and ?s3 = "\<lambda>s. set_task 1 (Entering demo_query) s"
  have "reachable_layer None env cache_ttl ?s1"
    by (rule reachable_layer.steps [OF reachable_layer.start layer_step.arrives]) (simp add: new_layer_def)
  then have "reachable_layer None env cache_ttl (resolve_layer None 0 demo_query ?s1)"
    by (rule reachable_layer.steps [OF _ layer_step.enters]) simp
  then have "reachable_layer None env cache_ttl (?s3 (resolve_layer None 0 demo_query ?s1))"
    by (rule reachable_layer.steps [OF _ layer_step.arrives])
      (simp add: resolve_layer_def register_or_join_inflight_def new_layer_def layer_route_def Let_def)
  then have "reachable_layer None env cache_ttl (resolve_layer None 1 demo_query (?s3 (resolve_layer None 0 demo_query ?s1)))"
    by (rule reachable_layer.steps [OF _ layer_step.enters]) simp
  moreover have "resolve_layer None 1 demo_query (?s3 (resolve_layer None 0 demo_query ?s1)) = demo_layer c"
    by (simp add: resolve_layer_def register_or_join_inflight_def new_layer_def layer_route_def Let_def demo_layer_def set_task_def
        in_view_def new_key_def demo_query_def)
  ultimately show ?thesis by simp
qed

theorem no_follower_stranded_witness:
  "\<exists>j. j \<noteq> 1 \<and> owned (task_of (demo_layer (new_cache demo_env 64 1)) j) = Some 0"
proof -
  have "task_of (demo_layer (new_cache demo_env 64 1)) 1 = Some (Follower demo_query 0)" "ly_sent (demo_layer (new_cache demo_env 64 1)) 0 = None"
    by (simp_all add: demo_layer_def)
  note facts = this
  have "\<forall>i q ch. task_of (demo_layer (new_cache demo_env 64 1)) i = Some (Follower q ch) \<longrightarrow>
      ly_sent (demo_layer (new_cache demo_env 64 1)) ch \<noteq> None \<or>
      (\<exists>j. j \<noteq> i \<and> owned (task_of (demo_layer (new_cache demo_env 64 1)) j) = Some ch)"
    by (rule no_follower_stranded [OF demo_layer_reachable [of demo_env 60 "new_cache demo_env 64 1"], THEN conjunct2, THEN conjunct1])
  from this [rule_format, OF facts(1)] show ?thesis using facts(2) by simp
qed

theorem followers_share_answer_witness:
  "\<exists>w. ly_sent (send_word 0 0 (Some (new_resolution [V4 7] False)) (Some (Inr (new_resolution [V4 7] False)))
      (set_task 0 (Sending 0 (Some (new_resolution [V4 7] False)) (Some (Inr (new_resolution [V4 7] False))))
        (demo_layer (new_cache demo_env 64 1)))) 0 = Some (Some w)"
  using followers_share_answer [of "set_task 0 (Sending 0 (Some (new_resolution [V4 7] False)) (Some (Inr (new_resolution [V4 7] False))))
        (demo_layer (new_cache demo_env 64 1))" 0 0 "new_resolution [V4 7] False" 1 demo_query]
  by (auto simp: demo_layer_def has_response_data_def new_resolution_def)


end
