(* ===== verification/Local_Records.thy ===== *)
theory Local_Records
  imports Text Domain_Types Ip_Addr
begin

text \<open>
  Local DNS records (\<open>domain/src/config/local_records.rs\<close>), the live state that mirrors them
  (\<open>resolver/local_wildcard.rs\<close>, \<open>resolver/local_ptr.rs\<close>) and the use cases that edit them
  (\<open>application/src/use_cases/local_records\<close>). The concurrent maps are maps; the write lock on the
  configuration makes every edit one step; whether the configuration could be saved is an argument.
\<close>

section \<open>Records\<close>

definition MAX_NAME_LEN :: nat where "MAX_NAME_LEN = 253"
definition MAX_LABEL_LEN :: nat where "MAX_LABEL_LEN = 63"

datatype local_record_type = Local_A | Local_AAAA

fun local_type_str :: "local_record_type \<Rightarrow> string" where
  "local_type_str Local_A = ''A''"
| "local_type_str Local_AAAA = ''AAAA''"

fun local_to_record_type :: "local_record_type \<Rightarrow> record_type" where
  "local_to_record_type Local_A = A"
| "local_to_record_type Local_AAAA = AAAA"

definition local_type_from_str :: "string \<Rightarrow> domain_error + local_record_type" where
  "local_type_from_str s =
    (if str_eq_ignore_ascii_case s ''A'' then Inr Local_A
     else if str_eq_ignore_ascii_case s ''AAAA'' then Inr Local_AAAA
     else Inl (InvalidInput (''Invalid record type '' @ CHR 0x27 # s @ CHR 0x27 # '' (must be A or AAAA)'')))"

record local_record =
  lr_hostname :: string
  lr_domain :: "string option"
  lr_ip :: ip_addr
  lr_type :: local_record_type
  lr_ttl :: "u32 option"

definition parse_address :: "string \<Rightarrow> string \<Rightarrow> domain_error + ip_addr \<times> local_record_type" where
  "parse_address ip ty =
    (case parse_ip ip of
       None \<Rightarrow> Inl (InvalidIpAddress ip)
     | Some addr \<Rightarrow> (case local_type_from_str ty of Inl e \<Rightarrow> Inl e | Inr rt \<Rightarrow> Inr (addr, rt)))"

definition parse_record ::
  "string \<Rightarrow> string option \<Rightarrow> string \<Rightarrow> string \<Rightarrow> u32 option \<Rightarrow> domain_error + local_record" where
  "parse_record hostname anchor ip ty ttl =
    (case parse_address ip ty of
       Inl e \<Rightarrow> Inl e
     | Inr (addr, rt) \<Rightarrow> Inr \<lparr>lr_hostname = hostname, lr_domain = anchor, lr_ip = addr, lr_type = rt, lr_ttl = ttl\<rparr>)"

definition domain_or :: "local_record \<Rightarrow> string option \<Rightarrow> string option" where
  "domain_or r default_domain = (case lr_domain r of Some d \<Rightarrow> Some d | None \<Rightarrow> default_domain)"

definition fqdn :: "local_record \<Rightarrow> string option \<Rightarrow> string" where
  "fqdn r default_domain =
    (case domain_or r default_domain of Some d \<Rightarrow> lr_hostname r @ CHR ''.'' # d | None \<Rightarrow> lr_hostname r)"

definition str_get :: "string \<Rightarrow> nat \<Rightarrow> nat \<Rightarrow> string option" where
  "str_get s a b = (if a \<le> b \<and> b \<le> length s then Some (take (b - a) (drop a s)) else None)"

definition has_fqdn :: "local_record \<Rightarrow> string \<Rightarrow> string option \<Rightarrow> bool" where
  "has_fqdn r name default_domain =
    (let host = lr_hostname r in
     case domain_or r default_domain of
       Some d \<Rightarrow>
         (case str_get name 0 (length host) of Some start \<Rightarrow> str_eq_ignore_ascii_case start host | None \<Rightarrow> False) \<and>
         (length host < length name \<and> name ! length host = CHR ''.'') \<and>
         (case str_get name (length host + 1) (length name) of Some rest \<Rightarrow> str_eq_ignore_ascii_case rest d | None \<Rightarrow> False)
     | None \<Rightarrow> str_eq_ignore_ascii_case name host)"

definition ttl_or_default :: "local_record \<Rightarrow> u32" where
  "ttl_or_default r = (case lr_ttl r of Some t \<Rightarrow> t | None \<Rightarrow> 300)"

definition is_wildcard_hostname :: "string \<Rightarrow> bool" where
  "is_wildcard_hostname h \<longleftrightarrow> h = ''*'' \<or> starts_with ''*.'' h"

definition is_wildcard :: "local_record \<Rightarrow> bool" where
  "is_wildcard r = is_wildcard_hostname (lr_hostname r)"

definition wildcard_suffix :: "local_record \<Rightarrow> string option \<Rightarrow> string option" where
  "wildcard_suffix r default_domain =
    (if \<not> is_wildcard r then None else map_option lower (strip_prefix ''*.'' (fqdn r default_domain)))"

fun address_fits :: "local_record_type \<Rightarrow> ip_addr \<Rightarrow> bool" where
  "address_fits Local_A (V4 _) = True"
| "address_fits Local_AAAA (V6 _) = True"
| "address_fits _ _ = False"

definition validate_address :: "(ip_addr \<Rightarrow> string) \<Rightarrow> local_record_type \<Rightarrow> ip_addr \<Rightarrow> string + unit" where
  "validate_address show_ip rt ip =
    (if address_fits rt ip then Inr ()
     else case rt of
       Local_A \<Rightarrow> Inl (''an A record needs an IPv4 address, got '' @ show_ip ip)
     | Local_AAAA \<Rightarrow> Inl (''an AAAA record needs an IPv6 address, got '' @ show_ip ip))"

text \<open>The entries of the configuration file; one that cannot be served is dropped.\<close>

record record_fields =
  rf_hostname :: string
  rf_domain :: "string option"
  rf_ip :: string
  rf_type :: string
  rf_ttl :: "u32 option"

definition fields_address :: "(ip_addr \<Rightarrow> string) \<Rightarrow> record_fields \<Rightarrow> domain_error + ip_addr \<times> local_record_type" where
  "fields_address show_ip f =
    (case parse_address (rf_ip f) (rf_type f) of
       Inl e \<Rightarrow> Inl e
     | Inr (ip, rt) \<Rightarrow> (case validate_address show_ip rt ip of Inl e \<Rightarrow> Inl (InvalidIpAddress e) | Inr _ \<Rightarrow> Inr (ip, rt)))"

definition deserialize_lenient :: "(ip_addr \<Rightarrow> string) \<Rightarrow> record_fields list \<Rightarrow> local_record list" where
  "deserialize_lenient show_ip entries =
    List.map_filter (\<lambda>f. case fields_address show_ip f of
        Inr (ip, rt) \<Rightarrow> Some \<lparr>lr_hostname = rf_hostname f, lr_domain = rf_domain f, lr_ip = ip, lr_type = rt, lr_ttl = rf_ttl f\<rparr>
      | Inl _ \<Rightarrow> None) entries"

definition label_char :: "char \<Rightarrow> bool" where
  "label_char c \<longleftrightarrow> (let n = of_char c :: nat in 48 \<le> n \<and> n \<le> 57 \<or> 65 \<le> n \<and> n \<le> 90 \<or> 97 \<le> n \<and> n \<le> 122) \<or>
    c = CHR ''-'' \<or> c = CHR ''_''"

fun validate_label_list :: "string list \<Rightarrow> string \<Rightarrow> string + unit" where
  "validate_label_list [] field = Inr ()"
| "validate_label_list (label # labels) field =
    (if label = [] then Inl (field @ '' cannot contain an empty label'')
     else if MAX_LABEL_LEN < length label then Inl (field @ '' label cannot exceed 63 characters'')
     else if \<not> list_all label_char label
     then Inl (field @ '' contains invalid characters (only alphanumeric, hyphens and underscores are allowed)'')
     else validate_label_list labels field)"

definition validate_labels :: "string \<Rightarrow> string \<Rightarrow> string + unit" where
  "validate_labels name field = validate_label_list (split_char CHR ''.'' name) field"

definition validate_hostname :: "string \<Rightarrow> string + unit" where
  "validate_hostname h =
    (if h = [] then Inl ''Hostname cannot be empty''
     else if MAX_NAME_LEN < length h then Inl ''Hostname cannot exceed 253 characters''
     else if CHR ''*'' \<in> set h \<and> \<not> is_wildcard_hostname h
     then Inl (''Wildcard must be the leftmost label: use '' @ CHR 0x27 # ''*'' @ CHR 0x27 # '' or '' @ CHR 0x27 # ''*.sub'' @ [CHR 0x27])
     else
       let remainder = (case strip_prefix ''*.'' h of Some r \<Rightarrow> r | None \<Rightarrow> h)
       in if remainder = ''*'' then Inr () else validate_labels remainder ''Hostname'')"

definition validate_domain :: "string \<Rightarrow> string + unit" where
  "validate_domain d =
    (if d = [] then Inl ''Domain cannot be empty''
     else if MAX_NAME_LEN < length d then Inl ''Domain cannot exceed 253 characters''
     else if CHR ''*'' \<in> set d
     then Inl (''Domain cannot contain a wildcard: put the '' @ CHR 0x27 # ''*'' @ CHR 0x27 # '' in the hostname'')
     else validate_labels d ''Domain'')"

definition validate_record :: "(ip_addr \<Rightarrow> string) \<Rightarrow> local_record \<Rightarrow> string option \<Rightarrow> domain_error + unit" where
  "validate_record show_ip r local_domain =
    (case validate_hostname (lr_hostname r) of
       Inl e \<Rightarrow> Inl (InvalidDomainName e)
     | Inr _ \<Rightarrow>
         (case (case lr_domain r of Some d \<Rightarrow> validate_domain d | None \<Rightarrow> Inr ()) of
            Inl e \<Rightarrow> Inl (InvalidDomainName e)
          | Inr _ \<Rightarrow>
              (case validate_address show_ip (lr_type r) (lr_ip r) of
                 Inl e \<Rightarrow> Inl (InvalidIpAddress e)
               | Inr _ \<Rightarrow>
                   if is_wildcard r \<and> wildcard_suffix r local_domain = None
                   then Inl (InvalidDomainName
                     ''A wildcard record needs a domain to anchor it: set the domain field or dns.local_domain'')
                   else Inr ())))"

section \<open>Live state\<close>

record wildcard_answer =
  wa_a :: "(ip_addr \<times> u32) option"
  wa_aaaa :: "(ip_addr \<times> u32) option"

definition no_answer :: wildcard_answer where
  "no_answer = \<lparr>wa_a = None, wa_aaaa = None\<rparr>"

definition wa_get :: "wildcard_answer \<Rightarrow> record_type \<Rightarrow> (ip_addr \<times> u32) option" where
  "wa_get w rt = (if rt = A then wa_a w else if rt = AAAA then wa_aaaa w else None)"

fun wa_set :: "local_record_type \<Rightarrow> (ip_addr \<times> u32) option \<Rightarrow> wildcard_answer \<Rightarrow> wildcard_answer" where
  "wa_set Local_A x w = w\<lparr>wa_a := x\<rparr>"
| "wa_set Local_AAAA x w = w\<lparr>wa_aaaa := x\<rparr>"

definition wa_empty :: "wildcard_answer \<Rightarrow> bool" where
  "wa_empty w \<longleftrightarrow> wa_a w = None \<and> wa_aaaa w = None"

type_synonym wildcard_map = "string \<rightharpoonup> wildcard_answer"
type_synonym ptr_map = "ip_addr \<rightharpoonup> string \<times> u32"

definition register_wildcard :: "string \<Rightarrow> local_record_type \<Rightarrow> ip_addr \<Rightarrow> u32 \<Rightarrow> wildcard_map \<Rightarrow> wildcard_map" where
  "register_wildcard suffix rt ip ttl m =
    (if \<not> address_fits rt ip then m
     else let k = lower suffix
       in m(k \<mapsto> wa_set rt (Some (ip, ttl)) (case m k of Some w \<Rightarrow> w | None \<Rightarrow> no_answer)))"

definition unregister_wildcard :: "string \<Rightarrow> local_record_type \<Rightarrow> wildcard_map \<Rightarrow> wildcard_map" where
  "unregister_wildcard suffix rt m =
    (let k = lower suffix in
     case m k of
       None \<Rightarrow> m
     | Some w \<Rightarrow> let w1 = wa_set rt None w in if wa_empty w1 then m(k := None) else m(k \<mapsto> w1))"

definition wildcard_of_record :: "string option \<Rightarrow> local_record \<Rightarrow> wildcard_map \<Rightarrow> wildcard_map" where
  "wildcard_of_record default_domain r m =
    (if \<not> is_wildcard r then m
     else case wildcard_suffix r default_domain of
       None \<Rightarrow> m
     | Some suffix \<Rightarrow> register_wildcard suffix (lr_type r) (lr_ip r) (ttl_or_default r) m)"

definition wildcards_from :: "local_record list \<Rightarrow> string option \<Rightarrow> wildcard_map" where
  "wildcards_from records default_domain = fold (wildcard_of_record default_domain) records Map.empty"

definition ptr_of_record :: "string option \<Rightarrow> local_record \<Rightarrow> ptr_map \<Rightarrow> ptr_map" where
  "ptr_of_record default_domain r m =
    (if is_wildcard r then m else m(lr_ip r \<mapsto> (fqdn r default_domain, ttl_or_default r)))"

definition ptrs_from :: "local_record list \<Rightarrow> string option \<Rightarrow> ptr_map" where
  "ptrs_from records default_domain = fold (ptr_of_record default_domain) records Map.empty"

text \<open>The DNS cache as the edits use it: the operations of its port.\<close>

record 'c forward_port =
  fp_remove :: "string \<Rightarrow> record_type \<Rightarrow> 'c \<Rightarrow> 'c"
  fp_insert :: "string \<Rightarrow> record_type \<Rightarrow> ip_addr list \<Rightarrow> u32 \<Rightarrow> 'c \<Rightarrow> 'c"

definition preload_record :: "'c forward_port \<Rightarrow> string option \<Rightarrow> local_record \<Rightarrow> 'c \<Rightarrow> 'c" where
  "preload_record fp default_domain r c =
    (if is_wildcard r then c
     else fp_insert fp (fqdn r default_domain) (local_to_record_type (lr_type r)) [lr_ip r] (ttl_or_default r) c)"

section \<open>Edits\<close>

record 'c local_dns =
  ld_domain :: "string option"
  ld_records :: "local_record list"
  ld_wildcards :: wildcard_map
  ld_ptrs :: ptr_map
  ld_cache :: 'c

text \<open>What the server starts with.\<close>

definition load_records :: "'c forward_port \<Rightarrow> 'c \<Rightarrow> string option \<Rightarrow> local_record list \<Rightarrow> 'c local_dns" where
  "load_records fp c default_domain records =
    \<lparr>ld_domain = default_domain, ld_records = records, ld_wildcards = wildcards_from records default_domain,
     ld_ptrs = ptrs_from records default_domain, ld_cache = fold (preload_record fp default_domain) records c\<rparr>"

definition same_name :: "local_record \<Rightarrow> string option \<Rightarrow> local_record \<Rightarrow> bool" where
  "same_name changed local_domain r \<longleftrightarrow> lr_type r = lr_type changed \<and> has_fqdn r (fqdn changed local_domain) local_domain"

definition refresh_ptr :: "local_record \<Rightarrow> string option \<Rightarrow> local_record list \<Rightarrow> ptr_map \<Rightarrow> ptr_map" where
  "refresh_ptr changed dd records m =
    (case find (\<lambda>r. \<not> is_wildcard r \<and> lr_ip r = lr_ip changed) (rev records) of
       Some holder \<Rightarrow> m(lr_ip changed \<mapsto> (fqdn holder dd, ttl_or_default holder))
     | None \<Rightarrow> m(lr_ip changed := None))"

definition refresh_forward :: "'c forward_port \<Rightarrow> local_record \<Rightarrow> string option \<Rightarrow> local_record list \<Rightarrow> 'c \<Rightarrow> 'c" where
  "refresh_forward fp changed dd records c =
    (let name = fqdn changed dd; rt = local_to_record_type (lr_type changed); c1 = fp_remove fp name rt c in
     case find (same_name changed dd) (rev records) of
       Some holder \<Rightarrow> fp_insert fp name rt [lr_ip holder] (ttl_or_default holder) c1
     | None \<Rightarrow> c1)"

definition refresh_wildcard :: "local_record \<Rightarrow> string option \<Rightarrow> local_record list \<Rightarrow> wildcard_map \<Rightarrow> wildcard_map" where
  "refresh_wildcard changed dd records m =
    (case wildcard_suffix changed dd of
       None \<Rightarrow> m
     | Some suffix \<Rightarrow>
         (case find (same_name changed dd) (rev records) of
            Some holder \<Rightarrow> register_wildcard suffix (lr_type holder) (lr_ip holder) (ttl_or_default holder) m
          | None \<Rightarrow> unregister_wildcard suffix (lr_type changed) m))"

definition refresh_live :: "'c forward_port \<Rightarrow> local_record \<Rightarrow> 'c local_dns \<Rightarrow> 'c local_dns" where
  "refresh_live fp changed s =
    (let dd = ld_domain s; records = ld_records s in
     if is_wildcard changed then s\<lparr>ld_wildcards := refresh_wildcard changed dd records (ld_wildcards s)\<rparr>
     else s\<lparr>ld_ptrs := refresh_ptr changed dd records (ld_ptrs s), ld_cache := refresh_forward fp changed dd records (ld_cache s)\<rparr>)"

text \<open>A failed save puts the records back; \<open>saved\<close> is what saving the new records gives.\<close>

definition save_failed :: "string \<Rightarrow> domain_error" where
  "save_failed e = IoError (''Failed to save configuration: '' @ e)"

definition create_record ::
  "'c forward_port \<Rightarrow> (ip_addr \<Rightarrow> string) \<Rightarrow> (local_record list \<Rightarrow> string + unit) \<Rightarrow> local_record \<Rightarrow> 'c local_dns \<Rightarrow>
   (domain_error + nat) \<times> 'c local_dns" where
  "create_record fp show_ip saved r s =
    (case validate_record show_ip r (ld_domain s) of
       Inl e \<Rightarrow> (Inl e, s)
     | Inr _ \<Rightarrow>
         let records = ld_records s @ [r] in
         case saved records of
           Inl e \<Rightarrow> (Inl (save_failed e), s)
         | Inr _ \<Rightarrow> (Inr (length records - 1), refresh_live fp r (s\<lparr>ld_records := records\<rparr>)))"

definition record_index :: "int \<Rightarrow> 'c local_dns \<Rightarrow> nat option" where
  "record_index i s = (if 0 \<le> i \<and> nat i < length (ld_records s) then Some (nat i) else None)"

definition record_not_found :: "(int \<Rightarrow> string) \<Rightarrow> int \<Rightarrow> domain_error" where
  "record_not_found show_int i = Other_error (''Resource not found: Record with id '' @ show_int i @ '' not found'')"

definition update_record ::
  "'c forward_port \<Rightarrow> (ip_addr \<Rightarrow> string) \<Rightarrow> (int \<Rightarrow> string) \<Rightarrow> (local_record list \<Rightarrow> string + unit) \<Rightarrow> int \<Rightarrow> local_record \<Rightarrow>
   'c local_dns \<Rightarrow> (domain_error + local_record) \<times> 'c local_dns" where
  "update_record fp show_ip show_int saved i r s =
    (case validate_record show_ip r (ld_domain s) of
       Inl e \<Rightarrow> (Inl e, s)
     | Inr _ \<Rightarrow>
         (case record_index i s of
            None \<Rightarrow> (Inl (record_not_found show_int i), s)
          | Some ix \<Rightarrow>
              let old = ld_records s ! ix; records = (ld_records s)[ix := r] in
              case saved records of
                Inl e \<Rightarrow> (Inl (save_failed e), s)
              | Inr _ \<Rightarrow> (Inr old, refresh_live fp r (refresh_live fp old (s\<lparr>ld_records := records\<rparr>)))))"

definition delete_record ::
  "'c forward_port \<Rightarrow> (int \<Rightarrow> string) \<Rightarrow> (local_record list \<Rightarrow> string + unit) \<Rightarrow> int \<Rightarrow> 'c local_dns \<Rightarrow>
   (domain_error + local_record) \<times> 'c local_dns" where
  "delete_record fp show_int saved i s =
    (case record_index i s of
       None \<Rightarrow> (Inl (record_not_found show_int i), s)
     | Some ix \<Rightarrow>
         let removed = ld_records s ! ix; records = take ix (ld_records s) @ drop (ix + 1) (ld_records s) in
         case saved records of
           Inl e \<Rightarrow> (Inl (save_failed e), s)
         | Inr _ \<Rightarrow> (Inr removed, refresh_live fp removed (s\<lparr>ld_records := records\<rparr>)))"

text \<open>
  One edit of the records through some port to the cache (a port fixes the thread and the clock
  readings), or any other work of the cache.
\<close>

inductive edits :: "'c forward_port set \<Rightarrow> ('c \<Rightarrow> 'c \<Rightarrow> bool) \<Rightarrow> 'c local_dns \<Rightarrow> 'c local_dns \<Rightarrow> bool" for fps works where
  creates: "fp \<in> fps \<Longrightarrow> create_record fp show_ip saved r s = (n, s') \<Longrightarrow> edits fps works s s'"
| updates: "fp \<in> fps \<Longrightarrow> update_record fp show_ip show_int saved i r s = (old, s') \<Longrightarrow> edits fps works s s'"
| deletes: "fp \<in> fps \<Longrightarrow> delete_record fp show_int saved i s = (old, s') \<Longrightarrow> edits fps works s s'"
| others: "works (ld_cache s) c' \<Longrightarrow> edits fps works s (s\<lparr>ld_cache := c'\<rparr>)"

section \<open>Names\<close>

lemma str_lower_lower: "str_lower s = lower s"
proof -
  have "char_lower = ascii_lower" by (intro ext) (simp add: char_lower_def ascii_lower_def ascii_upper_def Let_def)
  then show ?thesis by (simp add: str_lower_def lower_def)
qed

lemma lower_dot [simp]: "lower (CHR ''.'' # s) = CHR ''.'' # lower s" "lower (CHR ''*'' # s) = CHR ''*'' # lower s"
  by (simp_all add: lower_def ascii_lower_def ascii_upper_def)

lemma lower_char_iff:
  "ascii_lower c = CHR ''.'' \<longleftrightarrow> c = CHR ''.''" "ascii_lower c = CHR ''*'' \<longleftrightarrow> c = CHR ''*''"
  by (rule ascii_lower_char_iff; simp add: ascii_upper_def)+

text \<open>Comparing piece by piece is comparing the name.\<close>

lemma has_fqdn_iff: "has_fqdn r name dd \<longleftrightarrow> lower name = lower (fqdn r dd)"
proof (cases "domain_or r dd")
  case None
  then show ?thesis by (simp add: has_fqdn_def fqdn_def str_eq_ignore_ascii_case_def str_lower_lower Let_def)
next
  case (Some d)
  let ?h = "lr_hostname r"
  have "lower name = lower ?h @ CHR ''.'' # lower d \<longleftrightarrow>
      length ?h < length name \<and> lower (take (length ?h) name) = lower ?h \<and> name ! length ?h = CHR ''.'' \<and>
      lower (drop (length ?h + 1) name) = lower d" (is "?l \<longleftrightarrow> ?r")
  proof
    assume l: ?l
    have "length (lower name) = length (lower ?h @ CHR ''.'' # lower d)" by (simp only: l)
    then have len: "length ?h < length name" by simp
    have split: "name = take (length ?h) name @ name ! length ?h # drop (length ?h + 1) name"
      using len by (simp add: id_take_nth_drop)
    have "lower (take (length ?h) name) @ ascii_lower (name ! length ?h) # lower (drop (length ?h + 1) name) = lower ?h @ CHR ''.'' # lower d"
      using l by (subst (asm) split) (simp add: lower_def)
    moreover have "length (lower (take (length ?h) name)) = length (lower ?h)" using len by simp
    ultimately show ?r using len lower_char_iff(1) by auto
  next
    assume r: ?r
    have "name = take (length ?h) name @ name ! length ?h # drop (length ?h + 1) name"
      using r id_take_nth_drop [of "length ?h" name] by simp
    then have "lower name = lower (take (length ?h) name) @ lower (name ! length ?h # drop (length ?h + 1) name)"
      by (metis lower_append)
    then show ?l using r by simp
  qed
  then show ?thesis
    by (auto simp: has_fqdn_def fqdn_def Some str_eq_ignore_ascii_case_def str_lower_lower str_get_def Let_def)
qed

lemma lower_star: "lower s = CHR ''*'' # CHR ''.'' # x \<longleftrightarrow> (\<exists>y. s = CHR ''*'' # CHR ''.'' # y \<and> lower y = x)"
  by (cases s; cases "tl s") (auto simp: lower_def lower_char_iff)

lemma wildcard_suffix_iff: "wildcard_suffix r dd = Some x \<longleftrightarrow> lower (fqdn r dd) = ''*.'' @ x"
proof -
  have star: "is_wildcard r" if "fqdn r dd = ''*.'' @ y" for y
    using that by (cases "lr_hostname r"; cases "tl (lr_hostname r)")
      (auto simp: fqdn_def is_wildcard_def is_wildcard_hostname_def starts_with_def split: option.splits)
  show ?thesis
    using star by (auto simp: wildcard_suffix_def strip_prefix_Some lower_star)
qed

section \<open>The last holder of a key\<close>

definition last_with :: "('r \<Rightarrow> 'k option) \<Rightarrow> 'k \<Rightarrow> 'r list \<Rightarrow> 'r option" where
  "last_with kf k xs = find (\<lambda>r. kf r = Some k) (rev xs)"

lemma last_with_simps [simp]:
  "last_with kf k [] = None" "last_with kf k (xs @ [r]) = (if kf r = Some k then Some r else last_with kf k xs)"
  by (simp_all add: last_with_def)

lemma find_append: "find P (xs @ ys) = (case find P xs of None \<Rightarrow> find P ys | Some x \<Rightarrow> Some x)"
  by (induction xs) auto

lemma last_with_append: "last_with kf k (xs @ ys) = (case last_with kf k ys of None \<Rightarrow> last_with kf k xs | Some x \<Rightarrow> Some x)"
  unfolding last_with_def by (simp add: find_append cong: option.case_cong)

lemma last_with_Cons: "last_with kf k (r # ys) = (case last_with kf k ys of None \<Rightarrow> if kf r = Some k then Some r else None | Some x \<Rightarrow> Some x)"
  using last_with_append [of kf k "[r]" ys] by (simp add: last_with_def split: option.split)

lemma last_with_mem: "last_with kf k xs = Some r \<Longrightarrow> r \<in> set xs \<and> kf r = Some k"
  by (auto simp: last_with_def find_Some_iff) (metis nth_mem set_rev length_rev)

lemma last_with_edit:
  assumes "i < length xs" "kf (xs ! i) \<noteq> Some k"
  shows "last_with kf k (take i xs @ drop (i + 1) xs) = last_with kf k xs"
    "kf r \<noteq> Some k \<Longrightarrow> last_with kf k (xs[i := r]) = last_with kf k xs"
proof -
  have "last_with kf k xs = last_with kf k (take i xs @ xs ! i # drop (i + 1) xs)" using assms(1) by (simp add: id_take_nth_drop [symmetric])
  then show "last_with kf k (take i xs @ drop (i + 1) xs) = last_with kf k xs"
    using assms(2) by (simp add: last_with_append last_with_Cons split: option.split)
  show "last_with kf k (xs[i := r]) = last_with kf k xs" if "kf r \<noteq> Some k"
    using that \<open>last_with kf k xs = _\<close> assms by (simp add: upd_conv_take_nth_drop last_with_append last_with_Cons split: option.split)
qed

section \<open>Live state and records\<close>

text \<open>Keys of a record: its address among exact records, its name and type among exact records, its suffix and type among wildcards.\<close>

definition ptr_key :: "local_record \<Rightarrow> ip_addr option" where
  "ptr_key r = (if is_wildcard r then None else Some (lr_ip r))"

definition name_key :: "string option \<Rightarrow> local_record \<Rightarrow> (string \<times> local_record_type) option" where
  "name_key dd r = (if is_wildcard r then None else Some (lower (fqdn r dd), lr_type r))"

definition suffix_key :: "string option \<Rightarrow> local_record \<Rightarrow> (string \<times> local_record_type) option" where
  "suffix_key dd r = map_option (\<lambda>x. (x, lr_type r)) (wildcard_suffix r dd)"

text \<open>What holds a key says.\<close>

definition wild_at :: "wildcard_map \<Rightarrow> string \<times> local_record_type \<Rightarrow> (ip_addr \<times> u32) option" where
  "wild_at m k = Option.bind (m (fst k)) (\<lambda>w. wa_get w (local_to_record_type (snd k)))"

definition no_empty :: "wildcard_map \<Rightarrow> bool" where
  "no_empty m \<longleftrightarrow> (\<forall>x w. m x = Some w \<longrightarrow> \<not> wa_empty w)"

lemma wa_get_simps [simp]:
  "wa_get (wa_set rt v w) (local_to_record_type rt') = (if rt' = rt then v else wa_get w (local_to_record_type rt'))"
  "wa_get no_answer rt'' = None"
  by (cases rt; cases rt'; simp add: wa_get_def) (simp add: wa_get_def no_answer_def)

lemma wa_eqI: "(\<And>rt. wa_get v (local_to_record_type rt) = wa_get w (local_to_record_type rt)) \<Longrightarrow> v = w"
  by (metis (full_types) local_to_record_type.simps record_type.distinct(1) wa_get_def wildcard_answer.equality unit.exhaust)

lemma wa_empty_iff: "wa_empty w \<longleftrightarrow> (\<forall>rt. wa_get w (local_to_record_type rt) = None)"
  by (metis (full_types) local_record_type.exhaust local_to_record_type.simps record_type.distinct(1) wa_empty_def wa_get_def)

lemma wildcards_eqI:
  assumes "no_empty m" "no_empty m'" "\<And>k. wild_at m k = wild_at m' k"
  shows "m = m'"
proof
  fix x
  have get: "Option.bind (m x) (\<lambda>w. wa_get w (local_to_record_type rt)) = Option.bind (m' x) (\<lambda>w. wa_get w (local_to_record_type rt))" for rt
    using assms(3) [of "(x, rt)"] by (simp add: wild_at_def)
  show "m x = m' x"
  proof (cases "m x"; cases "m' x")
    fix w w' assume "m x = Some w" "m' x = Some w'"
    then show ?thesis using get by (auto intro: wa_eqI)
  next
    fix w assume "m x = Some w" "m' x = None"
    then show ?thesis using get assms(1) by (simp add: no_empty_def wa_empty_iff) (metis option.distinct(1))
  next
    fix w assume "m x = None" "m' x = Some w"
    then show ?thesis using get assms(2) by (simp add: no_empty_def wa_empty_iff) (metis option.distinct(1))
  qed simp
qed

lemma register_wildcard_at:
  assumes "address_fits rt ip" "lower x = x"
  shows "wild_at (register_wildcard x rt ip ttl m) = (wild_at m)((x, rt) \<mapsto> (ip, ttl))"
    "no_empty m \<Longrightarrow> no_empty (register_wildcard x rt ip ttl m)"
  using assms
  by (auto simp: register_wildcard_def Let_def wild_at_def no_empty_def fun_eq_iff wa_empty_iff split: option.split)

lemma unregister_wildcard_at:
  assumes "lower x = x"
  shows "wild_at (unregister_wildcard x rt m) = (wild_at m)((x, rt) := None)" "no_empty m \<Longrightarrow> no_empty (unregister_wildcard x rt m)"
  using assms
  by (auto simp: unregister_wildcard_def Let_def wild_at_def no_empty_def fun_eq_iff wa_empty_iff split: option.split)

lemma is_wildcard_fqdn: "is_wildcard r \<longleftrightarrow> lower (fqdn r dd) = ''*'' \<or> (\<exists>x. lower (fqdn r dd) = ''*.'' @ x)"
proof -
  have "is_wildcard r \<longleftrightarrow> fqdn r dd = ''*'' \<or> (\<exists>y. fqdn r dd = ''*.'' @ y)"
    by (cases "lr_hostname r"; cases "tl (lr_hostname r)")
      (auto simp: fqdn_def is_wildcard_def is_wildcard_hostname_def starts_with_def split: option.split)
  moreover have "lower s = ''*'' \<longleftrightarrow> s = ''*''" for s by (cases s; cases "tl s") (auto simp: lower_def lower_char_iff)
  ultimately show ?thesis by (auto simp: lower_star)
qed

lemma same_name_keys:
  "suffix_key dd changed = Some k \<Longrightarrow> same_name changed dd r \<longleftrightarrow> suffix_key dd r = Some k"
  "name_key dd changed = Some k \<Longrightarrow> same_name changed dd r \<longleftrightarrow> name_key dd r = Some k"
proof -
  show "same_name changed dd r \<longleftrightarrow> suffix_key dd r = Some k" if "suffix_key dd changed = Some k"
    using that by (auto simp: same_name_def has_fqdn_iff suffix_key_def wildcard_suffix_iff)
  show "same_name changed dd r \<longleftrightarrow> name_key dd r = Some k" if "name_key dd changed = Some k"
    using that is_wildcard_fqdn [of r dd] is_wildcard_fqdn [of changed dd]
    by (auto simp: same_name_def has_fqdn_iff name_key_def split: if_splits)
qed

lemma suffix_key_wildcard: "suffix_key dd r = Some k \<Longrightarrow> is_wildcard r \<and> wildcard_suffix r dd = Some (fst k) \<and> lr_type r = snd k \<and> lower (fst k) = fst k"
  by (auto simp: suffix_key_def wildcard_suffix_def split: if_splits)

text \<open>
  The live state says of every key what the last record that holds it says; \<open>K\<close> are the records
  whose keys are still to be looked at.
\<close>

definition answer_of :: "local_record \<Rightarrow> ip_addr \<times> u32" where
  "answer_of r = (lr_ip r, ttl_or_default r)"

definition pointer_of :: "string option \<Rightarrow> local_record \<Rightarrow> string \<times> u32" where
  "pointer_of dd r = (fqdn r dd, ttl_or_default r)"

definition forward_of :: "local_record \<Rightarrow> ip_addr list \<times> u32" where
  "forward_of r = ([lr_ip r], ttl_or_default r)"

definition fits :: "local_record list \<Rightarrow> bool" where
  "fits records = list_all (\<lambda>r. address_fits (lr_type r) (lr_ip r)) records"

definition follows_records :: "('k \<Rightarrow> 'v option) \<Rightarrow> (local_record \<Rightarrow> 'k option) \<Rightarrow> (local_record \<Rightarrow> 'v) \<Rightarrow> local_record set \<Rightarrow> local_record list \<Rightarrow> bool" where
  "follows_records m kf val K records \<longleftrightarrow> (\<forall>k. k \<notin> {k. \<exists>r \<in> K. kf r = Some k} \<longrightarrow> m k = map_option val (last_with kf k records))"

lemma follows_edit:
  assumes "follows_records m kf val {} xs"
  shows "follows_records m kf val {r} (xs @ [r])"
    "i < length xs \<Longrightarrow> follows_records m kf val {xs ! i, r} (xs[i := r])"
    "i < length xs \<Longrightarrow> follows_records m kf val {xs ! i} (take i xs @ drop (i + 1) xs)"
  using assms last_with_edit [of i xs kf] by (auto simp: follows_records_def)

lemma follows_drop: "follows_records m kf val (insert r K) records \<Longrightarrow> kf r = None \<Longrightarrow> follows_records m kf val K records"
  by (auto simp: follows_records_def)

lemma follows_set:
  "follows_records m kf val (insert r K) records \<Longrightarrow> kf r = Some k \<Longrightarrow>
   follows_records (m(k := map_option val (last_with kf k records))) kf val K records"
  by (auto simp: follows_records_def)

lemma follows_all: "follows_records m kf val {} records \<longleftrightarrow> m = (\<lambda>k. map_option val (last_with kf k records))"
  by (auto simp: follows_records_def)

definition mirrors_but ::
  "('c \<Rightarrow> string \<times> local_record_type \<Rightarrow> (ip_addr list \<times> u32) option) \<Rightarrow> local_record set \<Rightarrow> 'c local_dns \<Rightarrow> bool" where
  "mirrors_but local_at K s \<longleftrightarrow> fits (ld_records s) \<and> no_empty (ld_wildcards s) \<and>
    follows_records (wild_at (ld_wildcards s)) (suffix_key (ld_domain s)) answer_of K (ld_records s) \<and>
    follows_records (ld_ptrs s) ptr_key (pointer_of (ld_domain s)) K (ld_records s) \<and>
    follows_records (local_at (ld_cache s)) (name_key (ld_domain s)) forward_of K (ld_records s)"

lemma find_last_with: "(\<And>r. P r \<longleftrightarrow> kf r = Some k) \<Longrightarrow> find P (rev xs) = last_with kf k xs"
proof -
  assume "\<And>r. P r \<longleftrightarrow> kf r = Some k"
  then have "P = (\<lambda>r. kf r = Some k)" by auto
  then show ?thesis by (simp add: last_with_def)
qed

lemma wildcard_refresh:
  assumes "no_empty m" "fits records" and k: "suffix_key dd changed = Some k"
  shows "wild_at (refresh_wildcard changed dd records m) = (wild_at m)(k := map_option answer_of (last_with (suffix_key dd) k records))"
    "no_empty (refresh_wildcard changed dd records m)"
proof -
  note kk = suffix_key_wildcard [OF k]
  have f: "find (same_name changed dd) (rev records) = last_with (suffix_key dd) k records"
    by (rule find_last_with) (rule same_name_keys(1) [OF k])
  have mem: "address_fits (lr_type r) (lr_ip r) \<and> lr_type r = snd k" if "last_with (suffix_key dd) k records = Some r" for r
    using last_with_mem [OF that] assms(2) by (auto simp: fits_def list_all_iff dest: suffix_key_wildcard)
  show "wild_at (refresh_wildcard changed dd records m) = (wild_at m)(k := map_option answer_of (last_with (suffix_key dd) k records))"
    using kk mem by (cases "last_with (suffix_key dd) k records")
      (auto simp: refresh_wildcard_def f register_wildcard_at(1) unregister_wildcard_at(1) answer_of_def)
  show "no_empty (refresh_wildcard changed dd records m)"
    using kk mem assms(1) by (cases "last_with (suffix_key dd) k records")
      (auto simp: refresh_wildcard_def f register_wildcard_at(2) unregister_wildcard_at(2))
qed

lemma validate_fits: "validate_record show_ip r dd = Inr x \<Longrightarrow> address_fits (lr_type r) (lr_ip r)"
  by (auto simp: validate_record_def validate_address_def split: sum.splits if_splits option.splits local_record_type.splits)

lemma lenient_fits: "fits (deserialize_lenient show_ip entries)"
  by (auto simp: fits_def deserialize_lenient_def fields_address_def validate_address_def List.map_filter_def list_all_iff
      split: sum.splits if_splits local_record_type.splits)

lemma wildcards_from_follows:
  assumes "fits records"
  shows "no_empty (wildcards_from records dd)"
    "wild_at (wildcards_from records dd) = (\<lambda>k. map_option answer_of (last_with (suffix_key dd) k records))"
proof -
  have "no_empty (wildcards_from records dd) \<and>
    wild_at (wildcards_from records dd) = (\<lambda>k. map_option answer_of (last_with (suffix_key dd) k records))"
    using assms
  proof (induction records rule: rev_induct)
    case Nil
    then show ?case by (simp add: wildcards_from_def no_empty_def wild_at_def fun_eq_iff)
  next
    case (snoc r records)
    have ih: "no_empty (wildcards_from records dd)"
      "wild_at (wildcards_from records dd) = (\<lambda>k. map_option answer_of (last_with (suffix_key dd) k records))"
      and r: "address_fits (lr_type r) (lr_ip r)"
      using snoc by (simp_all add: fits_def)
    show ?case
    proof (cases "suffix_key dd r")
      case None
      then have "wildcards_from (records @ [r]) dd = wildcards_from records dd"
        by (simp add: wildcards_from_def wildcard_of_record_def suffix_key_def)
      then show ?thesis using ih None by (simp add: fun_eq_iff)
    next
      case (Some k)
      note kk = suffix_key_wildcard [OF Some]
      have w: "wildcards_from (records @ [r]) dd = register_wildcard (fst k) (snd k) (lr_ip r) (ttl_or_default r) (wildcards_from records dd)"
        using kk by (simp add: wildcards_from_def wildcard_of_record_def)
      have reg: "wild_at (wildcards_from (records @ [r]) dd) = (wild_at (wildcards_from records dd))(k \<mapsto> answer_of r)"
        "no_empty (wildcards_from (records @ [r]) dd)"
        using register_wildcard_at [of "snd k" "lr_ip r" "fst k"] r kk ih(1) by (simp_all add: w answer_of_def)
      then show ?thesis using ih(2) Some by (auto simp: fun_eq_iff)
    qed
  qed
  then show "no_empty (wildcards_from records dd)"
    "wild_at (wildcards_from records dd) = (\<lambda>k. map_option answer_of (last_with (suffix_key dd) k records))" by simp_all
qed

lemma ptrs_from_follows: "ptrs_from records dd = (\<lambda>k. map_option (pointer_of dd) (last_with ptr_key k records))"
proof (induction records rule: rev_induct)
  case (snoc r records)
  have "ptrs_from (records @ [r]) dd = ptr_of_record dd r (ptrs_from records dd)" by (simp add: ptrs_from_def)
  then show ?case using snoc by (auto simp: ptr_of_record_def ptr_key_def pointer_of_def fun_eq_iff)
qed (simp add: ptrs_from_def)

lemma fits_edit:
  assumes "fits xs"
  shows "address_fits (lr_type r) (lr_ip r) \<Longrightarrow> fits (xs @ [r])" "address_fits (lr_type r) (lr_ip r) \<Longrightarrow> fits (xs[i := r])"
    "fits (take i xs @ drop (i + 1) xs)"
  using assms set_update_subset_insert [of xs i r]
  by (auto simp: fits_def list_all_iff dest: in_set_takeD in_set_dropD)

lemma mirrors_edit:
  assumes "mirrors_but local_at {} s"
  shows "address_fits (lr_type r) (lr_ip r) \<Longrightarrow> mirrors_but local_at {r} (s\<lparr>ld_records := ld_records s @ [r]\<rparr>)"
    "i < length (ld_records s) \<Longrightarrow> address_fits (lr_type r) (lr_ip r) \<Longrightarrow>
     mirrors_but local_at {ld_records s ! i, r} (s\<lparr>ld_records := (ld_records s)[i := r]\<rparr>)"
    "i < length (ld_records s) \<Longrightarrow>
     mirrors_but local_at {ld_records s ! i} (s\<lparr>ld_records := take i (ld_records s) @ drop (i + 1) (ld_records s)\<rparr>)"
  using assms unfolding mirrors_but_def
  by (auto intro!: fits_edit [unfolded One_nat_def add_Suc_right add_0_right] follows_edit [unfolded One_nat_def add_Suc_right add_0_right])

text \<open>What the edits rely on in the cache: a removal takes the entry of its name, an insertion puts one there.\<close>

locale forward_sink =
  fixes fps :: "'c forward_port set" and works :: "'c \<Rightarrow> 'c \<Rightarrow> bool" and sink_ok :: "'c \<Rightarrow> bool"
    and local_at :: "'c \<Rightarrow> string \<times> local_record_type \<Rightarrow> (ip_addr list \<times> u32) option"
  assumes remove_ok: "fp \<in> fps \<Longrightarrow> sink_ok c \<Longrightarrow> sink_ok (fp_remove fp d rt c)"
    and insert_ok: "fp \<in> fps \<Longrightarrow> sink_ok c \<Longrightarrow> sink_ok (fp_insert fp d rt ips ttl c)"
    and at_remove: "fp \<in> fps \<Longrightarrow> sink_ok c \<Longrightarrow>
      local_at (fp_remove fp d (local_to_record_type lt) c) = (local_at c)((lower d, lt) := None)"
    and at_insert: "fp \<in> fps \<Longrightarrow> sink_ok c \<Longrightarrow>
      local_at (fp_insert fp d (local_to_record_type lt) ips ttl c) = (local_at c)((lower d, lt) \<mapsto> (ips, ttl))"
    and works_ok: "works c c' \<Longrightarrow> sink_ok c \<Longrightarrow> sink_ok c' \<and> local_at c' = local_at c"
begin

lemma forward_refresh:
  assumes fp: "fp \<in> fps" and "sink_ok c" and k: "name_key dd changed = Some k"
  shows "local_at (refresh_forward fp changed dd records c) = (local_at c)(k := map_option forward_of (last_with (name_key dd) k records))"
    "sink_ok (refresh_forward fp changed dd records c)"
proof -
  have kk: "k = (lower (fqdn changed dd), lr_type changed)" using k by (auto simp: name_key_def split: if_splits)
  have "find (same_name changed dd) (rev records) = last_with (name_key dd) k records"
    by (rule find_last_with) (rule same_name_keys(2) [OF k])
  then show "local_at (refresh_forward fp changed dd records c) = (local_at c)(k := map_option forward_of (last_with (name_key dd) k records))"
    "sink_ok (refresh_forward fp changed dd records c)"
    using assms(2) by (cases "last_with (name_key dd) k records";
      simp add: refresh_forward_def Let_def at_remove [OF fp] at_insert [OF fp] remove_ok [OF fp] insert_ok [OF fp] kk forward_of_def)+
qed

lemma refresh_mirrors:
  assumes fp: "fp \<in> fps" and m: "mirrors_but local_at (insert changed K) s" and ok: "sink_ok (ld_cache s)"
  shows "mirrors_but local_at K (refresh_live fp changed s)" "sink_ok (ld_cache (refresh_live fp changed s))"
    "ld_records (refresh_live fp changed s) = ld_records s" "ld_domain (refresh_live fp changed s) = ld_domain s"
proof -
  note d = m [unfolded mirrors_but_def]
  note dw = d [THEN conjunct2, THEN conjunct2, THEN conjunct1]
    and dp = d [THEN conjunct2, THEN conjunct2, THEN conjunct2, THEN conjunct1]
    and dc = d [THEN conjunct2, THEN conjunct2, THEN conjunct2, THEN conjunct2]
  show "ld_records (refresh_live fp changed s) = ld_records s" "ld_domain (refresh_live fp changed s) = ld_domain s"
    by (simp_all add: refresh_live_def Let_def)
  have "mirrors_but local_at K (refresh_live fp changed s) \<and> sink_ok (ld_cache (refresh_live fp changed s))"
  proof (cases "is_wildcard changed")
    case True
    have none: "ptr_key changed = None" "name_key (ld_domain s) changed = None" using True by (simp_all add: ptr_key_def name_key_def)
    let ?w = "refresh_wildcard changed (ld_domain s) (ld_records s) (ld_wildcards s)"
    have w: "follows_records (wild_at ?w) (suffix_key (ld_domain s)) answer_of K (ld_records s) \<and> no_empty ?w"
    proof (cases "suffix_key (ld_domain s) changed")
      case None
      then have "?w = ld_wildcards s" by (simp add: refresh_wildcard_def suffix_key_def)
      then show ?thesis using d follows_drop [OF dw None] by simp
    next
      case (Some k)
      show ?thesis using d wildcard_refresh [OF _ _ Some] follows_set [OF dw Some] by simp
    qed
    show "mirrors_but local_at K (refresh_live fp changed s) \<and> sink_ok (ld_cache (refresh_live fp changed s))"
      using True d w ok follows_drop [OF dp none(1)] follows_drop [OF dc none(2)]
      by (simp add: mirrors_but_def refresh_live_def Let_def)
  next
    case False
    have keys: "suffix_key (ld_domain s) changed = None" "ptr_key changed = Some (lr_ip changed)"
      "name_key (ld_domain s) changed = Some (lower (fqdn changed (ld_domain s)), lr_type changed)"
      using False by (simp_all add: suffix_key_def wildcard_suffix_def ptr_key_def name_key_def)
    have "find (\<lambda>r. \<not> is_wildcard r \<and> lr_ip r = lr_ip changed) (rev (ld_records s)) = last_with ptr_key (lr_ip changed) (ld_records s)"
      by (rule find_last_with) (auto simp: ptr_key_def)
    then have p: "refresh_ptr changed (ld_domain s) (ld_records s) (ld_ptrs s) =
        (ld_ptrs s)(lr_ip changed := map_option (pointer_of (ld_domain s)) (last_with ptr_key (lr_ip changed) (ld_records s)))"
      by (cases "last_with ptr_key (lr_ip changed) (ld_records s)") (simp_all add: refresh_ptr_def pointer_of_def)
    note f = forward_refresh [OF fp ok keys(3), of "ld_records s"]
    show "mirrors_but local_at K (refresh_live fp changed s) \<and> sink_ok (ld_cache (refresh_live fp changed s))"
      using False d f(2) follows_drop [OF dw keys(1)] follows_set [OF dp keys(2)] follows_set [OF dc keys(3)]
      by (simp add: mirrors_but_def refresh_live_def Let_def p f(1))
  qed
  then show "mirrors_but local_at K (refresh_live fp changed s)" "sink_ok (ld_cache (refresh_live fp changed s))" by simp_all
qed

lemma create_keeps:
  assumes fp: "fp \<in> fps" and e: "create_record fp show_ip saved r s = (n, s')" and m: "mirrors_but local_at {} s" and ok: "sink_ok (ld_cache s)"
  shows "mirrors_but local_at {} s' \<and> sink_ok (ld_cache s') \<and> ld_domain s' = ld_domain s"
proof (cases "s' = s")
  case False
  let ?s = "s\<lparr>ld_records := ld_records s @ [r]\<rparr>"
  have s': "s' = refresh_live fp r ?s" and v: "validate_record show_ip r (ld_domain s) = Inr ()"
    using e False by (auto simp: create_record_def Let_def split: sum.splits)
  have "mirrors_but local_at {r} ?s"
    by (rule mirrors_edit(1) [OF m validate_fits [OF v]])
  from refresh_mirrors [OF fp this] show ?thesis using ok s' by simp
qed (use m ok in simp)

lemma update_keeps:
  assumes fp: "fp \<in> fps" and e: "update_record fp show_ip show_int saved i r s = (old, s')" and m: "mirrors_but local_at {} s" and ok: "sink_ok (ld_cache s)"
  shows "mirrors_but local_at {} s' \<and> sink_ok (ld_cache s') \<and> ld_domain s' = ld_domain s"
proof (cases "s' = s")
  case False
  obtain j where j: "j < length (ld_records s)" and v: "validate_record show_ip r (ld_domain s) = Inr ()"
    and s': "s' = refresh_live fp r (refresh_live fp (ld_records s ! j) (s\<lparr>ld_records := (ld_records s)[j := r]\<rparr>))"
    using e False by (auto simp: update_record_def record_index_def Let_def split: sum.splits option.splits if_splits)
  have "mirrors_but local_at {ld_records s ! j, r} (s\<lparr>ld_records := (ld_records s)[j := r]\<rparr>)"
    by (rule mirrors_edit(2) [OF m j validate_fits [OF v]])
  note first = refresh_mirrors [OF fp this]
  show ?thesis using refresh_mirrors [of _ r "{}", OF fp first(1)] first(2-4) ok s' by simp
qed (use m ok in simp)

lemma delete_keeps:
  assumes fp: "fp \<in> fps" and e: "delete_record fp show_int saved i s = (old, s')" and m: "mirrors_but local_at {} s" and ok: "sink_ok (ld_cache s)"
  shows "mirrors_but local_at {} s' \<and> sink_ok (ld_cache s') \<and> ld_domain s' = ld_domain s"
proof (cases "s' = s")
  case False
  obtain j where j: "j < length (ld_records s)"
    and s': "s' = refresh_live fp (ld_records s ! j) (s\<lparr>ld_records := take j (ld_records s) @ drop (j + 1) (ld_records s)\<rparr>)"
    using e False by (auto simp: delete_record_def record_index_def Let_def split: sum.splits option.splits if_splits)
  have "mirrors_but local_at {ld_records s ! j} (s\<lparr>ld_records := take j (ld_records s) @ drop (j + 1) (ld_records s)\<rparr>)"
    by (rule mirrors_edit(3) [OF m j])
  from refresh_mirrors [OF fp this] show ?thesis using ok s' by simp
qed (use m ok in simp)

lemma others_keep:
  assumes "works (ld_cache s) c'" "mirrors_but local_at {} s" "sink_ok (ld_cache s)"
  shows "mirrors_but local_at {} (s\<lparr>ld_cache := c'\<rparr>) \<and> sink_ok (ld_cache (s\<lparr>ld_cache := c'\<rparr>)) \<and> ld_domain (s\<lparr>ld_cache := c'\<rparr>) = ld_domain s"
  using assms works_ok by (simp add: mirrors_but_def)

lemma edits_keep:
  assumes "(edits fps works)\<^sup>*\<^sup>* s s'" "mirrors_but local_at {} s" "sink_ok (ld_cache s)"
  shows "mirrors_but local_at {} s' \<and> sink_ok (ld_cache s') \<and> ld_domain s' = ld_domain s"
  using assms(1)
proof (induction rule: rtranclp_induct)
  case (step s1 s2)
  from step(2) show ?case
    by (cases rule: edits.cases) (use step(3) create_keeps update_keeps delete_keeps others_keep in metis)+
qed (use assms in simp)

lemma preload_follows:
  assumes fp: "fp \<in> fps" and c: "sink_ok c" "local_at c = (\<lambda>_. None)"
  shows "local_at (fold (preload_record fp dd) records c) = (\<lambda>k. map_option forward_of (last_with (name_key dd) k records)) \<and>
    sink_ok (fold (preload_record fp dd) records c)"
proof (induction records rule: rev_induct)
  case (snoc r records)
  then show ?case by (auto simp: preload_record_def at_insert [OF fp] insert_ok [OF fp] name_key_def forward_of_def fun_eq_iff)
qed (use c in simp)

lemma load_mirrors:
  assumes "fits records" "fp \<in> fps" "sink_ok c" "local_at c = (\<lambda>_. None)"
  shows "mirrors_but local_at {} (load_records fp c dd records)" "sink_ok (ld_cache (load_records fp c dd records))"
  using assms wildcards_from_follows [OF assms(1), of dd] ptrs_from_follows [of records dd] preload_follows [OF assms(2-4)]
  by (simp_all add: mirrors_but_def load_records_def follows_all)

text \<open>What the records say decides the live state, whatever led to them.\<close>

lemma mirrors_unique:
  assumes "mirrors_but local_at {} s" "mirrors_but local_at {} s'" "ld_records s = ld_records s'" "ld_domain s = ld_domain s'"
  shows "ld_wildcards s = ld_wildcards s' \<and> ld_ptrs s = ld_ptrs s' \<and> local_at (ld_cache s) = local_at (ld_cache s')"
  using assms by (auto simp: mirrors_but_def follows_all intro!: wildcards_eqI)

lemma live_is_restart:
  assumes "fits records" "fp \<in> fps" "sink_ok c" "local_at c = (\<lambda>_. None)"
    and run: "(edits fps works)\<^sup>*\<^sup>* (load_records fp c dd records) s"
    and new: "fp' \<in> fps" "sink_ok c'" "local_at c' = (\<lambda>_. None)" "s' = load_records fp' c' dd (ld_records s)"
  shows "ld_wildcards s = ld_wildcards s' \<and> ld_ptrs s = ld_ptrs s' \<and> local_at (ld_cache s) = local_at (ld_cache s')"
proof -
  have s: "mirrors_but local_at {} s" "ld_domain s = dd"
    using edits_keep [OF run load_mirrors [OF assms(1-4)]] by (simp_all add: load_records_def)
  then have "mirrors_but local_at {} s'"
    using load_mirrors(1) [OF _ new(1-3)] by (simp add: mirrors_but_def new(4))
  from mirrors_unique [OF s(1) this] s(2) show ?thesis by (simp add: load_records_def new(4))
qed

end

end
