(* ===== verification/Local_Live.thy ===== *)
theory Local_Live
  imports Cache_Layer Local_Records
begin

text \<open>
  Local records on the real cache: the sink that the edits write to is the DNS cache of
  \<open>dns/cache/storage.rs\<close>, which goes on serving, renewing, evicting and clearing between edits.
\<close>

section \<open>The cache as a sink\<close>

text \<open>The cache with the current second; a port fixes the thread and the readings of the clock.\<close>

type_synonym 'l timed_cache = "u64 \<times> 'l dns_cache"

definition insert_permanent_record ::
  "'l cache_env \<Rightarrow> (nat \<Rightarrow> u64) \<Rightarrow> nat \<Rightarrow> string \<Rightarrow> record_type \<Rightarrow> ip_addr list \<Rightarrow> u32 \<Rightarrow> 'l dns_cache \<Rightarrow> 'l dns_cache res" where
  "insert_permanent_record env clk t d rt ips ttl c =
    insert_permanent env clk t d rt (IpAddresses \<lparr>ca_addresses = ips, ca_chain = None\<rparr>) ttl c"

definition remove_record ::
  "'l cache_env \<Rightarrow> nat \<Rightarrow> string \<Rightarrow> record_type \<Rightarrow> int option \<Rightarrow> 'l dns_cache \<Rightarrow> bool \<times> 'l dns_cache" where
  "remove_record env t d rt group_id c =
    (case group_id of
       None \<Rightarrow> cache_remove env t d rt c
     | Some i \<Rightarrow> if 0 < i \<and> i < 2 ^ 32 then remove_in env t d rt (word_of_int i) c else (False, c))"

definition cache_port :: "'l cache_env \<Rightarrow> (nat \<Rightarrow> u64) \<Rightarrow> nat \<Rightarrow> 'l timed_cache forward_port" where
  "cache_port env clk t =
    \<lparr>fp_remove = \<lambda>d rt (now, c). (now, snd (remove_record env t d rt None c)),
     fp_insert = \<lambda>d rt ips ttl (now, c). (now, case insert_permanent_record env clk t d rt ips ttl c of Got c' \<Rightarrow> c' | _ \<Rightarrow> c)\<rparr>"

definition cache_ports :: "'l cache_env \<Rightarrow> 'l timed_cache forward_port set" where
  "cache_ports env = {cache_port env clk t |clk t. True}"

text \<open>Everything else the cache does while time passes.\<close>

definition serves :: "'l cache_env \<Rightarrow> 'l timed_cache \<Rightarrow> 'l timed_cache \<Rightarrow> bool" where
  "serves env x y \<longleftrightarrow> fst x \<le> fst y \<and>
    (snd y = snd x \<or> (\<exists>op. (\<forall>k. op \<noteq> Add_local k \<and> op \<noteq> Remove_key k) \<and> cache_step env (fst y) op (snd x) (snd y)))"

definition permanent_at :: "'l dns_cache \<Rightarrow> cache_key \<Rightarrow> (cached_data \<times> u32) option" where
  "permanent_at c k = (case map_of (dc_map c) k of Some r \<Rightarrow> if rec_permanent r then Some (cr_data r, cr_ttl r) else None | None \<Rightarrow> None)"

fun address_answer :: "cached_data \<times> u32 \<Rightarrow> (ip_addr list \<times> u32) option" where
  "address_answer (IpAddresses a, ttl) = Some (ca_addresses a, ttl)"
| "address_answer _ = None"

definition cached_local :: "'l timed_cache \<Rightarrow> string \<times> local_record_type \<Rightarrow> (ip_addr list \<times> u32) option" where
  "cached_local x k = Option.bind (permanent_at (snd x) (from_lowercase (fst k) (local_to_record_type (snd k)))) address_answer"

lemma permanent_at_kept: "permanent_at c' k = Some (cr_data r, cr_ttl r) \<longleftrightarrow> local_kept r k c'"
  by (auto simp: permanent_at_def local_kept_def simp del: map_of_eq_Some_iff split: option.splits)

lemma permanent_atE:
  assumes "permanent_at c k = Some v"
  obtains r where "map_of (dc_map c) k = Some r" "rec_permanent r" "v = (cr_data r, cr_ttl r)"
  using assms by (auto simp: permanent_at_def simp del: map_of_eq_Some_iff split: option.splits if_splits)

lemma permanent_at_listed:
  assumes "cache_ok env now c"
  shows "permanent_at c k \<noteq> None \<longleftrightarrow> ck_view k = 0 \<and> listed c (ck_domain k) (ck_type k)"
proof -
  have "k = from_lowercase (ck_domain k) (ck_type k)" if "ck_view k = 0"
    using that by (cases k) (simp add: from_lowercase_def)
  then show ?thesis
    using cache_okD(4) [OF assms, of k] cache_okD(5) [OF assms, of "ck_domain k" "ck_type k"]
    by (auto simp: permanent_at_def record_ok_def simp del: map_of_eq_Some_iff split: option.splits if_splits)
qed


lemma permanent_at_kept_eq:
  assumes "cache_ok env now c" "cache_ok env' now' c'"
    and kept: "\<And>r. map_of (dc_map c) k = Some r \<Longrightarrow> rec_permanent r \<Longrightarrow> local_kept r k c'"
    and backwards: "listed c' (ck_domain k) (ck_type k) \<Longrightarrow> listed c (ck_domain k) (ck_type k)"
  shows "permanent_at c' k = permanent_at c k"
proof (cases "permanent_at c k")
  case None
  then have "permanent_at c' k = None"
    using backwards permanent_at_listed [OF assms(1), of k] permanent_at_listed [OF assms(2), of k] by blast
  then show ?thesis using None by simp
next
  case (Some v)
  then obtain r where "map_of (dc_map c) k = Some r" "rec_permanent r" "v = (cr_data r, cr_ttl r)" by (rule permanent_atE)
  then show ?thesis using kept permanent_at_kept [of c' k r] Some by simp
qed

section \<open>Names the cache lists as local\<close>

lemma keep_l1_lists: "keep_l1 env now t k a s l x c = (n, c1) \<Longrightarrow> permanent_records c1 = permanent_records c"
  using keep_l1_fields(3) by (metis snd_conv)

lemma store_lists:
  assumes "store env clk t k d ttl s loc c = Got c'"
  shows "permanent_records c' = permanent_records c"
proof -
  have pos: "permanent_records c' = permanent_records c" if "store_positive env clk t k x ttl1 s loc c = Got c'" for x ttl1
    using that by (auto simp: store_positive_def Let_def res_simps keep_l1_fields split: prod.splits option.splits if_splits)
  show ?thesis
  proof (cases "is_negative d")
    case True
    then show ?thesis using assms by (auto simp: store_def negative_insert_def Let_def)
  next
    case False
    then obtain ttl1 where st: "(case into_stored d ttl1 (cfg_min_ttl (cfg env)) (cfg_max_ttl (cfg env)) of
        Got stored \<Rightarrow> store_positive env clk t k stored ttl1 s loc c | Nothing \<Rightarrow> Got c | Panic \<Rightarrow> Panic) = Got c'"
      using assms by (auto simp: store_def res_simps)
    then show ?thesis by (cases "into_stored d ttl1 (cfg_min_ttl (cfg env)) (cfg_max_ttl (cfg env))") (auto dest: pos)
  qed
qed

lemma renew_lists:
  assumes "refresh_record_of env clk t k nt nd s c = Got (ok, c')"
  shows "permanent_records c' = permanent_records c"
  using assms
  by (auto simp: refresh_record_of_def renew_entry_def Let_def res_simps split: prod.splits option.splits if_splits res.splits
      dest: keep_l1_lists)

lemma clear_lists:
  assumes "cache_clear env now t c = Got c'" "cache_ok env now c" "listed c' d rt"
  shows "listed c d rt"
proof -
  obtain c2 where c2: "cache_clear env now t c = Got c2" "cache_ok env now c2"
    "\<forall>k r'. map_of (dc_map c2) k = Some r' \<longleftrightarrow> (\<exists>r. map_of (dc_map c) k = Some r \<and> rec_permanent r \<and> r' = reborn now k r)"
    using clear_restores [OF assms(2)] by blast
  then obtain r where "map_of (dc_map c) (from_lowercase d rt) = Some r" "rec_permanent r"
    using cache_okD(5) [OF c2(2), of d rt] assms(1,3) by auto
  then have "permanent_at c (from_lowercase d rt) \<noteq> None" by (simp add: permanent_at_def)
  then show ?thesis using permanent_at_listed [OF assms(2)] by (simp add: from_lowercase_def)
qed

lemma step_lists:
  assumes "cache_step env now op c c'" "cache_ok env now c" "\<forall>k. op \<noteq> Add_local k \<and> op \<noteq> Remove_key k" "listed c' d rt"
  shows "listed c d rt"
proof -
  have same: "listed c d rt" if "permanent_records c' = permanent_records c" using that assms(4) by (simp add: listed_def)
  have shr: "listed c d rt" if "shrinks c c' \<or> (\<exists>n. rotate_bloom env now c = Got (n, c'))"
    using that same by (auto simp: rotate_bloom_def Let_def res_simps dest: shrinksD(2))
  show ?thesis
    using assms(1)
  proof cases
    case stores
    then show ?thesis using store_lists same by blast
  next
    case renews
    then show ?thesis using renew_lists same by blast
  next
    case clears
    then show ?thesis using clear_lists assms(2,4) by blast
  qed (use step_shrinks [OF assms(1,2)] shr assms(3) in blast)+
qed

lemma step_local:
  assumes "cache_step env now op c c'" "cache_ok env now c" "limits_ok env" "\<forall>k. op \<noteq> Add_local k \<and> op \<noteq> Remove_key k"
  shows "permanent_at c' k = permanent_at c k"
  by (rule permanent_at_kept_eq [OF assms(2) step_ok [OF assms(1-3)]])
    (use step_kept [OF assms(1,2)] step_lists [OF assms(1,2,4)] assms(4) in blast)+

lemma remove_local:
  assumes ok: "cache_ok env now c"
  shows "permanent_at (snd (cache_remove env' t d rt c)) = (permanent_at c)(from_lowercase (normalize_domain d) rt := None)"
  by (auto simp: fun_eq_iff permanent_at_def cache_remove_def Let_def drop_record_def delete_conv simp del: map_of_eq_Some_iff)

lemma insert_local:
  assumes ok: "cache_ok env now c" and x: "into_stored x ttl 0 (- 1) = Got y"
    and add: "insert_permanent env clk t d rt x ttl c = Got c'"
  shows "permanent_at c' = (permanent_at c)(from_lowercase (normalize_domain d) rt \<mapsto> (y, ttl))"
proof
  fix k
  have ok': "cache_ok env now c'" using ok_insert_permanent [OF ok, of clk t d rt x ttl] add by simp
  have lists: "listed c' d' rt' \<longleftrightarrow> listed c d' rt' \<or> d' = normalize_domain d \<and> rt' = rt" for d' rt'
  proof -
    let ?k = "from_lowercase (normalize_domain d) rt"
    obtain b where b: "bloom_set (key_hash env) (dc_bloom c) ?k = Got b" using ok_gate [OF ok] by blast
    define c1 where "c1 = c\<lparr>dc_bloom := b\<rparr>"
    define c2 where "c2 = (if max_entries (cfg env) \<le> length (dc_map c1) then evict_entries (cfg env) (clk 0) c1 else c1)"
    have "shrinks c1 c2" using shrinks_evict_entries [OF ok_bloom_set(1) [OF ok b]] by (simp add: c2_def c1_def)
    then have same: "listed c2 d' rt' = listed c d' rt'" using shrinksD(2) [of c1 c2] by (simp add: listed_def c1_def)
    have "permanent_records c' = permanent_records (claim_permanent (ck_domain ?k) rt c2)"
      using add unfolding insert_permanent_def Let_def b and_then.simps c1_def [symmetric] c2_def [symmetric] x
      by (auto simp: keep_l1_fields)
    then have "listed c' d' rt' = listed (claim_permanent (ck_domain ?k) rt c2) d' rt'" by (simp add: listed_def)
    then show ?thesis unfolding listed_claim same by (simp add: from_lowercase_def)
  qed
  show "permanent_at c' k = ((permanent_at c)(from_lowercase (normalize_domain d) rt \<mapsto> (y, ttl))) k"
  proof (cases "k = from_lowercase (normalize_domain d) rt")
    case True
    then show ?thesis using insert_permanent_result [OF add x] by (simp add: permanent_at_def) (simp add: permanent_record_def)
  next
    case False
    show ?thesis
    proof (cases "ck_view k = 0")
      case True
      then have "permanent_at c' k = permanent_at c k"
        by (intro permanent_at_kept_eq [OF ok ok'])
          (use add_kept [OF ok add] False lists in \<open>auto simp: from_lowercase_def\<close>)
      then show ?thesis using False by simp
    next
      case v: False
      then have "permanent_at c k = None" "permanent_at c' k = None"
        using permanent_at_listed [OF ok, of k] permanent_at_listed [OF ok', of k] by blast+
      then show ?thesis using False by simp
    qed
  qed
qed

section \<open>The edits on the cache\<close>

lemma lower_key: "from_lowercase (lower d) rt = from_lowercase (lower d') rt' \<longleftrightarrow> lower d = lower d' \<and> rt = rt'"
  by (simp add: from_lowercase_def)

lemma cached_local_upd:
  assumes "permanent_at (snd y) = (permanent_at (snd x))(from_lowercase d (local_to_record_type lt) := v)"
  shows "cached_local y = (cached_local x)((d, lt) := Option.bind v address_answer)"
proof -
  have "local_to_record_type a = local_to_record_type b \<longleftrightarrow> a = b" for a b by (cases a; cases b) simp_all
  then show ?thesis by (auto simp: cached_local_def assms from_lowercase_def fun_eq_iff)
qed

lemma port_laws:
  assumes "fp \<in> cache_ports env" and ok: "cache_ok env (fst x) (snd x)"
  shows "cache_ok env (fst (fp_remove fp d rt x)) (snd (fp_remove fp d rt x))"
    "cache_ok env (fst (fp_insert fp d rt ips ttl x)) (snd (fp_insert fp d rt ips ttl x))"
    "cached_local (fp_remove fp d (local_to_record_type lt) x) = (cached_local x)((lower d, lt) := None)"
    "cached_local (fp_insert fp d (local_to_record_type lt) ips ttl x) = (cached_local x)((lower d, lt) \<mapsto> (ips, ttl))"
proof -
  obtain clk t where fp: "fp = cache_port env clk t" using assms(1) by (auto simp: cache_ports_def)
  obtain now c where x: "x = (now, c)" by fastforce
  let ?a = "\<lparr>ca_addresses = ips, ca_chain = None\<rparr>"
  show "cache_ok env (fst (fp_remove fp d rt x)) (snd (fp_remove fp d rt x))"
    using ok_remove ok by (simp add: fp x cache_port_def remove_record_def)
  show "cache_ok env (fst (fp_insert fp d rt ips ttl x)) (snd (fp_insert fp d rt ips ttl x))"
    using ok_insert_permanent [of env now c clk t d rt "IpAddresses ?a" ttl] ok
    by (auto simp: fp x cache_port_def insert_permanent_record_def)
  have "permanent_at (snd (fp_remove fp d (local_to_record_type lt) x)) =
      (permanent_at (snd x))(from_lowercase (lower d) (local_to_record_type lt) := None)"
    using remove_local [of env now c] ok by (simp add: fp x cache_port_def remove_record_def normalize_domain_lower)
  from cached_local_upd [OF this]
  show "cached_local (fp_remove fp d (local_to_record_type lt) x) = (cached_local x)((lower d, lt) := None)" by simp
  obtain c' where c': "insert_permanent env clk t d (local_to_record_type lt) (IpAddresses ?a) ttl c = Got c'"
    using ok_insert_permanent [of env now c clk t d "local_to_record_type lt" "IpAddresses ?a" ttl] ok x by auto
  have "permanent_at (snd (fp_insert fp d (local_to_record_type lt) ips ttl x)) =
      (permanent_at (snd x))(from_lowercase (lower d) (local_to_record_type lt) \<mapsto> (IpAddresses ?a, ttl))"
    using insert_local [OF _ _ c', of now] ok
    by (simp add: fp x cache_port_def insert_permanent_record_def c' normalize_domain_lower into_stored_def)
  from cached_local_upd [OF this]
  show "cached_local (fp_insert fp d (local_to_record_type lt) ips ttl x) = (cached_local x)((lower d, lt) \<mapsto> (ips, ttl))" by simp
qed

lemma serves_local:
  assumes "serves env x y" "cache_ok env (fst x) (snd x)" "limits_ok env"
  shows "cache_ok env (fst y) (snd y) \<and> cached_local y = cached_local x"
proof -
  have ok: "cache_ok env (fst y) (snd x)" using assms(1,2) ok_later by (auto simp: serves_def)
  from assms(1) consider "snd y = snd x"
    | op where "\<forall>k. op \<noteq> Add_local k \<and> op \<noteq> Remove_key k" "cache_step env (fst y) op (snd x) (snd y)"
    by (auto simp: serves_def)
  then show ?thesis
  proof cases
    case 1
    then show ?thesis using ok by (simp add: cached_local_def fun_eq_iff)
  next
    case 2
    then show ?thesis using step_ok [OF 2(2) ok assms(3)] step_local [OF 2(2) ok assms(3) 2(1)] by (simp add: cached_local_def fun_eq_iff)
  qed
qed

text \<open>The sink on the cache; the limits of the TTL are part of its state's condition.\<close>

interpretation cache_sink: forward_sink "cache_ports env" "serves env"
  "\<lambda>x. limits_ok env \<and> cache_ok env (fst x) (snd x)" cached_local for env
proof unfold_locales
  fix x y :: "'a timed_cache"
  show "(limits_ok env \<and> cache_ok env (fst y) (snd y)) \<and> cached_local y = cached_local x"
    if "serves env x y" "limits_ok env \<and> cache_ok env (fst x) (snd x)"
    using serves_local that by blast
qed (simp_all add: port_laws)


lemma refresh_live_fields [simp]:
  "ld_records (refresh_live fp r s) = ld_records s" "ld_domain (refresh_live fp r s) = ld_domain s"
  by (simp_all add: refresh_live_def Let_def)

definition demo_local :: "u32 \<Rightarrow> local_record" where
  "demo_local n = \<lparr>lr_hostname = ''a.test'', lr_domain = None, lr_ip = V4 n, lr_type = Local_A, lr_ttl = Some 60\<rparr>"

lemma demo_local_fields [simp]: "lr_ip (demo_local n) = V4 n" "lr_type (demo_local n) = Local_A" "ttl_or_default (demo_local n) = 60"
  by (simp_all add: demo_local_def ttl_or_default_def)

lemma demo_local_valid: "validate_record show_ip (demo_local n) None = Inr ()"
proof -
  have h: "validate_hostname ''a.test'' = Inr ()" by code_simp
  have w: "\<not> is_wildcard (demo_local n)" by (simp add: is_wildcard_def demo_local_def is_wildcard_hostname_def starts_with_def)
  show ?thesis using w by (simp add: validate_record_def demo_local_def h validate_address_def)
qed


end
