(* ===== verification/Pool_Routes.thy ===== *)
theory Pool_Routes
  imports Local_Records Cache_Layer "HOL-Library.Char_ord" "HOL-Library.List_Lexorder" "HOL-Library.Product_Lexorder" "HOL-Library.Option_ord"
begin

text \<open>
  Conditional pools: which pool answers a name for a client group (\<open>domain/src/config/upstream.rs\<close>,
  \<open>load_balancer/routes.rs\<close>). The hash map is a map; the conversion of a Unicode name to
  punycode and the display of numbers are arguments. The lookup is shown to find the most specific routed domain,
  and the test whether a reload changes routes is shown to miss nothing.
\<close>

section \<open>Pools\<close>

datatype upstream_strategy = Parallel | Failover | Balanced

record upstream_pool =
  up_name :: string
  up_strategy :: upstream_strategy
  up_priority :: u8
  up_servers :: "string list"
  up_domains :: "string list"
  up_groups :: "i64 list"
  up_internal :: bool

definition is_conditional :: "upstream_pool \<Rightarrow> bool" where
  "is_conditional p \<longleftrightarrow> up_domains p \<noteq> []"

definition config_error :: "string \<Rightarrow> domain_error" where
  "config_error e = Other_error (''Configuration error: '' @ e)"

definition strip_dot_suffix :: "string \<Rightarrow> string" where
  "strip_dot_suffix s = (if s \<noteq> [] \<and> last s = CHR ''.'' then butlast s else s)"

definition normalize_route_domain :: "(string \<Rightarrow> string + string) \<Rightarrow> string \<Rightarrow> string + string" where
  "normalize_route_domain idna d =
    (let t0 = trim d;
         t1 = (case strip_prefix ''.'' t0 of Some r \<Rightarrow> r | None \<Rightarrow> t0);
         t2 = strip_dot_suffix t1
     in if CHR ''*'' \<in> set t2 then Inl ''a wildcard is not needed: a domain already covers every name under it''
        else
          case (if list_all (\<lambda>c. of_char c < (128 :: nat)) t2 then Inr (lower t2)
                else case idna t2 of Inl e \<Rightarrow> Inl (''not a valid domain name ('' @ e @ '')'') | Inr a \<Rightarrow> Inr a) of
            Inl e \<Rightarrow> Inl e
          | Inr ascii \<Rightarrow> (case validate_domain ascii of Inl e \<Rightarrow> Inl e | Inr _ \<Rightarrow> Inr ascii))"

fun collect_results :: "('e + 'a) list \<Rightarrow> 'e + 'a list" where
  "collect_results [] = Inr []"
| "collect_results (Inl e # xs) = Inl e"
| "collect_results (Inr x # xs) = (case collect_results xs of Inl e \<Rightarrow> Inl e | Inr ys \<Rightarrow> Inr (x # ys))"

definition normalized_domains :: "(string \<Rightarrow> string + string) \<Rightarrow> upstream_pool \<Rightarrow> domain_error + string list" where
  "normalized_domains idna p =
    collect_results (map (\<lambda>d. case normalize_route_domain idna d of
        Inl reason \<Rightarrow> Inl (config_error (''Pool '' @ CHR 0x27 # up_name p @ CHR 0x27 # '': domain '' @ CHR 0x27 # d @ CHR 0x27 # '': '' @ reason))
      | Inr n \<Rightarrow> Inr n) (up_domains p))"

text \<open>A client group id is a positive 32-bit number.\<close>

definition group_id :: "i64 \<Rightarrow> u32 option" where
  "group_id i = (if 0 < i \<and> i < 2 ^ 32 then Some (word_of_int i) else None)"

definition not_a_group :: "(i64 \<Rightarrow> string) \<Rightarrow> upstream_pool \<Rightarrow> i64 \<Rightarrow> domain_error" where
  "not_a_group show_int p i = config_error (''Pool '' @ CHR 0x27 # up_name p @ CHR 0x27 # '': '' @ show_int i @ '' is not a client group id'')"

section \<open>Validation\<close>

type_synonym claims = "string \<times> i64 option \<rightharpoonup> string"

definition claim_one :: "(i64 \<Rightarrow> string) \<Rightarrow> string \<Rightarrow> string \<times> i64 option \<Rightarrow> claims \<Rightarrow> domain_error + claims" where
  "claim_one show_int name k claimed =
    (let holder = (case claimed k of Some h \<Rightarrow> h | None \<Rightarrow> name)
     in if holder \<noteq> name
        then Inl (config_error (''Domain '' @ CHR 0x27 # fst k @ CHR 0x27 # '' is routed to both pool '' @ CHR 0x27 # holder @ CHR 0x27 #
          '' and pool '' @ CHR 0x27 # name @ CHR 0x27 # '' for '' @
          (case snd k of Some i \<Rightarrow> ''client group '' @ show_int i | None \<Rightarrow> ''every client'')))
        else Inr (claimed(k \<mapsto> holder)))"

fun claim_all :: "(i64 \<Rightarrow> string) \<Rightarrow> string \<Rightarrow> (string \<times> i64 option) list \<Rightarrow> claims \<Rightarrow> domain_error + claims" where
  "claim_all show_int name [] claimed = Inr claimed"
| "claim_all show_int name (k # ks) claimed =
    (case claim_one show_int name k claimed of Inl e \<Rightarrow> Inl e | Inr c1 \<Rightarrow> claim_all show_int name ks c1)"

definition scopes :: "upstream_pool \<Rightarrow> i64 option list" where
  "scopes p = (if up_groups p = [] then [None] else map Some (up_groups p))"

fun validate_claims ::
  "(string \<Rightarrow> string + string) \<Rightarrow> (i64 \<Rightarrow> string) \<Rightarrow> upstream_pool list \<Rightarrow> claims \<Rightarrow> domain_error + unit" where
  "validate_claims idna show_int [] claimed = Inr ()"
| "validate_claims idna show_int (p # ps) claimed =
    (if \<not> is_conditional p then
       if up_groups p \<noteq> []
       then Inl (config_error (''Pool '' @ CHR 0x27 # up_name p @ CHR 0x27 #
         '' sets groups without domains: groups only choose who a pool'' @ CHR 0x27 # ''s domains are routed for''))
       else if up_internal p
       then Inl (config_error (''Pool '' @ CHR 0x27 # up_name p @ CHR 0x27 #
         '' is internal without domains: only a pool that answers its own domains can be internal''))
       else validate_claims idna show_int ps claimed
     else case find (\<lambda>i. group_id i = None) (up_groups p) of
       Some i \<Rightarrow> Inl (not_a_group show_int p i)
     | None \<Rightarrow>
         (case normalized_domains idna p of
            Inl e \<Rightarrow> Inl e
          | Inr ds \<Rightarrow>
              (case claim_all show_int (up_name p) (concat (map (\<lambda>d. map (Pair d) (scopes p)) ds)) claimed of
                 Inl e \<Rightarrow> Inl e
               | Inr c1 \<Rightarrow> validate_claims idna show_int ps c1)))"

definition validate_pool_routes ::
  "(string \<Rightarrow> string + string) \<Rightarrow> (i64 \<Rightarrow> string) \<Rightarrow> upstream_pool list \<Rightarrow> domain_error + unit" where
  "validate_pool_routes idna show_int pools =
    (if pools = [] then Inr ()
     else if list_all is_conditional pools
     then Inl (config_error ''At least one pool must have no domains, to answer every other query'')
     else validate_claims idna show_int pools Map.empty)"

section \<open>Routes\<close>

record domain_routes =
  every_client :: "nat option"
  by_group :: "(u32 \<times> nat) list"

definition no_routes :: domain_routes where
  "no_routes = \<lparr>every_client = None, by_group = []\<rparr>"

definition matching :: "domain_routes \<Rightarrow> u32 option \<Rightarrow> (nat \<times> u32) option" where
  "matching r g =
    (case Option.bind g (\<lambda>k. map_option (\<lambda>(_, index). (index, k)) (find (\<lambda>(k', _). k' = k) (by_group r))) of
       Some found \<Rightarrow> Some found
     | None \<Rightarrow> map_option (\<lambda>index. (index, 0)) (every_client r))"

type_synonym route_entry = "string \<times> u32 option \<times> string \<times> bool"

record pool_routes =
  by_domain :: "string \<rightharpoonup> domain_routes"
  pr_internal :: "bool list"
  has_group_routes :: bool
  signature :: "route_entry list"

text \<open>Every domain above a routed one, so that a lookup from the top knows to look deeper.\<close>

definition parents :: "string \<Rightarrow> string list" where
  "parents d = map (\<lambda>dot. drop (dot + 1) d) (filter (\<lambda>i. d ! i = CHR ''.'') [0..<length d])"

definition entry_of :: "string \<Rightarrow> (string \<rightharpoonup> domain_routes) \<Rightarrow> domain_routes" where
  "entry_of d m = (case m d of Some r \<Rightarrow> r | None \<Rightarrow> no_routes)"

definition touch :: "string \<Rightarrow> (string \<rightharpoonup> domain_routes) \<Rightarrow> (string \<rightharpoonup> domain_routes)" where
  "touch d m = m(d \<mapsto> entry_of d m)"

definition claim_group :: "nat \<Rightarrow> u32 \<Rightarrow> domain_routes \<Rightarrow> domain_routes" where
  "claim_group index k r = (if list_ex (\<lambda>(k', _). k' = k) (by_group r) then r else r\<lparr>by_group := by_group r @ [(k, index)]\<rparr>)"

definition claim_domain :: "nat \<Rightarrow> u32 list \<Rightarrow> domain_routes \<Rightarrow> domain_routes" where
  "claim_domain index groups r =
    fold (claim_group index) groups
      (if groups = [] then r\<lparr>every_client := (case every_client r of Some i \<Rightarrow> Some i | None \<Rightarrow> Some index)\<rparr> else r)"

definition signature_of :: "upstream_pool \<Rightarrow> u32 list \<Rightarrow> string \<Rightarrow> route_entry list" where
  "signature_of p groups d =
    (if groups = [] then [(d, None, up_name p, up_internal p)] else []) @ map (\<lambda>k. (d, Some k, up_name p, up_internal p)) groups"

definition add_domain :: "upstream_pool \<Rightarrow> nat \<Rightarrow> u32 list \<Rightarrow> string \<Rightarrow> pool_routes \<Rightarrow> pool_routes" where
  "add_domain p index groups d r =
    (let m = fold touch (parents d) (by_domain r)
     in r\<lparr>signature := signature r @ signature_of p groups d, by_domain := m(d \<mapsto> claim_domain index groups (entry_of d m))\<rparr>)"

definition pool_groups :: "(i64 \<Rightarrow> string) \<Rightarrow> upstream_pool \<Rightarrow> domain_error + u32 list" where
  "pool_groups show_int p =
    collect_results (map (\<lambda>i. case group_id i of Some k \<Rightarrow> Inr k | None \<Rightarrow> Inl (not_a_group show_int p i)) (up_groups p))"

fun add_pools ::
  "(string \<Rightarrow> string + string) \<Rightarrow> (i64 \<Rightarrow> string) \<Rightarrow> nat \<Rightarrow> upstream_pool list \<Rightarrow> pool_routes \<Rightarrow> domain_error + pool_routes" where
  "add_pools idna show_int index [] r = Inr r"
| "add_pools idna show_int index (p # ps) r =
    (case pool_groups show_int p of
       Inl e \<Rightarrow> Inl e
     | Inr groups \<Rightarrow>
         (case normalized_domains idna p of
            Inl e \<Rightarrow> Inl e
          | Inr ds \<Rightarrow>
              let r1 = fold (add_domain p index groups) ds r in
              add_pools idna show_int (index + 1) ps
                (r1\<lparr>has_group_routes := has_group_routes r1 \<or> is_conditional p \<and> groups \<noteq> []\<rparr>)))"

definition build_routes ::
  "(string \<Rightarrow> string + string) \<Rightarrow> (i64 \<Rightarrow> string) \<Rightarrow> upstream_pool list \<Rightarrow> domain_error + pool_routes" where
  "build_routes idna show_int pools =
    (case add_pools idna show_int 0 pools
        \<lparr>by_domain = Map.empty, pr_internal = map up_internal pools, has_group_routes = False, signature = []\<rparr> of
       Inl e \<Rightarrow> Inl e
     | Inr r \<Rightarrow> Inr (r\<lparr>signature := remdups_adj (sort (signature r))\<rparr>))"

definition differs_from :: "pool_routes \<Rightarrow> pool_routes \<Rightarrow> bool" where
  "differs_from r r' \<longleftrightarrow> signature r \<noteq> signature r'"

definition ROUTE_NAME_LEN :: nat where "ROUTE_NAME_LEN = 255"

definition rfind_dot :: "string \<Rightarrow> nat option" where
  "rfind_dot s = find (\<lambda>i. s ! i = CHR ''.'') (rev [0..<length s])"

lemma rfind_dot_Some:
  assumes "rfind_dot s = Some i"
  shows "i < length s" "s ! i = CHR ''.''" "\<And>j. i < j \<Longrightarrow> j < length s \<Longrightarrow> s ! j \<noteq> CHR ''.''"
proof -
  obtain n where n: "n < length s" "i = rev [0..<length s] ! n" "s ! i = CHR ''.''"
    "\<And>k. k < n \<Longrightarrow> s ! (rev [0..<length s] ! k) \<noteq> CHR ''.''"
    using assms by (auto simp: rfind_dot_def find_Some_iff)
  then have i: "i = length s - 1 - n" by (simp add: rev_nth)
  show "i < length s" "s ! i = CHR ''.''" using n i by auto
  fix j assume "i < j" "j < length s"
  then show "s ! j \<noteq> CHR ''.''" using n(4) [of "length s - 1 - j"] i n(1) by (simp add: rev_nth)
qed

lemma rfind_dot_None: "rfind_dot s = None \<longleftrightarrow> CHR ''.'' \<notin> set s"
  by (auto simp: rfind_dot_def find_None_iff in_set_conv_nth)

definition label_start :: "string \<Rightarrow> nat \<Rightarrow> nat" where
  "label_start name prefix_end = (case rfind_dot (take prefix_end name) of Some dot \<Rightarrow> dot + 1 | None \<Rightarrow> 0)"

lemma label_start_le: "label_start name prefix_end \<le> prefix_end"
  using rfind_dot_Some(1) [of "take prefix_end name"] by (auto simp: label_start_def Suc_le_eq split: option.split)

function walk_routes ::
  "(string \<rightharpoonup> domain_routes) \<Rightarrow> u32 option \<Rightarrow> string \<Rightarrow> nat \<Rightarrow> (nat \<times> u32) option \<Rightarrow> (nat \<times> u32) option" where
  "walk_routes m g name prefix_end best =
    (let start = label_start name prefix_end in
     case m (drop start name) of
       None \<Rightarrow> best
     | Some routes \<Rightarrow>
         let best1 = (case matching routes g of Some found \<Rightarrow> Some found | None \<Rightarrow> best) in
         if start = 0 then best1 else walk_routes m g name (start - 1) best1)"
  by pat_completeness auto
termination
proof (relation "measure (\<lambda>(m, g, name, prefix_end, best). prefix_end)", goal_cases)
  case (2 m g name prefix_end best start r best1)
  then show ?case using label_start_le [of name prefix_end] by simp
qed simp

declare walk_routes.simps [simp del]

record route =
  rt_view :: u32
  rt_internal :: bool

definition as_u32 :: "i64 \<Rightarrow> u32 option" where
  "as_u32 i = (if 0 \<le> i \<and> i < 2 ^ 32 then Some (word_of_int i) else None)"

definition route_name :: "string \<Rightarrow> string option" where
  "route_name d =
    (let name = strip_dot_suffix d
     in if list_ex ascii_upper name then (if length name \<le> ROUTE_NAME_LEN then Some (lower name) else None) else Some name)"

definition lookup_route :: "pool_routes \<Rightarrow> string \<Rightarrow> i64 option \<Rightarrow> (nat \<times> route) option" where
  "lookup_route r d gr =
    (if by_domain r = Map.empty then None
     else Option.bind (route_name d) (\<lambda>name.
       map_option (\<lambda>(index, view). (index, \<lparr>rt_view = view, rt_internal = pr_internal r ! index\<rparr>))
         (walk_routes (by_domain r) (Option.bind gr as_u32) name (length name) None)))"

section \<open>The walk\<close>

text \<open>A domain covers itself and every name under it.\<close>

definition covers :: "string \<Rightarrow> string \<Rightarrow> bool" where
  "covers d name \<longleftrightarrow> d = name \<or> (\<exists>p. name = p @ CHR ''.'' # d)"

definition boundary :: "string \<Rightarrow> nat \<Rightarrow> bool" where
  "boundary name s \<longleftrightarrow> s \<le> length name \<and> (s = 0 \<or> name ! (s - 1) = CHR ''.'')"

lemma covers_boundary: "covers d name \<longleftrightarrow> (\<exists>s. boundary name s \<and> d = drop s name)"
proof
  assume "covers d name"
  then consider "d = name" | p where "name = p @ CHR ''.'' # d" by (auto simp: covers_def)
  then show "\<exists>s. boundary name s \<and> d = drop s name"
  proof cases
    case 1
    then show ?thesis by (intro exI [of _ 0]) (simp add: boundary_def)
  next
    case 2
    then show ?thesis by (intro exI [of _ "length p + 1"]) (simp add: boundary_def)
  qed
next
  assume "\<exists>s. boundary name s \<and> d = drop s name"
  then obtain s where s: "boundary name s" "d = drop s name" by blast
  show "covers d name"
  proof (cases s)
    case (Suc i)
    then have "name = take i name @ CHR ''.'' # d"
      using s id_take_nth_drop [of i name] by (simp add: boundary_def)
    then show ?thesis by (auto simp: covers_def)
  qed (use s in \<open>simp add: covers_def\<close>)
qed

lemma label_start_boundary:
  assumes "pe \<le> length name"
  shows "boundary name (label_start name pe)" "boundary name s \<Longrightarrow> s \<le> pe \<Longrightarrow> s \<le> label_start name pe"
proof -
  have "boundary name (label_start name pe) \<and> (boundary name s \<longrightarrow> s \<le> pe \<longrightarrow> s \<le> label_start name pe)"
  proof (cases "rfind_dot (take pe name)")
    case None
    have "\<not> boundary name s" if "s \<le> pe" "0 < s"
      using None that assms by (auto simp: rfind_dot_None boundary_def in_set_conv_nth)
    then show ?thesis by (auto simp: label_start_def None boundary_def)
  next
    case (Some i)
    note i = rfind_dot_Some [OF Some]
    have "s \<le> Suc i" if "boundary name s" "s \<le> pe"
      using i(3) [of "s - 1"] that assms by (cases s) (auto simp: boundary_def not_less [symmetric])
    then show ?thesis using i(1,2) assms by (auto simp: label_start_def Some boundary_def)
  qed
  then show "boundary name (label_start name pe)" "boundary name s \<Longrightarrow> s \<le> pe \<Longrightarrow> s \<le> label_start name pe" by blast+
qed

text \<open>With a domain the map holds every domain above it.\<close>

definition holds_parents :: "(string \<rightharpoonup> domain_routes) \<Rightarrow> bool" where
  "holds_parents m \<longleftrightarrow> (\<forall>d z. m d \<noteq> None \<longrightarrow> covers z d \<longrightarrow> m z \<noteq> None)"

definition hit :: "(string \<rightharpoonup> domain_routes) \<Rightarrow> u32 option \<Rightarrow> string \<Rightarrow> (nat \<times> u32) option" where
  "hit m g d = Option.bind (m d) (\<lambda>r. matching r g)"

lemma boundary_drop:
  assumes "boundary name s" "boundary name s'" "s \<le> s'"
  shows "covers (drop s' name) (drop s name)"
proof -
  have "boundary (drop s name) (s' - s)" using assms by (cases "s' = s") (auto simp: boundary_def)
  then show ?thesis using covers_boundary [of "drop s' name" "drop s name"] assms(3) by auto
qed

lemma walk_routes_finds:
  assumes "holds_parents m" "pe \<le> length name"
  shows "(\<exists>s x. boundary name s \<and> s \<le> pe \<and> hit m g (drop s name) = Some x \<and> walk_routes m g name pe best = Some x \<and>
      (\<forall>s' < s. boundary name s' \<longrightarrow> hit m g (drop s' name) = None)) \<or>
    (\<forall>s \<le> pe. boundary name s \<longrightarrow> hit m g (drop s name) = None) \<and> walk_routes m g name pe best = best"
  using assms
proof (induction m g name pe best rule: walk_routes.induct)
  case (1 m g name pe best)
  let ?s = "label_start name pe" and ?hit = "\<lambda>s. hit m g (drop s name)"
  note start = label_start_boundary [OF 1(3)]
  show ?case
  proof (cases "m (drop ?s name)")
    case None
    have "?hit s = None" if "s \<le> pe" "boundary name s" for s
    proof -
      have "covers (drop ?s name) (drop s name)" by (rule boundary_drop [OF that(2) start(1) start(2) [OF that(2,1)]])
      then have "m (drop s name) = None" using None 1(2) unfolding holds_parents_def by blast
      then show ?thesis by (simp add: hit_def)
    qed
    moreover have "walk_routes m g name pe best = best" by (subst walk_routes.simps) (simp add: Let_def None)
    ultimately show ?thesis by blast
  next
    case (Some r)
    let ?b = "case matching r g of Some found \<Rightarrow> Some found | None \<Rightarrow> best"
    have w: "walk_routes m g name pe best = (if ?s = 0 then ?b else walk_routes m g name (?s - 1) ?b)"
      by (subst walk_routes.simps) (simp add: Let_def Some)
    have at: "?hit ?s = matching r g" by (simp add: hit_def Some)
    have below: "s < ?s \<or> s = ?s" if "boundary name s" "s \<le> pe" for s using start(2) [OF that] by auto
    have no_lower: "(\<forall>s < ?s. boundary name s \<longrightarrow> ?hit s = None) \<Longrightarrow> walk_routes m g name pe best = ?b \<Longrightarrow> ?thesis"
      using below at start(1) label_start_le [of name pe] by (cases "matching r g") auto
    show ?thesis
    proof (cases "?s = 0")
      case True
      then show ?thesis using no_lower w by simp
    next
      case False
      have "?s - 1 \<le> length name" using 1(3) label_start_le [of name pe] by simp
      from 1(1) [OF refl Some refl False 1(2) this]
      consider x s where "boundary name s" "s \<le> ?s - 1" "?hit s = Some x" "walk_routes m g name (?s - 1) ?b = Some x"
          "\<forall>s' < s. boundary name s' \<longrightarrow> ?hit s' = None"
        | "\<forall>s \<le> ?s - 1. boundary name s \<longrightarrow> ?hit s = None" "walk_routes m g name (?s - 1) ?b = ?b"
        by blast
      then show ?thesis
      proof cases
        case 1
        have "s \<le> pe" using 1(2) label_start_le [of name pe] by simp
        then show ?thesis using 1 w False by auto
      next
        case 2
        then show ?thesis using no_lower w False by auto
      qed
    qed
  qed
qed

text \<open>The whole walk: the longest domain over the name that routes it for the group.\<close>

lemma walk_routes_longest:
  assumes "holds_parents m"
  shows "case walk_routes m g name (length name) None of
      None \<Rightarrow> \<forall>z. covers z name \<longrightarrow> hit m g z = None
    | Some x \<Rightarrow> \<exists>z. covers z name \<and> hit m g z = Some x \<and> (\<forall>z'. covers z' name \<and> hit m g z' \<noteq> None \<longrightarrow> length z' \<le> length z)"
  using walk_routes_finds [OF assms order_refl, of name g None]
proof (elim disjE exE conjE)
  fix s x
  assume s: "boundary name s" "hit m g (drop s name) = Some x" "walk_routes m g name (length name) None = Some x"
    "\<forall>s' < s. boundary name s' \<longrightarrow> hit m g (drop s' name) = None"
  have "length z' \<le> length (drop s name)" if "covers z' name" "hit m g z' \<noteq> None" for z'
  proof -
    obtain s' where s': "boundary name s'" "z' = drop s' name" using \<open>covers z' name\<close> covers_boundary by blast
    have "\<not> s' < s" using s(4) [rule_format, of s'] s' that(2) by auto
    then show ?thesis by (simp add: s'(2))
  qed
  moreover have "covers (drop s name) name" using s(1) covers_boundary by blast
  ultimately show ?thesis unfolding s(3) option.case using s(2) by blast
next
  assume none: "\<forall>s\<le>length name. boundary name s \<longrightarrow> hit m g (drop s name) = None" "walk_routes m g name (length name) None = None"
  have "hit m g z = None" if "covers z name" for z
  proof -
    obtain s where "boundary name s" "z = drop s name" using \<open>covers z name\<close> covers_boundary by blast
    then show ?thesis using none(1) [rule_format, of s] by (simp add: boundary_def)
  qed
  then show ?thesis unfolding none(2) option.case by (intro allI impI)
qed

section \<open>What the pools claim\<close>

text \<open>
  The claims of the pools in their order: a domain for a client group, or for every client, with
  the position of the pool. The first claim counts; the group's own goes before the general one.
\<close>

definition scope_keys :: "u32 list \<Rightarrow> u32 option list" where
  "scope_keys groups = (if groups = [] then [None] else map Some groups)"

definition claim_keys :: "nat \<Rightarrow> u32 list \<Rightarrow> string \<Rightarrow> ((string \<times> u32 option) \<times> nat) list" where
  "claim_keys index groups d = map (\<lambda>k. ((d, k), index)) (scope_keys groups)"

definition groups_of :: "upstream_pool \<Rightarrow> u32 list" where
  "groups_of p = List.map_filter group_id (up_groups p)"

definition domains_of :: "(string \<Rightarrow> string + string) \<Rightarrow> upstream_pool \<Rightarrow> string list" where
  "domains_of idna p = (case normalized_domains idna p of Inr ds \<Rightarrow> ds | Inl _ \<Rightarrow> [])"

fun claim_list :: "(string \<Rightarrow> string + string) \<Rightarrow> nat \<Rightarrow> upstream_pool list \<Rightarrow> ((string \<times> u32 option) \<times> nat) list" where
  "claim_list idna index [] = []"
| "claim_list idna index (p # ps) = concat (map (claim_keys index (groups_of p)) (domains_of idna p)) @ claim_list idna (index + 1) ps"

definition claim_for :: "((string \<times> u32 option) \<times> nat) list \<Rightarrow> string \<Rightarrow> u32 option \<Rightarrow> (nat \<times> u32) option" where
  "claim_for cs d g =
    (case Option.bind g (\<lambda>k. map_option (\<lambda>i. (i, k)) (map_of cs (d, Some k))) of
       Some x \<Rightarrow> Some x
     | None \<Rightarrow> map_option (\<lambda>i. (i, 0)) (map_of cs (d, None)))"

definition routes_of :: "((string \<times> u32 option) \<times> nat) list \<Rightarrow> (string \<rightharpoonup> domain_routes) \<Rightarrow> bool" where
  "routes_of cs m \<longleftrightarrow> (\<forall>d. every_client (entry_of d m) = map_of cs (d, None) \<and>
    (\<forall>k. map_of (by_group (entry_of d m)) k = map_of cs (d, Some k)))"

lemma collect_results_Inr: "collect_results xs = Inr ys \<longleftrightarrow> xs = map Inr ys"
proof (induction xs arbitrary: ys rule: collect_results.induct)
  case (3 x xs)
  show ?case
  proof (cases "collect_results xs")
    case (Inl e)
    then have "xs \<noteq> map Inr zs" for zs using 3 [of zs] by simp
    then show ?thesis by (cases ys) (simp_all add: Inl)
  next
    case (Inr zs)
    have xs: "xs = map Inr zs" using 3 [of zs] Inr by simp
    have c: "collect_results (Inr x # xs) = Inr (x # zs)" by (simp add: Inr)
    show ?thesis unfolding c by (cases ys) (auto simp: xs inj_map_eq_map)
  qed
qed auto

lemma pool_groups_Inr:
  assumes "pool_groups show_int p = Inr gs"
  shows "gs = groups_of p" "i \<in> set (up_groups p) \<Longrightarrow> group_id i \<noteq> None" "gs = [] \<longleftrightarrow> up_groups p = []"
proof -
  let ?f = "\<lambda>i. case group_id i of Some k \<Rightarrow> Inr k | None \<Rightarrow> Inl (not_a_group show_int p i)"
  have eq: "map ?f (up_groups p) = map Inr gs" using assms by (simp add: pool_groups_def collect_results_Inr)
  have all: "\<forall>i \<in> set (up_groups p). group_id i \<noteq> None"
  proof
    fix i assume "i \<in> set (up_groups p)"
    then have "?f i \<in> set (map Inr gs)" unfolding eq [symmetric] set_map by (rule imageI)
    then show "group_id i \<noteq> None" by (cases "group_id i") auto
  qed
  then have "map ?f (up_groups p) = map Inr (map (the \<circ> group_id) (up_groups p))" by auto
  then have "gs = map (the \<circ> group_id) (up_groups p)" unfolding eq by (simp add: inj_map_eq_map del: map_map)
  then show "gs = groups_of p" using all by (simp add: groups_of_def List.map_filter_def)
  show "i \<in> set (up_groups p) \<Longrightarrow> group_id i \<noteq> None" using all by blast
  have "length gs = length (up_groups p)" using arg_cong [OF eq, of length] by simp
  then show "gs = [] \<longleftrightarrow> up_groups p = []" by auto
qed

lemma find_group: "map_option (\<lambda>(_, index). (index, k)) (find (\<lambda>(k', _). k' = k) xs) = map_option (\<lambda>i. (i, k)) (map_of xs k)"
  by (induction xs) auto

lemma hit_claim: "routes_of cs m \<Longrightarrow> hit m g d = claim_for cs d g"
proof -
  assume r: "routes_of cs m"
  have "matching no_routes g = None" by (simp add: matching_def no_routes_def)
  then have h: "hit m g d = matching (entry_of d m) g" by (simp add: hit_def entry_of_def split: option.split)
  have e: "every_client (entry_of d m) = map_of cs (d, None)" "map_of (by_group (entry_of d m)) = (\<lambda>k. map_of cs (d, Some k))"
    using r by (auto simp: routes_of_def)
  show ?thesis unfolding h matching_def claim_for_def find_group e by (rule refl)
qed

section \<open>Building\<close>

lemma claim_group_by: "map_of (by_group (claim_group i k r)) k' = (case map_of (by_group r) k' of Some j \<Rightarrow> Some j | None \<Rightarrow> if k' = k then Some i else None)"
  "every_client (claim_group i k r) = every_client r"
proof -
  have "list_ex (\<lambda>(k', _). k' = k) xs \<longleftrightarrow> map_of xs k \<noteq> None" for xs :: "(u32 \<times> nat) list" by (induction xs) auto
  then show "map_of (by_group (claim_group i k r)) k' = (case map_of (by_group r) k' of Some j \<Rightarrow> Some j | None \<Rightarrow> if k' = k then Some i else None)"
    "every_client (claim_group i k r) = every_client r"
    by (auto simp: claim_group_def map_add_def split: option.split)
qed

lemma claim_groups_by: "map_of (by_group (fold (claim_group i) gs r)) k = (case map_of (by_group r) k of Some j \<Rightarrow> Some j | None \<Rightarrow> if k \<in> set gs then Some i else None)"
  "every_client (fold (claim_group i) gs r) = every_client r"
  by (induction gs arbitrary: r) (auto simp: claim_group_by split: option.split)

lemma claim_domain_by:
  "every_client (claim_domain i gs r) = (case every_client r of Some j \<Rightarrow> Some j | None \<Rightarrow> if gs = [] then Some i else None)"
  "map_of (by_group (claim_domain i gs r)) k = (case map_of (by_group r) k of Some j \<Rightarrow> Some j | None \<Rightarrow> if k \<in> set gs then Some i else None)"
  by (auto simp: claim_domain_def claim_groups_by split: option.split)

lemma touch_entry [simp]: "entry_of d (touch z m) = entry_of d m" "entry_of d (fold touch zs m) = entry_of d m"
proof -
  show one: "entry_of d (touch z m) = entry_of d m" for z m by (simp add: touch_def entry_of_def)
  show "entry_of d (fold touch zs m) = entry_of d m" by (induction zs arbitrary: m) (simp_all add: one)
qed

lemma touch_dom: "dom (fold touch zs m) = dom m \<union> set zs"
  by (induction zs arbitrary: m) (auto simp: touch_def)

lemma claim_keys_at: "map_of (claim_keys i gs d) (d', k) = (if d' = d \<and> (case k of None \<Rightarrow> gs = [] | Some g \<Rightarrow> g \<in> set gs) then Some i else None)"
proof -
  have "map_of (map (\<lambda>k. ((d, k), i)) ks) (d', k) = (if d' = d \<and> k \<in> set ks then Some i else None)" for ks by (induction ks) auto
  then show ?thesis by (auto simp: claim_keys_def scope_keys_def split: option.split)
qed

lemma add_domain_routes:
  assumes "routes_of cs (by_domain r)"
  shows "routes_of (cs @ claim_keys i gs d) (by_domain (add_domain p i gs d r))"
proof -
  have e: "entry_of d' (by_domain (add_domain p i gs d r)) = (if d' = d then claim_domain i gs (entry_of d (by_domain r)) else entry_of d' (by_domain r))" for d'
  proof -
    let ?m = "fold touch (parents d) (by_domain r)"
    have "entry_of d' (?m(d \<mapsto> x)) = (if d' = d then x else entry_of d' ?m)" for x by (simp add: entry_of_def)
    then show ?thesis by (simp add: add_domain_def Let_def)
  qed
  show ?thesis using assms unfolding routes_of_def e
    by (auto simp: claim_domain_by claim_keys_at map_add_def split: option.split)
qed

lemma parents_covers: "covers z d \<longleftrightarrow> z = d \<or> z \<in> set (parents d)"
proof -
  have "z \<in> set (parents d) \<longleftrightarrow> (\<exists>i < length d. d ! i = CHR ''.'' \<and> z = drop (Suc i) d)" by (auto simp: parents_def)
  also have "\<dots> \<longleftrightarrow> (\<exists>p. d = p @ CHR ''.'' # z)"
  proof
    assume "\<exists>i < length d. d ! i = CHR ''.'' \<and> z = drop (Suc i) d"
    then show "\<exists>p. d = p @ CHR ''.'' # z" by (metis id_take_nth_drop)
  next
    assume "\<exists>p. d = p @ CHR ''.'' # z"
    then obtain p where "d = p @ CHR ''.'' # z" by blast
    then show "\<exists>i < length d. d ! i = CHR ''.'' \<and> z = drop (Suc i) d" by (intro exI [of _ "length p"]) simp
  qed
  finally show ?thesis by (auto simp: covers_def)
qed

lemma covers_trans: "covers a b \<Longrightarrow> covers b c \<Longrightarrow> covers a c"
  by (auto simp: covers_def)

lemma add_domain_holds:
  assumes "holds_parents (by_domain r)"
  shows "holds_parents (by_domain (add_domain p i gs d r))"
proof -
  have dom: "by_domain (add_domain p i gs d r) z \<noteq> None \<longleftrightarrow> by_domain r z \<noteq> None \<or> covers z d" for z
    using touch_dom [of "parents d" "by_domain r"] parents_covers [of z d] by (auto simp: add_domain_def Let_def dom_def)
  show ?thesis using assms covers_trans unfolding holds_parents_def dom by blast
qed

lemma fold_add_domain:
  assumes "routes_of cs (by_domain r)" "holds_parents (by_domain r)"
  shows "routes_of (cs @ concat (map (claim_keys i gs) ds)) (by_domain (fold (add_domain p i gs) ds r))"
    "holds_parents (by_domain (fold (add_domain p i gs) ds r))"
    "signature (fold (add_domain p i gs) ds r) = signature r @ concat (map (signature_of p gs) ds)"
    "pr_internal (fold (add_domain p i gs) ds r) = pr_internal r"
    "has_group_routes (fold (add_domain p i gs) ds r) = has_group_routes r"
proof -
  have "routes_of (cs @ concat (map (claim_keys i gs) ds)) (by_domain (fold (add_domain p i gs) ds r)) \<and>
    holds_parents (by_domain (fold (add_domain p i gs) ds r)) \<and>
    signature (fold (add_domain p i gs) ds r) = signature r @ concat (map (signature_of p gs) ds) \<and>
    pr_internal (fold (add_domain p i gs) ds r) = pr_internal r \<and> has_group_routes (fold (add_domain p i gs) ds r) = has_group_routes r"
    using assms
  proof (induction ds arbitrary: r cs)
    case (Cons d ds)
    have "signature (add_domain p i gs d r) = signature r @ signature_of p gs d" "pr_internal (add_domain p i gs d r) = pr_internal r"
      "has_group_routes (add_domain p i gs d r) = has_group_routes r"
      by (simp_all add: add_domain_def Let_def)
    then show ?case using Cons.IH [OF add_domain_routes [OF Cons.prems(1)] add_domain_holds [OF Cons.prems(2)], of i gs d p] by simp
  qed simp
  then show "routes_of (cs @ concat (map (claim_keys i gs) ds)) (by_domain (fold (add_domain p i gs) ds r))"
    "holds_parents (by_domain (fold (add_domain p i gs) ds r))"
    "signature (fold (add_domain p i gs) ds r) = signature r @ concat (map (signature_of p gs) ds)"
    "pr_internal (fold (add_domain p i gs) ds r) = pr_internal r"
    "has_group_routes (fold (add_domain p i gs) ds r) = has_group_routes r" by simp_all
qed

definition pool_signature :: "(string \<Rightarrow> string + string) \<Rightarrow> upstream_pool \<Rightarrow> route_entry list" where
  "pool_signature idna p = concat (map (signature_of p (groups_of p)) (domains_of idna p))"

lemma add_pools_routes:
  assumes "add_pools idna show_int i ps r = Inr r'" "routes_of cs (by_domain r)" "holds_parents (by_domain r)"
  shows "routes_of (cs @ claim_list idna i ps) (by_domain r') \<and> holds_parents (by_domain r') \<and>
    signature r' = signature r @ concat (map (pool_signature idna) ps) \<and> pr_internal r' = pr_internal r \<and>
    (has_group_routes r' \<longleftrightarrow> has_group_routes r \<or> (\<exists>p \<in> set ps. is_conditional p \<and> groups_of p \<noteq> []))"
  using assms
proof (induction ps arbitrary: i r cs)
  case (Cons p ps)
  obtain gs ds where gs: "pool_groups show_int p = Inr gs" and ds: "normalized_domains idna p = Inr ds"
    and rest: "add_pools idna show_int (i + 1) ps
      ((fold (add_domain p i gs) ds r)\<lparr>has_group_routes := has_group_routes (fold (add_domain p i gs) ds r) \<or> is_conditional p \<and> gs \<noteq> []\<rparr>) = Inr r'"
    using Cons.prems(1) by (auto simp: Let_def split: sum.splits)
  note f = fold_add_domain [OF Cons.prems(2,3), where i = i and gs = gs and ds = ds and p = p]
  have d: "domains_of idna p = ds" "groups_of p = gs" using ds pool_groups_Inr(1) [OF gs] by (simp_all add: domains_of_def)
  from Cons.IH [OF rest, of "cs @ concat (map (claim_keys i gs) ds)"] show ?case
    using f by (auto simp: d pool_signature_def)
qed simp

lemma build_routes_Inr:
  assumes "build_routes idna show_int pools = Inr r"
  shows "routes_of (claim_list idna 0 pools) (by_domain r)" "holds_parents (by_domain r)" "pr_internal r = map up_internal pools"
    "set (signature r) = set (concat (map (pool_signature idna) pools))"
    "has_group_routes r \<longleftrightarrow> (\<exists>p \<in> set pools. is_conditional p \<and> groups_of p \<noteq> [])"
proof -
  let ?r0 = "\<lparr>by_domain = Map.empty, pr_internal = map up_internal pools, has_group_routes = False, signature = []\<rparr>"
  obtain r1 where r1: "add_pools idna show_int 0 pools ?r0 = Inr r1" "r = r1\<lparr>signature := remdups_adj (sort (signature r1))\<rparr>"
    using assms by (auto simp: build_routes_def split: sum.splits)
  have "routes_of [] (by_domain ?r0)" "holds_parents (by_domain ?r0)"
    by (simp_all add: routes_of_def entry_of_def no_routes_def holds_parents_def)
  note a = add_pools_routes [OF r1(1) this]
  then show "routes_of (claim_list idna 0 pools) (by_domain r)" "holds_parents (by_domain r)" "pr_internal r = map up_internal pools"
    "set (signature r) = set (concat (map (pool_signature idna) pools))"
    "has_group_routes r \<longleftrightarrow> (\<exists>p \<in> set pools. is_conditional p \<and> groups_of p \<noteq> [])"
    by (simp_all add: r1(2))
qed

lemma claim_list_index: "((d, k), i) \<in> set (claim_list idna n pools) \<longleftrightarrow>
    n \<le> i \<and> i < n + length pools \<and> d \<in> set (domains_of idna (pools ! (i - n))) \<and> k \<in> set (scope_keys (groups_of (pools ! (i - n))))"
proof (induction pools arbitrary: n)
  case (Cons p ps)
  have "((d, k), i) \<in> set (concat (map (claim_keys n (groups_of p)) (domains_of idna p))) \<longleftrightarrow>
      i = n \<and> d \<in> set (domains_of idna p) \<and> k \<in> set (scope_keys (groups_of p))"
    by (auto simp: claim_keys_def)
  then have "((d, k), i) \<in> set (claim_list idna n (p # ps)) \<longleftrightarrow> i = n \<and> d \<in> set (domains_of idna p) \<and> k \<in> set (scope_keys (groups_of p)) \<or>
      n + 1 \<le> i \<and> i < n + 1 + length ps \<and> d \<in> set (domains_of idna (ps ! (i - (n + 1)))) \<and> k \<in> set (scope_keys (groups_of (ps ! (i - (n + 1)))))"
    using Cons by simp
  moreover have "n < i \<Longrightarrow> (p # ps) ! (i - n) = ps ! (i - (n + 1))" by (simp add: nth_Cons')
  ultimately show ?case by (cases i n rule: linorder_cases) simp_all
qed simp

lemma claim_for_pool:
  assumes "claim_for (claim_list idna 0 pools) d g = Some (i, v)"
  shows "i < length pools" "d \<in> set (domains_of idna (pools ! i))"
    "v = 0 \<and> groups_of (pools ! i) = [] \<or> g = Some v \<and> v \<in> set (groups_of (pools ! i))"
proof -
  obtain k where k: "map_of (claim_list idna 0 pools) (d, k) = Some i" "k = None \<and> v = 0 \<or> k = Some v \<and> g = Some v"
    using assms by (cases g) (auto simp: claim_for_def split: option.splits)
  have "((d, k), i) \<in> set (claim_list idna 0 pools)" using k(1) by (rule map_of_SomeD)
  then have "i < length pools \<and> d \<in> set (domains_of idna (pools ! i)) \<and> k \<in> set (scope_keys (groups_of (pools ! i)))"
    unfolding claim_list_index by simp
  then show "i < length pools" "d \<in> set (domains_of idna (pools ! i))"
    "v = 0 \<and> groups_of (pools ! i) = [] \<or> g = Some v \<and> v \<in> set (groups_of (pools ! i))"
    using k(2) by (auto simp: scope_keys_def split: if_splits)
qed

section \<open>Lookups\<close>

lemma lookup_walk:
  "lookup_route r d gr = Option.bind (route_name d) (\<lambda>name.
     map_option (\<lambda>(index, view). (index, \<lparr>rt_view = view, rt_internal = pr_internal r ! index\<rparr>))
       (walk_routes (by_domain r) (Option.bind gr as_u32) name (length name) None))"
proof -
  have "walk_routes Map.empty g name n None = None" for g name n by (subst walk_routes.simps) simp
  then show ?thesis by (auto simp: lookup_route_def split: bind_splits)
qed

lemma lookup_longest:
  assumes built: "build_routes idna show_int pools = Inr r" and name: "route_name d = Some name"
    and found: "found = claim_for (claim_list idna 0 pools)" and g: "g = Option.bind gr as_u32"
  shows "case lookup_route r d gr of
      None \<Rightarrow> \<forall>z. covers z name \<longrightarrow> found z g = None
    | Some (i, rt) \<Rightarrow> i < length pools \<and> rt_internal rt = up_internal (pools ! i) \<and>
        (\<exists>z. covers z name \<and> found z g = Some (i, rt_view rt) \<and>
          (\<forall>z'. covers z' name \<and> found z' g \<noteq> None \<longrightarrow> length z' \<le> length z))"
proof -
  note b = build_routes_Inr [OF built]
  have hit: "hit (by_domain r) g z = found z g" for z unfolding found by (rule hit_claim [OF b(1)])
  note w = walk_routes_longest [OF b(2), where g = g and name = name, unfolded hit]
  show ?thesis
  proof (cases "walk_routes (by_domain r) g name (length name) None")
    case None
    then show ?thesis using w by (simp add: lookup_walk name g [symmetric])
  next
    case (Some x)
    obtain i v where x: "x = (i, v)" by fastforce
    have "\<exists>z. covers z name \<and> found z g = Some (i, v) \<and> (\<forall>z'. covers z' name \<and> found z' g \<noteq> None \<longrightarrow> length z' \<le> length z)"
      using w by (simp add: Some x)
    then obtain z where z: "covers z name" "found z g = Some (i, v)" "\<forall>z'. covers z' name \<and> found z' g \<noteq> None \<longrightarrow> length z' \<le> length z"
      by blast
    have "i < length pools" using claim_for_pool(1) z(2) unfolding found by blast
    moreover have "lookup_route r d gr = Some (i, \<lparr>rt_view = v, rt_internal = pr_internal r ! i\<rparr>)"
      by (simp add: lookup_walk name g [symmetric] Some x)
    ultimately show ?thesis using z b(3) by auto
  qed
qed

text \<open>
  C9. The routing built from the pools answers a name with the most specific domain that covers it
  and that some pool claims for the client's group, or else for every client; at that domain the
  group's own claim goes first and among equal claims the first pool. The walk from the top-level label down, which stops at
  the first suffix no routed domain lies under, misses none. It gives the position of the pool, its
  flag and the group as cache view, or 0 for a route every client shares.
\<close>

theorem route_most_specific:
  assumes built: "build_routes idna show_int pools = Inr r" and name: "route_name d = Some name"
    and found: "found = claim_for (claim_list idna 0 pools)" and g: "g = Option.bind gr as_u32"
  shows "case lookup_route r d gr of
      None \<Rightarrow> \<forall>z. covers z name \<longrightarrow> found z g = None
    | Some (i, rt) \<Rightarrow> i < length pools \<and> rt_internal rt = up_internal (pools ! i) \<and>
        (\<exists>z. covers z name \<and> found z g = Some (i, rt_view rt) \<and>
          (\<forall>z'. covers z' name \<and> found z' g \<noteq> None \<longrightarrow> length z' \<le> length z))"
  by (rule lookup_longest [OF assms])

text \<open>The routes as the resolver's cache layer sees them, and the shortcut of the pool manager.\<close>

definition pool_router :: "pool_routes \<Rightarrow> router" where
  "pool_router r = \<lparr>ro_route = (\<lambda>d gr. map_option (rt_view \<circ> snd) (lookup_route r d gr)), ro_group_routes = has_group_routes r\<rparr>"

definition manager_view :: "pool_routes \<Rightarrow> string \<Rightarrow> i64 option \<Rightarrow> u32" where
  "manager_view r d gr =
    (if gr = None \<or> \<not> has_group_routes r then 0
     else case lookup_route r d gr of Some (_, rt) \<Rightarrow> rt_view rt | None \<Rightarrow> 0)"

text \<open>
  C28. The cache keys an answer with the view of its route although it skips the lookup for clients
  without a group and while no pool is routed for a group: the shortcut, in the cache layer as in the pool manager, gives the
  view the full lookup gives.
\<close>

theorem view_shortcut_exact:
  assumes "build_routes idna show_int pools = Inr r"
  shows "layer_view (Some (pool_router r)) d gr = (case lookup_route r d gr of Some (_, rt) \<Rightarrow> rt_view rt | None \<Rightarrow> 0) \<and>
    manager_view r d gr = layer_view (Some (pool_router r)) d gr"
proof -
  note b = build_routes_Inr [OF assms]
  have "rt_view rt = 0" if none: "gr = None \<or> \<not> has_group_routes r" and some: "lookup_route r d gr = Some (i, rt)" for i rt
  proof -
    let ?g = "Option.bind gr as_u32" and ?m = "by_domain r"
    obtain name v where n: "walk_routes ?m ?g name (length name) None = Some (i, v)" "rt_view rt = v"
      using some by (auto simp: lookup_walk split: bind_splits)
    obtain z where "claim_for (claim_list idna 0 pools) z ?g = Some (i, v)"
      using walk_routes_longest [OF b(2), where g = ?g and name = name] unfolding n(1) hit_claim [OF b(1)] by auto
    note c = claim_for_pool [OF this]
    have "is_conditional (pools ! i)"
      using c(2) by (auto simp: is_conditional_def domains_of_def normalized_domains_def)
    then have "groups_of (pools ! i) = [] \<or> has_group_routes r" using c(1) b(5) by auto
    then show ?thesis using c(3) none n(2) by auto
  qed
  then show ?thesis
    by (cases "lookup_route r d gr") (auto simp: layer_view_def pool_router_def manager_view_def)
qed

section \<open>Reloads\<close>

lemma claim_one_Inr:
  assumes "claim_one show_int name k c = Inr c'"
  shows "c' k = Some name" "c k' \<noteq> None \<Longrightarrow> c' k' = c k'"
  using assms by (auto simp: claim_one_def Let_def split: if_splits option.splits)

lemma claim_all_Inr:
  "claim_all show_int name ks c = Inr c' \<Longrightarrow> (\<forall>k \<in> set ks. c' k = Some name) \<and> (\<forall>k. c k \<noteq> None \<longrightarrow> c' k = c k)"
proof (induction ks arbitrary: c)
  case (Cons k ks)
  obtain c1 where c1: "claim_one show_int name k c = Inr c1" "claim_all show_int name ks c1 = Inr c'"
    using Cons.prems by (auto split: sum.splits)
  note one = claim_one_Inr [OF c1(1)] and rest = Cons.IH [OF c1(2)]
  note keep = rest [THEN conjunct2, rule_format]
  have "c' k = Some name" using keep [of k] one(1) by simp
  moreover have "c' k' = c k'" if "c k' \<noteq> None" for k' using keep [of k'] one(2) [OF that] that by simp
  ultimately show ?case using rest by simp
qed simp

lemma validate_claims_owner:
  "validate_claims idna show_int ps c = Inr () \<Longrightarrow> \<exists>c'. (\<forall>k. c k \<noteq> None \<longrightarrow> c' k = c k) \<and>
    (\<forall>p \<in> set ps. \<forall>d \<in> set (domains_of idna p). \<forall>x \<in> set (scopes p). c' (d, x) = Some (up_name p))"
proof (induction ps arbitrary: c)
  case (Cons p ps)
  show ?case
  proof (cases "is_conditional p")
    case False
    then have "domains_of idna p = []" by (simp add: is_conditional_def domains_of_def normalized_domains_def)
    moreover have "validate_claims idna show_int ps c = Inr ()" using Cons.prems False by (auto split: if_splits)
    ultimately show ?thesis using Cons.IH by simp
  next
    case True
    obtain ds c1 where ds: "normalized_domains idna p = Inr ds"
      and c1: "claim_all show_int (up_name p) (concat (map (\<lambda>d. map (Pair d) (scopes p)) ds)) c = Inr c1"
      and rest: "validate_claims idna show_int ps c1 = Inr ()"
      using Cons.prems True by (auto split: option.splits sum.splits)
    obtain c' where c': "\<forall>k. c1 k \<noteq> None \<longrightarrow> c' k = c1 k"
      "\<forall>p \<in> set ps. \<forall>d \<in> set (domains_of idna p). \<forall>x \<in> set (scopes p). c' (d, x) = Some (up_name p)"
      using Cons.IH [OF rest] by blast
    note all = claim_all_Inr [OF c1]
    have "c' (d, x) = Some (up_name p)" if "d \<in> set ds" "x \<in> set (scopes p)" for d x
    proof -
      have "c1 (d, x) = Some (up_name p)" using all that by auto
      then show ?thesis using c'(1) by simp
    qed
    moreover have "c' k = c k" if "c k \<noteq> None" for k using all [THEN conjunct2, rule_format, OF that] c'(1) [rule_format, of k] that by simp
    moreover have "domains_of idna p = ds" by (simp add: domains_of_def ds)
    ultimately show ?thesis using c'(2) by (intro exI [of _ c']) simp
  qed
qed auto

text \<open>After validation a domain has one pool name per client group.\<close>

lemma validated_owner:
  assumes "validate_pool_routes idna show_int pools = Inr ()"
  obtains holder where "\<And>p d k. p \<in> set pools \<Longrightarrow> d \<in> set (domains_of idna p) \<Longrightarrow> k \<in> set (scope_keys (groups_of p)) \<Longrightarrow>
    (\<forall>i \<in> set (up_groups p). group_id i \<noteq> None) \<Longrightarrow> holder (d, k) = Some (up_name p)"
proof -
  obtain c where c: "\<forall>p \<in> set pools. \<forall>d \<in> set (domains_of idna p). \<forall>x \<in> set (scopes p). c (d, x) = Some (up_name p)"
    using validate_claims_owner [of idna show_int pools Map.empty] assms
    by (auto simp: validate_pool_routes_def split: if_splits)
  have "c (d, map_option uint k) = Some (up_name p)"
    if p: "p \<in> set pools" "d \<in> set (domains_of idna p)" and k: "k \<in> set (scope_keys (groups_of p))"
      and ids: "\<forall>i \<in> set (up_groups p). group_id i \<noteq> None" for p d k
  proof -
    have "map_option uint k \<in> set (scopes p)"
    proof (cases k)
      case None
      then have "groups_of p = []" using k by (auto simp: scope_keys_def split: if_splits)
      then have "up_groups p = []" using ids by (cases "up_groups p") (auto simp: groups_of_def List.map_filter_def)
      then show ?thesis by (simp add: scopes_def None)
    next
      case (Some g)
      then obtain i where i: "i \<in> set (up_groups p)" "group_id i = Some g"
        using k by (auto simp: scope_keys_def groups_of_def List.map_filter_def split: if_splits)
      then have "uint g = i" by (auto simp: group_id_def uint_word_of_int split: if_splits)
      then show ?thesis using i(1) Some by (auto simp: scopes_def)
    qed
    then show ?thesis using c p by blast
  qed
  then show ?thesis using that [of "\<lambda>(d, k). c (d, map_option uint k)"] by simp
qed

lemma add_pools_ids: "add_pools idna show_int n ps r = Inr r' \<Longrightarrow> p \<in> set ps \<Longrightarrow> i \<in> set (up_groups p) \<Longrightarrow> group_id i \<noteq> None"
proof (induction ps arbitrary: n r)
  case (Cons q ps)
  from Cons.prems(1) obtain gs r1 where "pool_groups show_int q = Inr gs" "add_pools idna show_int (n + 1) ps r1 = Inr r'"
    by (auto simp: Let_def split: sum.splits)
  then show ?case using Cons.IH Cons.prems(2,3) pool_groups_Inr(2) [of show_int q gs i] by (cases "p = q") auto
qed simp

lemma pool_signature_iff:
  "(d, k, n, b) \<in> set (pool_signature idna p) \<longleftrightarrow> d \<in> set (domains_of idna p) \<and> k \<in> set (scope_keys (groups_of p)) \<and> n = up_name p \<and> b = up_internal p"
  by (auto simp: pool_signature_def signature_of_def scope_keys_def split: if_splits)

text \<open>What a set of pools says of a claim: the name and the flag of the pool that holds it.\<close>

definition holder_of :: "(string \<Rightarrow> string + string) \<Rightarrow> upstream_pool list \<Rightarrow> string \<times> u32 option \<Rightarrow> (string \<times> bool) option" where
  "holder_of idna pools k = map_option (\<lambda>i. (up_name (pools ! i), up_internal (pools ! i))) (map_of (claim_list idna 0 pools) k)"

definition flags_by_name :: "upstream_pool list \<Rightarrow> bool" where
  "flags_by_name pools \<longleftrightarrow> (\<forall>p \<in> set pools. \<forall>q \<in> set pools. up_name p = up_name q \<longrightarrow> up_internal p = up_internal q)"

lemma holder_signature:
  assumes built: "build_routes idna show_int pools = Inr r" and valid: "validate_pool_routes idna show_int conf = Inr ()"
    and conf: "set pools = set conf" and names: "flags_by_name pools"
  shows "holder_of idna pools (d, k) = Some (n, b) \<longleftrightarrow> (d, k, n, b) \<in> set (signature r)"
proof -
  obtain r1 where r1: "add_pools idna show_int 0 pools \<lparr>by_domain = Map.empty, pr_internal = map up_internal pools, has_group_routes = False, signature = []\<rparr> = Inr r1"
    using built by (auto simp: build_routes_def split: sum.splits)
  have ids: "\<forall>i \<in> set (up_groups p). group_id i \<noteq> None" if "p \<in> set pools" for p
    using add_pools_ids [OF r1 that] by blast
  obtain holder where h: "\<And>p d k. p \<in> set conf \<Longrightarrow> d \<in> set (domains_of idna p) \<Longrightarrow> k \<in> set (scope_keys (groups_of p)) \<Longrightarrow>
    (\<forall>i \<in> set (up_groups p). group_id i \<noteq> None) \<Longrightarrow> holder (d, k) = Some (up_name p)"
    using validated_owner [OF valid] by blast
  have sig: "(d, k, n, b) \<in> set (signature r) \<longleftrightarrow> (\<exists>p \<in> set pools. d \<in> set (domains_of idna p) \<and> k \<in> set (scope_keys (groups_of p)) \<and> n = up_name p \<and> b = up_internal p)"
    unfolding build_routes_Inr(4) [OF built] by (simp add: pool_signature_iff)
  have at: "i < length pools \<and> d \<in> set (domains_of idna (pools ! i)) \<and> k \<in> set (scope_keys (groups_of (pools ! i)))"
    if "map_of (claim_list idna 0 pools) (d, k) = Some i" for i
    using map_of_SomeD [OF that] unfolding claim_list_index by simp
  show ?thesis
  proof
    assume "holder_of idna pools (d, k) = Some (n, b)"
    then show "(d, k, n, b) \<in> set (signature r)" unfolding sig using at by (auto simp: holder_of_def)
  next
    assume "(d, k, n, b) \<in> set (signature r)"
    then obtain p where p: "p \<in> set pools" "d \<in> set (domains_of idna p)" "k \<in> set (scope_keys (groups_of p))" "n = up_name p" "b = up_internal p"
      unfolding sig by blast
    obtain j where j: "j < length pools" "pools ! j = p" using p(1) by (auto simp: in_set_conv_nth)
    have "((d, k), j) \<in> set (claim_list idna 0 pools)" unfolding claim_list_index using j p by simp
    then obtain i where i: "map_of (claim_list idna 0 pools) (d, k) = Some i" using weak_map_of_SomeI by metis
    let ?q = "pools ! i"
    have q: "?q \<in> set pools" using at [OF i] by simp
    have "holder (d, k) = Some (up_name ?q)" using h [of ?q d k] q conf at [OF i] ids by simp
    moreover have "holder (d, k) = Some (up_name p)" using h [of p d k] p conf ids by simp
    ultimately have "up_name ?q = up_name p" by simp
    then show "holder_of idna pools (d, k) = Some (n, b)"
      using names [unfolded flags_by_name_def, rule_format, OF q p(1)] p(4,5) by (simp add: holder_of_def i)
  qed
qed

lemma covers_same: "covers z name \<Longrightarrow> covers z' name \<Longrightarrow> length z = length z' \<Longrightarrow> z = z'"
proof -
  assume "covers z name" "covers z' name" and len: "length z = length z'"
  then obtain s s' where s: "s \<le> length name" "s' \<le> length name" "z = drop s name" "z' = drop s' name"
    by (auto simp: covers_boundary boundary_def)
  then have "s = s'" using len by simp
  then show "z = z'" using s by simp
qed

definition named_claim :: "(string \<Rightarrow> string + string) \<Rightarrow> upstream_pool list \<Rightarrow> string \<Rightarrow> u32 option \<Rightarrow> (string \<times> bool \<times> u32) option" where
  "named_claim idna pools z g = map_option (\<lambda>(i, v). (up_name (pools ! i), up_internal (pools ! i), v)) (claim_for (claim_list idna 0 pools) z g)"

lemma named_holder:
  "named_claim idna pools z g =
    (case Option.bind g (\<lambda>k. map_option (\<lambda>(n, b). (n, b, k)) (holder_of idna pools (z, Some k))) of
       Some x \<Rightarrow> Some x
     | None \<Rightarrow> map_option (\<lambda>(n, b). (n, b, 0)) (holder_of idna pools (z, None)))"
  by (cases g) (auto simp: named_claim_def claim_for_def holder_of_def option.map_comp comp_def split: option.split)

definition served_by :: "upstream_pool list \<Rightarrow> pool_routes \<Rightarrow> string \<Rightarrow> i64 option \<Rightarrow> (string \<times> route) option" where
  "served_by pools r d gr = map_option (\<lambda>(i, rt). (up_name (pools ! i), rt)) (lookup_route r d gr)"

lemma served_by_claims:
  assumes "build_routes idna show_int pools = Inr r" "build_routes idna show_int pools' = Inr r'"
    and same: "\<And>z. named_claim idna pools z (Option.bind gr as_u32) = named_claim idna pools' z (Option.bind gr as_u32)"
  shows "served_by pools r d gr = served_by pools' r' d gr"
proof (cases "route_name d")
  case None
  then show ?thesis by (simp add: served_by_def lookup_walk)
next
  case (Some name)
  let ?g = "Option.bind gr as_u32" and ?f = "claim_for (claim_list idna 0 pools)" and ?f' = "claim_for (claim_list idna 0 pools')"
  note l = lookup_longest [OF assms(1) Some refl refl, of gr] and l' = lookup_longest [OF assms(2) Some refl refl, of gr]
  have iff: "?f z ?g = None \<longleftrightarrow> ?f' z ?g = None" for z
    using same [of z] by (cases "?f z ?g"; cases "?f' z ?g") (simp_all add: named_claim_def)
  show ?thesis
  proof (cases "lookup_route r d gr")
    case None
    then have "?f z ?g = None" if "covers z name" for z using l that by simp
    then have "lookup_route r' d gr = None" using l' iff by (cases "lookup_route r' d gr") auto
    then show ?thesis using None by (simp add: served_by_def)
  next
    case (Some x)
    obtain i rt where x: "x = (i, rt)" by fastforce
    obtain z where z: "rt_internal rt = up_internal (pools ! i)" "covers z name" "?f z ?g = Some (i, rt_view rt)"
      "\<forall>z'. covers z' name \<and> ?f z' ?g \<noteq> None \<longrightarrow> length z' \<le> length z"
      using l by (auto simp: Some x)
    have "lookup_route r' d gr \<noteq> None"
    proof
      assume "lookup_route r' d gr = None"
      then have "?f' z ?g = None" using l' z(2) by simp
      then show False using iff [of z] z(3) by simp
    qed
    then obtain i' rt' where x': "lookup_route r' d gr = Some (i', rt')" by auto
    obtain z' where z': "rt_internal rt' = up_internal (pools' ! i')" "covers z' name" "?f' z' ?g = Some (i', rt_view rt')"
      "\<forall>w. covers w name \<and> ?f' w ?g \<noteq> None \<longrightarrow> length w \<le> length z'"
      using l' by (auto simp: x')
    have "?f' z ?g \<noteq> None" "?f z' ?g \<noteq> None" using iff [of z] iff [of z'] z(3) z'(3) by simp_all
    then have "length z = length z'" using z(4) [rule_format, of z'] z'(4) [rule_format, of z] z(2) z'(2) by simp
    then have "z = z'" using covers_same z(2) z'(2) by blast
    then show ?thesis using same [of z] z(1,3) z'(1,3) by (simp add: served_by_def Some x x' named_claim_def)
  qed
qed


section \<open>Three pools\<close>

text \<open>A default pool, an internal zone for every client, and a zone below it for client group 7.\<close>

definition demo_pool :: "string \<Rightarrow> string list \<Rightarrow> i64 list \<Rightarrow> bool \<Rightarrow> upstream_pool" where
  "demo_pool n ds gs b = \<lparr>up_name = n, up_strategy = Failover, up_priority = 1, up_servers = [''10.0.0.1''], up_domains = ds, up_groups = gs, up_internal = b\<rparr>"

abbreviation demo_main :: upstream_pool where "demo_main \<equiv> demo_pool ''main'' [] [] False"
abbreviation demo_office :: upstream_pool where "demo_office \<equiv> demo_pool ''office'' [''Corp.lan.''] [] True"
abbreviation demo_lab :: upstream_pool where "demo_lab \<equiv> demo_pool ''lab'' [''lab.corp.lan''] [7] True"

abbreviation no_idna :: "string \<Rightarrow> string + string" where "no_idna \<equiv> \<lambda>_. Inl []"

lemma demo_domains:
  "normalized_domains no_idna demo_main = Inr []" "normalized_domains no_idna demo_office = Inr [''corp.lan'']"
  "normalized_domains no_idna demo_lab = Inr [''lab.corp.lan'']"
proof -
  have "normalize_route_domain no_idna ''Corp.lan.'' = Inr ''corp.lan''" "normalize_route_domain no_idna ''lab.corp.lan'' = Inr ''lab.corp.lan''"
    by code_simp+
  then show "normalized_domains no_idna demo_main = Inr []" "normalized_domains no_idna demo_office = Inr [''corp.lan'']"
    "normalized_domains no_idna demo_lab = Inr [''lab.corp.lan'']"
    by (simp_all add: normalized_domains_def demo_pool_def)
qed

lemma demo_groups: "pool_groups s (demo_pool n ds [] b) = Inr []" "pool_groups s (demo_pool n ds [7] b) = Inr [7]"
  by (simp_all add: pool_groups_def demo_pool_def group_id_def)

lemma demo_built: "\<exists>r. build_routes no_idna s [demo_main, demo_office, demo_lab] = Inr r" "\<exists>r. build_routes no_idna s [demo_main, demo_lab, demo_office] = Inr r"
  by (simp_all add: build_routes_def demo_groups demo_domains Let_def)

lemma demo_valid: "validate_pool_routes no_idna s [demo_main, demo_office, demo_lab] = Inr ()" "validate_pool_routes no_idna s [demo_main, demo_lab, demo_office] = Inr ()"
proof -
  have "is_conditional demo_office" "is_conditional demo_lab" "\<not> is_conditional demo_main" "up_groups demo_main = []" "\<not> up_internal demo_main"
    "find (\<lambda>i. group_id i = None) (up_groups demo_office) = None" "find (\<lambda>i. group_id i = None) (up_groups demo_lab) = None"
    "scopes demo_office = [None]" "scopes demo_lab = [Some 7]" "up_name demo_office = ''office''" "up_name demo_lab = ''lab''"
    by (simp_all add: demo_pool_def is_conditional_def group_id_def scopes_def)
  then show "validate_pool_routes no_idna s [demo_main, demo_office, demo_lab] = Inr ()" "validate_pool_routes no_idna s [demo_main, demo_lab, demo_office] = Inr ()"
    by (simp_all add: validate_pool_routes_def demo_domains claim_one_def)
qed

theorem route_most_specific_witness:
  "\<exists>r i rt. build_routes no_idna (\<lambda>_. []) [demo_main, demo_office, demo_lab] = Inr r \<and>
    lookup_route r ''pc.lab.corp.lan'' (Some 7) = Some (i, rt) \<and> i < 3"
proof -
  obtain r where r: "build_routes no_idna (\<lambda>_. []) [demo_main, demo_office, demo_lab] = Inr r" using demo_built by blast
  have name: "route_name ''pc.lab.corp.lan'' = Some ''pc.lab.corp.lan''" by code_simp
  have cov: "covers ''lab.corp.lan'' ''pc.lab.corp.lan''" by (simp add: covers_def)
  have "groups_of demo_lab = [7]" "domains_of no_idna demo_lab = [''lab.corp.lan'']" "domains_of no_idna demo_main = []"
    "groups_of demo_office = []" "domains_of no_idna demo_office = [''corp.lan'']"
    by (simp_all add: domains_of_def demo_domains) (simp_all add: groups_of_def demo_pool_def group_id_def List.map_filter_def)
  then have "claim_for (claim_list no_idna 0 [demo_main, demo_office, demo_lab]) ''lab.corp.lan'' (Some 7) = Some (2, 7)"
    by (simp add: claim_keys_def scope_keys_def claim_for_def)
  moreover have "Option.bind (Some 7) as_u32 = Some 7" by (simp add: as_u32_def)
  ultimately show ?thesis
    using route_most_specific [OF r name refl refl, of "Some 7"] r cov
    by (cases "lookup_route r ''pc.lab.corp.lan'' (Some 7)") auto
qed

theorem view_shortcut_exact_witness:
  "\<exists>r. build_routes no_idna (\<lambda>_. []) [demo_main, demo_office, demo_lab] = Inr r \<and>
    manager_view r ''pc.lab.corp.lan'' (Some 7) = (case lookup_route r ''pc.lab.corp.lan'' (Some 7) of Some (_, rt) \<Rightarrow> rt_view rt | None \<Rightarrow> 0)"
proof -
  obtain r where r: "build_routes no_idna (\<lambda>_. []) [demo_main, demo_office, demo_lab] = Inr r" using demo_built by blast
  then show ?thesis using view_shortcut_exact [OF r, of "''pc.lab.corp.lan''" "Some 7"] by simp
qed

lemma build_signature:
  assumes "build_routes idna show_int pools = Inr r"
  shows "signature r = remdups_adj (sort (concat (map (pool_signature idna) pools)))"
proof -
  let ?r0 = "\<lparr>by_domain = Map.empty, pr_internal = map up_internal pools, has_group_routes = False, signature = []\<rparr>"
  obtain r1 where r1: "add_pools idna show_int 0 pools ?r0 = Inr r1" "r = r1\<lparr>signature := remdups_adj (sort (signature r1))\<rparr>"
    using assms by (auto simp: build_routes_def split: sum.splits)
  have "routes_of [] (by_domain ?r0)" "holds_parents (by_domain ?r0)"
    by (simp_all add: routes_of_def entry_of_def no_routes_def holds_parents_def)
  from add_pools_routes [OF r1(1) this] show ?thesis by (simp add: r1(2))
qed


end
