(* ===== verification/Load_Balancer.thy ===== *)
theory Load_Balancer
  imports Pool_Routes "HOL-Library.Sublist"
begin

text \<open>
  Upstream pools: health of the servers (\<open>load_balancer/health.rs\<close>), the strategies within a pool
  (\<open>failover.rs\<close>, \<open>balanced.rs\<close>, \<open>parallel.rs\<close>) and the choice of pools (\<open>pool.rs\<close>). What a server
  answers to an attempt and the order in which a race settles are arguments; the attempts a query makes
  are collected in a list with their numbers, so that the theorems can say which servers a name was
  sent to and what they answered.
\<close>

section \<open>Health\<close>

datatype server_status = Healthy | Unhealthy | Unknown

record server_health =
  sh_status :: server_status
  sh_failures :: u16
  sh_successes :: u16
  sh_latency :: "u64 option"
  sh_error :: "string option"

definition new_health :: server_health where
  "new_health = \<lparr>sh_status = Unknown, sh_failures = 0, sh_successes = 0, sh_latency = None, sh_error = None\<rparr>"

record 'p health_checker =
  hc_map :: "'p \<rightharpoonup> server_health"
  hc_failure_threshold :: u8
  hc_success_threshold :: u8

definition new_checker :: "u8 \<Rightarrow> u8 \<Rightarrow> 'p health_checker" where
  "new_checker f s = \<lparr>hc_map = Map.empty, hc_failure_threshold = f, hc_success_threshold = s\<rparr>"

definition saturating_inc :: "u16 \<Rightarrow> u16" where
  "saturating_inc n = (if n = - 1 then n else n + 1)"

definition health_of :: "'p health_checker \<Rightarrow> 'p \<Rightarrow> server_health" where
  "health_of h p = (case hc_map h p of Some e \<Rightarrow> e | None \<Rightarrow> new_health)"

definition mark_healthy :: "'p \<Rightarrow> u64 \<Rightarrow> 'p health_checker \<Rightarrow> 'p health_checker" where
  "mark_healthy p latency h =
    (let e = health_of h p;
         e1 = e\<lparr>sh_failures := 0, sh_successes := saturating_inc (sh_successes e), sh_latency := Some latency, sh_error := None\<rparr>;
         e2 = (if ucast (hc_success_threshold h) \<le> sh_successes e1 then e1\<lparr>sh_status := Healthy\<rparr> else e1)
     in h\<lparr>hc_map := (hc_map h)(p \<mapsto> e2)\<rparr>)"

definition mark_failed :: "'p \<Rightarrow> u64 option \<Rightarrow> string \<Rightarrow> 'p health_checker \<Rightarrow> 'p health_checker" where
  "mark_failed p latency err h =
    (let e = health_of h p;
         e1 = e\<lparr>sh_successes := 0, sh_failures := saturating_inc (sh_failures e), sh_latency := latency, sh_error := Some err\<rparr>;
         e2 = (if ucast (hc_failure_threshold h) \<le> sh_failures e1 then e1\<lparr>sh_status := Unhealthy\<rparr> else e1)
     in h\<lparr>hc_map := (hc_map h)(p \<mapsto> e2)\<rparr>)"

definition retain_live :: "'p list \<Rightarrow> 'p health_checker \<Rightarrow> 'p health_checker" where
  "retain_live live h = h\<lparr>hc_map := (\<lambda>p. if p \<in> set live then hc_map h p else None)\<rparr>"

definition is_healthy :: "'p health_checker \<Rightarrow> 'p \<Rightarrow> bool" where
  "is_healthy h p = (case hc_map h p of Some e \<Rightarrow> sh_status e \<noteq> Unhealthy | None \<Rightarrow> True)"

definition get_status :: "'p health_checker \<Rightarrow> 'p \<Rightarrow> server_status" where
  "get_status h p = (case hc_map h p of Some e \<Rightarrow> sh_status e | None \<Rightarrow> Unknown)"

text \<open>What one health check found: an answer, a failure to send, a timeout, or a response that is a server error or does not parse.\<close>

datatype probe_result = No_transport string | Timed_out | Send_failed string | Server_error string | Unparsed string | Answered_ok

fun check_server :: "'p \<Rightarrow> (u64 \<Rightarrow> string) \<Rightarrow> u64 \<Rightarrow> u64 \<Rightarrow> probe_result \<Rightarrow> 'p health_checker \<Rightarrow> 'p health_checker" where
  "check_server p show_num timeout_ms latency (No_transport e) h = mark_failed p None e h"
| "check_server p show_num timeout_ms latency Timed_out h = mark_failed p None (''Timeout after '' @ show_num timeout_ms @ ''ms'') h"
| "check_server p show_num timeout_ms latency (Send_failed e) h = mark_failed p (Some latency) e h"
| "check_server p show_num timeout_ms latency (Server_error status) h = mark_failed p (Some latency) status h"
| "check_server p show_num timeout_ms latency (Unparsed e) h = mark_failed p (Some latency) e h"
| "check_server p show_num timeout_ms latency Answered_ok h = mark_healthy p latency h"

section \<open>One attempt\<close>

record 'b reply =
  rp_answer :: bool
  rp_status :: string
  rp_body :: 'b

record 'b upstream_result =
  ur_body :: 'b
  ur_pool :: string
  ur_server :: string
  ur_internal :: bool

text \<open>
  The network: an error if the message cannot be built, the outcome of the attempt at a server when \<open>n\<close> attempts were made before (with whether the
  answer came by the TCP retry), and the servers of a race in the order they settle, as far as the
  time allows.
\<close>

type_synonym 'p attempts = "(nat \<times> 'p) list"

record ('p, 'b) net =
  nt_message :: "string \<Rightarrow> bool \<Rightarrow> domain_error option"
  nt_exchange :: "nat \<Rightarrow> 'p \<Rightarrow> domain_error + 'b reply \<times> bool"
  nt_settle :: "nat \<Rightarrow> 'p list \<Rightarrow> 'p list"
  nt_display :: "'p \<Rightarrow> string"
  nt_count :: "nat \<Rightarrow> string"

fun is_servfail :: "domain_error \<Rightarrow> bool" where
  "is_servfail (UpstreamServerFailure server rcode) = (rcode = ''SERVFAIL'')"
| "is_servfail AllUpstreamsServfail = True"
| "is_servfail _ = False"

definition all_servers_failed :: "bool \<Rightarrow> domain_error" where
  "all_servers_failed all_servfail = (if all_servfail then AllUpstreamsServfail else TransportAllServersUnreachable)"

definition query_server :: "('p, 'b) net \<Rightarrow> string \<Rightarrow> nat \<Rightarrow> 'p \<Rightarrow> domain_error + 'b upstream_result" where
  "query_server net pool n p =
    (case nt_exchange net n p of
       Inl e \<Rightarrow> Inl e
     | Inr (rp, tcp_retry) \<Rightarrow>
         if \<not> rp_answer rp then Inl (UpstreamServerFailure (nt_display net p) (rp_status rp))
         else Inr \<lparr>ur_body = rp_body rp, ur_pool = pool,
           ur_server = (if tcp_retry then nt_display net p @ '' (tcp retry)'' else nt_display net p), ur_internal = False\<rparr>)"

section \<open>Strategies\<close>

fun try_each :: "('p, 'b) net \<Rightarrow> string \<Rightarrow> 'p list \<Rightarrow> bool \<Rightarrow> 'p attempts \<Rightarrow> (domain_error + 'b upstream_result) \<times> 'p attempts" where
  "try_each net pool [] all_servfail asked = (Inl (all_servers_failed all_servfail), asked)"
| "try_each net pool (p # ps) all_servfail asked =
    (case query_server net pool (length asked) p of
       Inr r \<Rightarrow> (Inr r, asked @ [(length asked, p)])
     | Inl e \<Rightarrow> try_each net pool ps (all_servfail \<and> is_servfail e) (asked @ [(length asked, p)]))"

definition query_failover :: "('p, 'b) net \<Rightarrow> string \<Rightarrow> 'p list \<Rightarrow> 'p attempts \<Rightarrow> (domain_error + 'b upstream_result) \<times> 'p attempts" where
  "query_failover net pool servers asked =
    (if servers = [] then (Inl TransportNoHealthyServers, asked) else try_each net pool servers True asked)"

definition from_position :: "nat \<Rightarrow> 'p list \<Rightarrow> 'p list" where
  "from_position start servers = map (\<lambda>i. servers ! ((start + i) mod length servers)) [0..<length servers]"

definition query_balanced ::
  "('p, 'b) net \<Rightarrow> string \<Rightarrow> 'p list \<Rightarrow> u64 \<Rightarrow> 'p attempts \<Rightarrow> (domain_error + 'b upstream_result) \<times> 'p attempts \<times> u64" where
  "query_balanced net pool servers next_server asked =
    (if servers = [] then (Inl TransportNoHealthyServers, asked, next_server)
     else
       let start = unat next_server mod length servers;
           (res, asked1) = try_each net pool (from_position start servers) True asked
       in (res, asked1, next_server + 1))"

definition pair_failure :: "domain_error \<Rightarrow> domain_error \<Rightarrow> domain_error" where
  "pair_failure e1 e2 =
    (if is_servfail e1 \<and> is_servfail e2 then AllUpstreamsServfail
     else if \<not> is_servfail e1 \<and> is_servfail e2 then TransportAllServersUnreachable
     else e2)"

fun first_success :: "(domain_error + 'r) list \<Rightarrow> bool \<Rightarrow> (domain_error + 'r) + bool" where
  "first_success [] all_servfail = Inr all_servfail"
| "first_success (Inr r # rs) all_servfail = Inl (Inr r)"
| "first_success (Inl e # rs) all_servfail = first_success rs (all_servfail \<and> is_servfail e)"

definition query_parallel :: "('p, 'b) net \<Rightarrow> string \<Rightarrow> 'p list \<Rightarrow> 'p attempts \<Rightarrow> (domain_error + 'b upstream_result) \<times> 'p attempts" where
  "query_parallel net pool servers asked =
    (let n = length asked; settled = map (query_server net pool n) (nt_settle net n servers); all = asked @ map (Pair n) servers in
     case servers of
       [] \<Rightarrow> (Inl TransportNoHealthyServers, asked)
     | [only] \<Rightarrow> (query_server net pool n only, all)
     | [s0, s1] \<Rightarrow>
         (case settled of
            Inr r # _ \<Rightarrow> Inr r
          | [Inl e1, Inl e2] \<Rightarrow> Inl (pair_failure e1 e2)
          | Inl e1 # Inr r # _ \<Rightarrow> Inr r
          | _ \<Rightarrow> Inl (TransportTimeout ''parallel(2 servers)''), all)
     | _ \<Rightarrow>
         (case first_success settled True of
            Inl r \<Rightarrow> r
          | Inr all_servfail \<Rightarrow>
              if length settled < length servers
              then Inl (TransportTimeout (''parallel('' @ nt_count net (length servers) @ '' servers)''))
              else Inl (all_servers_failed all_servfail), all))"

section \<open>Pools\<close>

text \<open>A configured server and what the lookup of its host name found.\<close>

datatype host_resolution = Literal | Resolved "u32 option" | Lookup_failed

record 'p server_group =
  sg_original :: string
  sg_protocols :: "'p list"
  sg_resolution :: host_resolution

record 'p pool =
  po_config :: upstream_pool
  po_next :: u64
  po_servers :: "'p list"
  po_groups :: "'p server_group list"
  po_zone :: "string option"

record 'p pool_set =
  ps_pools :: "'p pool list"
  ps_routes :: pool_routes
  ps_default :: "nat list"

definition assemble ::
  "(string \<Rightarrow> string + string) \<Rightarrow> (i64 \<Rightarrow> string) \<Rightarrow> (upstream_pool \<times> 'p server_group list) list \<Rightarrow> domain_error + 'p pool_set" where
  "assemble idna show_int pools =
    (case collect_results (map (\<lambda>(p, server_groups). case normalized_domains idna p of
         Inl e \<Rightarrow> Inl e
       | Inr ds \<Rightarrow> Inr \<lparr>po_config = p, po_next = 0, po_servers = concat (map sg_protocols server_groups),
           po_groups = server_groups, po_zone = (case ds of [] \<Rightarrow> None | d # _ \<Rightarrow> Some d)\<rparr>) pools) of
       Inl e \<Rightarrow> Inl e
     | Inr ps \<Rightarrow>
         let sorted = sort_key (\<lambda>p. up_priority (po_config p)) ps in
         case build_routes idna show_int (map po_config sorted) of
           Inl e \<Rightarrow> Inl e
         | Inr r \<Rightarrow> Inr \<lparr>ps_pools = sorted, ps_routes = r,
             ps_default = filter (\<lambda>i. \<not> is_conditional (po_config (sorted ! i))) [0..<length sorted]\<rparr>)"

record 'p balancer =
  bl_set :: "'p pool_set"
  bl_health :: "'p health_checker option"
  bl_failing_open :: bool

definition healthy_servers :: "'p balancer \<Rightarrow> 'p pool \<Rightarrow> 'p list" where
  "healthy_servers b pool =
    (case bl_health b of Some h \<Rightarrow> filter (is_healthy h) (po_servers pool) | None \<Rightarrow> po_servers pool)"

definition query_refs :: "('p, 'b) net \<Rightarrow> 'p pool \<Rightarrow> 'p list \<Rightarrow> 'p attempts \<Rightarrow> (domain_error + 'b upstream_result) \<times> 'p attempts \<times> 'p pool" where
  "query_refs net pool servers asked =
    (let name = up_name (po_config pool) in
     case up_strategy (po_config pool) of
       Parallel \<Rightarrow> (let (res, asked1) = query_parallel net name servers asked in (res, asked1, pool))
     | Balanced \<Rightarrow> (let (res, asked1, n) = query_balanced net name servers (po_next pool) asked in (res, asked1, pool\<lparr>po_next := n\<rparr>))
     | Failover \<Rightarrow> (let (res, asked1) = query_failover net name servers asked in (res, asked1, pool)))"

datatype pool_failure = Final domain_error | FellThrough bool

fun is_transport_error :: "domain_error \<Rightarrow> bool" where
  "is_transport_error (TransportTimeout s) = True"
| "is_transport_error (TransportConnectionRefused s) = True"
| "is_transport_error (TransportConnectionReset s) = True"
| "is_transport_error TransportNoHealthyServers = True"
| "is_transport_error TransportAllServersUnreachable = True"
| "is_transport_error (SpoofedResponse s e) = True"
| "is_transport_error (IoError e) = True"
| "is_transport_error _ = False"

fun declined :: "domain_error \<Rightarrow> bool" where
  "declined (UpstreamServerFailure server rcode) = True"
| "declined AllUpstreamsServfail = True"
| "declined _ = False"

definition pool_outcome :: "domain_error + 'r \<Rightarrow> pool_failure + 'r" where
  "pool_outcome res =
    (case res of
       Inr r \<Rightarrow> Inr r
     | Inl e \<Rightarrow> if is_transport_error e then Inl (FellThrough False)
         else if declined e then Inl (FellThrough (is_servfail e)) else Inl (Final e))"

text \<open>The pool at a position asks some of its servers.\<close>

definition query_pool ::
  "('p, 'b) net \<Rightarrow> nat \<Rightarrow> 'p list \<Rightarrow> 'p balancer \<Rightarrow> 'p attempts \<Rightarrow> (pool_failure + 'b upstream_result) \<times> 'p attempts \<times> 'p balancer" where
  "query_pool net i servers b asked =
    (let (res, asked1, pool) = query_refs net (ps_pools (bl_set b) ! i) servers asked
     in (pool_outcome res, asked1, b\<lparr>bl_set := (bl_set b)\<lparr>ps_pools := (ps_pools (bl_set b))[i := pool]\<rparr>\<rparr>))"

definition query_routed ::
  "('p, 'b) net \<Rightarrow> nat \<Rightarrow> 'p balancer \<Rightarrow> 'p attempts \<Rightarrow> (domain_error + 'b upstream_result) \<times> 'p attempts \<times> 'p balancer" where
  "query_routed net i b asked =
    (let pool = ps_pools (bl_set b) ! i; healthy = healthy_servers b pool;
         servers = (if healthy = [] then po_servers pool else healthy)
     in if servers = [] then (Inl (all_servers_failed False), asked, b)
        else case query_pool net i servers b asked of
          (Inr r, asked1, b1) \<Rightarrow> (Inr r, asked1, b1)
        | (Inl (Final e), asked1, b1) \<Rightarrow> (Inl e, asked1, b1)
        | (Inl (FellThrough servfail), asked1, b1) \<Rightarrow> (Inl (all_servers_failed servfail), asked1, b1))"

definition leave_fail_open :: "'p balancer \<Rightarrow> 'p balancer" where
  "leave_fail_open b = (if bl_failing_open b then b\<lparr>bl_failing_open := False\<rparr> else b)"

text \<open>The state of the walk over the default pools: the answer once there is one, the servers asked, the balancer, and the three flags.\<close>

record ('p, 'b) walk =
  wk_result :: "(domain_error + 'b upstream_result) option"
  wk_asked :: "'p attempts"
  wk_balancer :: "'p balancer"
  wk_any_healthy :: bool
  wk_any_tried :: bool
  wk_all_servfail :: bool

definition take_turn :: "('p, 'b) net \<Rightarrow> nat \<Rightarrow> 'p list \<Rightarrow> ('p, 'b) walk \<Rightarrow> ('p, 'b) walk" where
  "take_turn net i servers w =
    (case query_pool net i servers (wk_balancer w) (wk_asked w) of
       (Inr r, asked1, b1) \<Rightarrow> w\<lparr>wk_result := Some (Inr r), wk_asked := asked1, wk_balancer := b1\<rparr>
     | (Inl (Final e), asked1, b1) \<Rightarrow> w\<lparr>wk_result := Some (Inl e), wk_asked := asked1, wk_balancer := b1\<rparr>
     | (Inl (FellThrough servfail), asked1, b1) \<Rightarrow>
         w\<lparr>wk_asked := asked1, wk_balancer := b1, wk_any_tried := True, wk_all_servfail := (wk_all_servfail w \<and> servfail)\<rparr>)"

fun walk_healthy :: "('p, 'b) net \<Rightarrow> nat list \<Rightarrow> ('p, 'b) walk \<Rightarrow> ('p, 'b) walk" where
  "walk_healthy net [] w = w"
| "walk_healthy net (i # is) w =
    (if wk_result w \<noteq> None then w
     else
       let b = wk_balancer w; servers = healthy_servers b (ps_pools (bl_set b) ! i) in
       if servers = [] then walk_healthy net is w
       else
         let w1 = (if wk_any_healthy w then w else w\<lparr>wk_any_healthy := True, wk_balancer := leave_fail_open b\<rparr>)
         in walk_healthy net is (take_turn net i servers w1))"

fun walk_all :: "('p, 'b) net \<Rightarrow> nat list \<Rightarrow> ('p, 'b) walk \<Rightarrow> ('p, 'b) walk" where
  "walk_all net [] w = w"
| "walk_all net (i # is) w =
    (if wk_result w \<noteq> None then w
     else
       let servers = po_servers (ps_pools (bl_set (wk_balancer w)) ! i) in
       if servers = [] then walk_all net is w else walk_all net is (take_turn net i servers w))"

definition query_default ::
  "('p, 'b) net \<Rightarrow> 'p balancer \<Rightarrow> 'p attempts \<Rightarrow> (domain_error + 'b upstream_result) \<times> 'p attempts \<times> 'p balancer" where
  "query_default net b asked =
    (let pools = ps_default (bl_set b);
         w = walk_healthy net pools \<lparr>wk_result = None, wk_asked = asked, wk_balancer = b,
           wk_any_healthy = False, wk_any_tried = False, wk_all_servfail = True\<rparr>;
         w1 = (if wk_result w = None \<and> \<not> wk_any_healthy w \<and> bl_health b \<noteq> None
               then walk_all net pools (w\<lparr>wk_balancer := (wk_balancer w)\<lparr>bl_failing_open := True\<rparr>\<rparr>) else w)
     in (case wk_result w1 of Some res \<Rightarrow> res | None \<Rightarrow> Inl (all_servers_failed (wk_any_tried w1 \<and> wk_all_servfail w1)),
         wk_asked w1, wk_balancer w1))"

text \<open>An internal zone is not asked for DNSSEC records; building the message may fail.\<close>

definition asks_dnssec :: "'p balancer \<Rightarrow> i64 option \<Rightarrow> string \<Rightarrow> bool \<Rightarrow> bool" where
  "asks_dnssec b gr d dnssec_ok \<longleftrightarrow>
    dnssec_ok \<and> \<not> (case lookup_route (ps_routes (bl_set b)) d gr of Some (_, route) \<Rightarrow> rt_internal route | None \<Rightarrow> False)"

definition query_for ::
  "('p, 'b) net \<Rightarrow> i64 option \<Rightarrow> string \<Rightarrow> bool \<Rightarrow> 'p balancer \<Rightarrow> 'p attempts \<Rightarrow>
   (domain_error + 'b upstream_result) \<times> 'p attempts \<times> 'p balancer" where
  "query_for net gr d dnssec_ok b asked =
    (case nt_message net d (asks_dnssec b gr d dnssec_ok) of
       Some e \<Rightarrow> (Inl e, asked, b)
     | None \<Rightarrow>
         (case lookup_route (ps_routes (bl_set b)) d gr of
            Some (i, route) \<Rightarrow>
              (case query_routed net i b asked of
                 (Inr r, asked1, b1) \<Rightarrow> (Inr (r\<lparr>ur_internal := rt_internal route\<rparr>), asked1, b1)
               | (Inl e, asked1, b1) \<Rightarrow> (Inl e, asked1, b1))
          | None \<Rightarrow> query_default net b asked))"

section \<open>Attempts\<close>

definition answered_servfail :: "('p, 'b) net \<Rightarrow> nat \<times> 'p \<Rightarrow> bool" where
  "answered_servfail net a =
    (case nt_exchange net (fst a) (snd a) of Inl e \<Rightarrow> is_servfail e | Inr (rp, _) \<Rightarrow> \<not> rp_answer rp \<and> rp_status rp = ''SERVFAIL'')"

text \<open>In a race every server settles at most once.\<close>

definition settles_once :: "('p, 'b) net \<Rightarrow> bool" where
  "settles_once net \<longleftrightarrow> (\<forall>n ps. mset (nt_settle net n ps) \<subseteq># mset ps)"

lemma servfail_server: "query_server net pool n p = Inl e \<Longrightarrow> is_servfail e \<Longrightarrow> answered_servfail net (n, p)"
  by (auto simp: query_server_def answered_servfail_def split: sum.splits prod.splits if_splits)

text \<open>
  What a group of attempts shows: only these servers were asked, and an error that says SERVFAIL
  means that there was an attempt and every one was answered so.
\<close>

definition fair_attempts ::
  "('p, 'b) net \<Rightarrow> 'p set \<Rightarrow> 'p attempts \<Rightarrow> 'p attempts \<Rightarrow> bool \<Rightarrow> bool" where
  "fair_attempts net S asked asked1 servfail \<longleftrightarrow> (\<exists>new. asked1 = asked @ new \<and> snd ` set new \<subseteq> S \<and>
    (servfail \<longrightarrow> new \<noteq> [] \<and> list_all (answered_servfail net) new))"

fun says_servfail :: "domain_error + 'r \<Rightarrow> bool" where
  "says_servfail (Inl e) = is_servfail e"
| "says_servfail (Inr r) = False"

lemma all_servers_failed_servfail [simp]: "is_servfail (all_servers_failed b) = b"
  by (simp add: all_servers_failed_def)

lemma try_each_attempts:
  assumes "try_each net pool ps sf asked = (res, asked1)"
  shows "\<exists>new. asked1 = asked @ new \<and> snd ` set new \<subseteq> set ps \<and> (says_servfail res \<longrightarrow> sf \<and> length new = length ps \<and> list_all (answered_servfail net) new)"
  using assms
proof (induction ps arbitrary: sf asked)
  case (Cons p ps)
  show ?case
  proof (cases "query_server net pool (length asked) p")
    case (Inl e)
    obtain new where new: "asked1 = (asked @ [(length asked, p)]) @ new" "snd ` set new \<subseteq> set ps"
      "says_servfail res \<longrightarrow> (sf \<and> is_servfail e) \<and> length new = length ps \<and> list_all (answered_servfail net) new"
      using Cons.IH [of "sf \<and> is_servfail e" "asked @ [(length asked, p)]"] Cons.prems Inl by auto
    show ?thesis
      by (rule exI [of _ "(length asked, p) # new"]) (use new servfail_server [OF Inl] in auto)
  next
    case (Inr r)
    then have "res = Inr r" "asked1 = asked @ [(length asked, p)]" using Cons.prems by simp_all
    then show ?thesis by simp
  qed
qed auto

lemma first_success_Inr: "first_success rs sf = Inr b \<longleftrightarrow> (\<forall>r \<in> set rs. \<exists>e. r = Inl e) \<and> b = (sf \<and> (\<forall>r \<in> set rs. says_servfail r))"
  by (induction rs sf rule: first_success.induct) auto

lemma first_success_Inl: "first_success rs sf = Inl r \<Longrightarrow> \<not> says_servfail r"
  by (induction rs sf rule: first_success.induct) auto

lemma servers_cases [case_names none one pair many]:
  obtains "servers = []" | only where "servers = [only]" | s0 s1 where "servers = [s0, s1]" | s0 s1 s2 ss where "servers = s0 # s1 # s2 # ss"
  by (metis list.exhaust)

lemma parallel_attempts:
  assumes "query_parallel net pool servers asked = (res, asked1)" and once: "settles_once net"
  shows "fair_attempts net (set servers) asked asked1 (says_servfail res)"
proof -
  let ?n = "length asked" and ?settled = "nt_settle net (length asked) servers"
  have sub: "mset ?settled \<subseteq># mset servers" using once by (simp add: settles_once_def)
  have whole: "set ?settled = set servers" if "length servers \<le> length ?settled"
    using sub that by (metis mset_eq_setD size_mset size_mset_mono subset_mset.antisym_conv1 le_antisym mset_subset_size not_less)
  have all: "fair_attempts net (set servers) asked (asked @ map (Pair ?n) servers) b"
    if "b \<Longrightarrow> servers \<noteq> [] \<and> (\<forall>p \<in> set servers. answered_servfail net (?n, p))" for b
    unfolding fair_attempts_def by (rule exI [of _ "map (Pair ?n) servers"]) (use that in \<open>auto simp: list_all_iff\<close>)
  have settled: "\<forall>p \<in> set servers. answered_servfail net (?n, p)"
    if "length servers \<le> length ?settled" "\<forall>r \<in> set (map (query_server net pool ?n) ?settled). says_servfail r"
  proof
    fix p assume "p \<in> set servers"
    then have "says_servfail (query_server net pool ?n p)" using that(2) whole [OF that(1)] by simp
    then show "answered_servfail net (?n, p)" using servfail_server by (cases "query_server net pool ?n p") auto
  qed
  let ?rs = "map (query_server net pool ?n) ?settled"
  show ?thesis
  proof (cases servers rule: servers_cases)
    case none
    then show ?thesis using assms(1) by (auto simp: query_parallel_def fair_attempts_def)
  next
    case (one only)
    then have r: "res = query_server net pool ?n only" "asked1 = asked @ map (Pair ?n) servers"
      using assms(1) by (simp_all add: query_parallel_def Let_def)
    show ?thesis unfolding r(2)
      by (rule all) (use r(1) one servfail_server in \<open>cases "query_server net pool ?n only"; auto\<close>)
  next
    case (pair s0 s1)
    have r: "res = (case ?rs of Inr r # _ \<Rightarrow> Inr r | [Inl e1, Inl e2] \<Rightarrow> Inl (pair_failure e1 e2) | Inl e1 # Inr r # _ \<Rightarrow> Inr r
        | _ \<Rightarrow> Inl (TransportTimeout ''parallel(2 servers)''))" "asked1 = asked @ map (Pair ?n) servers"
      using assms(1) by (simp_all add: query_parallel_def pair Let_def)
    have both: "\<exists>e1 e2. ?rs = [Inl e1, Inl e2] \<and> is_servfail e1 \<and> is_servfail e2" if "says_servfail res"
      using that unfolding r(1) by (auto simp: pair_failure_def split: list.splits sum.splits if_splits)
    have "\<forall>p \<in> set servers. answered_servfail net (?n, p)" if sf: "says_servfail res"
    proof -
      obtain e1 e2 where e: "?rs = [Inl e1, Inl e2]" "is_servfail e1" "is_servfail e2" using both [OF sf] by (elim exE conjE) (rule that)
      have "length servers \<le> length ?settled" using arg_cong [OF e(1), of length] by (simp add: pair)
      then show ?thesis by (rule settled) (simp only: e(1), simp add: e(2,3))
    qed
    then show ?thesis unfolding r(2) by (intro all) (use pair in auto)
  next
    case (many s0 s1 s2 ss)
    have r: "res = (case first_success ?rs True of Inl r \<Rightarrow> r | Inr sf \<Rightarrow> if length ?rs < length servers
        then Inl (TransportTimeout (''parallel('' @ nt_count net (length servers) @ '' servers)'')) else Inl (all_servers_failed sf))"
      "asked1 = asked @ map (Pair ?n) servers"
      using assms(1) unfolding query_parallel_def Let_def many by auto
    have "\<forall>p \<in> set servers. answered_servfail net (?n, p)" if sf: "says_servfail res"
    proof (cases "first_success ?rs True")
      case (Inl x)
      then show ?thesis using first_success_Inl [OF Inl] sf r(1) by simp
    next
      case (Inr b)
      then have "length servers \<le> length ?settled" "b" using sf r(1) by (simp_all split: if_splits)
      then show ?thesis using settled first_success_Inr [THEN iffD1, OF Inr] by simp
    qed
    then show ?thesis unfolding r(2) by (intro all) (use many in auto)
  qed
qed

lemma sequential_attempts:
  assumes "try_each net pool ps True asked = (res, asked1)" "set ps \<subseteq> S" "ps \<noteq> []"
  shows "fair_attempts net S asked asked1 (says_servfail res)"
proof -
  obtain new where "asked1 = asked @ new" "snd ` set new \<subseteq> set ps"
    "says_servfail res \<longrightarrow> length new = length ps \<and> list_all (answered_servfail net) new"
    using try_each_attempts [OF assms(1)] by blast
  then show ?thesis unfolding fair_attempts_def using assms(2,3) by (intro exI [of _ new]) auto
qed

lemma from_position_set: "set (from_position start ps) \<subseteq> set ps" "ps \<noteq> [] \<Longrightarrow> from_position start ps \<noteq> []"
  by (auto simp: from_position_def intro!: nth_mem mod_less_divisor)

text \<open>An attempt never marks an answer as internal; the route of the query does.\<close>

fun plain :: "'e + 'b upstream_result \<Rightarrow> bool" where
  "plain (Inr r) = (\<not> ur_internal r)"
| "plain (Inl e) = True"

lemma query_server_plain [simp]: "plain (query_server net pool n p)"
  by (auto simp: query_server_def split: sum.splits prod.splits)

lemma try_each_plain: "plain (fst (try_each net pool ps sf asked))"
proof (induction ps arbitrary: sf asked)
  case (Cons p ps)
  then show ?case using query_server_plain [of net pool "length asked" p] by (cases "query_server net pool (length asked) p") simp_all
qed simp

lemma first_success_plain: "\<forall>r \<in> set rs. plain r \<Longrightarrow> first_success rs sf = Inl r \<Longrightarrow> plain r"
  by (induction rs sf rule: first_success.induct) auto

lemma pair_plain:
  "\<forall>r \<in> set rs. plain r \<Longrightarrow> plain (case rs of Inr r # _ \<Rightarrow> Inr r | [Inl e1, Inl e2] \<Rightarrow> Inl (pair_failure e1 e2) | Inl e1 # Inr r # _ \<Rightarrow> Inr r
     | _ \<Rightarrow> Inl x)"
  by (auto split: list.splits sum.splits)

lemma many_plain: "\<forall>r \<in> set rs. plain r \<Longrightarrow> plain (case first_success rs True of Inl r \<Rightarrow> r | Inr sf \<Rightarrow> if c then Inl x else Inl (y sf))"
  using first_success_plain [of rs True] by (auto split: sum.splits)

lemma parallel_plain: "query_parallel net pool servers asked = (res, asked1) \<Longrightarrow> plain res"
proof -
  have all: "\<forall>r \<in> set (map (query_server net pool (length asked)) ps). plain r" for ps by simp
  have "plain (fst (query_parallel net pool servers asked))"
  proof (cases servers rule: servers_cases)
    case (pair s0 s1)
    show ?thesis using pair_plain [OF all] by (simp add: query_parallel_def Let_def pair)
  next
    case (many s0 s1 s2 ss)
    show ?thesis unfolding query_parallel_def Let_def many using many_plain [OF all] by simp
  qed (simp_all add: query_parallel_def Let_def)
  then show "query_parallel net pool servers asked = (res, asked1) \<Longrightarrow> plain res" by simp
qed

section \<open>The contract of a strategy\<close>

text \<open>Every strategy asks only the servers it is given and reports SERVFAIL only when all of them said so.\<close>

locale pool_strategy =
  fixes ask :: "('p, 'b) net \<Rightarrow> string \<Rightarrow> 'p list \<Rightarrow> 'p attempts \<Rightarrow> (domain_error + 'b upstream_result) \<times> 'p attempts"
  assumes fair: "settles_once net \<Longrightarrow> fair_attempts net (set servers) asked (snd (ask net pool servers asked)) (says_servfail (fst (ask net pool servers asked)))"
    and unmarked: "plain (fst (ask net pool servers asked))"
begin

lemma contract:
  assumes "settles_once net" "ask net pool servers asked = (res, asked1)"
  shows "fair_attempts net (set servers) asked asked1 (says_servfail res) \<and> plain res"
  using fair [OF assms(1), of servers asked pool] unmarked [of net pool servers asked] by (simp add: assms(2))

end

definition balanced_from :: "u64 \<Rightarrow> ('p, 'b) net \<Rightarrow> string \<Rightarrow> 'p list \<Rightarrow> 'p attempts \<Rightarrow> (domain_error + 'b upstream_result) \<times> 'p attempts" where
  "balanced_from n net pool servers asked = (let (res, asked1, _) = query_balanced net pool servers n asked in (res, asked1))"

lemma try_each_pair: "try_each net pool ps sf asked = (fst (try_each net pool ps sf asked), snd (try_each net pool ps sf asked))"
  by simp

lemma none_asked: "fair_attempts net S asked asked False"
  by (simp add: fair_attempts_def)

interpretation parallel: pool_strategy query_parallel
proof
  fix net :: "('p, 'b) net" and pool and servers :: "'p list" and asked
  obtain res asked1 where q: "query_parallel net pool servers asked = (res, asked1)" by fastforce
  show "fair_attempts net (set servers) asked (snd (query_parallel net pool servers asked)) (says_servfail (fst (query_parallel net pool servers asked)))"
    if "settles_once net" using parallel_attempts [OF q that] by (simp add: q)
  show "plain (fst (query_parallel net pool servers asked))" using parallel_plain [OF q] by (simp add: q)
qed

interpretation failover: pool_strategy query_failover
proof
  fix net :: "('p, 'b) net" and pool and servers :: "'p list" and asked
  show "fair_attempts net (set servers) asked (snd (query_failover net pool servers asked)) (says_servfail (fst (query_failover net pool servers asked)))"
    using sequential_attempts [OF try_each_pair subset_refl]
    by (cases "servers = []") (simp_all add: query_failover_def none_asked)
  show "plain (fst (query_failover net pool servers asked))" by (simp add: query_failover_def try_each_plain)
qed

interpretation balanced: pool_strategy "balanced_from n" for n
proof
  fix net :: "('p, 'b) net" and pool and servers :: "'p list" and asked
  let ?ps = "from_position (unat n mod length servers) servers"
  have q: "balanced_from n net pool servers asked = (if servers = [] then (Inl TransportNoHealthyServers, asked) else try_each net pool ?ps True asked)"
    by (simp add: balanced_from_def query_balanced_def Let_def split: prod.split)
  show "fair_attempts net (set servers) asked (snd (balanced_from n net pool servers asked)) (says_servfail (fst (balanced_from n net pool servers asked)))"
    using sequential_attempts [OF try_each_pair from_position_set(1) from_position_set(2)]
    unfolding q by (cases "servers = []") (simp_all add: none_asked)
  show "plain (fst (balanced_from n net pool servers asked))" by (simp add: q try_each_plain)
qed

lemma query_refs_contract:
  assumes "query_refs net pool servers asked = (res, asked1, pool1)" "settles_once net"
  shows "fair_attempts net (set servers) asked asked1 (says_servfail res) \<and> plain res \<and> (\<exists>n. pool1 = pool\<lparr>po_next := n\<rparr>)"
proof (cases "up_strategy (po_config pool)")
  case Parallel
  then have "query_parallel net (up_name (po_config pool)) servers asked = (res, asked1)" "pool1 = pool\<lparr>po_next := po_next pool\<rparr>"
    using assms(1) by (auto simp: query_refs_def Let_def split: prod.splits)
  then show ?thesis using parallel.contract [OF assms(2)] by blast
next
  case Failover
  then have "query_failover net (up_name (po_config pool)) servers asked = (res, asked1)" "pool1 = pool\<lparr>po_next := po_next pool\<rparr>"
    using assms(1) by (auto simp: query_refs_def Let_def split: prod.splits)
  then show ?thesis using failover.contract [OF assms(2)] by blast
next
  case Balanced
  then have "balanced_from (po_next pool) net (up_name (po_config pool)) servers asked = (res, asked1)" "\<exists>n. pool1 = pool\<lparr>po_next := n\<rparr>"
    using assms(1) by (auto simp: query_refs_def balanced_from_def Let_def split: prod.splits)
  then show ?thesis using balanced.contract [OF assms(2)] by blast
qed

section \<open>Pools and their servers\<close>

text \<open>Queries change nothing of the pools but the round-robin positions.\<close>

definition same_pools :: "'p balancer \<Rightarrow> 'p balancer \<Rightarrow> bool" where
  "same_pools b b1 \<longleftrightarrow> bl_health b1 = bl_health b \<and> ps_routes (bl_set b1) = ps_routes (bl_set b) \<and> ps_default (bl_set b1) = ps_default (bl_set b) \<and>
    map po_config (ps_pools (bl_set b1)) = map po_config (ps_pools (bl_set b)) \<and> map po_servers (ps_pools (bl_set b1)) = map po_servers (ps_pools (bl_set b))"

lemma same_pools_trans: "same_pools a b \<Longrightarrow> same_pools b d \<Longrightarrow> same_pools a d"
  by (simp add: same_pools_def)

lemma same_pools_refl [simp]: "same_pools b b" "same_pools b (b\<lparr>bl_failing_open := x\<rparr>)" "same_pools b (leave_fail_open b)"
  by (simp_all add: same_pools_def leave_fail_open_def)

lemma same_pools_at:
  assumes "same_pools b b1"
  shows "length (ps_pools (bl_set b1)) = length (ps_pools (bl_set b))"
    "i < length (ps_pools (bl_set b)) \<Longrightarrow> po_servers (ps_pools (bl_set b1) ! i) = po_servers (ps_pools (bl_set b) ! i)"
    "i < length (ps_pools (bl_set b)) \<Longrightarrow> healthy_servers b1 (ps_pools (bl_set b1) ! i) = healthy_servers b (ps_pools (bl_set b) ! i)"
proof -
  have m: "map po_servers (ps_pools (bl_set b1)) = map po_servers (ps_pools (bl_set b))" "bl_health b1 = bl_health b"
    using assms by (simp_all add: same_pools_def)
  show len: "length (ps_pools (bl_set b1)) = length (ps_pools (bl_set b))" using arg_cong [OF m(1), of length] by simp
  show "i < length (ps_pools (bl_set b)) \<Longrightarrow> po_servers (ps_pools (bl_set b1) ! i) = po_servers (ps_pools (bl_set b) ! i)"
    using arg_cong [OF m(1), of "\<lambda>xs. xs ! i"] len by simp
  then show "i < length (ps_pools (bl_set b)) \<Longrightarrow> healthy_servers b1 (ps_pools (bl_set b1) ! i) = healthy_servers b (ps_pools (bl_set b) ! i)"
    using m(2) by (cases "bl_health b") (simp_all add: healthy_servers_def)
qed

lemma pool_outcome_servfail: "pool_outcome res = Inl (FellThrough True) \<Longrightarrow> says_servfail res"
  by (cases res) (auto simp: pool_outcome_def split: if_splits)

lemma query_pool_attempts:
  assumes "query_pool net i servers b asked = (res, asked1, b1)" "settles_once net" "i < length (ps_pools (bl_set b))"
  shows "fair_attempts net (set servers) asked asked1 (res = Inl (FellThrough True))" "same_pools b b1"
proof -
  obtain r p where q: "query_refs net (ps_pools (bl_set b) ! i) servers asked = (r, asked1, p)"
    "res = pool_outcome r" "b1 = b\<lparr>bl_set := (bl_set b)\<lparr>ps_pools := (ps_pools (bl_set b))[i := p]\<rparr>\<rparr>"
    using assms(1) by (auto simp: query_pool_def split: prod.splits)
  note c = query_refs_contract [OF q(1) assms(2)]
  note a = c [THEN conjunct1] c [THEN conjunct2, THEN conjunct2]
  show "fair_attempts net (set servers) asked asked1 (res = Inl (FellThrough True))"
    using a(1) pool_outcome_servfail [of r] unfolding fair_attempts_def q(2) by blast
  obtain n where "p = (ps_pools (bl_set b) ! i)\<lparr>po_next := n\<rparr>" using a(2) by blast
  then have "po_config p = po_config (ps_pools (bl_set b) ! i)" "po_servers p = po_servers (ps_pools (bl_set b) ! i)" by simp_all
  then show "same_pools b b1" using assms(3) by (simp add: same_pools_def q(3) map_update list_update_same_conv)
qed

lemma healthy_sub: "set (healthy_servers b pool) \<subseteq> set (po_servers pool)"
  by (auto simp: healthy_servers_def split: option.split)

lemma fair_mono: "fair_attempts net S asked asked1 sf \<Longrightarrow> S \<subseteq> T \<Longrightarrow> (sf' \<Longrightarrow> sf) \<Longrightarrow> fair_attempts net T asked asked1 sf'"
  unfolding fair_attempts_def by blast

lemma query_routed_attempts:
  assumes "query_routed net i b asked = (res, asked1, b1)" "settles_once net" "i < length (ps_pools (bl_set b))"
  shows "fair_attempts net (set (po_servers (ps_pools (bl_set b) ! i))) asked asked1 (res = Inl AllUpstreamsServfail)" "same_pools b b1"
proof -
  let ?p = "ps_pools (bl_set b) ! i"
  let ?s = "if healthy_servers b ?p = [] then po_servers ?p else healthy_servers b ?p"
  have sub: "set ?s \<subseteq> set (po_servers ?p)" using healthy_sub [of b ?p] by simp
  have "fair_attempts net (set (po_servers ?p)) asked asked1 (res = Inl AllUpstreamsServfail) \<and> same_pools b b1"
  proof (cases "?s = []")
    case True
    then have "res = Inl TransportAllServersUnreachable" "asked1 = asked" "b1 = b"
      using assms(1) by (simp_all add: query_routed_def Let_def all_servers_failed_def split: if_splits)
    then show ?thesis by (simp add: fair_attempts_def)
  next
    case False
    obtain o1 a1 b2 where q: "query_pool net i ?s b asked = (o1, a1, b2)" by (metis prod.exhaust)
    have r: "a1 = asked1" "b2 = b1" "res = (case o1 of Inr r \<Rightarrow> Inr r | Inl (Final e) \<Rightarrow> Inl e | Inl (FellThrough sf) \<Rightarrow> Inl (all_servers_failed sf))"
      using assms(1) False q by (auto simp: query_routed_def Let_def split: if_splits sum.splits pool_failure.splits)
    have final: "res \<noteq> Inl AllUpstreamsServfail" if "o1 = Inl (Final e)" for e
    proof -
      obtain r0 where "o1 = pool_outcome r0" using q by (auto simp: query_pool_def split: prod.splits)
      then have "\<not> declined e" using that by (auto simp: pool_outcome_def split: sum.splits if_splits)
      then show ?thesis using r(3) that by auto
    qed
    note a = query_pool_attempts [OF q assms(2,3), unfolded r(1,2)]
    have "res = Inl AllUpstreamsServfail \<Longrightarrow> o1 = Inl (FellThrough True)"
      using final r(3) by (auto simp: all_servers_failed_def split: sum.splits pool_failure.splits if_splits)
    then show ?thesis using fair_mono [OF a(1) sub] a(2) by blast
  qed
  then show "fair_attempts net (set (po_servers ?p)) asked asked1 (res = Inl AllUpstreamsServfail)" "same_pools b b1" by blast+
qed

section \<open>The walk over the default pools\<close>

lemma query_pool_plain:
  assumes "query_pool net i servers b asked = (Inr r, asked1, b1)" "settles_once net"
  shows "\<not> ur_internal r"
proof -
  obtain res p where q: "query_refs net (ps_pools (bl_set b) ! i) servers asked = (res, asked1, p)" "pool_outcome res = Inr r"
    using assms(1) by (auto simp: query_pool_def split: prod.splits)
  have "plain res" using query_refs_contract [OF q(1) assms(2)] by blast
  then show ?thesis using q(2) by (cases res) (auto simp: pool_outcome_def split: if_splits)
qed

text \<open>
  What holds along the walk that started from \<open>b\<close> and \<open>asked\<close>, with \<open>S\<close> the servers it may ask.
\<close>

definition turns_ok :: "('p, 'b) net \<Rightarrow> 'p balancer \<Rightarrow> 'p set \<Rightarrow> 'p attempts \<Rightarrow> ('p, 'b) walk \<Rightarrow> bool" where
  "turns_ok net b S asked w \<longleftrightarrow> same_pools b (wk_balancer w) \<and> wk_result w \<noteq> Some (Inl AllUpstreamsServfail) \<and>
    (\<forall>r. wk_result w = Some (Inr r) \<longrightarrow> \<not> ur_internal r) \<and>
    (\<exists>new. wk_asked w = asked @ new \<and> snd ` set new \<subseteq> S \<and>
      (wk_result w = None \<and> wk_all_servfail w \<longrightarrow> list_all (answered_servfail net) new \<and> (wk_any_tried w \<longrightarrow> new \<noteq> [])))"

lemma pool_outcome_Final: "pool_outcome res = Inl (Final e) \<Longrightarrow> e \<noteq> AllUpstreamsServfail"
  by (cases res) (auto simp: pool_outcome_def split: if_splits)

lemma take_turn_ok:
  assumes w: "turns_ok net b S asked w" "wk_result w = None" and once: "settles_once net"
    and i: "i < length (ps_pools (bl_set b))" "set servers \<subseteq> S"
  shows "turns_ok net b S asked (take_turn net i servers w)"
proof -
  note w' = w(1) [unfolded turns_ok_def]
  obtain new where new: "wk_asked w = asked @ new" "snd ` set new \<subseteq> S" "wk_all_servfail w \<longrightarrow> list_all (answered_servfail net) new"
    using w' w(2) by blast
  obtain o1 a1 b1 where q: "query_pool net i servers (wk_balancer w) (wk_asked w) = (o1, a1, b1)" by (metis prod.exhaust)
  have len: "i < length (ps_pools (bl_set (wk_balancer w)))" using same_pools_at(1) w' i(1) by metis
  note a = query_pool_attempts [OF q once len]
  have same: "same_pools b b1" using same_pools_trans w' a(2) by blast
  obtain more where more: "a1 = asked @ (new @ more)" "snd ` set (new @ more) \<subseteq> S"
    "o1 = Inl (FellThrough True) \<longrightarrow> more \<noteq> [] \<and> list_all (answered_servfail net) more"
    using a(1) new(1,2) i(2) unfolding fair_attempts_def by (auto simp: image_Un)
  show ?thesis
  proof (cases o1)
    case (Inr r)
    then have "\<not> ur_internal r" using query_pool_plain [OF _ once] q by blast
    then show ?thesis using same more(1,2) by (auto simp: turns_ok_def take_turn_def q Inr)
  next
    case (Inl f)
    show ?thesis
    proof (cases f)
      case (Final e)
      have "e \<noteq> AllUpstreamsServfail"
        using q Inl Final pool_outcome_Final by (force simp: query_pool_def split: prod.splits)
      then show ?thesis using same more(1,2) by (auto simp: turns_ok_def take_turn_def q Inl Final)
    next
      case (FellThrough sf)
      have "take_turn net i servers w = w\<lparr>wk_asked := a1, wk_balancer := b1, wk_any_tried := True, wk_all_servfail := (wk_all_servfail w \<and> sf)\<rparr>"
        by (simp add: take_turn_def q Inl FellThrough)
      then show ?thesis unfolding turns_ok_def
        using same w(2) more new(3) Inl FellThrough by (intro conjI exI [of _ "new @ more"]) auto
    qed
  qed
qed

lemma turns_ok_upd:
  assumes t: "turns_ok net b S asked w" and "same_pools (wk_balancer w) b'"
  shows "turns_ok net b S asked (w\<lparr>wk_balancer := b'\<rparr>)" "turns_ok net b S asked (w\<lparr>wk_any_healthy := x, wk_balancer := b'\<rparr>)"
proof -
  have "same_pools b b'" using t assms(2) same_pools_trans unfolding turns_ok_def by blast
  then show "turns_ok net b S asked (w\<lparr>wk_balancer := b'\<rparr>)" "turns_ok net b S asked (w\<lparr>wk_any_healthy := x, wk_balancer := b'\<rparr>)"
    using t by (simp_all add: turns_ok_def)
qed

lemma walks_ok:
  assumes "turns_ok net b S asked w" "settles_once net" "set is \<subseteq> {..<length (ps_pools (bl_set b))}"
    and "\<And>i. i \<in> set is \<Longrightarrow> set (po_servers (ps_pools (bl_set b) ! i)) \<subseteq> S"
  shows "turns_ok net b S asked (walk_healthy net is w)" "turns_ok net b S asked (walk_all net is w)"
proof -
  have sub: "set (po_servers (ps_pools (bl_set (wk_balancer w)) ! i)) \<subseteq> S"
    if "turns_ok net b S asked w" "i \<in> set is" for w i
  proof -
    have "same_pools b (wk_balancer w)" "i < length (ps_pools (bl_set b))" using that assms(3) unfolding turns_ok_def by auto
    from same_pools_at(2) [OF this] show ?thesis using assms(4) [OF that(2)] by simp
  qed
  have opens: "turns_ok net b S asked (w\<lparr>wk_any_healthy := True, wk_balancer := leave_fail_open (wk_balancer w)\<rparr>)" if "turns_ok net b S asked w" for w
    by (rule turns_ok_upd(2) [OF that same_pools_refl(3)])
  have "set js \<subseteq> set is \<Longrightarrow> turns_ok net b S asked w \<Longrightarrow> turns_ok net b S asked (walk_healthy net js w)" for js w
  proof (induction js arbitrary: w)
    case (Cons j js)
    let ?b = "wk_balancer w" and ?w = "if wk_any_healthy w then w else w\<lparr>wk_any_healthy := True, wk_balancer := leave_fail_open (wk_balancer w)\<rparr>"
    let ?s = "healthy_servers ?b (ps_pools (bl_set ?b) ! j)"
    show ?case
    proof (cases "wk_result w = None \<and> ?s \<noteq> []")
      case True
      have "turns_ok net b S asked (take_turn net j ?s ?w)"
        by (rule take_turn_ok [OF _ _ assms(2)])
          (use True Cons.prems opens assms(3) sub [OF Cons.prems(2), of j] healthy_sub [of ?b "ps_pools (bl_set ?b) ! j"] in auto)
      then show ?thesis using Cons True by (simp add: Let_def)
    qed (use Cons in \<open>auto simp: Let_def\<close>)
  qed simp
  then show "turns_ok net b S asked (walk_healthy net is w)" using assms(1) by blast
  have "set js \<subseteq> set is \<Longrightarrow> turns_ok net b S asked w \<Longrightarrow> turns_ok net b S asked (walk_all net js w)" for js w
  proof (induction js arbitrary: w)
    case (Cons j js)
    let ?s = "po_servers (ps_pools (bl_set (wk_balancer w)) ! j)"
    show ?case
    proof (cases "wk_result w = None \<and> ?s \<noteq> []")
      case True
      have "turns_ok net b S asked (take_turn net j ?s w)"
        by (rule take_turn_ok [OF _ _ assms(2)]) (use True Cons.prems assms(3) sub [OF Cons.prems(2), of j] in auto)
      then show ?thesis using Cons True by (simp add: Let_def)
    qed (use Cons in \<open>auto simp: Let_def\<close>)
  qed simp
  then show "turns_ok net b S asked (walk_all net is w)" using assms(1) by blast
qed

text \<open>The pools as they were assembled; positions are in range and the default pools are the ones without domains.\<close>

definition well_built :: "(string \<Rightarrow> string + string) \<Rightarrow> (i64 \<Rightarrow> string) \<Rightarrow> 'p pool_set \<Rightarrow> bool" where
  "well_built idna show_int ps \<longleftrightarrow> build_routes idna show_int (map po_config (ps_pools ps)) = Inr (ps_routes ps) \<and>
    ps_default ps = filter (\<lambda>i. \<not> is_conditional (map po_config (ps_pools ps) ! i)) [0..<length (map po_config (ps_pools ps))]"

lemma assemble_built: "assemble idna show_int pools = Inr ps \<Longrightarrow> well_built idna show_int ps"
  by (auto simp: assemble_def well_built_def Let_def intro!: filter_cong split: sum.splits)

lemma same_built: "same_pools b b1 \<Longrightarrow> well_built idna show_int (bl_set b) \<Longrightarrow> well_built idna show_int (bl_set b1)"
  by (simp add: same_pools_def well_built_def)

definition default_servers :: "'p pool_set \<Rightarrow> 'p set" where
  "default_servers ps = (\<Union>i \<in> set (ps_default ps). set (po_servers (ps_pools ps ! i)))"

lemma query_default_attempts:
  assumes "query_default net b asked = (res, asked1, b1)" "settles_once net" "well_built idna show_int (bl_set b)"
  shows "fair_attempts net (default_servers (bl_set b)) asked asked1 (res = Inl AllUpstreamsServfail)" "same_pools b b1" "plain res"
proof -
  let ?S = "default_servers (bl_set b)" and ?is = "ps_default (bl_set b)"
  let ?start = "\<lparr>wk_result = None, wk_asked = asked, wk_balancer = b, wk_any_healthy = False, wk_any_tried = False, wk_all_servfail = True\<rparr>"
  let ?w = "walk_healthy net ?is ?start"
  define w1 where "w1 = (if wk_result ?w = None \<and> \<not> wk_any_healthy ?w \<and> bl_health b \<noteq> None
    then walk_all net ?is (?w\<lparr>wk_balancer := (wk_balancer ?w)\<lparr>bl_failing_open := True\<rparr>\<rparr>) else ?w)"
  have r: "res = (case wk_result w1 of Some res \<Rightarrow> res | None \<Rightarrow> Inl (all_servers_failed (wk_any_tried w1 \<and> wk_all_servfail w1)))"
    "asked1 = wk_asked w1" "b1 = wk_balancer w1"
    using assms(1) unfolding query_default_def Let_def w1_def by auto
  have range: "set ?is \<subseteq> {..<length (ps_pools (bl_set b))}" using assms(3) by (auto simp: well_built_def)
  have sub: "set (po_servers (ps_pools (bl_set b) ! i)) \<subseteq> ?S" if "i \<in> set ?is" for i using that by (auto simp: default_servers_def)
  have "turns_ok net b ?S asked ?start" by (simp add: turns_ok_def)
  note ok = walks_ok(1) [OF this assms(2) range sub]
  then have "turns_ok net b ?S asked (?w\<lparr>wk_balancer := (wk_balancer ?w)\<lparr>bl_failing_open := True\<rparr>\<rparr>)"
    by (rule turns_ok_upd(1) [OF _ same_pools_refl(2)])
  note ok' = walks_ok(2) [OF this assms(2) range sub]
  have fin: "turns_ok net b ?S asked w1" using ok ok' by (simp add: w1_def)
  show "same_pools b b1" using fin r(3) by (simp add: turns_ok_def)
  show "plain res" using fin unfolding r(1) turns_ok_def by (cases "wk_result w1"; cases "the (wk_result w1)") auto
  obtain new where new: "wk_asked w1 = asked @ new" "snd ` set new \<subseteq> ?S"
      "wk_result w1 = None \<and> wk_all_servfail w1 \<longrightarrow> list_all (answered_servfail net) new \<and> (wk_any_tried w1 \<longrightarrow> new \<noteq> [])"
    using fin unfolding turns_ok_def by blast
  have "wk_result w1 = None \<and> wk_any_tried w1 \<and> wk_all_servfail w1" if "res = Inl AllUpstreamsServfail"
    using that fin unfolding r(1) turns_ok_def by (cases "wk_result w1") (auto simp: all_servers_failed_def split: if_splits)
  then show "fair_attempts net ?S asked asked1 (res = Inl AllUpstreamsServfail)"
    unfolding fair_attempts_def r(2) using new by (intro exI [of _ new]) blast
qed

section \<open>Where a query goes\<close>

lemma lookup_in_range:
  assumes "well_built idna show_int ps" "lookup_route (ps_routes ps) d gr = Some (i, rt)"
  shows "i < length (ps_pools ps)"
proof -
  obtain name where name: "route_name d = Some name" using assms(2) by (auto simp: lookup_walk split: bind_splits)
  show ?thesis using lookup_longest [of idna show_int "map po_config (ps_pools ps)", OF _ name refl refl, of _ gr] assms
    by (simp add: well_built_def)
qed

lemma query_for_attempts:
  assumes q: "query_for net gr d dnssec_ok b asked = (res, asked1, b1)" and once: "settles_once net"
    and built: "well_built idna show_int (bl_set b)"
  defines "S \<equiv> \<lambda>x. case x of Some (i, rt) \<Rightarrow> set (po_servers (ps_pools (bl_set b) ! i)) | None \<Rightarrow> default_servers (bl_set b)"
  shows "fair_attempts net (S (lookup_route (ps_routes (bl_set b)) d gr)) asked asked1 (res = Inl AllUpstreamsServfail \<and> nt_message net d (asks_dnssec b gr d dnssec_ok) = None)"
    "same_pools b b1"
proof -
  let ?l = "lookup_route (ps_routes (bl_set b)) d gr" and ?m = "nt_message net d (asks_dnssec b gr d dnssec_ok)"
  have "fair_attempts net (S ?l) asked asked1 (res = Inl AllUpstreamsServfail \<and> ?m = None) \<and> same_pools b b1"
  proof (cases ?m)
    case (Some e)
    then show ?thesis using q by (simp add: query_for_def fair_attempts_def)
  next
    case None
    show ?thesis
    proof (cases ?l)
      case none: None
      then have d: "query_default net b asked = (res, asked1, b1)" using q None by (simp add: query_for_def)
      show ?thesis using query_default_attempts(1,2) [OF d once built] by (simp add: none S_def None)
    next
      case (Some x)
      obtain i rt where x: "x = (i, rt)" by fastforce
      have i: "i < length (ps_pools (bl_set b))" using lookup_in_range [OF built] Some x by blast
      obtain r a1 b2 where r: "query_routed net i b asked = (r, a1, b2)" by (metis prod.exhaust)
      have e: "a1 = asked1" "b2 = b1" "res = Inl AllUpstreamsServfail \<Longrightarrow> r = Inl AllUpstreamsServfail"
        using q None Some x r by (auto simp: query_for_def split: sum.splits)
      note a = query_routed_attempts [OF r once i, unfolded e(1,2)]
      show ?thesis using fair_mono [OF a(1) subset_refl] e(3) a(2) by (auto simp: Some x S_def)
    qed
  qed
  then show "fair_attempts net (S ?l) asked asked1 (res = Inl AllUpstreamsServfail \<and> ?m = None)" "same_pools b b1" by blast+
qed

lemma query_for_internal:
  assumes q: "query_for net gr d dnssec_ok b asked = (Inr r, asked1, b1)" and once: "settles_once net"
    and built: "well_built idna show_int (bl_set b)"
  shows "ur_internal r = (case lookup_route (ps_routes (bl_set b)) d gr of Some (_, rt) \<Rightarrow> rt_internal rt | None \<Rightarrow> False)"
proof (cases "lookup_route (ps_routes (bl_set b)) d gr")
  case None
  then have d: "query_default net b asked = (Inr r, asked1, b1)" using q by (auto simp: query_for_def split: option.splits)
  show ?thesis using query_default_attempts(3) [OF d once built] by (simp add: None)
next
  case (Some x)
  then show ?thesis using q by (auto simp: query_for_def split: option.splits prod.splits sum.splits)
qed

text \<open>
  C11. A name that a conditional pool answers is sent to the servers of that pool and to no others,
  whatever they answer and whether or not they are healthy; a name no pool claims is sent only to
  servers of pools without domains, so that no internal server learns of it. An answer is marked internal exactly when the pool of
  its route is, and the pools stay as they were assembled.
\<close>

theorem routed_name_stays:
  assumes query: "query_for net gr d dnssec_ok b [] = (res, attempts, b1)" and once: "settles_once net"
    and built: "well_built idna show_int (bl_set b)"
  shows "well_built idna show_int (bl_set b1) \<and>
    (case lookup_route (ps_routes (bl_set b)) d gr of
       Some (i, rt) \<Rightarrow> i < length (ps_pools (bl_set b)) \<and> snd ` set attempts \<subseteq> set (po_servers (ps_pools (bl_set b) ! i)) \<and>
         (\<forall>r. res = Inr r \<longrightarrow> ur_internal r = rt_internal rt)
     | None \<Rightarrow> (\<forall>p \<in> snd ` set attempts. \<exists>j < length (ps_pools (bl_set b)).
           \<not> is_conditional (po_config (ps_pools (bl_set b) ! j)) \<and> p \<in> set (po_servers (ps_pools (bl_set b) ! j))) \<and>
         (\<forall>r. res = Inr r \<longrightarrow> \<not> ur_internal r))"
proof -
  note a = query_for_attempts [OF query once built]
  have int: "ur_internal r = (case lookup_route (ps_routes (bl_set b)) d gr of Some (_, rt) \<Rightarrow> rt_internal rt | None \<Rightarrow> False)" if "res = Inr r" for r
    using query_for_internal [OF _ once built] query that by blast
  have sent: "snd ` set attempts \<subseteq> (case lookup_route (ps_routes (bl_set b)) d gr of
      Some (i, rt) \<Rightarrow> set (po_servers (ps_pools (bl_set b) ! i)) | None \<Rightarrow> default_servers (bl_set b))"
    using a(1) unfolding fair_attempts_def by auto
  show ?thesis
  proof (cases "lookup_route (ps_routes (bl_set b)) d gr")
    case None
    have "\<exists>j < length (ps_pools (bl_set b)). \<not> is_conditional (po_config (ps_pools (bl_set b) ! j)) \<and> p \<in> set (po_servers (ps_pools (bl_set b) ! j))"
      if p: "p \<in> snd ` set attempts" for p
    proof -
      obtain j where "j \<in> set (ps_default (bl_set b))" "p \<in> set (po_servers (ps_pools (bl_set b) ! j))"
        using sent p by (auto simp: None default_servers_def)
      then show ?thesis using built by (auto simp: well_built_def)
    qed
    then show ?thesis using int same_built [OF a(2) built] by (simp add: None)
  next
    case (Some x)
    then show ?thesis using int same_built [OF a(2) built] sent lookup_in_range [OF built] by (cases x) simp
  qed
qed

text \<open>
  C12. A query fails as answered by SERVFAIL only when at least one server was asked and every server
  asked answered SERVFAIL; a timeout, a refused connection or another code next to it is reported as
  servers that cannot be reached. This holds for the three strategies, for one pool and for the walk over several, whatever
  the order in which the servers of a race settle.
\<close>

theorem servfail_only_from_all:
  assumes query: "query_for net gr d dnssec_ok b [] = (Inl AllUpstreamsServfail, attempts, b1)" and once: "settles_once net"
    and built: "well_built idna show_int (bl_set b)" and message: "nt_message net d (asks_dnssec b gr d dnssec_ok) = None"
  shows "attempts \<noteq> [] \<and> list_all (answered_servfail net) attempts"
  using query_for_attempts(1) [OF query once built] message unfolding fair_attempts_def by auto

section \<open>Failing open\<close>

text \<open>
  The reference: choose the pools and servers first (the healthy ones, or all of them when the
  checker marks none healthy), then walk over them once.
\<close>

definition healthy_turns :: "'p balancer \<Rightarrow> (nat \<times> 'p list) list" where
  "healthy_turns b = filter (\<lambda>(i, servers). servers \<noteq> []) (map (\<lambda>i. (i, healthy_servers b (ps_pools (bl_set b) ! i))) (ps_default (bl_set b)))"

definition all_turns :: "'p balancer \<Rightarrow> (nat \<times> 'p list) list" where
  "all_turns b = filter (\<lambda>(i, servers). servers \<noteq> []) (map (\<lambda>i. (i, po_servers (ps_pools (bl_set b) ! i))) (ps_default (bl_set b)))"

definition chosen_turns :: "'p balancer \<Rightarrow> (nat \<times> 'p list) list" where
  "chosen_turns b = (if healthy_turns b \<noteq> [] \<or> bl_health b = None then healthy_turns b else all_turns b)"

fun walk_turns :: "('p, 'b) net \<Rightarrow> (nat \<times> 'p list) list \<Rightarrow> ('p, 'b) walk \<Rightarrow> ('p, 'b) walk" where
  "walk_turns net [] w = w"
| "walk_turns net ((i, servers) # ts) w = (if wk_result w \<noteq> None then w else walk_turns net ts (take_turn net i servers w))"

definition start_walk :: "'p balancer \<Rightarrow> 'p attempts \<Rightarrow> ('p, 'b) walk" where
  "start_walk b asked = \<lparr>wk_result = None, wk_asked = asked, wk_balancer = b, wk_any_healthy = False, wk_any_tried = False, wk_all_servfail = True\<rparr>"

lemma start_walk_simps: "wk_result (start_walk b asked) = None" "wk_any_healthy (start_walk b asked) = False" "wk_balancer (start_walk b asked) = b"
  by (simp_all add: start_walk_def)

text \<open>What a turn reads and writes.\<close>

definition core :: "('p, 'b) walk \<Rightarrow> ('p, 'b) walk" where
  "core w = w\<lparr>wk_any_healthy := False, wk_balancer := (wk_balancer w)\<lparr>bl_failing_open := False\<rparr>\<rparr>"

lemma core_simps [simp]: "core (w\<lparr>wk_any_healthy := x\<rparr>) = core w" "core (w\<lparr>wk_balancer := (wk_balancer w)\<lparr>bl_failing_open := y\<rparr>\<rparr>) = core w"
    "core (w\<lparr>wk_any_healthy := x, wk_balancer := leave_fail_open (wk_balancer w)\<rparr>) = core w"
    "wk_result (core w) = wk_result w" "wk_asked (core w) = wk_asked w" "wk_any_tried (core w) = wk_any_tried w" "wk_all_servfail (core w) = wk_all_servfail w"
    "core (core w) = core w"
  by (simp_all add: core_def leave_fail_open_def)

lemma take_turn_core: "core (take_turn net i servers w) = take_turn net i servers (core w)"
proof -
  obtain r a p where q: "query_refs net (ps_pools (bl_set (wk_balancer w)) ! i) servers (wk_asked w) = (r, a, p)" by (metis prod.exhaust)
  show ?thesis
    by (cases "pool_outcome r"; cases "projl (pool_outcome r)") (simp_all add: take_turn_def query_pool_def core_def q)
qed

lemma take_turn_flags: "wk_any_healthy (take_turn net i servers w) = wk_any_healthy w"
    "bl_failing_open (wk_balancer (take_turn net i servers w)) = bl_failing_open (wk_balancer w)"
proof -
  obtain r a p where q: "query_refs net (ps_pools (bl_set (wk_balancer w)) ! i) servers (wk_asked w) = (r, a, p)" by (metis prod.exhaust)
  show "wk_any_healthy (take_turn net i servers w) = wk_any_healthy w"
    "bl_failing_open (wk_balancer (take_turn net i servers w)) = bl_failing_open (wk_balancer w)"
    by (cases "pool_outcome r"; cases "projl (pool_outcome r)"; simp add: take_turn_def query_pool_def q)+
qed

lemma walk_turns_done: "wk_result w \<noteq> None \<Longrightarrow> walk_turns net ts w = w"
  by (cases ts) auto

definition turns_of :: "('i \<Rightarrow> 'p list) \<Rightarrow> 'i list \<Rightarrow> ('i \<times> 'p list) list" where
  "turns_of f is = filter (\<lambda>(i, servers). servers \<noteq> []) (map (\<lambda>i. (i, f i)) is)"

lemma turns_of_Cons: "turns_of f (i # is) = (if f i = [] then turns_of f is else (i, f i) # turns_of f is)"
  by (simp add: turns_of_def)

lemma walk_healthy_turns:
  assumes once: "settles_once net" and "set is \<subseteq> {..<length (ps_pools (bl_set b))}" "turns_ok net b UNIV asked w"
  shows "core (walk_healthy net is w) = walk_turns net (turns_of (\<lambda>i. healthy_servers b (ps_pools (bl_set b) ! i)) is) (core w) \<and>
    (wk_any_healthy w \<longrightarrow> wk_any_healthy (walk_healthy net is w) \<and> bl_failing_open (wk_balancer (walk_healthy net is w)) = bl_failing_open (wk_balancer w)) \<and>
    (wk_result w = None \<and> \<not> wk_any_healthy w \<longrightarrow>
      (wk_any_healthy (walk_healthy net is w) \<longleftrightarrow> turns_of (\<lambda>i. healthy_servers b (ps_pools (bl_set b) ! i)) is \<noteq> []) \<and>
      (bl_failing_open (wk_balancer (walk_healthy net is w)) \<longleftrightarrow>
        bl_failing_open (wk_balancer w) \<and> turns_of (\<lambda>i. healthy_servers b (ps_pools (bl_set b) ! i)) is = []))"
  using assms(2,3)
proof (induction "is" arbitrary: w)
  case (Cons j js)
  let ?f = "\<lambda>i. healthy_servers b (ps_pools (bl_set b) ! i)"
  have same: "same_pools b (wk_balancer w)" using Cons.prems(2) by (simp add: turns_ok_def)
  have f: "healthy_servers (wk_balancer w) (ps_pools (bl_set (wk_balancer w)) ! j) = ?f j"
    using same_pools_at(3) [OF same, of j] Cons.prems(1) by simp
  show ?case
  proof (cases "wk_result w = None")
    case False
    then have stop: "walk_healthy net (j # js) w = w" by simp
    show ?thesis unfolding stop using False walk_turns_done [of "core w"] by auto
  next
    case True
    show ?thesis
    proof (cases "?f j = []")
      case empty: True
      have skip: "walk_healthy net (j # js) w = walk_healthy net js w" using True f empty by simp
      show ?thesis unfolding skip using Cons.IH [of w] Cons.prems by (simp add: turns_of_Cons empty)
    next
      case False
      define w1 where "w1 = (if wk_any_healthy w then w else w\<lparr>wk_any_healthy := True, wk_balancer := leave_fail_open (wk_balancer w)\<rparr>)"
      define w2 where "w2 = take_turn net j (?f j) w1"
      have walk: "walk_healthy net (j # js) w = walk_healthy net js w2" using True f False by (simp add: w1_def w2_def Let_def)
      have ok1: "turns_ok net b UNIV asked w1" "wk_result w1 = None"
        using Cons.prems(2) True turns_ok_upd(2) [OF Cons.prems(2) same_pools_refl(3)] by (simp_all add: w1_def)
      have ok2: "turns_ok net b UNIV asked w2" unfolding w2_def
        by (rule take_turn_ok [OF ok1 once]) (use Cons.prems(1) in auto)
      have c: "core w2 = take_turn net j (?f j) (core w)" unfolding w2_def take_turn_core by (simp add: w1_def)
      have flags: "wk_any_healthy w2" "bl_failing_open (wk_balancer w2) \<longleftrightarrow> wk_any_healthy w \<and> bl_failing_open (wk_balancer w)"
        by (simp_all add: w2_def take_turn_flags w1_def leave_fail_open_def)
      show ?thesis unfolding walk
        using Cons.IH [OF _ ok2] Cons.prems(1) flags by (simp add: turns_of_Cons False c True)
    qed
  qed
qed (simp add: turns_of_def)

lemma walk_all_turns:
  assumes once: "settles_once net" and "set is \<subseteq> {..<length (ps_pools (bl_set b))}" "turns_ok net b UNIV asked w"
  shows "core (walk_all net is w) = walk_turns net (turns_of (\<lambda>i. po_servers (ps_pools (bl_set b) ! i)) is) (core w) \<and>
    bl_failing_open (wk_balancer (walk_all net is w)) = bl_failing_open (wk_balancer w)"
  using assms(2,3)
proof (induction "is" arbitrary: w)
  case (Cons j js)
  let ?f = "\<lambda>i. po_servers (ps_pools (bl_set b) ! i)"
  have same: "same_pools b (wk_balancer w)" using Cons.prems(2) by (simp add: turns_ok_def)
  have f: "po_servers (ps_pools (bl_set (wk_balancer w)) ! j) = ?f j" using same_pools_at(2) [OF same, of j] Cons.prems(1) by simp
  show ?case
  proof (cases "wk_result w = None \<and> ?f j \<noteq> []")
    case True
    have ok: "turns_ok net b UNIV asked (take_turn net j (?f j) w)"
      by (rule take_turn_ok [OF Cons.prems(2) _ once]) (use Cons.prems(1) True in auto)
    show ?thesis using Cons.IH [OF _ ok] Cons.prems(1) True by (simp add: f turns_of_Cons take_turn_core take_turn_flags)
  next
    case False
    then show ?thesis using Cons walk_turns_done [of "core w"] by (auto simp: f turns_of_Cons)
  qed
qed (simp add: turns_of_def)

lemma turns_eq:
  "healthy_turns b = turns_of (\<lambda>i. healthy_servers b (ps_pools (bl_set b) ! i)) (ps_default (bl_set b))"
  "all_turns b = turns_of (\<lambda>i. po_servers (ps_pools (bl_set b) ! i)) (ps_default (bl_set b))"
  by (simp_all add: healthy_turns_def all_turns_def turns_of_def)

text \<open>
  C26. The two loops over the default pools are one: a query asks the healthy servers of the pools in
  order of priority, or, when the checker marks no server of any of them healthy, all servers, and ends
  with the first answer or error that no other pool could better. The walk fails open exactly when no server is
  marked healthy, and the flag that logs it once says so.
\<close>

theorem default_walk_fails_open:
  assumes query: "query_default net b asked = (res, asked1, b1)" and once: "settles_once net"
    and built: "well_built idna show_int (bl_set b)"
    and reference: "w = walk_turns net (chosen_turns b) (start_walk (b\<lparr>bl_failing_open := False\<rparr>) asked)"
  shows "res = (case wk_result w of Some res \<Rightarrow> res | None \<Rightarrow> Inl (all_servers_failed (wk_any_tried w \<and> wk_all_servfail w))) \<and>
    asked1 = wk_asked w \<and>
    bl_failing_open b1 = (if healthy_turns b \<noteq> [] then False else bl_health b \<noteq> None \<or> bl_failing_open b)"
proof -
  let ?is = "ps_default (bl_set b)"
  define v where "v = walk_healthy net ?is (start_walk b asked)"
  define v1 where "v1 = (if wk_result v = None \<and> \<not> wk_any_healthy v \<and> bl_health b \<noteq> None
    then walk_all net ?is (v\<lparr>wk_balancer := (wk_balancer v)\<lparr>bl_failing_open := True\<rparr>\<rparr>) else v)"
  have r: "res = (case wk_result v1 of Some res \<Rightarrow> res | None \<Rightarrow> Inl (all_servers_failed (wk_any_tried v1 \<and> wk_all_servfail v1)))"
    "asked1 = wk_asked v1" "b1 = wk_balancer v1"
    using query unfolding query_default_def Let_def v1_def v_def start_walk_def by auto
  have range: "set ?is \<subseteq> {..<length (ps_pools (bl_set b))}" using built by (auto simp: well_built_def)
  have ok: "turns_ok net b UNIV asked (start_walk b asked)" by (simp add: turns_ok_def start_walk_def)
  have c0: "core (start_walk b asked) = start_walk (b\<lparr>bl_failing_open := False\<rparr>) asked" by (simp add: core_def start_walk_def)
  note h = walk_healthy_turns [OF once range ok, folded v_def turns_eq(1), unfolded c0 start_walk_simps, simplified]
  have fin: "core v1 = w \<and> bl_failing_open (wk_balancer v1) = (if healthy_turns b \<noteq> [] then False else bl_health b \<noteq> None \<or> bl_failing_open b)"
  proof (cases "healthy_turns b = [] \<and> bl_health b \<noteq> None")
    case False
    then have "v1 = v" "chosen_turns b = healthy_turns b" using h by (auto simp: v1_def chosen_turns_def)
    then show ?thesis using h False by (auto simp: reference)
  next
    case True
    have cv: "core v = start_walk (b\<lparr>bl_failing_open := False\<rparr>) asked" "\<not> wk_any_healthy v" using h True by auto
    then have vr: "wk_result v = None" using core_simps(4) [of v] by (simp add: start_walk_simps)
    have okv: "turns_ok net b UNIV asked v" unfolding v_def by (rule walks_ok(1) [OF ok once range]) simp
    note a = walk_all_turns [OF once range turns_ok_upd(1) [OF okv same_pools_refl(2) [of _ True]], folded turns_eq(2)]
    have "v1 = walk_all net ?is (v\<lparr>wk_balancer := (wk_balancer v)\<lparr>bl_failing_open := True\<rparr>\<rparr>)" using vr cv(2) True by (simp add: v1_def)
    then show ?thesis using a True by (auto simp: reference chosen_turns_def cv(1))
  qed
  have f: "wk_result v1 = wk_result w" "wk_asked v1 = wk_asked w" "wk_any_tried v1 = wk_any_tried w" "wk_all_servfail v1 = wk_all_servfail w"
    using fin core_simps(4-7) [of v1] by auto
  show ?thesis unfolding r f using fin by simp
qed

section \<open>Rotation\<close>

text \<open>A run of checks of several servers; a server's own results, the last one first.\<close>

definition observe :: "(u64 \<Rightarrow> string) \<Rightarrow> u64 \<Rightarrow> ('p \<times> u64 \<times> probe_result) list \<Rightarrow> 'p health_checker \<Rightarrow> 'p health_checker" where
  "observe show_num timeout_ms = fold (\<lambda>(p, latency, r). check_server p show_num timeout_ms latency r)"

definition results_of :: "'p \<Rightarrow> ('p \<times> u64 \<times> probe_result) list \<Rightarrow> bool list" where
  "results_of p checks = rev (map (\<lambda>(_, _, r). r = Answered_ok) (filter (\<lambda>(q, _). q = p) checks))"

fun status_from :: "nat \<Rightarrow> nat \<Rightarrow> bool list \<Rightarrow> server_status" where
  "status_from f s [] = Unknown"
| "status_from f s (True # older) = (if s \<le> length (takeWhile (\<lambda>x. x) older) + 1 then Healthy else status_from f s older)"
| "status_from f s (False # older) = (if f \<le> length (takeWhile Not older) + 1 then Unhealthy else status_from f s older)"

lemma unat_saturating: "unat (saturating_inc n) = min (unat n + 1) 65535"
proof (cases "n = - 1")
  case True
  have "unat (- 1 :: u16) = 65535" by (simp add: unsigned_minus_1_eq_mask mask_eq_exp_minus_1)
  then show ?thesis by (simp add: saturating_inc_def True)
next
  case False
  then have "1 + n \<noteq> 0" by (metis add.inverse_inverse add_eq_0_iff)
  then have "unat (n + 1) = unat n + 1" using unatSuc [of n] by (simp add: add.commute)
  moreover have "unat (n + 1) \<le> 65535" using unsigned_less [of "n + 1", where 'a = nat] by simp
  ultimately show ?thesis using False by (simp add: saturating_inc_def)
qed

lemma unat_threshold: "unat (ucast (t :: u8) :: u16) = unat t" "unat (t :: u8) < 256"
proof -
  show small: "unat t < 256" using unsigned_less [of t, where 'a = nat] by simp
  show "unat (ucast t :: u16) = unat t" using order_less_trans [OF small, of 65536] by (simp add: unsigned_ucast_eq take_bit_nat_eq_self_iff)
qed

lemma threshold_reached:
  assumes "unat (n :: u16) = min k 65535"
  shows "ucast (t :: u8) \<le> saturating_inc n \<longleftrightarrow> unat t \<le> k + 1"
proof -
  have "ucast t \<le> saturating_inc n \<longleftrightarrow> unat t \<le> min (min k 65535 + 1) 65535"
    unfolding word_le_nat_alt unat_saturating unat_threshold(1) assms ..
  also have "\<dots> \<longleftrightarrow> unat t \<le> k + 1" using unat_threshold(2) [of t] by arith
  finally show ?thesis .
qed

lemma observe_counts:
  assumes "hc = observe show_num timeout_ms checks (new_checker f s)"
  shows "hc_failure_threshold hc = f \<and> hc_success_threshold hc = s \<and>
    unat (sh_failures (health_of hc p)) = min (length (takeWhile Not (results_of p checks))) 65535 \<and>
    unat (sh_successes (health_of hc p)) = min (length (takeWhile (\<lambda>x. x) (results_of p checks))) 65535 \<and>
    sh_status (health_of hc p) = status_from (unat f) (unat s) (results_of p checks)"
  using assms
proof (induction checks arbitrary: hc rule: rev_induct)
  case Nil
  then show ?case by (simp add: observe_def new_checker_def health_of_def new_health_def results_of_def)
next
  case (snoc c checks)
  obtain q lat r where c: "c = (q, lat, r)" by (metis prod.exhaust)
  define h where "h = observe show_num timeout_ms checks (new_checker f s)"
  note ih = snoc.IH [OF h_def]
  have hc: "hc = check_server q show_num timeout_ms lat r h" using snoc.prems by (simp add: observe_def h_def c)
  show ?case
  proof (cases "q = p")
    case False
    have "health_of hc p = health_of h p" "hc_failure_threshold hc = hc_failure_threshold h" "hc_success_threshold hc = hc_success_threshold h"
      using False by (cases r; simp add: hc mark_failed_def mark_healthy_def health_of_def Let_def)+
    moreover have "results_of p (checks @ [c]) = results_of p checks" using False by (simp add: results_of_def c)
    ultimately show ?thesis using ih by simp
  next
    case True
    have res: "results_of p (checks @ [c]) = (r = Answered_ok) # results_of p checks" using True by (simp add: results_of_def c)
    show ?thesis
    proof (cases "r = Answered_ok")
      case ok: True
      have "ucast s \<le> saturating_inc (sh_successes (health_of h p)) \<longleftrightarrow> unat s \<le> length (takeWhile (\<lambda>x. x) (results_of p checks)) + 1"
        by (rule threshold_reached) (use ih in simp)
      then show ?thesis using ih True ok unfolding res
        by (simp add: hc mark_healthy_def Let_def health_of_def [of "hc_map_update _ _"] unat_saturating)
    next
      case bad: False
      have "ucast f \<le> saturating_inc (sh_failures (health_of h p)) \<longleftrightarrow> unat f \<le> length (takeWhile Not (results_of p checks)) + 1"
        by (rule threshold_reached) (use ih in simp)
      moreover obtain l e where "hc = mark_failed p l e h" using bad True by (cases r) (auto simp: hc)
      ultimately show ?thesis using ih bad unfolding res
        by (simp add: mark_failed_def Let_def health_of_def [of "hc_map_update _ _"] unat_saturating)
    qed
  qed
qed

lemma eq_bool_fun: "(=) True = (\<lambda>x. x)" "(=) False = Not"
  by auto

lemma prefix_replicate: "prefix (replicate n v) xs \<longleftrightarrow> n \<le> length (takeWhile ((=) v) xs)"
proof (induction n arbitrary: xs)
  case (Suc n)
  then show ?case by (cases xs) auto
qed simp

text \<open>The last run of results that decides: \<open>n\<close> results of one kind, and since then never \<open>m\<close> in a row of the other.\<close>

definition decided :: "nat \<Rightarrow> bool \<Rightarrow> nat \<Rightarrow> bool list \<Rightarrow> bool" where
  "decided n v m results \<longleftrightarrow> (\<exists>newer older. results = newer @ replicate n v @ older \<and> \<not> sublist (replicate m (\<not> v)) newer)"

lemma decided_Cons:
  assumes "0 < n" "0 < m"
  shows "decided n v m (x # rs) \<longleftrightarrow>
    (if x = v then n \<le> length (takeWhile ((=) v) rs) + 1 \<or> decided n v m rs
     else \<not> m \<le> length (takeWhile ((=) (\<not> v)) rs) + 1 \<and> decided n v m rs)"
proof -
  have split: "decided n v m (x # rs) \<longleftrightarrow> prefix (replicate n v) (x # rs) \<or>
      (\<exists>newer older. rs = newer @ replicate n v @ older \<and> \<not> sublist (replicate m (\<not> v)) (x # newer))"
    (is "?l \<longleftrightarrow> ?p \<or> ?r")
  proof
    assume ?l
    then obtain newer older where d: "x # rs = newer @ replicate n v @ older" "\<not> sublist (replicate m (\<not> v)) newer" by (auto simp: decided_def)
    show "?p \<or> ?r" using d by (cases newer) (auto simp: prefix_def)
  next
    assume "?p \<or> ?r"
    then show ?l
    proof
      assume ?p
      then obtain older where "x # rs = [] @ replicate n v @ older" by (auto simp: prefix_def)
      then show ?l unfolding decided_def using assms(2) by (intro exI conjI) auto
    next
      assume ?r
      then obtain newer older where "x # rs = (x # newer) @ replicate n v @ older" "\<not> sublist (replicate m (\<not> v)) (x # newer)" by auto
      then show ?l unfolding decided_def by blast
    qed
  qed
  have run: "takeWhile ((=) (\<not> v)) (newer @ replicate n v @ older) = takeWhile ((=) (\<not> v)) newer" for newer older
  proof (induction newer)
    case Nil
    then show ?case using assms(1) by (cases n) simp_all
  qed auto
  show ?thesis
  proof (cases "x = v")
    case True
    have "sublist (replicate m (\<not> v)) (x # newer) \<longleftrightarrow> sublist (replicate m (\<not> v)) newer" for newer
      using assms(2) True by (cases m) (simp_all add: sublist_Cons_right)
    then show ?thesis unfolding split by (simp add: True prefix_replicate decided_def)
  next
    case False
    then have x: "x = (\<not> v)" by simp
    have "\<not> prefix (replicate n v) (x # rs)" using assms(1) False by (cases n) simp_all
    moreover have "sublist (replicate m (\<not> v)) (x # newer) \<longleftrightarrow>
        m \<le> length (takeWhile ((=) (\<not> v)) newer) + 1 \<or> sublist (replicate m (\<not> v)) newer" for newer
      by (simp add: sublist_Cons_right prefix_replicate x)
    ultimately show ?thesis unfolding split using False run by (auto simp: decided_def)
  qed
qed

lemma status_decided:
  "status_from f s rs = Unhealthy \<longleftrightarrow> decided (max 1 f) False (max 1 s) rs"
  "status_from f s rs = Healthy \<longleftrightarrow> decided (max 1 s) True (max 1 f) rs"
proof (induction f s rs rule: status_from.induct)
  case (1 f s)
  { case 1 show ?case by (simp add: decided_def) next case 2 show ?case by (simp add: decided_def) }
qed (simp_all add: decided_Cons eq_bool_fun)

lemma health_reads: "is_healthy h p \<longleftrightarrow> sh_status (health_of h p) \<noteq> Unhealthy" "get_status h p = sh_status (health_of h p)"
  by (simp_all add: is_healthy_def get_status_def health_of_def new_health_def split: option.split)

text \<open>
  C27. A server is out of rotation exactly when the last run that decides is one of failures: as many
  failed checks in a row as the failure threshold, and since then never as many good ones in a row as
  the success threshold. It is reported healthy exactly in the mirrored case and unknown when neither holds; a server never checked
  is in rotation. This holds after any number of checks, past the point where the 16-bit counters
  saturate, whatever was found about other servers, and a threshold of zero acts as one.
\<close>

theorem rotation_exact:
  "(is_healthy (observe show_num timeout_ms checks (new_checker f s)) p \<longleftrightarrow>
      \<not> decided (max 1 (unat f)) False (max 1 (unat s)) (results_of p checks)) \<and>
    get_status (observe show_num timeout_ms checks (new_checker f s)) p =
      (if decided (max 1 (unat f)) False (max 1 (unat s)) (results_of p checks) then Unhealthy
       else if decided (max 1 (unat s)) True (max 1 (unat f)) (results_of p checks) then Healthy else Unknown)"
proof -
  have "sh_status (health_of (observe show_num timeout_ms checks (new_checker f s)) p) = status_from (unat f) (unat s) (results_of p checks)"
    by (rule observe_counts [OF refl, THEN conjunct2, THEN conjunct2, THEN conjunct2, THEN conjunct2])
  then show ?thesis unfolding health_reads
    using status_decided [of "unat f" "unat s" "results_of p checks"] by (cases "status_from (unat f) (unat s) (results_of p checks)") auto
qed

section \<open>Three pools and a network\<close>

definition demo_net :: "domain_error + bool reply \<times> bool \<Rightarrow> (nat, bool) net" where
  "demo_net r = \<lparr>nt_message = (\<lambda>_ _. None), nt_exchange = (\<lambda>_ _. r), nt_settle = (\<lambda>_ ps. ps), nt_display = (\<lambda>_. []), nt_count = (\<lambda>_. [])\<rparr>"

definition demo_server :: "'p \<Rightarrow> 'p server_group" where
  "demo_server p = \<lparr>sg_original = ''10.0.0.1'', sg_protocols = [p], sg_resolution = Literal\<rparr>"

definition demo_set :: "nat pool_set" where
  "demo_set = \<lparr>ps_pools = [\<lparr>po_config = demo_main, po_next = 0, po_servers = [1, 2], po_groups = [demo_server 1, demo_server 2], po_zone = None\<rparr>],
    ps_routes = \<lparr>by_domain = Map.empty, pr_internal = [False], has_group_routes = False, signature = []\<rparr>, ps_default = [0]\<rparr>"

lemma demo_settles: "settles_once (demo_net r)"
  by (simp add: settles_once_def demo_net_def)

lemma demo_set_assembled: "assemble no_idna s [(demo_main, [demo_server 1, demo_server 2])] = Inr demo_set"
  by (simp add: assemble_def demo_set_def build_routes_def demo_groups demo_domains Let_def is_conditional_def) (simp add: demo_pool_def demo_server_def)

theorem routed_name_stays_witness:
  "\<exists>ps res attempts b1. assemble no_idna (\<lambda>_. []) [(demo_main, [demo_server 1]), (demo_office, [demo_server 2]), (demo_lab, [demo_server 3])] = Inr ps \<and>
    query_for (demo_net (Inl (IoError []))) (Some 7) ''pc.lab.corp.lan'' True \<lparr>bl_set = ps, bl_health = None, bl_failing_open = False\<rparr> [] = (res, attempts, b1) \<and>
    well_built no_idna (\<lambda>_. []) (bl_set b1)"
proof -
  obtain r where r: "build_routes no_idna (\<lambda>_. []) [demo_main, demo_office, demo_lab] = Inr r" using demo_built by blast
  let ?pools = "[(demo_main, [demo_server (1 :: nat)]), (demo_office, [demo_server 2]), (demo_lab, [demo_server 3])]"
  have "up_priority demo_main = 1" "up_priority demo_office = 1" "up_priority demo_lab = 1" by (simp_all add: demo_pool_def)
  then obtain ps where ps: "assemble no_idna (\<lambda>_. []) ?pools = Inr ps"
    using r by (auto simp: assemble_def demo_domains Let_def)
  let ?b = "\<lparr>bl_set = ps, bl_health = None, bl_failing_open = False\<rparr>" and ?net = "demo_net (Inl (IoError []))"
  obtain res attempts b1 where q: "query_for ?net (Some 7) ''pc.lab.corp.lan'' True ?b [] = (res, attempts, b1)" by (metis prod.exhaust)
  have built: "well_built no_idna (\<lambda>_. []) (bl_set ?b)" using assemble_built [OF ps] by simp
  show ?thesis using routed_name_stays [OF q demo_settles built] ps q by blast
qed

theorem servfail_only_from_all_witness:
  "\<exists>attempts b1. query_for (demo_net (Inl AllUpstreamsServfail)) None ''a.b'' False \<lparr>bl_set = demo_set, bl_health = None, bl_failing_open = False\<rparr> [] =
      (Inl AllUpstreamsServfail, attempts, b1) \<and> attempts \<noteq> [] \<and> list_all (answered_servfail (demo_net (Inl AllUpstreamsServfail))) attempts"
proof -
  let ?b = "\<lparr>bl_set = demo_set, bl_health = None, bl_failing_open = False\<rparr>" and ?net = "demo_net (Inl AllUpstreamsServfail)"
  have "lookup_route (ps_routes demo_set) ''a.b'' None = None" by (simp add: lookup_route_def demo_set_def)
  moreover have "fst (query_default ?net ?b []) = Inl AllUpstreamsServfail" by code_simp
  ultimately have "fst (query_for ?net None ''a.b'' False ?b []) = Inl AllUpstreamsServfail" by (simp add: query_for_def demo_net_def)
  then obtain attempts b1 where q: "query_for ?net None ''a.b'' False ?b [] = (Inl AllUpstreamsServfail, attempts, b1)" by (metis fst_conv prod.exhaust)
  have built: "well_built no_idna (\<lambda>_. []) (bl_set ?b)" using assemble_built [OF demo_set_assembled] by simp
  have "nt_message ?net ''a.b'' (asks_dnssec ?b None ''a.b'' False) = None" by (simp add: demo_net_def)
  from servfail_only_from_all [OF q demo_settles built this] show ?thesis using q by blast
qed

theorem default_walk_fails_open_witness:
  "\<exists>res attempts b1. query_default (demo_net (Inl (IoError []))) \<lparr>bl_set = demo_set,
      bl_health = Some (mark_failed 1 None [] (mark_failed 2 None [] (new_checker 1 1))), bl_failing_open = False\<rparr> [] = (res, attempts, b1) \<and> bl_failing_open b1"
proof -
  let ?h = "mark_failed 1 None [] (mark_failed 2 None [] (new_checker 1 1))"
  let ?b = "\<lparr>bl_set = demo_set, bl_health = Some ?h, bl_failing_open = False\<rparr>" and ?net = "demo_net (Inl (IoError []))"
  obtain res attempts b1 where q: "query_default ?net ?b [] = (res, attempts, b1)" by (metis prod.exhaust)
  have built: "well_built no_idna (\<lambda>_. []) (bl_set ?b)" using assemble_built [OF demo_set_assembled] by simp
  have "healthy_turns ?b = []"
    by (simp add: healthy_turns_def demo_set_def healthy_servers_def is_healthy_def mark_failed_def Let_def new_checker_def
        health_of_def new_health_def saturating_inc_def)
  with default_walk_fails_open [OF q demo_settles built refl] show ?thesis using q by auto
qed

end
