(* ===== verification/Spec2Isabelle.thy ===== *)
theory Spec2Isabelle
  imports Rate_Limiter Wire_Relay Proxy_Protocol Filter_Engine Worker_Live Query_Safety Local_Live Load_Balancer
begin

text \<open>
  Ferrous DNS is a recursive-forwarding DNS server that blocks names by rules, caches answers and
  relays the rest to upstream servers. This library models the parts of it that decide what a
  client is told, as executable definitions translated from the Rust sources under
  \<open>src/crates\<close>, and proves what those parts promise. Paths below are relative to that directory;
  \<open>dns/\<close> stands for \<open>infrastructure/src/dns/\<close>.

  \<^bold>\<open>The program.\<close> A packet arrives at a server (sockets, not modelled), perhaps behind a PROXY
  header. The fast-path parser turns a plain query into name, type and EDNS fields. The use case
  \<open>HandleDnsQueryUseCase\<close> charges the client's rate limit, checks its cookie, resolves its group,
  asks the filter engine for a verdict, screens the name, looks in the cache and otherwise takes an
  upstream slot and asks the resolver. The resolver's cache layer lets one of several equal queries
  lead and the others follow. What comes back passes the guards on answers and is stored; encoders
  and the relay write the reply. Beside the queries a worker renews and drops cache entries, a
  reload recompiles the rules, and the administration edits local records while the server runs.

  \<^bold>\<open>Theories.\<close> In the order they build on each other:

  \<^item> \<open>Prelude\<close>: machine integers, byte and option helpers, the outcome type \<open>res\<close>, lemma collections.
  \<^item> \<open>Text\<close>, \<open>Ip_Addr\<close>: what the code uses of Rust's \<open>str\<close>, \<open>char\<close> and \<open>std::net\<close>.
  \<^item> \<open>Domain_Types\<close>: record types, block sources, transports, errors (\<open>domain/src\<close>).
  \<^item> \<open>Ede\<close>: the extended error of a reply (\<open>dns/ede.rs\<close>, \<open>domain\<close>).
  \<^item> \<open>Wire_Name\<close>, \<open>Fast_Path\<close>: names, records and the fast-path parser (\<open>dns/fast_path.rs\<close>).
    No packet makes it read out of bounds, and what it accepts is what the packet says.
  \<^item> \<open>Wire_Response\<close>, \<open>Wire_Relay\<close>: the encoders, the relay of upstream bytes and the form the cache
    keeps them in (\<open>dns/wire_response.rs\<close>). The allocation-free encoder equals the general one, a
    response decodes to what was encoded, relaying never panics, counted-down TTLs have exact values.
  \<^item> \<open>Proxy_Protocol\<close>: the version 2 header (\<open>cli/src/server\<close>), with its errors.
  \<^item> \<open>Token_Bucket\<close>, \<open>Client_Subnet\<close>, \<open>Rate_Limiter\<close>: the limiter (\<open>dns/rate_limiter\<close>). The bucket is
    first a sequential operation, then the compare-exchange protocol of the code under every
    interleaving; the bound on admissions holds per bucket and per subnet.
  \<^item> \<open>Bloom\<close>, \<open>Suffix_Trie\<close>, \<open>Block_Index\<close>, \<open>List_Parser\<close>, \<open>Block_Compiler\<close>, \<open>Block_Rules\<close>:
    rules from database and downloads to the published index (\<open>dns/block_filter\<close>).
    \<open>Block_Rules\<close> is the specification, the rules in their order of precedence; the compiled
    index refines it.
  \<^item> \<open>Decision_Cache\<close>, \<open>Filter_Engine\<close>: the two levels of cached verdicts, groups, toggles, schedules and
    reloads (\<open>block_filter/decision_cache.rs\<close>, \<open>engine.rs\<close>), as a state machine.
  \<^item> \<open>Cache_Record\<close>, \<open>Dns_Cache\<close>, \<open>Cache_Refresh\<close>: the answer cache (\<open>dns/cache\<close>): keys, records,
    thread-local level, Bloom gate, negative entries, eviction, renewal, local records.
    \<open>Cache_Safety\<close> has its invariant, \<open>Cache_Reach\<close> the state machine and its properties.
  \<^item> \<open>Refresh_Schedule\<close>, \<open>Cache_Worker\<close>, \<open>Worker_Live\<close>: the timers of \<open>cache/schedule.rs\<close> and the
    maintenance worker of \<open>dns/cache_maintenance.rs\<close>; dead entries leave, sweeps end.
  \<^item> \<open>Query_Guards\<close>, \<open>Query_Pipeline\<close>, \<open>Query_Safety\<close>: the use case of
    \<open>application/src/use_cases/dns\<close> with its guards, and what it guarantees: blocked names reach
    neither cache nor upstream, answers are guarded, every query is accounted for, and the fast
    path agrees with the slow way.
  \<^item> \<open>Cache_Layer\<close>: the resolver's cache layer (\<open>dns/resolver/cache_layer.rs\<close>): what is stored is
    read back, followers share the leader's answer and none is stranded.
  \<^item> \<open>Local_Records\<close>, \<open>Local_Live\<close>: local records, their wildcard index and reverse map, and the
    edits that keep them and the cache in step (\<open>domain/src/config/local_records.rs\<close>,
    \<open>application/src/use_cases/local_records\<close>): the live state is the one a restart would build.
  \<^item> \<open>Pool_Routes\<close>: conditional pools (\<open>domain/src/config/upstream.rs\<close>, \<open>dns/load_balancer/routes.rs\<close>):
    a name goes to the pool of the most specific domain over it, the shortcuts around the lookup
    are exact, and a reload judged not to change routes changes none.
  \<^item> \<open>Load_Balancer\<close>: the rest of \<open>dns/load_balancer\<close>: health counters, the strategies of a pool and the
    walk over pools. A routed name is sent nowhere else, SERVFAIL is reported only when every server
    asked said so, the walk fails open exactly when no server is healthy, and a server is out of
    rotation exactly when its last deciding run of checks is one of failures.
  \<^item> This theory: the filter engine as the pipeline's filter, from a reload to the refusal of a query.

  \<^bold>\<open>Interfaces.\<close> Where one part relies on another the laws are a locale, proved about once and
  interpreted on the model: \<open>codec\<close> (domain types), \<open>metered\<close> (buckets), \<open>approx_set\<close> (Bloom filter),
  \<open>rule_index\<close> (trie and tables), \<open>lru_laws\<close> and \<open>thread_level\<close> (thread-local caches),
  \<open>decision_caches\<close> and \<open>filter_caches\<close> (cached verdicts and groups), \<open>timer_queue\<close> (the schedule),
  \<open>forward_sink\<close> (the cache as local records use it), \<open>pool_strategy\<close> (the strategies of a pool).

  \<^bold>\<open>Conventions.\<close> The release profile wraps integer arithmetic and aborts on a panic: machine
  integers are words, and an operation that can panic returns \<open>res\<close>, where \<open>Got\<close> carries the
  result, \<open>Nothing\<close> is the \<open>None\<close> of the code and \<open>Panic\<close> the abort. \<open>usize\<close> is a natural number,
  since lengths of buffers in memory never come near its bound. Bytes are \<open>u8 list\<close>; a Rust \<open>str\<close> is a
  string whose characters are its bytes. Concurrent maps are association lists or maps, and an
  operation under one lock is one step; protocols of atomics are modelled load by load. Every
  reading of a clock in an operation is an argument \<open>clk :: nat \<Rightarrow> u64\<close>, so that two readings may
  differ. The use case is split at the point where it waits for the upstream. Log lines, analysis
  events and tracked clients are lists in the state.

  \<^bold>\<open>Parameters.\<close> Code that is not in the repository is an argument: the hash functions (FxHash and
  the hash of cache keys), HMAC, the regular expressions and multi-pattern matcher of a compiled
  list (\<open>tools\<close>), the LRU map (\<open>lru_ops\<close>, with its documented laws in \<open>lru_laws\<close>; a list ordered
  by recency satisfies them), floating-point formulas (eviction score, proportional access
  threshold, headroom, Bloom sizes, the DGA score), the result of saving the configuration. The ports of
  the use case (filter, cache probe, safe search, stores of flags) are records of operations; for the
  filter the engine is put in. The upstream network is a record (\<open>net\<close>) of what each attempt at a server
  yields and of the order in which a race settles; the one hypothesis on it is that a server settles
  at most once in a race.

  \<^bold>\<open>Bounds and fuel.\<close> No definition runs on fuel chosen for a proof. Loops are structural or have a
  measure; a sweep in budgeted steps (\<open>sweep_run\<close>) is iterated and proved to end. Clock readings
  stay below \<open>2 ^ 63\<close> seconds where an expiry is computed from them, and a counter of epochs or
  tickets is assumed not to be at its last value before a step that advances it; both are stated in the theorems.

  \<^bold>\<open>What modelling showed.\<close> A cache hit sets RD whatever the query had; a name a list holds exactly
  weakens a manual wildcard; a verdict stored across a reload survives it; an answer removed after
  eviction lingers in other threads; the fast path and DNSSEC enforcement miss safe search; the DNS64
  mark and some failed queries are missing from the log; the hostname of two stars passes
  validation. Each is proved where it is a property of the definitions.

  \<^bold>\<open>Not modelled.\<close> Sockets, TLS, HTTP, QUIC and task spawning (\<open>cli/src/server\<close>, \<open>dns/transport\<close>) are
  I/O. DNSSEC validation rests on signature checks of other crates. The DGA and tunneling detectors
  score with floating-point entropy. Repositories are SQL run by SQLite, the HTTP interfaces
  serialise the use cases' results, and the configuration is deserialised by generated code.
  The lookup of upstream host names and the layers of the resolver other than the cache layer work on
  the network and on messages of a third-party library.
\<close>

section \<open>The filter engine in the query pipeline\<close>

text \<open>
  The engine as the pipeline's filter, on one thread: \<open>ovr\<close> is what the schedule says of a group,
  \<open>clk\<close> the readings of the coarse clock a call makes.
\<close>

definition engine_port ::
  "tools \<Rightarrow> ('x, 'y) cache_ops \<Rightarrow> ('z, ip_addr, group_entry) lru_ops \<Rightarrow> (string \<Rightarrow> i64 \<Rightarrow> u64) \<Rightarrow> (i64 \<Rightarrow> group_override option) \<Rightarrow>
   (nat \<Rightarrow> u64) \<Rightarrow> nat \<Rightarrow> ('x, 'y, 'z) filter_engine filter_port" where
  "engine_port tk co go dk ovr clk t =
    \<lparr>port_group = resolve_group go clk t, port_check = (\<lambda>d g. check_filter tk co dk (ovr g) clk t d g),
     port_cname = (\<lambda>d g ttl. store_cname_decision co dk (clk 0) t d g ttl)\<rparr>"

lemma resolve_group_frame:
  assumes "resolve_group go clk t ip eng = (g, e)"
  shows "eng_cache e = eng_cache eng" "eng_index e = eng_index eng" "blocking_enabled e = blocking_enabled eng"
  using assms by (auto simp: resolve_group_def Let_def split: prod.splits option.splits if_splits)



end
